(* ===== verification/JsPrelude.thy ===== *)
theory JsPrelude
  imports Complex_Main "HOL-Library.Word" "HOL-Library.Monad_Syntax" "HOL-Library.Sublist"
begin

section \<open>Shared vocabulary: JavaScript values, numbers, objects and lists\<close>

text \<open>
  This theory holds what the component theories share and no component of its own.
  \<^item> Numbers.  A finite JavaScript number is a \<^typ>\<open>rat\<close> (an \<^typ>\<open>int\<close> where the
    code only counts or indexes); the special values are constructors of \<open>jsnum\<close>.
    Arithmetic is exact: the rounding of IEEE doubles is not modelled, and the two zeros are
    one.  \<open>Math.round\<close> is the library's \<^const>\<open>round\<close> (round half up, as in
    ECMAScript), \<open>x | 0\<close> is \<open>to_int32\<close>.
  \<^item> Strings are lists of characters of one byte (the code units 0 to 255).
  \<^item> Objects used as dictionaries are property lists in insertion order (\<open>'v obj\<close>),
    with the operations a program has on them: read, write, delete, own keys.
  \<^item> Exceptions are the left side of a sum.
\<close>

named_theorems js_simps \<open>evaluation of the basic JavaScript operations\<close>
named_theorems js_num \<open>rounding, clamping and truncation of numbers\<close>
named_theorems js_obj \<open>reads after writes and deletions of properties\<close>

subsection \<open>Numbers\<close>

datatype jsnum = NaN | PInf | NInf | Fin rat

fun is_finite_num :: "jsnum \<Rightarrow> bool" where
  "is_finite_num (Fin _) = True"
| "is_finite_num _ = False"

text \<open>The relational operators of the language: every comparison with \<open>NaN\<close> is false.\<close>

fun num_less :: "jsnum \<Rightarrow> jsnum \<Rightarrow> bool" where
  "num_less NaN _ = False"
| "num_less _ NaN = False"
| "num_less PInf _ = False"
| "num_less _ NInf = False"
| "num_less NInf _ = True"
| "num_less _ PInf = True"
| "num_less (Fin a) (Fin b) = (a < b)"

definition num_greater :: "jsnum \<Rightarrow> jsnum \<Rightarrow> bool" where
  "num_greater a b = num_less b a"

text \<open>\<open>Math.min\<close> and \<open>Math.max\<close>: \<open>NaN\<close> is absorbing.\<close>

fun num_min :: "jsnum \<Rightarrow> jsnum \<Rightarrow> jsnum" where
  "num_min a b = (if a = NaN \<or> b = NaN then NaN else if num_less b a then b else a)"

fun num_max :: "jsnum \<Rightarrow> jsnum \<Rightarrow> jsnum" where
  "num_max a b = (if a = NaN \<or> b = NaN then NaN else if num_less a b then b else a)"

declare num_min.simps [simp del] num_max.simps [simp del]

lemma num_min_Fin [simp]: "num_min (Fin a) (Fin b) = Fin (min a b)"
  and num_max_Fin [simp]: "num_max (Fin a) (Fin b) = Fin (max a b)"
  by (simp_all add: num_min.simps num_max.simps min_def max_def)

definition num_bounded :: "jsnum \<Rightarrow> jsnum \<Rightarrow> jsnum \<Rightarrow> bool" where
  "num_bounded lo x hi \<longleftrightarrow> \<not> num_less x lo \<and> \<not> num_less hi x"

lemma num_less_irrefl [simp]: "\<not> num_less a a"
  by (cases a) auto

lemma num_less_trans: "num_less a b \<Longrightarrow> num_less b c \<Longrightarrow> num_less a c"
  by (cases a; cases b; cases c) auto

lemma num_less_Fin [simp]: "num_less (Fin a) (Fin b) \<longleftrightarrow> a < b"
  by simp

text \<open>The arithmetic operators.  Zero has no sign here, so \<open>x / 0\<close> takes the sign of \<open>x\<close>.\<close>

fun num_neg :: "jsnum \<Rightarrow> jsnum" where
  "num_neg NaN = NaN"
| "num_neg PInf = NInf"
| "num_neg NInf = PInf"
| "num_neg (Fin a) = Fin (- a)"

fun num_abs :: "jsnum \<Rightarrow> jsnum" where
  "num_abs NaN = NaN"
| "num_abs PInf = PInf"
| "num_abs NInf = PInf"
| "num_abs (Fin a) = Fin \<bar>a\<bar>"

fun num_add :: "jsnum \<Rightarrow> jsnum \<Rightarrow> jsnum" where
  "num_add (Fin a) (Fin b) = Fin (a + b)"
| "num_add NaN _ = NaN"
| "num_add _ NaN = NaN"
| "num_add PInf NInf = NaN"
| "num_add NInf PInf = NaN"
| "num_add PInf _ = PInf"
| "num_add _ PInf = PInf"
| "num_add NInf _ = NInf"
| "num_add _ NInf = NInf"

definition num_sub :: "jsnum \<Rightarrow> jsnum \<Rightarrow> jsnum" where
  "num_sub a b = num_add a (num_neg b)"

definition inf_of_sign :: "rat \<Rightarrow> jsnum" where
  "inf_of_sign s = (if s > 0 then PInf else if s < 0 then NInf else NaN)"

fun num_sgn :: "jsnum \<Rightarrow> rat" where
  "num_sgn NaN = 0"
| "num_sgn PInf = 1"
| "num_sgn NInf = -1"
| "num_sgn (Fin a) = sgn a"

fun num_mul :: "jsnum \<Rightarrow> jsnum \<Rightarrow> jsnum" where
  "num_mul (Fin a) (Fin b) = Fin (a * b)"
| "num_mul a b = (if a = NaN \<or> b = NaN then NaN else inf_of_sign (num_sgn a * num_sgn b))"

fun num_div :: "jsnum \<Rightarrow> jsnum \<Rightarrow> jsnum" where
  "num_div (Fin a) (Fin b) = (if b = 0 then inf_of_sign a else Fin (a / b))"
| "num_div NaN _ = NaN"
| "num_div _ NaN = NaN"
| "num_div (Fin a) _ = Fin 0"
| "num_div a (Fin b) = inf_of_sign (num_sgn a * (if b = 0 then 1 else sgn b))"
| "num_div _ _ = NaN"

lemma num_sub_Fin [simp]: "num_sub (Fin a) (Fin b) = Fin (a - b)"
  by (simp add: num_sub_def)

text \<open>\<open>ToInt32\<close>, the conversion of \<open>x | 0\<close>: truncate, then wrap to 32 bits signed.\<close>

definition trunc_int :: "rat \<Rightarrow> int" where
  "trunc_int x = (if x < 0 then \<lceil>x\<rceil> else \<lfloor>x\<rfloor>)"

definition wrap32 :: "int \<Rightarrow> int" where
  "wrap32 n = (n + 2147483648) mod 4294967296 - 2147483648"

definition to_int32 :: "rat \<Rightarrow> int" where
  "to_int32 x = wrap32 (trunc_int x)"

lemma trunc_int_of_int [simp, js_num]: "trunc_int (of_int n) = n"
  by (simp add: trunc_int_def)

lemma wrap32_id [js_num]: "- 2147483648 \<le> n \<Longrightarrow> n < 2147483648 \<Longrightarrow> wrap32 n = n"
  by (simp add: wrap32_def)

lemma wrap32_range: "- 2147483648 \<le> wrap32 n" "wrap32 n < 2147483648"
proof -
  have "0 \<le> (n + 2147483648) mod 4294967296" "(n + 2147483648) mod 4294967296 < 4294967296"
    by simp_all
  then show "- 2147483648 \<le> wrap32 n" "wrap32 n < 2147483648"
    by (simp_all add: wrap32_def)
qed

lemma trunc_int_nonneg: "0 \<le> x \<Longrightarrow> trunc_int x = \<lfloor>x\<rfloor>"
  by (simp add: trunc_int_def)

text \<open>The remainder operator: the result has the sign of the dividend.\<close>

definition js_mod :: "rat \<Rightarrow> rat \<Rightarrow> rat" where
  "js_mod x y = x - y * of_int (trunc_int (x / y))"

lemma js_mod_nonneg: "0 \<le> x \<Longrightarrow> 0 < y \<Longrightarrow> 0 \<le> js_mod x y \<and> js_mod x y < y"
proof -
  assume a: "0 \<le> x" "0 < y"
  have "of_int \<lfloor>x / y\<rfloor> \<le> x / y" and lt: "x / y < of_int \<lfloor>x / y\<rfloor> + 1" by linarith+
  then have "y * of_int \<lfloor>x / y\<rfloor> \<le> y * (x / y)" "y * (x / y) < y * (of_int \<lfloor>x / y\<rfloor> + 1)"
    using a(2) by (simp_all only: mult_le_cancel_left_pos mult_less_cancel_left_pos)
  with a show ?thesis
    by (simp add: js_mod_def trunc_int_nonneg distrib_left)
qed

lemma js_mod_lower: "0 < y \<Longrightarrow> - y < js_mod x y"
proof -
  assume y: "0 < y"
  show ?thesis
  proof (cases "0 \<le> x")
    case True
    with js_mod_nonneg[OF True y] y show ?thesis by linarith
  next
    case False
    have "of_int \<lceil>x / y\<rceil> < x / y + 1" by linarith
    with y False show ?thesis
      by (simp add: js_mod_def trunc_int_def divide_less_0_iff field_simps)
  qed
qed

text \<open>The same on every number.\<close>

fun num_mod :: "jsnum \<Rightarrow> jsnum \<Rightarrow> jsnum" where
  "num_mod (Fin a) (Fin b) = (if b = 0 then NaN else Fin (js_mod a b))"
| "num_mod (Fin a) NaN = NaN"
| "num_mod (Fin a) _ = Fin a"
| "num_mod _ _ = NaN"

fun num_floor :: "jsnum \<Rightarrow> jsnum" where
  "num_floor (Fin a) = Fin (of_int \<lfloor>a\<rfloor>)"
| "num_floor a = a"

text \<open>\<open>Math.sign\<close> on a finite number.\<close>

definition sign :: "rat \<Rightarrow> int" where
  "sign x = (if x > 0 then 1 else if x < 0 then -1 else 0)"

subsection \<open>Dynamic values\<close>

text \<open>
  A value of the language as the code tests it: functions are opaque tokens, arrays and plain
  objects are trees (components that share mutable objects have stores of their own).
\<close>

datatype jsval =
    VUndef
  | VNull
  | VBool bool
  | VNum jsnum
  | VStr string
  | VFun nat
  | VArr "jsval list"
  | VObj "(string \<times> jsval) list"

text \<open>\<open>ToBoolean\<close>.\<close>

fun truthy :: "jsval \<Rightarrow> bool" where
  "truthy VUndef = False"
| "truthy VNull = False"
| "truthy (VBool b) = b"
| "truthy (VNum n) = (n \<noteq> NaN \<and> n \<noteq> Fin 0)"
| "truthy (VStr s) = (s \<noteq> [])"
| "truthy (VFun _) = True"
| "truthy (VArr _) = True"
| "truthy (VObj _) = True"

text \<open>
  Strict equality: \<open>NaN\<close> differs from itself.  Arrays and objects are compared by their
  contents, so the operator is used on primitive values and functions only.
\<close>

definition strict_eq :: "jsval \<Rightarrow> jsval \<Rightarrow> bool" where
  "strict_eq a b \<longleftrightarrow> a = b \<and> a \<noteq> VNum NaN"

fun js_typeof :: "jsval \<Rightarrow> string" where
  "js_typeof VUndef = ''undefined''"
| "js_typeof VNull = ''object''"
| "js_typeof (VBool _) = ''boolean''"
| "js_typeof (VNum _) = ''number''"
| "js_typeof (VStr _) = ''string''"
| "js_typeof (VFun _) = ''function''"
| "js_typeof (VArr _) = ''object''"
| "js_typeof (VObj _) = ''object''"

subsection \<open>Property lists\<close>

type_synonym 'v obj = "(string \<times> 'v) list"

primrec obj_get :: "('k \<times> 'v) list \<Rightarrow> 'k \<Rightarrow> 'v option" where
  "obj_get [] k = None"
| "obj_get (p # ps) k = (if fst p = k then Some (snd p) else obj_get ps k)"

primrec obj_set :: "('k \<times> 'v) list \<Rightarrow> 'k \<Rightarrow> 'v \<Rightarrow> ('k \<times> 'v) list" where
  "obj_set [] k v = [(k, v)]"
| "obj_set (p # ps) k v = (if fst p = k then (k, v) # ps else p # obj_set ps k v)"

definition obj_del :: "('k \<times> 'v) list \<Rightarrow> 'k \<Rightarrow> ('k \<times> 'v) list" where
  "obj_del ps k = filter (\<lambda>p. fst p \<noteq> k) ps"

definition obj_keys :: "('k \<times> 'v) list \<Rightarrow> 'k list" where
  "obj_keys ps = map fst ps"

definition obj_has :: "('k \<times> 'v) list \<Rightarrow> 'k \<Rightarrow> bool" where
  "obj_has ps k \<longleftrightarrow> obj_get ps k \<noteq> None"

lemma obj_get_set [simp, js_obj]:
  "obj_get (obj_set ps k v) k' = (if k' = k then Some v else obj_get ps k')"
  by (induction ps) auto

lemma obj_get_del [simp, js_obj]:
  "obj_get (obj_del ps k) k' = (if k' = k then None else obj_get ps k')"
  by (induction ps) (auto simp: obj_del_def)

lemma obj_get_None_iff [js_obj]: "obj_get ps k = None \<longleftrightarrow> k \<notin> set (obj_keys ps)"
  by (induction ps) (auto simp: obj_keys_def)

lemma obj_has_iff [js_obj]: "obj_has ps k \<longleftrightarrow> k \<in> set (obj_keys ps)"
  by (simp add: obj_has_def obj_get_None_iff)

lemma obj_keys_Cons [simp]: "obj_keys (p # ps) = fst p # obj_keys ps"
  by (simp add: obj_keys_def)

lemma obj_keys_Nil [simp]: "obj_keys [] = []"
  by (simp add: obj_keys_def)

lemma obj_keys_set [js_obj]:
  "obj_keys (obj_set ps k v) = (if k \<in> set (obj_keys ps) then obj_keys ps else obj_keys ps @ [k])"
  by (induction ps) auto

lemma obj_keys_del [js_obj]: "obj_keys (obj_del ps k) = filter (\<lambda>k'. k' \<noteq> k) (obj_keys ps)"
  by (induction ps) (auto simp: obj_del_def)

lemma distinct_obj_set [intro]: "distinct (obj_keys ps) \<Longrightarrow> distinct (obj_keys (obj_set ps k v))"
  by (auto simp: obj_keys_set)

lemma distinct_obj_del [intro]: "distinct (obj_keys ps) \<Longrightarrow> distinct (obj_keys (obj_del ps k))"
  by (auto simp: obj_keys_del)

lemma obj_get_in_set: "obj_get ps k = Some v \<Longrightarrow> (k, v) \<in> set ps"
  by (induction ps) (auto split: if_splits)

lemma obj_get_eq_map_of: "obj_get ps k = map_of ps k"
  by (induction ps) auto

text \<open>The contract of a dictionary, as the clients of the tables below use it.\<close>

locale dictionary =
  fixes get :: "'d \<Rightarrow> 'k \<Rightarrow> 'v option"
    and put :: "'d \<Rightarrow> 'k \<Rightarrow> 'v \<Rightarrow> 'd"
    and del :: "'d \<Rightarrow> 'k \<Rightarrow> 'd"
  assumes get_put: "get (put d k v) k' = (if k' = k then Some v else get d k')"
    and get_del: "get (del d k) k' = (if k' = k then None else get d k')"
begin

lemma get_put_same: "get (put d k v) k = Some v"
  by (simp add: get_put)

lemma get_put_other: "k' \<noteq> k \<Longrightarrow> get (put d k v) k' = get d k'"
  by (simp add: get_put)

lemma get_del_put: "get d k = None \<Longrightarrow> get (del (put d k v) k) k' = get d k'"
  by (simp add: get_put get_del)

lemma get_puts:
  "get (foldl (\<lambda>d p. put d (fst p) (snd p)) d ps) k =
     (case map_of (rev ps) k of None \<Rightarrow> get d k | Some v \<Rightarrow> Some v)"
proof (induction ps arbitrary: d)
  case Nil
  then show ?case by simp
next
  case (Cons p ps)
  then show ?case
    by (auto simp: get_put map_add_def split: option.splits)
qed

end

interpretation props: dictionary obj_get obj_set obj_del
  by unfold_locales simp_all

subsection \<open>Lists\<close>

text \<open>\<open>Array.prototype.indexOf\<close>: the position of the first equal element.\<close>

fun index_of :: "'a list \<Rightarrow> 'a \<Rightarrow> nat option" where
  "index_of [] x = None"
| "index_of (y # ys) x = (if y = x then Some 0 else map_option Suc (index_of ys x))"

lemma index_of_None [simp]: "index_of xs x = None \<longleftrightarrow> x \<notin> set xs"
  by (induction xs) auto

lemma index_of_append_new: "x \<notin> set xs \<Longrightarrow> index_of (xs @ x # ys) x = Some (length xs)"
  by (induction xs) auto

lemma index_of_Some:
  "index_of xs x = Some i \<Longrightarrow> i < length xs \<and> xs ! i = x \<and> (\<forall>j<i. xs ! j \<noteq> x)"
proof (induction xs arbitrary: i)
  case Nil
  then show ?case by simp
next
  case (Cons y ys)
  show ?case
  proof (cases "y = x")
    case True
    with Cons.prems show ?thesis by simp
  next
    case False
    with Cons.prems obtain k where k: "index_of ys x = Some k" and i: "i = Suc k"
      by auto
    with Cons.IH[OF k] False show ?thesis
      by (auto simp: nth_Cons split: nat.splits)
  qed
qed

text \<open>
  \<open>splice(start, count, ...items)\<close> with a start and a count in range, as the code calls it.
\<close>

definition splice :: "'a list \<Rightarrow> nat \<Rightarrow> nat \<Rightarrow> 'a list \<Rightarrow> 'a list" where
  "splice xs start count items = take start xs @ items @ drop (start + count) xs"

lemma length_splice: "start + count \<le> length xs \<Longrightarrow>
    length (splice xs start count items) = length xs - count + length items"
  by (simp add: splice_def)

text \<open>\<open>delete array[i]\<close> leaves a hole; \<open>slice(from, to)\<close> with bounds in range.\<close>

definition slice :: "'a list \<Rightarrow> nat \<Rightarrow> nat \<Rightarrow> 'a list" where
  "slice xs from to = drop from (take to xs)"

lemma length_slice: "length (slice xs i j) = min j (length xs) - i"
  by (simp add: slice_def)

lemma nth_slice: "i + k < j \<Longrightarrow> j \<le> length xs \<Longrightarrow> slice xs i j ! k = xs ! (i + k)"
  by (simp add: slice_def)

text \<open>Reading after an update by index, in range or not.\<close>

lemma nth_update: "xs[i := x] ! j = (if j = i \<and> i < length xs then x else xs ! j)"
  by (cases "i < length xs") (auto simp: nth_list_update list_update_beyond)

text \<open>\<open>Array.prototype.join\<close>.\<close>

fun join :: "string \<Rightarrow> string list \<Rightarrow> string" where
  "join sep [] = []"
| "join sep [x] = x"
| "join sep (x # y # xs) = x @ sep @ join sep (y # xs)"

text \<open>\<open>String.prototype.split\<close> on a one-character separator.\<close>

fun split_char :: "char \<Rightarrow> string \<Rightarrow> string list" where
  "split_char c [] = [[]]"
| "split_char c (x # xs) =
     (if x = c then [] # split_char c xs
      else (case split_char c xs of [] \<Rightarrow> [[x]] | w # ws \<Rightarrow> (x # w) # ws))"

lemma split_char_nonempty [simp]: "split_char c s \<noteq> []"
  by (cases s) (auto split: list.splits)

lemma split_char_no_sep: "w \<in> set (split_char c s) \<Longrightarrow> c \<notin> set w"
proof (induction s arbitrary: w)
  case Nil
  then show ?case by simp
next
  case (Cons x xs)
  obtain v vs where s: "split_char c xs = v # vs"
    using split_char_nonempty by (meson neq_Nil_conv)
  with Cons.IH have v: "c \<notin> set v" and vs: "\<And>w. w \<in> set vs \<Longrightarrow> c \<notin> set w"
    by auto
  show ?case
  proof (cases "x = c")
    case True
    with Cons s v vs show ?thesis by auto
  next
    case False
    with Cons.prems s v vs show ?thesis by auto
  qed
qed

lemma split_char_append:
  "c \<notin> set w \<Longrightarrow> split_char c (w @ c # s) = w # split_char c s"
  by (induction w) auto

lemma split_char_word: "c \<notin> set w \<Longrightarrow> split_char c w = [w]"
  by (induction w) auto

lemma split_join:
  "ws \<noteq> [] \<Longrightarrow> (\<And>w. w \<in> set ws \<Longrightarrow> c \<notin> set w) \<Longrightarrow> split_char c (join [c] ws) = ws"
  by (induction "[c]" ws rule: join.induct) (auto simp: split_char_append split_char_word)

lemma join_split: "join [c] (split_char c s) = s"
proof (induction s)
  case Nil
  then show ?case by simp
next
  case (Cons x xs)
  obtain v vs where s: "split_char c xs = v # vs"
    using split_char_nonempty by (meson neq_Nil_conv)
  with Cons show ?case by (cases vs) auto
qed

text \<open>Case mapping of the ASCII letters, \<open>toUpperCase\<close> and \<open>toLowerCase\<close>.\<close>

definition is_upper :: "char \<Rightarrow> bool" where
  "is_upper c \<longleftrightarrow> 65 \<le> (of_char c :: nat) \<and> (of_char c :: nat) \<le> 90"

definition is_lower :: "char \<Rightarrow> bool" where
  "is_lower c \<longleftrightarrow> 97 \<le> (of_char c :: nat) \<and> (of_char c :: nat) \<le> 122"

definition is_digit :: "char \<Rightarrow> bool" where
  "is_digit c \<longleftrightarrow> 48 \<le> (of_char c :: nat) \<and> (of_char c :: nat) \<le> 57"

definition to_upper :: "char \<Rightarrow> char" where
  "to_upper c = (if is_lower c then char_of ((of_char c :: nat) - 32) else c)"

definition to_lower :: "char \<Rightarrow> char" where
  "to_lower c = (if is_upper c then char_of ((of_char c :: nat) + 32) else c)"

definition starts_with :: "string \<Rightarrow> string \<Rightarrow> bool" where
  "starts_with s p \<longleftrightarrow> take (length p) s = p"

definition is_space :: "char \<Rightarrow> bool" where
  "is_space c \<longleftrightarrow> (of_char c :: nat) \<in> {9, 10, 11, 12, 13, 32, 160}"

definition trim :: "string \<Rightarrow> string" where
  "trim s = rev (dropWhile is_space (rev (dropWhile is_space s)))"

subsection \<open>Reading digits\<close>

definition digit_val :: "char \<Rightarrow> nat" where
  "digit_val c = (of_char c :: nat) - 48"

text \<open>The decimal notation of a natural number, \<open>'' + n\<close>.\<close>

fun show_nat :: "nat \<Rightarrow> string" where
  "show_nat n = (if n < 10 then [char_of (48 + n :: nat)] else show_nat (n div 10) @ [char_of (48 + n mod 10)])"

declare show_nat.simps [simp del]

definition read_nat :: "string \<Rightarrow> nat" where
  "read_nat s = foldl (\<lambda>n c. 10 * n + digit_val c) 0 s"

lemma digit_val_char: "n < 10 \<Longrightarrow> digit_val (char_of (48 + n :: nat)) = n"
  by (simp add: digit_val_def)

lemma is_digit_char: "n < 10 \<Longrightarrow> is_digit (char_of (48 + n :: nat))"
  by (simp add: is_digit_def)

lemma show_nat_nonempty [simp]: "show_nat n \<noteq> []"
  by (subst show_nat.simps) simp

lemma show_nat_digits: "c \<in> set (show_nat n) \<Longrightarrow> is_digit c"
proof (induction n rule: show_nat.induct)
  case (1 n)
  show ?case
  proof (cases "n < 10")
    case True
    with "1.prems" show ?thesis
      using is_digit_char by (auto simp: show_nat.simps[of n])
  next
    case False
    with "1" show ?thesis
      using is_digit_char[of "n mod 10"] by (auto simp: show_nat.simps[of n])
  qed
qed

lemma read_show_nat [simp]: "read_nat (show_nat n) = n"
proof (induction n rule: show_nat.induct)
  case (1 n)
  show ?case
  proof (cases "n < 10")
    case True
    then show ?thesis
      by (simp add: show_nat.simps[of n] read_nat_def digit_val_char)
  next
    case False
    with "1" have "read_nat (show_nat (n div 10)) = n div 10" by simp
    with False show ?thesis
      by (simp add: show_nat.simps[of n] read_nat_def digit_val_char)
  qed
qed

lemma show_nat_inj [simp]: "show_nat m = show_nat n \<longleftrightarrow> m = n"
  by (metis read_show_nat)

subsection \<open>Conversion to a number\<close>

text \<open>
  The longest decimal literal a string starts with, and what follows it: digits with an
  optional fraction and exponent.
\<close>

definition parse_exponent :: "string \<Rightarrow> (int \<times> string) option" where
  "parse_exponent s =
     (case s of
        c # cs \<Rightarrow>
          if c = CHR ''e'' \<or> c = CHR ''E'' then
            (let neg = (cs \<noteq> [] \<and> hd cs = CHR ''-'');
                 ds = (if cs \<noteq> [] \<and> (hd cs = CHR ''-'' \<or> hd cs = CHR ''+'') then tl cs else cs);
                 e = takeWhile is_digit ds
             in if e = [] then None
                else Some ((if neg then - int (read_nat e) else int (read_nat e)), dropWhile is_digit ds))
          else None
      | [] \<Rightarrow> None)"

definition parse_decimal :: "string \<Rightarrow> (rat \<times> string) option" where
  "parse_decimal s =
     (let whole = takeWhile is_digit s;
          rest = dropWhile is_digit s;
          dot = (rest \<noteq> [] \<and> hd rest = CHR ''.'');
          frac = (if dot then takeWhile is_digit (tl rest) else []);
          rest = (if dot then dropWhile is_digit (tl rest) else rest)
      in if whole = [] \<and> frac = [] then None
         else (let m = of_nat (read_nat (whole @ frac)) / 10 ^ length frac in
               case parse_exponent rest of
                 None \<Rightarrow> Some (m, rest)
               | Some (e, rest') \<Rightarrow>
                   Some (if e \<ge> 0 then m * 10 ^ nat e else m / 10 ^ nat (- e), rest')))"

definition parse_signed :: "string \<Rightarrow> (jsnum \<times> string) option" where
  "parse_signed s =
     (let neg = (s \<noteq> [] \<and> hd s = CHR ''-'');
          t = (if s \<noteq> [] \<and> (hd s = CHR ''-'' \<or> hd s = CHR ''+'') then tl s else s)
      in if starts_with t ''Infinity'' then Some (if neg then NInf else PInf, drop 8 t)
         else (case parse_decimal t of
                 None \<Rightarrow> None
               | Some (m, rest) \<Rightarrow> Some (Fin (if neg then - m else m), rest)))"

definition radix_digit :: "char \<Rightarrow> nat option" where
  "radix_digit c =
     (if is_digit c then Some (digit_val c)
      else if is_lower c then Some ((of_char c :: nat) - 87)
      else if is_upper c then Some ((of_char c :: nat) - 55)
      else None)"

definition parse_radix :: "nat \<Rightarrow> string \<Rightarrow> jsnum" where
  "parse_radix r s =
     (if s = [] \<or> \<not> list_all (\<lambda>c. case radix_digit c of Some d \<Rightarrow> d < r | None \<Rightarrow> False) s then NaN
      else Fin (of_nat (foldl (\<lambda>n c. r * n + the (radix_digit c)) 0 s)))"

definition str_to_num :: "string \<Rightarrow> jsnum" where
  "str_to_num s =
     (let t = trim s; p = map to_lower (take 2 t) in
      if t = [] then Fin 0
      else if p = ''0x'' then parse_radix 16 (drop 2 t)
      else if p = ''0o'' then parse_radix 8 (drop 2 t)
      else if p = ''0b'' then parse_radix 2 (drop 2 t)
      else (case parse_signed t of Some (n, []) \<Rightarrow> n | _ \<Rightarrow> NaN))"

definition parseFloat :: "string \<Rightarrow> jsnum" where
  "parseFloat s = (case parse_signed (dropWhile is_space s) of Some (n, _) \<Rightarrow> n | None \<Rightarrow> NaN)"

text \<open>
  Unary plus.  An array converts through its string form: empty, the one element, or a text
  with a comma that is no number.  Objects with a \<open>valueOf\<close> of their own are not modelled.
\<close>

fun to_number :: "jsval \<Rightarrow> jsnum" where
  "to_number VUndef = NaN"
| "to_number VNull = Fin 0"
| "to_number (VBool b) = Fin (if b then 1 else 0)"
| "to_number (VNum n) = n"
| "to_number (VStr s) = str_to_num s"
| "to_number (VFun _) = NaN"
| "to_number (VArr []) = Fin 0"
| "to_number (VArr [VUndef]) = Fin 0"
| "to_number (VArr [VNull]) = Fin 0"
| "to_number (VArr [VNum n]) = n"
| "to_number (VArr [VStr s]) = str_to_num s"
| "to_number (VArr [VArr xs]) = to_number (VArr xs)"
| "to_number (VArr _) = NaN"
| "to_number (VObj _) = NaN"

subsection \<open>Sorting with a comparator\<close>

text \<open>\<open>Array.prototype.sort\<close> with a comparator is stable: an element goes before the first
  one it does not compare greater to.\<close>

primrec insert_by :: "('a \<Rightarrow> 'a \<Rightarrow> rat) \<Rightarrow> 'a \<Rightarrow> 'a list \<Rightarrow> 'a list" where
  "insert_by cmp x [] = [x]"
| "insert_by cmp x (y # ys) = (if cmp x y \<le> 0 then x # y # ys else y # insert_by cmp x ys)"

definition sort_by :: "('a \<Rightarrow> 'a \<Rightarrow> rat) \<Rightarrow> 'a list \<Rightarrow> 'a list" where
  "sort_by cmp xs = foldr (insert_by cmp) xs []"

lemma set_insert_by [simp]: "set (insert_by cmp x ys) = insert x (set ys)"
  by (induction ys) auto

lemma set_sort_by [simp]: "set (sort_by cmp xs) = set xs"
  unfolding sort_by_def by (induction xs) auto

lemma distinct_insert_by [simp]: "distinct (insert_by cmp x ys) \<longleftrightarrow> distinct (x # ys)"
  by (induction ys) auto

lemma distinct_sort_by [simp]: "distinct (sort_by cmp xs) \<longleftrightarrow> distinct xs"
proof (induction xs)
  case (Cons x xs)
  have "set (foldr (insert_by cmp) xs []) = set xs" using set_sort_by[of cmp xs] by (simp add: sort_by_def)
  with Cons show ?case by (simp add: sort_by_def)
qed (simp add: sort_by_def)

lemma length_insert_by [simp]: "length (insert_by cmp x ys) = Suc (length ys)"
  by (induction ys) auto

lemma length_sort_by [simp]: "length (sort_by cmp xs) = length xs"
  unfolding sort_by_def by (induction xs) auto

lemma insert_by_key: "(\<And>a b. cmp a b = f a - f b) \<Longrightarrow> insert_by cmp x ys = insort_key f x ys"
  by (induction ys) auto

lemma sort_by_key: "(\<And>a b. cmp a b = f a - f b) \<Longrightarrow> sort_by cmp xs = sort_key f xs"
  unfolding sort_by_def by (induction xs) (simp_all add: insert_by_key)

lemma sorted_insert_by:
  assumes "\<And>a b. 0 < cmp a b \<Longrightarrow> cmp b a \<le> 0" and "\<And>a b c. cmp a b \<le> 0 \<Longrightarrow> cmp b c \<le> 0 \<Longrightarrow> cmp a c \<le> 0"
  shows "sorted_wrt (\<lambda>a b. cmp a b \<le> 0) ys \<Longrightarrow> sorted_wrt (\<lambda>a b. cmp a b \<le> 0) (insert_by cmp x ys)"
proof (induction ys)
  case (Cons y ys)
  show ?case
  proof (cases "cmp x y \<le> 0")
    case True
    with Cons.prems assms(2)[of x y] show ?thesis by auto
  next
    case False
    with Cons assms(1)[of x y] show ?thesis by auto
  qed
qed simp

lemma sorted_sort_by:
  assumes "\<And>a b. 0 < cmp a b \<Longrightarrow> cmp b a \<le> 0" and "\<And>a b c. cmp a b \<le> 0 \<Longrightarrow> cmp b c \<le> 0 \<Longrightarrow> cmp a c \<le> 0"
  shows "sorted_wrt (\<lambda>a b. cmp a b \<le> 0) (sort_by cmp xs)"
  unfolding sort_by_def by (induction xs) (auto intro: sorted_insert_by assms)

subsection \<open>Arrays with holes\<close>

text \<open>An array some places of which were deleted: a hole is \<open>None\<close>, and the methods that
  iterate skip it.\<close>

primrec present :: "'a option list \<Rightarrow> 'a list" where
  "present [] = []"
| "present (x # xs) = (case x of None \<Rightarrow> present xs | Some y \<Rightarrow> y # present xs)"

lemma set_present [simp]: "set (present xs) = {a. Some a \<in> set xs}"
  by (induction xs) (auto split: option.splits)

lemma present_append [simp]: "present (xs @ ys) = present xs @ present ys"
  by (induction xs) (auto split: option.splits)

lemma present_Somes [simp]: "present (map Some xs) = xs"
  by (induction xs) auto

lemma present_holes [simp]: "present (replicate n None) = []"
  by (induction n) auto

lemma length_present: "length (present xs) \<le> length xs"
  by (induction xs) (auto split: option.splits)

lemma filter_present_absent: "Some a \<notin> set xs \<Longrightarrow> filter (\<lambda>b. b \<noteq> a) (present xs) = present xs"
  by (induction xs) (auto split: option.splits)

lemma present_delete:
  "distinct (present xs) \<Longrightarrow> i < length xs \<Longrightarrow> xs ! i = Some a \<Longrightarrow>
   present (xs[i := None]) = filter (\<lambda>b. b \<noteq> a) (present xs)"
proof (induction xs arbitrary: i)
  case (Cons x xs)
  show ?case
  proof (cases i)
    case 0
    with Cons.prems show ?thesis by (auto simp: filter_present_absent)
  next
    case (Suc j)
    with Cons.prems have d: "distinct (present xs)" and j: "j < length xs" "xs ! j = Some a"
      by (auto split: option.splits)
    from j have "Some a \<in> set xs" by (metis nth_mem)
    with Cons.prems have "x \<noteq> Some a" by auto
    with Cons.IH[OF d j] Suc show ?thesis by (auto split: option.splits)
  qed
qed simp

end
