(* ===== verification/ChartMath.thy ===== *)
theory ChartMath
  imports JsPrelude
begin

section \<open>Chart.js 3.9.1: numeric and collection helpers\<close>

text \<open>
  The helpers of \<open>www/root/js/chart_3.9.js\<close> that the scales, the interaction code and the
  decimation plugin rest on: clamping, the binary search \<open>_lookup\<close> with its three
  comparisons, \<open>_filterBetween\<close>, \<open>_arrayUnique\<close>, \<open>setsEqual\<close>, \<open>_factorize\<close> and
  \<open>_decimalPlaces\<close>.  Indices are integers (\<open>hi\<close> is \<open>-1\<close> for an empty table),
  measured values are rationals.
\<close>

subsection \<open>Clamping and tolerance\<close>

definition limitValue :: "rat \<Rightarrow> rat \<Rightarrow> rat \<Rightarrow> rat" where
  "limitValue value mn mx = max mn (min mx value)"

definition limitIndex :: "int \<Rightarrow> int \<Rightarrow> int \<Rightarrow> int" where
  "limitIndex value mn mx = max mn (min mx value)"

definition int16Range :: "rat \<Rightarrow> rat" where
  "int16Range value = limitValue value (-32768) 32767"

definition isBetween :: "rat \<Rightarrow> rat \<Rightarrow> rat \<Rightarrow> bool" where
  "isBetween value start end =
     (value \<ge> min start end - 1 / 1000000 \<and> value \<le> max start end + 1 / 1000000)"

definition almostEquals :: "rat \<Rightarrow> rat \<Rightarrow> rat \<Rightarrow> bool" where
  "almostEquals x y epsilon \<longleftrightarrow> \<bar>x - y\<bar> < epsilon"

definition almostWhole :: "rat \<Rightarrow> rat \<Rightarrow> bool" where
  "almostWhole x epsilon =
     (let rounded = of_int (round x) in rounded - epsilon \<le> x \<and> x \<le> rounded + epsilon)"

lemma limitValue_range [js_num]: "mn \<le> mx \<Longrightarrow> mn \<le> limitValue v mn mx \<and> limitValue v mn mx \<le> mx"
  by (simp add: limitValue_def)

lemma limitValue_id [js_num]: "mn \<le> v \<Longrightarrow> v \<le> mx \<Longrightarrow> limitValue v mn mx = v"
  by (simp add: limitValue_def)

lemma limitIndex_range [js_num]: "mn \<le> mx \<Longrightarrow> mn \<le> limitIndex v mn mx \<and> limitIndex v mn mx \<le> mx"
  by (simp add: limitIndex_def)

subsection \<open>Binary search\<close>

function lookup_loop :: "(int \<Rightarrow> bool) \<Rightarrow> int \<Rightarrow> int \<Rightarrow> int \<times> int" where
  "lookup_loop cmp lo hi =
     (if hi - lo > 1 then
        (let mid = (lo + hi) div 2 in
         if cmp mid then lookup_loop cmp mid hi else lookup_loop cmp lo mid)
      else (lo, hi))"
  by pat_completeness auto
termination
  by (relation "measure (\<lambda>(cmp, lo, hi). nat (hi - lo))") auto

declare lookup_loop.simps [simp del]

definition lookup_cmp :: "nat \<Rightarrow> (int \<Rightarrow> bool) \<Rightarrow> int \<times> int" where
  "lookup_cmp len cmp = lookup_loop cmp 0 (int len - 1)"

definition lookup :: "rat list \<Rightarrow> rat \<Rightarrow> int \<times> int" where
  "lookup table value = lookup_cmp (length table) (\<lambda>i. table ! nat i < value)"

definition lookupByKey :: "('p \<Rightarrow> rat) \<Rightarrow> 'p list \<Rightarrow> rat \<Rightarrow> bool \<Rightarrow> int \<times> int" where
  "lookupByKey key table value lst =
     lookup_cmp (length table)
       (if lst then (\<lambda>i. key (table ! nat i) \<le> value) else (\<lambda>i. key (table ! nat i) < value))"

definition rlookupByKey :: "('p \<Rightarrow> rat) \<Rightarrow> 'p list \<Rightarrow> rat \<Rightarrow> int \<times> int" where
  "rlookupByKey key table value = lookup_cmp (length table) (\<lambda>i. key (table ! nat i) \<ge> value)"

text \<open>What the loop keeps, for any comparison at all: the bracket closes to one step, a moved
  lower end satisfies the comparison, a moved upper end does not.\<close>

lemma lookup_loop_bracket:
  assumes "lookup_loop cmp lo hi = (l, h)" "lo \<le> hi"
  shows "lo \<le> l \<and> l \<le> h \<and> h \<le> hi \<and> h - l \<le> 1 \<and> (lo < hi \<longrightarrow> h = l + 1)
     \<and> (lo < l \<longrightarrow> cmp l) \<and> (h < hi \<longrightarrow> \<not> cmp h)"
  using assms
proof (induction cmp lo hi rule: lookup_loop.induct)
  case (1 cmp lo hi)
  let ?m = "(lo + hi) div 2"
  show ?case
  proof (cases "hi - lo > 1")
    case wide: True
    then have m: "lo < ?m" "?m < hi" by auto
    show ?thesis
    proof (cases "cmp ?m")
      case True
      with wide "1.prems" have "lookup_loop cmp ?m hi = (l, h)"
        by (simp add: lookup_loop.simps[of cmp lo hi])
      from "1.IH"(1)[OF wide refl True this] m True show ?thesis
        by (cases "l = ?m") auto
    next
      case False
      with wide "1.prems" have "lookup_loop cmp lo ?m = (l, h)"
        by (simp add: lookup_loop.simps[of cmp lo hi])
      from "1.IH"(2)[OF wide refl False this] m False show ?thesis
        by (cases "h = ?m") auto
    qed
  next
    case False
    with "1.prems" show ?thesis
      by (auto simp: lookup_loop.simps[of cmp lo hi])
  qed
qed

text \<open>
  The interface of the search: a probe that, on an admissible table, is true on a prefix.
  The code's three comparisons are instances.
\<close>

locale sorted_probe =
  fixes ok :: "'t \<Rightarrow> bool"
    and size_of :: "'t \<Rightarrow> nat"
    and probe :: "'t \<Rightarrow> rat \<Rightarrow> int \<Rightarrow> bool"
  assumes prefix: "ok t \<Longrightarrow> 0 \<le> i \<Longrightarrow> i \<le> j \<Longrightarrow> j < int (size_of t) \<Longrightarrow> probe t v j \<Longrightarrow> probe t v i"
begin

lemma below:
  assumes "ok t" "lookup_cmp (size_of t) (probe t v) = (lo, hi)" "0 < size_of t"
    "0 \<le> i" "i \<le> lo" "0 < lo"
  shows "probe t v i"
proof -
  from assms have br: "lookup_loop (probe t v) 0 (int (size_of t) - 1) = (lo, hi)"
    by (simp add: lookup_cmp_def)
  from lookup_loop_bracket[OF br] assms(3,6) have "probe t v lo" "lo < int (size_of t)"
    by auto
  with assms show ?thesis
    using prefix[of t i lo v] by blast
qed

lemma above:
  assumes "ok t" "lookup_cmp (size_of t) (probe t v) = (lo, hi)" "0 < size_of t"
    "hi < int (size_of t) - 1" "hi \<le> j" "j < int (size_of t)"
  shows "\<not> probe t v j"
proof -
  from assms have br: "lookup_loop (probe t v) 0 (int (size_of t) - 1) = (lo, hi)"
    by (simp add: lookup_cmp_def)
  from lookup_loop_bracket[OF br] assms(3,4) have "\<not> probe t v hi" "0 \<le> hi"
    by auto
  with assms show ?thesis
    using prefix[of t hi j v] by blast
qed

lemma bracket:
  assumes "lookup_cmp (size_of t) (probe t v) = (lo, hi)" "1 < size_of t"
  shows "0 \<le> lo" "hi = lo + 1" "hi < int (size_of t)"
proof -
  from assms have br: "lookup_loop (probe t v) 0 (int (size_of t) - 1) = (lo, hi)"
    by (simp add: lookup_cmp_def)
  from lookup_loop_bracket[OF br] assms(2) show "0 \<le> lo" "hi = lo + 1" "hi < int (size_of t)"
    by auto
qed

end

lemma sorted_nth_int:
  "sorted xs \<Longrightarrow> 0 \<le> i \<Longrightarrow> i \<le> j \<Longrightarrow> j < int (length xs) \<Longrightarrow> xs ! nat i \<le> xs ! nat j"
  by (rule sorted_nth_mono) auto

interpretation plain_probe: sorted_probe sorted length "\<lambda>t v i. t ! nat i < v"
  by unfold_locales (meson le_less_trans sorted_nth_int)

interpretation last_probe: sorted_probe sorted length "\<lambda>t v i. t ! nat i \<le> v"
  by unfold_locales (meson order_trans sorted_nth_int)

interpretation rev_probe: sorted_probe "\<lambda>t. sorted (rev t)" length "\<lambda>t v i. v \<le> t ! nat i"
proof unfold_locales
  fix t :: "rat list" and i j :: int and v :: rat
  assume "sorted (rev t)" and ij: "0 \<le> i" "i \<le> j" "j < int (length t)" and "v \<le> t ! nat j"
  from \<open>sorted (rev t)\<close> ij have "t ! nat j \<le> t ! nat i"
    using sorted_rev_nth_mono[of t "nat i" "nat j"] by (auto simp: nat_less_iff nat_mono)
  with \<open>v \<le> t ! nat j\<close> show "v \<le> t ! nat i" by simp
qed

lemma lookupByKey_map:
  "lookupByKey key table v False = lookup (map key table) v"
  "lookupByKey key table v True = lookup_cmp (length table) (\<lambda>i. map key table ! nat i \<le> v)"
proof -
  have *: "lookup_loop c1 lo hi = lookup_loop c2 lo hi"
    if "\<And>i. 0 \<le> i \<Longrightarrow> i < int n \<Longrightarrow> c1 i = c2 i" "0 \<le> lo" "hi < int n" for c1 c2 lo hi n
    using that
  proof (induction c1 lo hi rule: lookup_loop.induct)
    case (1 c1 lo hi)
    let ?m = "(lo + hi) div 2"
    have eq: "hi - lo > 1 \<Longrightarrow> c1 ?m = c2 ?m" using "1.prems" by auto
    show ?case
      using "1.IH"(1)[OF _ refl] "1.IH"(2)[OF _ refl] "1.prems" eq
      by (simp add: lookup_loop.simps[of c1 lo hi] lookup_loop.simps[of c2 lo hi] Let_def)
  qed
  show "lookupByKey key table v False = lookup (map key table) v"
    unfolding lookupByKey_def lookup_def lookup_cmp_def length_map
    by simp (rule *[where n = "length table"], simp_all)
  show "lookupByKey key table v True = lookup_cmp (length table) (\<lambda>i. map key table ! nat i \<le> v)"
    unfolding lookupByKey_def lookup_cmp_def
    by simp (rule *[where n = "length table"], simp_all)
qed

lemma lookup_nonempty_range:
  assumes "lookup t v = (lo, hi)" "t \<noteq> []"
  shows "0 \<le> lo \<and> lo \<le> hi \<and> hi < int (length t)"
proof -
  from assms have "lookup_loop (\<lambda>i. t ! nat i < v) 0 (int (length t) - 1) = (lo, hi)"
    by (simp add: lookup_def lookup_cmp_def)
  from lookup_loop_bracket[OF this] assms(2) show ?thesis
    by (cases t) auto
qed

text \<open>
  The binary search brackets the value: on a sorted table of at least two entries that
  spans the value, the two positions are neighbours, the lower entry is at most the value and
  the upper one at least the value, everything before the lower position is smaller than the
  value and everything from the upper position on is not (unless it is the first or the last
  position).
\<close>

theorem lookup_brackets:
  assumes "sorted t" "1 < length t" "lookup t v = (lo, hi)" "t ! 0 \<le> v" "v \<le> t ! (length t - 1)"
  shows "0 \<le> lo \<and> hi = lo + 1 \<and> hi < int (length t) \<and> t ! nat lo \<le> v \<and> v \<le> t ! nat hi
     \<and> (\<forall>i. 0 < lo \<and> i \<le> nat lo \<longrightarrow> t ! i < v)
     \<and> (\<forall>j. hi < int (length t) - 1 \<and> nat hi \<le> j \<and> j < length t \<longrightarrow> v \<le> t ! j)"
proof -
  have lk: "lookup_cmp (length t) (\<lambda>i. t ! nat i < v) = (lo, hi)"
    using assms(3) by (simp add: lookup_def)
  note br = plain_probe.bracket[OF lk assms(2)]
  have pos: "0 < length t" by (rule less_trans[OF zero_less_one assms(2)])
  have below: "t ! i < v" if "0 < lo" "i \<le> nat lo" for i
    using plain_probe.below[OF assms(1) lk pos, of "int i"] that br by simp
  have above: "v \<le> t ! j" if "hi < int (length t) - 1" "nat hi \<le> j" "j < length t" for j
    using plain_probe.above[OF assms(1) lk pos that(1), of "int j"] that br by (simp add: not_less)
  have lo: "t ! nat lo \<le> v"
    using below[of "nat lo"] assms(4) br(1) by (cases "lo = 0") auto
  have hi: "v \<le> t ! nat hi"
  proof (cases "hi < int (length t) - 1")
    case True
    then show ?thesis using above[of "nat hi"] br by simp
  next
    case False
    with br have "nat hi = length t - 1" by simp
    with assms(5) show ?thesis by simp
  qed
  from br lo hi below above show ?thesis by blast
qed

theorem lookup_brackets_witness:
  "lookup [1, 3, 5, 9] 4 = (1, 2) \<and> [1, 3, 5, 9] ! nat 1 \<le> (4 :: rat) \<and> 4 \<le> [1, 3, 5, 9 :: rat] ! nat 2"
proof -
  have l: "lookup [1, 3, 5, 9] 4 = (1, 2)"
    by (simp add: lookup_def lookup_cmp_def lookup_loop.simps Let_def)
  from lookup_brackets[OF _ _ l] l show ?thesis by simp
qed

subsection \<open>Restricting a sorted list to an interval\<close>

function filter_start :: "rat list \<Rightarrow> rat \<Rightarrow> nat \<Rightarrow> nat \<Rightarrow> nat" where
  "filter_start vals mn start stop =
     (if start < stop \<and> vals ! start < mn then filter_start vals mn (Suc start) stop else start)"
  by pat_completeness auto
termination
  by (relation "measure (\<lambda>(vals, mn, start, stop). stop - start)") auto

fun filter_end :: "rat list \<Rightarrow> rat \<Rightarrow> nat \<Rightarrow> nat \<Rightarrow> nat" where
  "filter_end vals mx start 0 = 0"
| "filter_end vals mx start (Suc e) =
     (if start < Suc e \<and> vals ! e > mx then filter_end vals mx start e else Suc e)"

declare filter_start.simps [simp del]

definition filterBetween :: "rat list \<Rightarrow> rat \<Rightarrow> rat \<Rightarrow> rat list" where
  "filterBetween vals mn mx =
     (let start = filter_start vals mn 0 (length vals);
          stop = filter_end vals mx start (length vals)
      in if start > 0 \<or> stop < length vals then slice vals start stop else vals)"

lemma filter_start_spec:
  "start \<le> stop \<Longrightarrow> (let s = filter_start vals mn start stop in
     start \<le> s \<and> s \<le> stop \<and> (\<forall>i. start \<le> i \<and> i < s \<longrightarrow> vals ! i < mn) \<and>
     (s < stop \<longrightarrow> \<not> vals ! s < mn))"
proof (induction vals mn start stop rule: filter_start.induct)
  case (1 vals mn start stop)
  show ?case
  proof (cases "start < stop \<and> vals ! start < mn")
    case True
    define s where "s = filter_start vals mn (Suc start) stop"
    have "Suc start \<le> s" "s \<le> stop" "\<forall>i. Suc start \<le> i \<and> i < s \<longrightarrow> vals ! i < mn"
        "s < stop \<longrightarrow> \<not> vals ! s < mn"
      using "1.IH"[OF True] True by (auto simp: Let_def s_def)
    moreover have "vals ! i < mn" if "start \<le> i" "i < s" for i
      using that calculation(3) True by (cases "i = start") auto
    ultimately show ?thesis
      using True by (simp add: Let_def filter_start.simps[of vals mn start stop] s_def[symmetric])
  next
    case False
    then have "filter_start vals mn start stop = start"
      by (subst filter_start.simps) auto
    with False "1.prems" show ?thesis by (auto simp: Let_def)
  qed
qed

lemma filter_end_spec:
  "start \<le> stop \<Longrightarrow> (let e = filter_end vals mx start stop in
     start \<le> e \<and> e \<le> stop \<and> (\<forall>i. e \<le> i \<and> i < stop \<longrightarrow> mx < vals ! i) \<and>
     (start < e \<longrightarrow> \<not> mx < vals ! (e - 1)))"
proof (induction vals mx start stop rule: filter_end.induct)
  case (1 vals mx start)
  then show ?case by simp
next
  case (2 vals mx start e)
  show ?case
  proof (cases "start < Suc e \<and> vals ! e > mx")
    case True
    with "2" show ?thesis
      by (auto simp: Let_def le_Suc_eq less_Suc_eq)
  next
    case False
    with "2.prems" show ?thesis by (auto simp: Let_def)
  qed
qed

lemma filterBetween_slice:
  "filterBetween vals mn mx =
     (let start = filter_start vals mn 0 (length vals) in
      slice vals start (filter_end vals mx start (length vals)))"
  using filter_start_spec[of 0 "length vals" vals mn]
    filter_end_spec[of "filter_start vals mn 0 (length vals)" "length vals" vals mx]
  by (auto simp: filterBetween_def Let_def slice_def)

text \<open>
  On a sorted list \<open>_filterBetween\<close> returns exactly the entries of the closed interval,
  in their order: scanning from both ends loses nothing and keeps nothing outside.
\<close>

theorem filterBetween_filter:
  assumes "sorted vals" and "mn \<le> mx"
  shows "filterBetween vals mn mx = filter (\<lambda>x. mn \<le> x \<and> x \<le> mx) vals"
proof -
  define n where "n = length vals"
  define s where "s = filter_start vals mn 0 n"
  define e where "e = filter_end vals mx s n"
  have s: "s \<le> n" "\<And>i. i < s \<Longrightarrow> vals ! i < mn" "s < n \<Longrightarrow> mn \<le> vals ! s"
    using filter_start_spec[of 0 n vals mn] by (auto simp: s_def Let_def)
  have e: "s \<le> e" "e \<le> n" "\<And>i. e \<le> i \<Longrightarrow> i < n \<Longrightarrow> mx < vals ! i"
      "s < e \<Longrightarrow> vals ! (e - 1) \<le> mx"
    using filter_end_spec[of s n vals mx] s(1) by (auto simp: e_def Let_def not_less)
  have fb: "filterBetween vals mn mx = slice vals s e"
    by (simp add: filterBetween_slice Let_def s_def e_def n_def)
  have split: "vals = take s vals @ slice vals s e @ drop e vals"
    using e(1) by (simp add: slice_def) (metis append_take_drop_id take_take append_assoc min.absorb1)
  have low: "filter (\<lambda>x. mn \<le> x \<and> x \<le> mx) (take s vals) = []"
    using s(1,2) by (auto simp: filter_empty_conv in_set_conv_nth n_def not_le)
  have high: "filter (\<lambda>x. mn \<le> x \<and> x \<le> mx) (drop e vals) = []"
  proof -
    have "\<not> x \<le> mx" if "x \<in> set (drop e vals)" for x
      using that e(3) by (auto simp: in_set_conv_nth n_def not_le)
    then show ?thesis by (auto simp: filter_empty_conv)
  qed
  have mid: "filter (\<lambda>x. mn \<le> x \<and> x \<le> mx) (slice vals s e) = slice vals s e"
  proof (rule filter_True, rule ballI)
    fix x assume "x \<in> set (slice vals s e)"
    then obtain k where k: "s + k < e" and x: "x = vals ! (s + k)"
      using e(2) by (fastforce simp: in_set_conv_nth nth_slice length_slice n_def less_diff_conv add.commute)
    have "vals ! s \<le> x" "x \<le> vals ! (e - 1)"
      using sorted_nth_mono[OF assms(1), of s "s + k"] sorted_nth_mono[OF assms(1), of "s + k" "e - 1"]
        k e(2) x by (auto simp: n_def)
    with s(3) e k show "mn \<le> x \<and> x \<le> mx" by force
  qed
  have "filter (\<lambda>x. mn \<le> x \<and> x \<le> mx) vals = slice vals s e"
    by (subst split) (simp add: low mid high)
  with fb show ?thesis by simp
qed

theorem filterBetween_filter_witness:
  "filterBetween [1, 2, 5, 8] 2 6 = [2, 5]"
  using filterBetween_filter[of "[1, 2, 5, 8]" 2 6] by simp

subsection \<open>Sets of values\<close>

text \<open>A JavaScript \<open>Set\<close> iterates in insertion order.\<close>

definition set_add :: "'a list \<Rightarrow> 'a \<Rightarrow> 'a list" where
  "set_add s x = (if x \<in> set s then s else s @ [x])"

definition set_of_items :: "'a list \<Rightarrow> 'a list" where
  "set_of_items items = foldl set_add [] items"

definition arrayUnique :: "'a list \<Rightarrow> 'a list" where
  "arrayUnique items =
     (let s = set_of_items items in if length s = length items then items else s)"

definition setsEqual :: "'a list \<Rightarrow> 'a list \<Rightarrow> bool" where
  "setsEqual a b = (length a = length b \<and> (\<forall>item \<in> set a. item \<in> set b))"

lemma foldl_set_add:
  "distinct s \<Longrightarrow> distinct (foldl set_add s items) \<and> set (foldl set_add s items) = set s \<union> set items
     \<and> length (foldl set_add s items) \<le> length s + length items
     \<and> (length (foldl set_add s items) = length s + length items \<longrightarrow> foldl set_add s items = s @ items)"
proof (induction items arbitrary: s)
  case Nil
  then show ?case by simp
next
  case (Cons x items)
  then have "distinct (set_add s x)" by (auto simp: set_add_def)
  from Cons.IH[OF this] show ?case
    by (auto simp: set_add_def split: if_splits)
qed

lemma arrayUnique_eq: "arrayUnique items = set_of_items items"
  using foldl_set_add[of "[]" items] by (auto simp: arrayUnique_def set_of_items_def Let_def)

lemma arrayUnique_set [simp]: "set (arrayUnique items) = set items"
  using foldl_set_add[of "[]" items] by (simp add: arrayUnique_eq set_of_items_def)

lemma arrayUnique_distinct [simp]: "distinct (arrayUnique items)"
  using foldl_set_add[of "[]" items] by (simp add: arrayUnique_eq set_of_items_def)

lemma foldl_set_add_sorted:
  "sorted (s @ items) \<Longrightarrow> sorted (foldl set_add s items)"
proof (induction items arbitrary: s)
  case Nil
  then show ?case by simp
next
  case (Cons x items)
  then have "sorted (set_add s x @ items)"
    by (auto simp: set_add_def sorted_append)
  from Cons.IH[OF this] show ?case by simp
qed

lemma arrayUnique_sorted: "sorted items \<Longrightarrow> sorted (arrayUnique (items :: 'a :: linorder list))"
  by (simp add: arrayUnique_eq set_of_items_def foldl_set_add_sorted)

lemma setsEqual_iff:
  assumes "distinct a" "distinct b"
  shows "setsEqual a b \<longleftrightarrow> set a = set b"
proof
  assume e: "setsEqual a b"
  then have "set a \<subseteq> set b" "card (set a) = card (set b)"
    using assms by (auto simp: setsEqual_def distinct_card)
  then show "set a = set b" by (simp add: card_subset_eq)
next
  assume "set a = set b"
  with assms show "setsEqual a b"
    by (auto simp: setsEqual_def) (metis distinct_card)
qed

subsection \<open>Divisors\<close>

function factor_loop :: "nat \<Rightarrow> nat \<Rightarrow> nat list" where
  "factor_loop v i =
     (if i * i < v
      then (if v mod i = 0 then [i, v div i] else []) @ factor_loop v (Suc i)
      else [])"
  by pat_completeness auto
termination
  by (relation "measure (\<lambda>(v, i). v - i * i)") auto

declare factor_loop.simps [simp del]

text \<open>\<open>sqrt === (sqrt | 0)\<close>: the exact integer root, when there is one.\<close>

definition exact_root :: "nat \<Rightarrow> nat option" where
  "exact_root v = find (\<lambda>r. r * r = v) [0..<Suc v]"

definition factorize :: "nat \<Rightarrow> nat list" where
  "factorize v =
     butlast (sort (factor_loop v 1 @ (case exact_root v of None \<Rightarrow> [] | Some r \<Rightarrow> [r])))"

lemma factor_loop_set:
  assumes "0 < i"
  shows "d \<in> set (factor_loop v i) \<longleftrightarrow>
     (d dvd v \<and> (i \<le> d \<and> d * d < v \<or> (v < d * d \<and> i \<le> v div d)))"
  using assms
proof (induction v i rule: factor_loop.induct)
  case (1 v i)
  show ?case
  proof (cases "i * i < v")
    case True
    have cof: "d dvd v \<and> v < d * d \<and> v div d = i \<longleftrightarrow> i dvd v \<and> d = v div i"
    proof
      assume d: "d dvd v \<and> v < d * d \<and> v div d = i"
      then obtain k where "v = d * k" by auto
      with d "1.prems" show "i dvd v \<and> d = v div i" by (cases "d = 0") auto
    next
      assume d: "i dvd v \<and> d = v div i"
      then obtain k where k: "v = i * k" by auto
      with d "1.prems" have "d = k" by simp
      with k True "1.prems" show "d dvd v \<and> v < d * d \<and> v div d = i" by auto
    qed
    have self: "i \<le> d \<and> d * d < v \<longleftrightarrow> d = i \<or> Suc i \<le> d \<and> d * d < v"
      using True by auto
    show ?thesis
      using "1.IH"[OF True] cof self True
      by (auto simp: factor_loop.simps[of v i] dvd_eq_mod_eq_0[symmetric])
  next
    case False
    have "\<not> (i \<le> d \<and> d * d < v)"
      using False by (meson le_less_trans mult_le_mono)
    moreover have "\<not> (d dvd v \<and> v < d * d \<and> i \<le> v div d)"
    proof
      assume a: "d dvd v \<and> v < d * d \<and> i \<le> v div d"
      then obtain k where k: "v = d * k" by auto
      from a have "d \<noteq> 0" by auto
      with k a have "k < d" "i \<le> k" by auto
      then have "i * i \<le> k * k" "k * k < v \<or> k = 0"
        using k by (auto simp: mult_le_mono)
      with False "1.prems" \<open>i \<le> k\<close> show False by auto
    qed
    ultimately show ?thesis using False by (auto simp: factor_loop.simps[of v i])
  qed
qed

lemma factor_loop_distinct: "0 < i \<Longrightarrow> distinct (factor_loop v i)"
proof (induction v i rule: factor_loop.induct)
  case (1 v i)
  show ?case
  proof (cases "i * i < v")
    case True
    have notin: "i \<notin> set (factor_loop v (Suc i))"
      using True by (auto simp: factor_loop_set)
    have cof: "v div i \<notin> set (factor_loop v (Suc i))" "i \<noteq> v div i" if "v mod i = 0"
    proof -
      from that obtain k where k: "v = i * k" by auto
      with "1.prems" True have "v div i = k" "i < k" by auto
      with k "1.prems" show "v div i \<notin> set (factor_loop v (Suc i))" "i \<noteq> v div i"
        by (auto simp: factor_loop_set)
    qed
    from "1" True notin cof show ?thesis
      by (auto simp: factor_loop.simps[of v i])
  next
    case False
    then show ?thesis by (simp add: factor_loop.simps[of v i])
  qed
qed

lemma exact_root_Some: "exact_root v = Some r \<longleftrightarrow> r * r = v"
proof
  assume "exact_root v = Some r"
  then show "r * r = v" by (auto simp: exact_root_def find_Some_iff)
next
  assume r: "r * r = v"
  then have "r \<in> set [0..<Suc v]" by (cases r) auto
  with r have "exact_root v \<noteq> None" unfolding exact_root_def by (auto simp: find_None_iff)
  then obtain q where q: "exact_root v = Some q" by auto
  then have "q * q = r * r" using r by (auto simp: exact_root_def find_Some_iff)
  then have "q = r" by (simp add: power2_eq_square[symmetric])
  with q show "exact_root v = Some r" by simp
qed

lemma exact_root_None: "exact_root v = None \<longleftrightarrow> (\<forall>r. r * r \<noteq> v)"
  by (metis exact_root_Some not_None_eq)

lemma sorted_butlast_max:
  assumes "sorted xs" "distinct xs" "m \<in> set xs" "\<And>x. x \<in> set xs \<Longrightarrow> x \<le> (m :: nat)"
  shows "set (butlast xs) = set xs - {m}" "sorted (butlast xs)" "distinct (butlast xs)"
proof -
  from assms(3) have ne: "xs \<noteq> []" by auto
  then have xs: "xs = butlast xs @ [last xs]" by simp
  have le: "x \<le> last xs" if "x \<in> set xs" for x
    using that assms(1) by (subst (asm) (1 2) xs) (auto simp: sorted_append)
  have "last xs = m"
    using le[OF assms(3)] assms(4)[of "last xs"] ne by (simp add: antisym)
  with assms(1,2) xs show "set (butlast xs) = set xs - {m}" "sorted (butlast xs)"
      "distinct (butlast xs)"
    by (metis distinct_append set_append list.simps(15) Diff_insert_absorb Un_insert_right
        append_Nil2 disjoint_insert(2) empty_set sup_bot.right_neutral,
        metis sorted_append, metis distinct_append)
qed

text \<open>
  \<open>_factorize\<close> of a positive whole number is the ascending list of its proper divisors,
  without repetition: pairing each small divisor with its cofactor, adding an exact square
  root once and popping the largest misses none and invents none.
\<close>

theorem factorize_proper_divisors:
  assumes "0 < v"
  shows "set (factorize v) = {d. d dvd v \<and> d < v} \<and> sorted (factorize v) \<and> distinct (factorize v)"
proof -
  define xs where "xs = factor_loop v 1 @ (case exact_root v of None \<Rightarrow> [] | Some r \<Rightarrow> [r])"
  have quot: "d dvd v \<Longrightarrow> 1 \<le> v div d" for d
    using assms by (auto elim!: dvdE)
  have small: "d dvd v \<Longrightarrow> 1 \<le> d" for d
    using assms by (cases d) auto
  have set_xs: "set xs = {d. d dvd v}"
  proof -
    have "d \<in> set xs \<longleftrightarrow> d dvd v" for d
    proof (cases "d * d = v")
      case True
      then have "exact_root v = Some d" by (simp add: exact_root_Some)
      with True show ?thesis by (auto simp: xs_def)
    next
      case False
      then have "exact_root v \<noteq> Some d" by (simp add: exact_root_Some)
      with False quot[of d] small[of d] show ?thesis
        by (auto simp: xs_def factor_loop_set nat_neq_iff split: option.splits)
    qed
    then show ?thesis by blast
  qed
  have dist: "distinct xs"
  proof (cases "exact_root v")
    case None
    then show ?thesis using factor_loop_distinct[of 1 v] by (simp add: xs_def)
  next
    case (Some r)
    then have "r * r = v" by (simp add: exact_root_Some)
    with Some show ?thesis
      using factor_loop_distinct[of 1 v] by (auto simp: xs_def factor_loop_set)
  qed
  have "v \<in> set (sort xs)" "\<And>x. x \<in> set (sort xs) \<Longrightarrow> x \<le> v"
    using set_xs assms by (auto simp: dvd_imp_le)
  from sorted_butlast_max[OF _ _ this] dist set_xs
  have "set (butlast (sort xs)) = {d. d dvd v} - {v}" "sorted (butlast (sort xs))"
      "distinct (butlast (sort xs))"
    by auto
  moreover have "{d. d dvd v} - {v} = {d. d dvd v \<and> d < v}"
    using assms by (auto dest: dvd_imp_le)
  ultimately show ?thesis by (simp add: factorize_def xs_def)
qed

theorem factorize_proper_divisors_witness: "set (factorize 12) = {d. d dvd 12 \<and> d < 12}"
  using factorize_proper_divisors[of 12] by simp

subsection \<open>Decimal places\<close>

text \<open>
  The loop has no bound: it returns only when some power of ten makes the number whole.
\<close>

partial_function (option) decimal_loop :: "rat \<Rightarrow> nat \<Rightarrow> nat \<Rightarrow> nat option" where
  "decimal_loop x e p =
     (if of_int (round (x * of_nat e)) / of_nat e \<noteq> x then decimal_loop x (e * 10) (p + 1)
      else Some p)"

definition decimalPlaces :: "jsnum \<Rightarrow> nat option option" where
  "decimalPlaces x = (case x of Fin r \<Rightarrow> map_option Some (decimal_loop r 1 0) | _ \<Rightarrow> Some None)"

lemma whole_iff: "of_int (round y) = (y :: rat) \<longleftrightarrow> y \<in> \<int>"
  by (metis Ints_cases Ints_of_int round_of_int)

lemma decimal_test:
  "of_int (round (x * of_nat (10 ^ p))) / of_nat (10 ^ p) = (x :: rat) \<longleftrightarrow> x * 10 ^ p \<in> \<int>"
proof -
  have "of_int (round (x * of_nat (10 ^ p))) / of_nat (10 ^ p) = x \<longleftrightarrow>
      of_int (round (x * 10 ^ p)) = x * 10 ^ p"
    by (simp add: divide_eq_eq)
  then show ?thesis by (simp add: whole_iff)
qed

lemma decimal_loop_enough:
  "x * 10 ^ (p + n) \<in> \<int> \<Longrightarrow> (\<And>q. q < p \<Longrightarrow> x * 10 ^ q \<notin> \<int>) \<Longrightarrow>
   \<exists>r \<le> p + n. decimal_loop x (10 ^ p) p = Some r \<and> x * 10 ^ r \<in> \<int> \<and> (\<forall>q < r. x * 10 ^ q \<notin> \<int>)"
proof (induction n arbitrary: p)
  case 0
  then have "decimal_loop x (10 ^ p) p = Some p"
    by (subst decimal_loop.simps) (simp add: decimal_test del: of_nat_power)
  with 0 show ?case by auto
next
  case (Suc n)
  show ?case
  proof (cases "x * 10 ^ p \<in> \<int>")
    case True
    then have "decimal_loop x (10 ^ p) p = Some p"
      by (subst decimal_loop.simps) (simp add: decimal_test del: of_nat_power)
    with True Suc.prems show ?thesis by auto
  next
    case False
    then have "decimal_loop x (10 ^ p) p = decimal_loop x (10 ^ Suc p) (Suc p)"
      by (subst decimal_loop.simps) (simp add: decimal_test mult.commute del: of_nat_power)
    moreover from False Suc.prems(2) have "x * 10 ^ q \<notin> \<int>" if "q < Suc p" for q
      using that by (auto simp: less_Suc_eq)
    ultimately show ?thesis
      using Suc.IH[of "Suc p"] Suc.prems(1) by simp
  qed
qed

text \<open>
  \<open>_decimalPlaces\<close> returns on every number with a finite decimal expansion, and what it
  returns is the least number of decimal places; on a special value it returns \<open>undefined\<close>.
\<close>

theorem decimalPlaces_least:
  assumes "x * 10 ^ k \<in> \<int>"
  shows "\<exists>r \<le> k. decimalPlaces (Fin x) = Some (Some r) \<and> x * 10 ^ r \<in> \<int> \<and> (\<forall>q < r. x * 10 ^ q \<notin> \<int>)"
  using decimal_loop_enough[of x 0 k] assms by (auto simp: decimalPlaces_def)

theorem decimalPlaces_least_witness: "\<exists>r \<le> 2. decimalPlaces (Fin (5 / 4)) = Some (Some r)"
proof -
  have "(5 / 4 :: rat) * 10 ^ 2 = of_int 125" by simp
  then have "(5 / 4 :: rat) * 10 ^ 2 \<in> \<int>" by (metis Ints_of_int)
  from decimalPlaces_least[OF this] show ?thesis by blast
qed

end
