(* ===== verification/ChartCore.thy ===== *)
theory ChartCore
  imports JsPrelude
begin

section \<open>Chart.js 3.9.1: values, keys and merging of option objects\<close>

text \<open>
  The core helpers of \<open>www/root/js/chart_3.9.js\<close>: type tests, \<open>each\<close>, \<open>clone$1\<close>,
  \<open>merge\<close> and \<open>mergeIf\<close> with their mergers, \<open>_splitKey\<close>
  and \<open>resolveObjectKey\<close>.  Option objects are trees here: the functions build new objects from
  their arguments, and the components with shared mutable objects have stores of their own.
  Inherited properties of the built-in prototypes are not modelled.
\<close>

datatype js_error = TypeError | ErrorMsg string

subsection \<open>Type tests and defaults\<close>

definition isNullOrUndef :: "jsval \<Rightarrow> bool" where
  "isNullOrUndef v \<longleftrightarrow> v = VNull \<or> v = VUndef"

fun isArray :: "jsval \<Rightarrow> bool" where
  "isArray (VArr _) = True"
| "isArray _ = False"

fun isObject :: "jsval \<Rightarrow> bool" where
  "isObject (VObj _) = True"
| "isObject _ = False"

fun isFunction :: "jsval \<Rightarrow> bool" where
  "isFunction (VFun _) = True"
| "isFunction _ = False"

fun isNumberFinite :: "jsval \<Rightarrow> bool" where
  "isNumberFinite (VNum n) = is_finite_num n"
| "isNumberFinite _ = False"

definition defined :: "jsval \<Rightarrow> bool" where
  "defined v \<longleftrightarrow> v \<noteq> VUndef"

definition finiteOrDefault :: "jsval \<Rightarrow> jsval \<Rightarrow> jsval" where
  "finiteOrDefault value dflt = (if isNumberFinite value then value else dflt)"

definition valueOrDefault :: "jsval \<Rightarrow> jsval \<Rightarrow> jsval" where
  "valueOrDefault value dflt = (if value = VUndef then dflt else value)"

text \<open>\<open>each\<close>: the sequence of calls of the callback, with the element and its index or key.\<close>

definition each :: "jsval \<Rightarrow> bool \<Rightarrow> (jsval \<times> jsval) list" where
  "each loopable reverse =
     (case loopable of
        VArr xs \<Rightarrow>
          (let calls = map (\<lambda>i. (xs ! i, VNum (Fin (of_nat i)))) [0..<length xs]
           in if reverse then rev calls else calls)
      | VObj ps \<Rightarrow> map (\<lambda>k. (the (obj_get ps k), VStr k)) (obj_keys ps)
      | _ \<Rightarrow> [])"

subsection \<open>Active elements\<close>

record active_item =
  datasetIndex :: nat
  item_index :: nat

fun elementsEqual_loop :: "'a active_item_scheme list \<Rightarrow> 'b active_item_scheme list \<Rightarrow> bool" where
  "elementsEqual_loop (v0 # a0) (v1 # a1) =
     (if datasetIndex v0 \<noteq> datasetIndex v1 \<or> item_index v0 \<noteq> item_index v1 then False
      else elementsEqual_loop a0 a1)"
| "elementsEqual_loop _ _ = True"

definition elementsEqual :: "'a active_item_scheme list \<Rightarrow> 'b active_item_scheme list \<Rightarrow> bool" where
  "elementsEqual a0 a1 = (if length a0 \<noteq> length a1 then False else elementsEqual_loop a0 a1)"

lemma elementsEqual_iff:
  "elementsEqual a0 a1 \<longleftrightarrow>
     map (\<lambda>v. (datasetIndex v, item_index v)) a0 = map (\<lambda>v. (datasetIndex v, item_index v)) a1"
proof (cases "length a0 = length a1")
  case True
  then have "elementsEqual_loop a0 a1 \<longleftrightarrow>
      map (\<lambda>v. (datasetIndex v, item_index v)) a0 = map (\<lambda>v. (datasetIndex v, item_index v)) a1"
    by (induction a0 a1 rule: list_induct2) auto
  with True show ?thesis by (simp add: elementsEqual_def)
next
  case False
  then show ?thesis by (auto simp: elementsEqual_def dest: map_eq_imp_length_eq)
qed

subsection \<open>Cloning and merging\<close>

function clone :: "jsval \<Rightarrow> jsval" where
  "clone (VArr xs) = VArr (map clone xs)"
| "clone (VObj ps) =
     VObj (foldl (\<lambda>target p. obj_set target (fst p) (snd p)) []
             (map (\<lambda>p. (fst p, clone (snd p))) ps))"
| "clone VUndef = VUndef"
| "clone VNull = VNull"
| "clone (VBool b) = VBool b"
| "clone (VNum n) = VNum n"
| "clone (VStr s) = VStr s"
| "clone (VFun f) = VFun f"
  by pat_completeness auto
termination
proof (relation "measure size", goal_cases)
  case 1
  then show ?case by simp
next
  case (2 xs x)
  then show ?case by (induction xs) auto
next
  case (3 ps p)
  then show ?case by (induction ps) (auto simp: size_prod_def split: prod.splits)
qed

definition isValidKey :: "string \<Rightarrow> bool" where
  "isValidKey key \<longleftrightarrow> key \<notin> set [''__proto__'', ''prototype'', ''constructor'']"

text \<open>
  One source object merged into a target object.  The flag selects the merger: \<open>_merger\<close>
  (overwrite) or \<open>_mergerIf\<close> (only what the target does not have).
\<close>

function merge_obj :: "bool \<Rightarrow> jsval obj \<Rightarrow> jsval obj \<Rightarrow> jsval obj" where
  "merge_obj onlyIf target [] = target"
| "merge_obj onlyIf target ((key, sval) # rest) =
     merge_obj onlyIf
       (if \<not> isValidKey key then target
        else (case obj_get target key of
                Some (VObj tval) \<Rightarrow>
                  (case sval of
                     VObj sobj \<Rightarrow> obj_set target key (VObj (merge_obj onlyIf tval sobj))
                   | _ \<Rightarrow> if onlyIf \<and> obj_has target key then target
                          else obj_set target key (clone sval))
              | _ \<Rightarrow> if onlyIf \<and> obj_has target key then target
                     else obj_set target key (clone sval)))
       rest"
  by pat_completeness auto
termination
  by (relation "measure (\<lambda>(b, t, s). size_list (size_prod (\<lambda>_. 0) size) s)") auto

text \<open>The step for one key, as a function of its own for the proofs.\<close>

definition merge_key :: "bool \<Rightarrow> jsval obj \<Rightarrow> string \<Rightarrow> jsval \<Rightarrow> jsval obj" where
  "merge_key onlyIf target key sval =
     (if \<not> isValidKey key then target
      else (case obj_get target key of
              Some (VObj tval) \<Rightarrow>
                (case sval of
                   VObj sobj \<Rightarrow> obj_set target key (VObj (merge_obj onlyIf tval sobj))
                 | _ \<Rightarrow> if onlyIf \<and> obj_has target key then target
                        else obj_set target key (clone sval))
            | _ \<Rightarrow> if onlyIf \<and> obj_has target key then target
                   else obj_set target key (clone sval)))"

lemma merge_obj_Cons: "merge_obj b t (p # ps) = merge_obj b (merge_key b t (fst p) (snd p)) ps"
  by (cases p) (simp add: merge_key_def)

lemma merge_obj_foldl: "merge_obj b t ps = foldl (\<lambda>t p. merge_key b t (fst p) (snd p)) t ps"
  by (induction ps arbitrary: t) (simp_all add: merge_obj_Cons)

definition merge_with :: "bool \<Rightarrow> jsval \<Rightarrow> jsval \<Rightarrow> jsval" where
  "merge_with onlyIf target source =
     (let sources = (case source of VArr xs \<Rightarrow> xs | s \<Rightarrow> [s]) in
      case target of
        VObj t \<Rightarrow>
          VObj (foldl (\<lambda>t s. case s of VObj ps \<Rightarrow> merge_obj onlyIf t ps | _ \<Rightarrow> t) t sources)
      | _ \<Rightarrow> target)"

definition merge :: "jsval \<Rightarrow> jsval \<Rightarrow> jsval" where
  "merge target source = merge_with False target source"

definition mergeIf :: "jsval \<Rightarrow> jsval \<Rightarrow> jsval" where
  "mergeIf target source = merge_with True target source"

text \<open>Own keys are distinct in every object: what the language guarantees of its objects.\<close>

fun wf_val :: "jsval \<Rightarrow> bool" where
  "wf_val (VArr xs) = list_all wf_val xs"
| "wf_val (VObj ps) = (distinct (obj_keys ps) \<and> list_all (\<lambda>p. wf_val (snd p)) ps)"
| "wf_val _ = True"

abbreviation wf_obj :: "jsval obj \<Rightarrow> bool" where
  "wf_obj ps \<equiv> wf_val (VObj ps)"

lemma foldl_obj_set_fresh:
  "distinct (map fst (acc @ ps)) \<Longrightarrow>
   foldl (\<lambda>t p. obj_set t (fst p) (snd p)) acc ps = acc @ ps"
proof (induction ps arbitrary: acc)
  case Nil
  then show ?case by simp
next
  case (Cons p ps)
  have "obj_set acc (fst p) (snd p) = acc @ [p]"
    using Cons.prems by (induction acc) auto
  with Cons.IH[of "acc @ [p]"] Cons.prems show ?case by simp
qed

lemma clone_wf [simp]: "wf_val v \<Longrightarrow> clone v = v"
proof (induction v rule: clone.induct)
  case (1 xs)
  then show ?case by (auto simp: list_all_iff intro: map_idI)
next
  case (2 ps)
  then have "map (\<lambda>p. (fst p, clone (snd p))) ps = ps"
    by (auto simp: list_all_iff intro!: map_idI)
  with 2 show ?case by (simp add: foldl_obj_set_fresh obj_keys_def)
qed simp_all

lemma map_clone_wf [simp]: "list_all wf_val xs \<Longrightarrow> map clone xs = xs"
  by (auto simp: list_all_iff intro: map_idI)

lemma wf_obj_get: "wf_obj ps \<Longrightarrow> obj_get ps k = Some v \<Longrightarrow> wf_val v"
  by (force simp: list_all_iff dest: obj_get_in_set)

lemma wf_obj_set: "wf_obj ps \<Longrightarrow> wf_val v \<Longrightarrow> wf_obj (obj_set ps k v)"
proof -
  assume a: "wf_obj ps" "wf_val v"
  have "list_all (\<lambda>p. wf_val (snd p)) (obj_set ps k v)"
    using a by (induction ps) auto
  with a show ?thesis by auto
qed

lemma wf_Cons: "wf_obj (p # ps) \<Longrightarrow> wf_obj ps \<and> wf_val (snd p) \<and> fst p \<notin> set (obj_keys ps)"
  by simp

lemma merge_wf: "wf_obj t \<Longrightarrow> wf_obj s \<Longrightarrow> wf_obj (merge_obj b t s)"
proof (induction b t s rule: merge_obj.induct)
  case (1 b t)
  then show ?case by simp
next
  case (2 b t key sval rest)
  have "wf_obj (merge_key b t key sval)"
  proof (cases "isValidKey key \<and> (\<exists>tv sv. obj_get t key = Some (VObj tv) \<and> sval = VObj sv)")
    case True
    then obtain tv sv where o: "obj_get t key = Some (VObj tv)" "sval = VObj sv" "isValidKey key"
      by blast
    have "wf_obj (merge_obj b tv sv)"
      using "2.IH"(1) o "2.prems" wf_obj_get[OF "2.prems"(1) o(1)] by auto
    with o "2.prems" show ?thesis by (simp add: merge_key_def wf_obj_set del: wf_val.simps)
  next
    case False
    then show ?thesis
      using "2.prems" wf_obj_set[OF "2.prems"(1), of sval key]
      by (auto simp: merge_key_def split: option.splits jsval.splits)
  qed
  moreover have "wf_obj rest" using wf_Cons[OF "2.prems"(2)] by blast
  ultimately have "wf_obj (merge_obj b (merge_key b t key sval) rest)"
    using "2.IH"(2)[folded merge_key_def] by blast
  then show ?case
    unfolding merge_obj_Cons by (simp only: fst_conv snd_conv)
qed

lemma merge_key_get_other: "k' \<noteq> k \<Longrightarrow> obj_get (merge_key b t k s) k' = obj_get t k'"
  by (auto simp: merge_key_def split: option.splits jsval.splits)

lemma merge_obj_get_other: "k \<notin> set (obj_keys s) \<Longrightarrow> obj_get (merge_obj b t s) k = obj_get t k"
proof (induction s arbitrary: t)
  case Nil
  then show ?case by simp
next
  case (Cons p s)
  then show ?case by (simp add: merge_obj_Cons merge_key_get_other)
qed

text \<open>With distinct source keys, each property of the result is decided by its own key alone.\<close>

lemma merge_obj_get:
  assumes "distinct (obj_keys s)" "obj_get s k = Some v"
  shows "obj_get (merge_obj b t s) k = obj_get (merge_key b t k v) k"
  using assms
proof (induction s arbitrary: t)
  case Nil
  then show ?case by simp
next
  case (Cons p s)
  show ?case
  proof (cases "fst p = k")
    case True
    with Cons.prems show ?thesis
      by (simp add: merge_obj_Cons merge_obj_get_other)
  next
    case False
    have "obj_get (merge_key b (merge_key b t (fst p) (snd p)) k v) k = obj_get (merge_key b t k v) k"
      using False merge_key_get_other[of k "fst p" b t "snd p"]
      by (simp add: merge_key_def obj_has_def split: option.splits jsval.splits)
    with False Cons show ?thesis by (simp add: merge_obj_Cons)
  qed
qed

text \<open>A path into nested objects.\<close>

fun path_get :: "jsval \<Rightarrow> string list \<Rightarrow> jsval option" where
  "path_get v [] = Some v"
| "path_get (VObj ps) (k # ks) = (case obj_get ps k of None \<Rightarrow> None | Some v \<Rightarrow> path_get v ks)"
| "path_get _ (k # ks) = None"

definition leaf :: "jsval \<Rightarrow> bool" where
  "leaf v \<longleftrightarrow> \<not> isObject v"

lemma leafE: "path_get v ks = Some w \<Longrightarrow> leaf v \<Longrightarrow> ks = [] \<and> w = v"
  by (cases v; cases ks) (auto simp: leaf_def)

lemma mergeIf_obj_keeps:
  "wf_obj t \<Longrightarrow> wf_obj s \<Longrightarrow> path_get (VObj t) ks = Some v \<Longrightarrow> leaf v \<Longrightarrow>
   path_get (VObj (merge_obj True t s)) ks = Some v"
proof (induction "length ks" arbitrary: ks t s)
  case 0
  then show ?case by (auto simp: leaf_def)
next
  case (Suc n)
  then obtain k ks' where ks: "ks = k # ks'" and n: "n = length ks'" by (cases ks) auto
  with Suc.prems obtain w where w: "obj_get t k = Some w" and pw: "path_get w ks' = Some v"
    by (auto split: option.splits)
  show ?case
  proof (cases "obj_get s k")
    case None
    then have "obj_get (merge_obj True t s) k = Some w"
      using merge_obj_get_other[of k s True t] w by (simp add: obj_get_None_iff)
    with pw ks show ?thesis by simp
  next
    case (Some sv)
    have get: "obj_get (merge_obj True t s) k = obj_get (merge_key True t k sv) k"
      using merge_obj_get[OF _ Some] Suc.prems(2) by simp
    show ?thesis
    proof (cases "isValidKey k \<and> isObject w \<and> isObject sv")
      case True
      then obtain tv so where o: "w = VObj tv" "sv = VObj so"
        by (cases w; cases sv) auto
      have "path_get (VObj (merge_obj True tv so)) ks' = Some v"
        using Suc.hyps(1)[OF n] wf_obj_get[OF Suc.prems(1) w] wf_obj_get[OF Suc.prems(2) Some]
          o pw Suc.prems(4) by simp
      with get o w True ks show ?thesis by (simp add: merge_key_def)
    next
      case False
      then have "obj_get (merge_key True t k sv) k = Some w"
        using w by (cases w; cases sv) (auto simp: merge_key_def obj_has_def)
      with get pw ks show ?thesis by simp
    qed
  qed
qed

lemma mergeIf_sources_keep:
  assumes "wf_val target" and "list_all wf_val sources"
    and "path_get target ks = Some v" and "leaf v"
  shows "path_get (mergeIf target (VArr sources)) ks = Some v"
proof (cases target)
  case (VObj t)
  have "path_get (VObj (foldl (\<lambda>t s. case s of VObj ps \<Rightarrow> merge_obj True t ps | _ \<Rightarrow> t) t sources)) ks
      = Some v"
    using assms VObj
  proof (induction sources arbitrary: t target)
    case Nil
    then show ?case by simp
  next
    case (Cons s sources)
    then show ?case
      using mergeIf_obj_keeps merge_wf by (cases s) (auto simp del: wf_val.simps)
  qed
  with VObj show ?thesis by (simp add: mergeIf_def merge_with_def)
qed (use assms leafE in \<open>auto simp: mergeIf_def merge_with_def\<close>)

lemma mergeIf_sources_wf:
  assumes "wf_obj t" and "list_all wf_val sources"
  shows "\<exists>r. mergeIf (VObj t) (VArr sources) = VObj r \<and> wf_obj r"
proof -
  have "wf_obj (foldl (\<lambda>t s. case s of VObj ps \<Rightarrow> merge_obj True t ps | _ \<Rightarrow> t) t sources)"
    using assms
  proof (induction sources arbitrary: t)
    case Nil
    then show ?case by simp
  next
    case (Cons s sources)
    then show ?case using merge_wf by (cases s) (auto simp del: wf_val.simps)
  qed
  then show ?thesis by (simp add: mergeIf_def merge_with_def)
qed

lemma mergeIf_Cons_obj: "mergeIf (VObj t) (VArr (VObj s # ss)) = mergeIf (VObj (merge_obj True t s)) (VArr ss)"
  by (simp add: mergeIf_def merge_with_def)

lemma mergeIf_obj_adds:
  assumes "obj_get t k = None" "obj_get s k = Some v" "wf_obj s" "isValidKey k"
  shows "obj_get (merge_obj True t s) k = Some v"
  using merge_obj_get[OF _ assms(2), of True t] assms wf_obj_get[OF assms(3,2)]
  by (simp add: merge_key_def obj_has_def)

text \<open>
  \<open>mergeIf\<close> never overwrites: whatever non-object value the target holds, at any depth,
  is still there after merging any list of sources into it.
\<close>

theorem mergeIf_keeps:
  assumes "wf_val target" and "list_all wf_val sources"
    and "path_get target ks = Some v" and "leaf v"
  shows "path_get (mergeIf target (VArr sources)) ks = Some v"
  by (rule mergeIf_sources_keep[OF assms])

theorem mergeIf_keeps_witness:
  "path_get (mergeIf (VObj [(''a'', VObj [(''b'', VStr ''old'')])])
       (VArr [VObj [(''a'', VObj [(''b'', VStr ''new''), (''c'', VNull)])]])) [''a'', ''b'']
     = Some (VStr ''old'')"
  by (rule mergeIf_keeps) (simp_all add: leaf_def)

lemma merge_obj_wins:
  "wf_obj t \<Longrightarrow> wf_obj s \<Longrightarrow> path_get (VObj s) ks = Some v \<Longrightarrow> leaf v \<Longrightarrow> list_all isValidKey ks \<Longrightarrow>
   path_get (VObj (merge_obj False t s)) ks = Some v"
proof (induction "length ks" arbitrary: ks t s)
  case 0
  then show ?case by (auto simp: leaf_def)
next
  case (Suc n)
  then obtain k ks' where ks: "ks = k # ks'" and n: "n = length ks'" by (cases ks) auto
  with Suc.prems obtain sv where sv: "obj_get s k = Some sv" and pw: "path_get sv ks' = Some v"
    by (auto split: option.splits)
  have valid: "isValidKey k" "list_all isValidKey ks'" using Suc.prems ks by auto
  have wfsv: "wf_val sv" by (rule wf_obj_get[OF Suc.prems(2) sv])
  have get: "obj_get (merge_obj False t s) k = obj_get (merge_key False t k sv) k"
    using merge_obj_get[OF _ sv] Suc.prems(2) by simp
  show ?case
  proof (cases "\<exists>tv so. obj_get t k = Some (VObj tv) \<and> sv = VObj so")
    case True
    then obtain tv so where o: "obj_get t k = Some (VObj tv)" "sv = VObj so" by blast
    have "path_get (VObj (merge_obj False tv so)) ks' = Some v"
      using Suc.hyps(1)[OF n] wf_obj_get[OF Suc.prems(1) o(1)] wfsv o pw Suc.prems(4) valid by simp
    with get o valid ks show ?thesis by (simp add: merge_key_def)
  next
    case False
    then have "obj_get (merge_key False t k sv) k = Some sv"
      using valid wfsv by (auto simp: merge_key_def split: option.splits jsval.splits)
    with get pw ks show ?thesis by simp
  qed
qed

text \<open>
  \<open>merge\<close> overwrites: a non-object value of the source, reached through admissible keys,
  is found at the same path of the result, whatever the target held there.
\<close>

theorem merge_source_wins:
  assumes "wf_obj t" and "wf_obj s" and "path_get (VObj s) ks = Some v" and "leaf v"
    and "list_all isValidKey ks"
  shows "path_get (merge (VObj t) (VObj s)) ks = Some v"
  using merge_obj_wins[OF assms] by (simp add: merge_def merge_with_def)

theorem merge_source_wins_witness:
  "path_get (merge (VObj [(''a'', VObj [(''b'', VStr ''old'')])])
       (VObj [(''a'', VObj [(''b'', VStr ''new'')])])) [''a'', ''b''] = Some (VStr ''new'')"
  by (rule merge_source_wins) (simp_all add: leaf_def isValidKey_def)

lemma merge_obj_protects:
  "wf_obj t \<Longrightarrow> wf_obj s \<Longrightarrow> path_get (VObj t) ks = Some (VObj u) \<Longrightarrow> \<not> isValidKey k \<Longrightarrow>
   (\<And>pre w. prefix pre ks \<Longrightarrow> path_get (VObj s) pre = Some w \<Longrightarrow> isObject w) \<Longrightarrow>
   path_get (VObj (merge_obj b t s)) (ks @ [k]) = path_get (VObj t) (ks @ [k])"
proof (induction "length ks" arbitrary: ks t s)
  case 0
  have "obj_get (merge_obj b t s) k = obj_get t k"
  proof (cases "obj_get s k")
    case None
    then show ?thesis by (simp add: merge_obj_get_other obj_get_None_iff)
  next
    case (Some v)
    then show ?thesis
      using merge_obj_get[of s k v b t] 0 by (simp add: merge_key_def)
  qed
  with 0 show ?case by simp
next
  case (Suc n)
  then obtain j js where ks: "ks = j # js" and n: "n = length js" by (cases ks) auto
  with Suc.prems obtain w where w: "obj_get t j = Some w" and pw: "path_get w js = Some (VObj u)"
    by (auto split: option.splits)
  then obtain tv where tv: "w = VObj tv" by (cases w; cases js) auto
  show ?case
  proof (cases "obj_get s j")
    case None
    then have "obj_get (merge_obj b t s) j = Some w"
      using merge_obj_get_other[of j s b t] w by (simp add: obj_get_None_iff)
    with w ks show ?thesis by simp
  next
    case (Some sv)
    have "isObject sv"
      using Suc.prems(5)[of "[j]" sv] Some ks by (cases js) auto
    then obtain so where so: "sv = VObj so" by (cases sv) auto
    have get: "obj_get (merge_obj b t s) j = obj_get (merge_key b t j sv) j"
      using merge_obj_get[OF _ Some] Suc.prems(2) by simp
    have pre: "isObject x" if "prefix pre js" "path_get (VObj so) pre = Some x"
      for pre x
      using Suc.prems(5)[of "j # pre" x] that Some so ks by auto
    have "path_get (VObj (merge_obj b tv so)) (js @ [k]) = path_get (VObj tv) (js @ [k])"
      using Suc.hyps(1)[OF n] wf_obj_get[OF Suc.prems(1) w] wf_obj_get[OF Suc.prems(2) Some]
        tv so pw Suc.prems(4) pre by blast
    with get tv so w ks show ?thesis
      by (cases "isValidKey j") (auto simp: merge_key_def)
  qed
qed

text \<open>
  Prototype keys are not merged: in an object the target already has (reached by the path
  \<open>ks\<close>, along which the source holds objects only), the properties \<open>__proto__\<close>,
  \<open>prototype\<close> and \<open>constructor\<close> are after the merge what they were before, with either
  merger.
\<close>

theorem merge_protects_prototype:
  assumes "wf_obj t" and "wf_obj s" and "path_get (VObj t) ks = Some (VObj u)"
    and "k \<in> {''__proto__'', ''prototype'', ''constructor''}"
    and "\<And>pre w. prefix pre ks \<Longrightarrow> path_get (VObj s) pre = Some w \<Longrightarrow> isObject w"
  shows "path_get (merge_with onlyIf (VObj t) (VObj s)) (ks @ [k]) = path_get (VObj t) (ks @ [k])"
proof -
  have "\<not> isValidKey k" using assms(4) by (auto simp: isValidKey_def)
  from merge_obj_protects[OF assms(1-3) this assms(5)] show ?thesis
    by (simp add: merge_with_def)
qed

theorem merge_protects_prototype_witness:
  "path_get (merge_with False (VObj [(''__proto__'', VNull)]) (VObj [(''__proto__'', VStr ''evil'')]))
     ([] @ [''__proto__'']) = path_get (VObj [(''__proto__'', VNull)]) ([] @ [''__proto__''])"
  by (rule merge_protects_prototype) auto

subsection \<open>Compound keys\<close>

definition capitalize :: "string \<Rightarrow> string" where
  "capitalize str = (case str of [] \<Rightarrow> [] | c # cs \<Rightarrow> to_upper c # cs)"

text \<open>The loop of \<open>_splitKey\<close> over the dot-separated parts, with its accumulator \<open>tmp\<close>.\<close>

fun splitKey_loop :: "string list \<Rightarrow> string \<Rightarrow> string list \<Rightarrow> string list" where
  "splitKey_loop keys tmp [] = keys"
| "splitKey_loop keys tmp (part # parts) =
     (let tmp' = tmp @ part in
      if tmp' \<noteq> [] \<and> last tmp' = CHR 0x5C
      then splitKey_loop keys (butlast tmp' @ ''.'') parts
      else splitKey_loop (keys @ [tmp']) [] parts)"

definition splitKey :: "string \<Rightarrow> string list" where
  "splitKey key = splitKey_loop [] [] (split_char CHR ''.'' key)"

text \<open>How a caller writes a key that contains dots: a backslash before each dot.\<close>

definition escape_key :: "string \<Rightarrow> string" where
  "escape_key key = concat (map (\<lambda>c. if c = CHR ''.'' then [CHR 0x5C, CHR ''.''] else [c]) key)"

definition plain_key :: "string \<Rightarrow> bool" where
  "plain_key key \<longleftrightarrow> (key \<noteq> [] \<longrightarrow> last key \<noteq> CHR 0x5C)"

lemma escape_key_simps [simp]:
  "escape_key [] = []"
  "escape_key (c # cs) = (if c = CHR ''.'' then [CHR 0x5C, CHR ''.''] else [c]) @ escape_key cs"
  by (simp_all add: escape_key_def)

lemma split_char_head:
  "split_char c (x # xs) = (if x = c then [] # split_char c xs
     else (x # hd (split_char c xs)) # tl (split_char c xs))"
  by (cases "split_char c xs") auto

text \<open>The parts of an escaped key, run through the loop, put the key back together.\<close>

lemma splitKey_loop_escaped:
  "splitKey_loop keys tmp (split_char CHR ''.'' (escape_key key @ s)) =
   splitKey_loop keys (tmp @ key) (split_char CHR ''.'' s)"
proof (induction key arbitrary: tmp)
  case Nil
  then show ?case by simp
next
  case (Cons c key)
  obtain v vs where v: "split_char CHR ''.'' (escape_key key @ s) = v # vs"
    using split_char_nonempty by (meson neq_Nil_conv)
  show ?case
  proof (cases "c = CHR ''.''")
    case True
    have "splitKey_loop keys tmp (split_char CHR ''.'' (escape_key (c # key) @ s)) =
        splitKey_loop keys (tmp @ ''.'') (v # vs)"
      using True v by (simp add: Let_def)
    also have "\<dots> = splitKey_loop keys (tmp @ ''.'' @ key) (split_char CHR ''.'' s)"
      using Cons.IH[of "tmp @ ''.''"] v by simp
    finally show ?thesis using True by simp
  next
    case False
    have "splitKey_loop keys tmp (split_char CHR ''.'' (escape_key (c # key) @ s)) =
        splitKey_loop keys (tmp @ [c]) (v # vs)"
      using False v by (simp add: Let_def)
    also have "\<dots> = splitKey_loop keys (tmp @ c # key) (split_char CHR ''.'' s)"
      using Cons.IH[of "tmp @ [c]"] v by simp
    finally show ?thesis by simp
  qed
qed

lemma splitKey_loop_join:
  assumes "list_all plain_key ks" "ks \<noteq> []"
  shows "splitKey_loop keys [] (split_char CHR ''.'' (join ''.'' (map escape_key ks))) = keys @ ks"
  using assms
proof (induction ks arbitrary: keys)
  case Nil
  then show ?case by simp
next
  case (Cons k ks)
  show ?case
  proof (cases "ks = []")
    case True
    have "splitKey_loop keys [] (split_char CHR ''.'' (escape_key k @ [])) = splitKey_loop keys k [[]]"
      by (subst splitKey_loop_escaped) simp_all
    with True Cons.prems show ?thesis by (auto simp: plain_key_def Let_def)
  next
    case False
    then obtain k2 ks2 where ks: "ks = k2 # ks2" by (cases ks) auto
    have "splitKey_loop keys [] (split_char CHR ''.'' (escape_key k @ ''.'' @ join ''.'' (map escape_key ks)))
        = splitKey_loop keys k ([] # split_char CHR ''.'' (join ''.'' (map escape_key ks)))"
      by (subst splitKey_loop_escaped) simp_all
    also have "\<dots> = splitKey_loop (keys @ [k]) [] (split_char CHR ''.'' (join ''.'' (map escape_key ks)))"
      using Cons.prems by (auto simp: plain_key_def Let_def)
    also have "\<dots> = (keys @ [k]) @ ks"
      using Cons False by simp
    finally show ?thesis by (simp add: ks)
  qed
qed

text \<open>
  \<open>_splitKey\<close> undoes the dotted notation: keys joined by dots, with the dots inside a key
  escaped by a backslash, come back as the same list of keys (for keys that do not end in a
  backslash, which the notation cannot express).
\<close>

theorem splitKey_roundtrip:
  assumes "list_all plain_key ks" and "ks \<noteq> []"
  shows "splitKey (join ''.'' (map escape_key ks)) = ks"
  using splitKey_loop_join[OF assms, of "[]"] by (simp add: splitKey_def)

theorem splitKey_roundtrip_witness:
  "splitKey (join ''.'' (map escape_key [''data'', ''v1.2''])) = [''data'', ''v1.2'']"
  by (rule splitKey_roundtrip) (simp_all add: plain_key_def)

text \<open>
  Reading a property: of an object its own property, of an array an element or the length;
  \<open>null\<close> and \<open>undefined\<close> throw.
\<close>

definition read_index :: "string \<Rightarrow> nat option" where
  "read_index k = (if show_nat (read_nat k) = k then Some (read_nat k) else None)"

fun get_prop :: "jsval \<Rightarrow> string \<Rightarrow> js_error + jsval" where
  "get_prop VUndef k = Inl TypeError"
| "get_prop VNull k = Inl TypeError"
| "get_prop (VObj ps) k = Inr (case obj_get ps k of None \<Rightarrow> VUndef | Some v \<Rightarrow> v)"
| "get_prop (VArr xs) k =
     Inr (if k = ''length'' then VNum (Fin (of_nat (length xs)))
          else (case read_index k of
                  Some i \<Rightarrow> if i < length xs then xs ! i else VUndef
                | None \<Rightarrow> VUndef))"
| "get_prop (VStr s) k =
     Inr (if k = ''length'' then VNum (Fin (of_nat (length s)))
          else (case read_index k of
                  Some i \<Rightarrow> if i < length s then VStr [s ! i] else VUndef
                | None \<Rightarrow> VUndef))"
| "get_prop _ k = Inr VUndef"

text \<open>The resolver made by \<open>_getKeyResolver\<close>: \<open>obj = obj && obj[k]\<close>, stopping at an empty key.\<close>

fun key_resolver :: "string list \<Rightarrow> jsval \<Rightarrow> js_error + jsval" where
  "key_resolver [] obj = Inr obj"
| "key_resolver (k # ks) obj =
     (if k = [] then Inr obj
      else if truthy obj
        then (case get_prop obj k of Inl e \<Rightarrow> Inl e | Inr v \<Rightarrow> key_resolver ks v)
        else key_resolver ks obj)"

definition resolveObjectKey :: "jsval \<Rightarrow> string \<Rightarrow> js_error + jsval" where
  "resolveObjectKey obj key =
     (if key = [] then Inr obj
      else if key = ''x'' then get_prop obj ''x''
      else if key = ''y'' then get_prop obj ''y''
      else key_resolver (splitKey key) obj)"

lemma key_resolver_total: "\<exists>v. key_resolver ks obj = Inr v"
proof (induction ks arbitrary: obj)
  case Nil
  then show ?case by simp
next
  case (Cons k ks)
  show ?case
  proof (cases "truthy obj")
    case True
    then obtain v where "get_prop obj k = Inr v" by (cases obj) auto
    with Cons.IH[of v] True show ?thesis by simp
  next
    case False
    with Cons.IH[of obj] show ?thesis by simp
  qed
qed

lemma splitKey_x: "splitKey ''x'' = [''x'']" and splitKey_y: "splitKey ''y'' = [''y'']"
  by (simp_all add: splitKey_def Let_def)

text \<open>
  The shortcuts for the two most frequent keys agree with the general resolver on every
  truthy value, and the only error of a key resolution is a shortcut applied to
  \<open>undefined\<close> or \<open>null\<close>.
\<close>

theorem resolveObjectKey_shortcuts:
  "(truthy obj \<longrightarrow> resolveObjectKey obj key = key_resolver (splitKey key) obj) \<and>
   (resolveObjectKey obj key = Inl e \<longrightarrow>
      e = TypeError \<and> key \<in> {''x'', ''y''} \<and> obj \<in> {VUndef, VNull})"
proof (cases "key \<in> {''x'', ''y''}")
  case True
  then show ?thesis
    by (cases obj) (auto simp: resolveObjectKey_def splitKey_x splitKey_y)
next
  case False
  have "splitKey [] = [[]]" by (simp add: splitKey_def Let_def)
  with False key_resolver_total[of "splitKey key" obj] show ?thesis
    by (auto simp: resolveObjectKey_def)
qed

theorem resolveObjectKey_shortcuts_witness:
  "resolveObjectKey (VObj [(''x'', VBool True)]) ''x'' =
     key_resolver (splitKey ''x'') (VObj [(''x'', VBool True)])"
  using resolveObjectKey_shortcuts[of "VObj [(''x'', VBool True)]" "''x''" TypeError] by simp

end
