(* ===== verification/ChartColor.thy ===== *)
theory ChartColor
  imports JsPrelude
begin

section \<open>Chart.js 3.9.1: colours\<close>

text \<open>
  The colour code bundled in \<open>www/root/js/chart_3.9.js\<close> (\<open>@kurkle/color\<close>): the channel
  conversions, the hexadecimal notation, the conversions between RGB and HSL, HSV and HWB, and
  the methods of the class \<open>Color\<close> that change its channels.  Channels are exact rationals;
  what the code masks with \<open>&\<close> is an integer.  The textual \<open>rgb()\<close> and \<open>hsl()\<close>
  forms and the named colours are not modelled.
\<close>

unbundle bit_operations_syntax

record rgba =
  red :: rat
  green :: rat
  blue :: rat
  opacity :: rat

text \<open>What \<open>hexParse\<close> returns: the alpha of a short form may be \<open>NaN\<close>.\<close>

record hex_color =
  hex_r :: int
  hex_g :: int
  hex_b :: int
  hex_a :: jsnum

subsection \<open>Channels\<close>

definition color_round :: "rat \<Rightarrow> int" where
  "color_round v = to_int32 (v + 1 / 2)"

definition lim :: "rat \<Rightarrow> rat \<Rightarrow> rat \<Rightarrow> rat" where
  "lim v l h = max (min v h) l"

definition p2b :: "rat \<Rightarrow> rat" where
  "p2b v = lim (of_int (color_round (v * (255 / 100)))) 0 255"

definition n2b :: "rat \<Rightarrow> rat" where
  "n2b v = lim (of_int (color_round (v * 255))) 0 255"

definition b2n :: "rat \<Rightarrow> rat" where
  "b2n v = lim (of_int (color_round (v / (255 / 100))) / 100) 0 1"

definition n2p :: "rat \<Rightarrow> rat" where
  "n2p v = lim (of_int (color_round (v * 100))) 0 100"

lemma lim_range [js_num]: "l \<le> h \<Longrightarrow> l \<le> lim v l h \<and> lim v l h \<le> h"
  by (simp add: lim_def)

lemma n2b_range: "0 \<le> n2b v \<and> n2b v \<le> 255"
  by (simp add: n2b_def lim_range)

lemma b2n_range: "0 \<le> b2n v \<and> b2n v \<le> 1"
  by (simp add: b2n_def lim_range)

subsection \<open>Hexadecimal notation\<close>

definition hex_digits :: string where
  "hex_digits = ''0123456789ABCDEF''"

text \<open>The table \<open>map$1\<close>; a character that is not a key reads as \<open>undefined\<close>.\<close>

definition hex_map :: "char \<Rightarrow> int option" where
  "hex_map c =
     (if is_digit c then Some (int (of_char c) - 48)
      else if 65 \<le> (of_char c :: nat) \<and> (of_char c :: nat) \<le> 70 then Some (int (of_char c) - 55)
      else if 97 \<le> (of_char c :: nat) \<and> (of_char c :: nat) \<le> 102 then Some (int (of_char c) - 87)
      else None)"

definition h1 :: "int \<Rightarrow> string" where
  "h1 b = [hex_digits ! nat (b AND 0xF)]"

definition h2 :: "int \<Rightarrow> string" where
  "h2 b = [hex_digits ! nat (drop_bit 4 (b AND 0xF0)), hex_digits ! nat (b AND 0xF)]"

definition eq_nibbles :: "int \<Rightarrow> bool" where
  "eq_nibbles b \<longleftrightarrow> drop_bit 4 (b AND 0xF0) = b AND 0xF"

definition isShort :: "rgba \<Rightarrow> bool" where
  "isShort v \<longleftrightarrow> eq_nibbles (to_int32 (red v)) \<and> eq_nibbles (to_int32 (green v)) \<and>
     eq_nibbles (to_int32 (blue v)) \<and> eq_nibbles (to_int32 (opacity v))"

definition hexString :: "rgba \<Rightarrow> string" where
  "hexString v =
     (let f = (if isShort v then h1 else h2)
      in ''#'' @ f (to_int32 (red v)) @ f (to_int32 (green v)) @ f (to_int32 (blue v)) @
         (if opacity v < 255 then f (to_int32 (opacity v)) else []))"

text \<open>\<open>255 & map$1[c] * 17\<close>: a missing entry makes \<open>NaN\<close>, which masks to zero.\<close>

definition short_channel :: "char \<Rightarrow> int" where
  "short_channel c = (case hex_map c of Some d \<Rightarrow> 255 AND (d * 17) | None \<Rightarrow> 0)"

definition long_channel :: "char \<Rightarrow> char \<Rightarrow> int" where
  "long_channel c d =
     push_bit 4 (case hex_map c of Some n \<Rightarrow> n | None \<Rightarrow> 0) OR (case hex_map d of Some n \<Rightarrow> n | None \<Rightarrow> 0)"

definition hexParse :: "string \<Rightarrow> hex_color option" where
  "hexParse str =
     (let len = length str in
      if str \<noteq> [] \<and> str ! 0 = CHR ''#'' then
        (if len = 4 \<or> len = 5 then
           Some \<lparr>hex_r = short_channel (str ! 1), hex_g = short_channel (str ! 2),
                 hex_b = short_channel (str ! 3),
                 hex_a = (if len = 5
                          then (case hex_map (str ! 4) of Some d \<Rightarrow> Fin (of_int (d * 17)) | None \<Rightarrow> NaN)
                          else Fin 255)\<rparr>
         else if len = 7 \<or> len = 9 then
           Some \<lparr>hex_r = long_channel (str ! 1) (str ! 2), hex_g = long_channel (str ! 3) (str ! 4),
                 hex_b = long_channel (str ! 5) (str ! 6),
                 hex_a = (if len = 9 then Fin (of_int (long_channel (str ! 7) (str ! 8)))
                          else Fin 255)\<rparr>
         else None)
      else None)"

lemma and_15: "(b :: int) AND 15 = b mod 16"
  using take_bit_eq_mask[of 4 b] by (simp add: take_bit_eq_mod mask_eq_exp_minus_1)

lemma low_nibble: "0 \<le> b \<Longrightarrow> nat (b AND 15) < 16"
  by (simp add: and_15 nat_less_iff)

lemma high_nibble:
  fixes b :: int
  assumes "0 \<le> b" "b < 256"
  shows "drop_bit 4 (b AND 0xF0) = b div 16"
proof -
  have "drop_bit 4 (b AND 0xF0) = drop_bit 4 b AND drop_bit 4 0xF0"
    by simp
  also have "\<dots> = (b div 16) AND 15"
    by (simp add: drop_bit_eq_div)
  also have "\<dots> = b div 16"
    using assms by (simp add: and_15)
  finally show ?thesis .
qed

lemma high_nibble': "0 \<le> (b :: int) \<Longrightarrow> b < 256 \<Longrightarrow> drop_bit 4 b AND 15 = b div 16"
  by (simp add: and_15 drop_bit_eq_div)

lemma hex_map_digits: "n < 16 \<Longrightarrow> hex_map (hex_digits ! n) = Some (int n)"
proof -
  have "\<forall>n \<in> set [0..<16]. hex_map (hex_digits ! n) = Some (int n)"
    by (simp add: upt_rec hex_digits_def hex_map_def is_digit_def)
  then show "n < 16 \<Longrightarrow> hex_map (hex_digits ! n) = Some (int n)" by auto
qed

lemma mask_255: "0 \<le> (n :: int) \<Longrightarrow> n < 256 \<Longrightarrow> 255 AND n = n"
  using take_bit_eq_mask[of 8 n]
  by (simp add: take_bit_eq_mod mask_eq_exp_minus_1 and.commute)

lemma short_channel_h1:
  assumes "0 \<le> b" "b < 256" "eq_nibbles b"
  shows "short_channel (hd (h1 b)) = b" "hex_map (hd (h1 b)) = Some (b mod 16)" "b mod 16 * 17 = b"
proof -
  have m: "hex_map (hd (h1 b)) = Some (b mod 16)"
    using assms(1) by (simp add: h1_def hex_map_digits low_nibble and_15)
  have "b div 16 = b mod 16"
    using assms(3) unfolding eq_nibbles_def high_nibble[OF assms(1,2)] and_15 .
  then have b: "b mod 16 * 17 = b" by presburger
  show "short_channel (hd (h1 b)) = b"
    using m b assms by (simp add: short_channel_def mask_255)
  show "hex_map (hd (h1 b)) = Some (b mod 16)" "b mod 16 * 17 = b" by (fact m, fact b)
qed

lemma long_channel_h2:
  assumes "0 \<le> b" "b < 256"
  shows "long_channel (h2 b ! 0) (h2 b ! 1) = b"
proof -
  have hi: "hex_map (h2 b ! 0) = Some (b div 16)"
    using assms hex_map_digits[of "nat (b div 16)"] by (simp add: h2_def high_nibble' nat_less_iff)
  have lo: "hex_map (h2 b ! 1) = Some (b mod 16)"
    using assms(1) by (simp add: h2_def hex_map_digits low_nibble and_15)
  have "push_bit 4 (b div 16) OR b mod 16 = push_bit 4 (b div 16) + b mod 16"
  proof (rule disjunctive_add[symmetric])
    fix n
    show "\<not> bit (push_bit 4 (b div 16)) n \<or> \<not> bit (b mod 16) n"
      by (cases "n < 4") (simp_all add: bit_push_bit_iff bit_take_bit_iff
          take_bit_eq_mod[of 4 b, simplified, symmetric])
  qed
  with hi lo show ?thesis
    by (simp add: long_channel_def push_bit_eq_mult)
qed

definition byte :: "rat \<Rightarrow> bool" where
  "byte v \<longleftrightarrow> (\<exists>n. v = of_int n \<and> 0 \<le> n \<and> n < 256)"

lemma byte_int: "byte v \<Longrightarrow> v = of_int (to_int32 v) \<and> 0 \<le> to_int32 v \<and> to_int32 v < 256"
  by (auto simp: byte_def to_int32_def wrap32_id)

lemma h1_single: "h1 b = [hd (h1 b)]" and h2_pair: "h2 b = [h2 b ! 0, h2 b ! 1]"
  by (simp_all add: h1_def h2_def)

text \<open>
  Printing a colour with byte channels in hexadecimal and parsing it back gives the same
  channels, in the short form (chosen when every channel has two equal digits) and in the long
  one, with and without an alpha.
\<close>

theorem hex_roundtrip:
  assumes "byte (red v)" "byte (green v)" "byte (blue v)" "byte (opacity v)"
  shows "hexParse (hexString v) =
    Some \<lparr>hex_r = to_int32 (red v), hex_g = to_int32 (green v), hex_b = to_int32 (blue v),
          hex_a = Fin (opacity v)\<rparr>"
proof -
  note b = byte_int[OF assms(1)] byte_int[OF assms(2)] byte_int[OF assms(3)] byte_int[OF assms(4)]
  have a255: "opacity v = 255" if "\<not> opacity v < 255"
    using that b(4) by linarith
  show ?thesis
  proof (cases "isShort v")
    case True
    then have e: "eq_nibbles (to_int32 (red v))" "eq_nibbles (to_int32 (green v))"
        "eq_nibbles (to_int32 (blue v))" "eq_nibbles (to_int32 (opacity v))"
      by (simp_all add: isShort_def)
    have str: "hexString v = [CHR ''#'', hd (h1 (to_int32 (red v))), hd (h1 (to_int32 (green v))),
        hd (h1 (to_int32 (blue v)))] @ (if opacity v < 255 then [hd (h1 (to_int32 (opacity v)))] else [])"
      using True h1_single by (simp add: hexString_def Let_def)
    show ?thesis
      unfolding str hexParse_def
      using short_channel_h1[OF _ _ e(1)] short_channel_h1[OF _ _ e(2)] short_channel_h1[OF _ _ e(3)]
        short_channel_h1[OF _ _ e(4)] b a255
      by (auto simp: Let_def)
  next
    case False
    have str: "hexString v = [CHR ''#'', h2 (to_int32 (red v)) ! 0, h2 (to_int32 (red v)) ! 1,
        h2 (to_int32 (green v)) ! 0, h2 (to_int32 (green v)) ! 1,
        h2 (to_int32 (blue v)) ! 0, h2 (to_int32 (blue v)) ! 1] @
        (if opacity v < 255 then [h2 (to_int32 (opacity v)) ! 0, h2 (to_int32 (opacity v)) ! 1] else [])"
      using False h2_pair by (simp add: hexString_def Let_def)
    show ?thesis
      unfolding str hexParse_def
      using long_channel_h2[of "to_int32 (red v)"] long_channel_h2[of "to_int32 (green v)"]
        long_channel_h2[of "to_int32 (blue v)"] long_channel_h2[of "to_int32 (opacity v)"] b a255
      by (auto simp: Let_def)
  qed
qed

theorem hex_roundtrip_witness:
  "hexParse (hexString \<lparr>red = 18, green = 255, blue = 0, opacity = 128\<rparr>) =
     Some \<lparr>hex_r = 18, hex_g = 255, hex_b = 0, hex_a = Fin 128\<rparr>"
proof -
  have b: "byte 18" "byte 255" "byte 0" "byte 128"
    unfolding byte_def
    by (rule exI[of _ 18], simp, rule exI[of _ 255], simp, rule exI[of _ 0], simp,
        rule exI[of _ 128], simp)
  show ?thesis
    using hex_roundtrip[of "\<lparr>red = 18, green = 255, blue = 0, opacity = 128\<rparr>"] b
    by (simp add: to_int32_def trunc_int_def wrap32_def)
qed

subsection \<open>Conversions\<close>

definition hue :: "rat \<Rightarrow> rat" where
  "hue h = js_mod (js_mod h 360 + 360) 360"

definition hsl2rgbn :: "rat \<Rightarrow> rat \<Rightarrow> rat \<Rightarrow> rat list" where
  "hsl2rgbn h s l =
     (let a = s * min l (1 - l);
          f = (\<lambda>n. let k = js_mod (n + h / 30) 12
                   in l - a * max (min (min (k - 3) (9 - k)) 1) (-1))
      in [f 0, f 8, f 4])"

definition hsv2rgbn :: "rat \<Rightarrow> rat \<Rightarrow> rat \<Rightarrow> rat list" where
  "hsv2rgbn h s v =
     (let f = (\<lambda>n. let k = js_mod (n + h / 60) 6
                   in v - v * s * max (min (min k (4 - k)) 1) 0)
      in [f 5, f 3, f 1])"

definition hwb2rgbn :: "rat \<Rightarrow> rat \<Rightarrow> rat \<Rightarrow> rat list" where
  "hwb2rgbn h w b =
     (let rgb = hsl2rgbn h 1 (1 / 2);
          (w, b) = (if w + b > 1 then (w * (1 / (w + b)), b * (1 / (w + b))) else (w, b))
      in map (\<lambda>c. c * (1 - w - b) + w) rgb)"

definition hueValue :: "rat \<Rightarrow> rat \<Rightarrow> rat \<Rightarrow> rat \<Rightarrow> rat \<Rightarrow> rat" where
  "hueValue r g b d mx =
     (if r = mx then (g - b) / d + (if g < b then 6 else 0)
      else if g = mx then (b - r) / d + 2
      else (r - g) / d + 4)"

definition rgb2hsl :: "rgba \<Rightarrow> int \<times> rat \<times> rat" where
  "rgb2hsl v =
     (let r = red v / 255; g = green v / 255; b = blue v / 255;
          mx = max (max r g) b; mn = min (min r g) b;
          l = (mx + mn) / 2
      in if mx \<noteq> mn then
           (let d = mx - mn;
                s = (if l > 1 / 2 then d / (2 - mx - mn) else d / (mx + mn));
                h = hueValue r g b d mx * 60 + 1 / 2
            in (to_int32 h, s, l))
         else (0, 0, l))"

definition hsl2rgb :: "rat \<Rightarrow> rat \<Rightarrow> rat \<Rightarrow> rat list" where
  "hsl2rgb h s l = map n2b (hsl2rgbn h s l)"

definition hwb2rgb :: "rat \<Rightarrow> rat \<Rightarrow> rat \<Rightarrow> rat list" where
  "hwb2rgb h w b = map n2b (hwb2rgbn h w b)"

definition hsv2rgb :: "rat \<Rightarrow> rat \<Rightarrow> rat \<Rightarrow> rat list" where
  "hsv2rgb h s v = map n2b (hsv2rgbn h s v)"

text \<open>\<open>rotate\<close> and \<open>modHSL\<close> write the channels of the colour they are given.\<close>

definition set_rgb :: "rgba \<Rightarrow> rat list \<Rightarrow> rgba" where
  "set_rgb v c = v\<lparr>red := c ! 0, green := c ! 1, blue := c ! 2\<rparr>"

definition rotate :: "rgba \<Rightarrow> rat \<Rightarrow> rgba" where
  "rotate v deg =
     (let (h, s, l) = rgb2hsl v in set_rgb v (hsl2rgb (hue (of_int h + deg)) s l))"

definition scale_component :: "rat \<Rightarrow> rat \<Rightarrow> rat \<Rightarrow> rat" where
  "scale_component x ratio bound = max 0 (min (x + x * ratio) bound)"

definition modHSL :: "rgba \<Rightarrow> nat \<Rightarrow> rat \<Rightarrow> rgba" where
  "modHSL v i ratio =
     (let (h, s, l) = rgb2hsl v;
          h' = (if i = 0 then scale_component (of_int h) ratio 360 else of_int h);
          s' = (if i = 1 then scale_component s ratio 1 else s);
          l' = (if i = 2 then scale_component l ratio 1 else l)
      in set_rgb v (hsl2rgb h' s' l'))"

subsection \<open>The class Color\<close>

definition get_rgb :: "rgba \<Rightarrow> rgba" where
  "get_rgb c = c\<lparr>opacity := b2n (opacity c)\<rparr>"

definition fromObject :: "rgba \<Rightarrow> rgba" where
  "fromObject c = c\<lparr>opacity := n2b (opacity c)\<rparr>"

definition mask_channel :: "rat \<Rightarrow> rat" where
  "mask_channel x = of_int (0xFF AND to_int32 x)"

definition mix :: "rgba \<Rightarrow> rgba \<Rightarrow> rat option \<Rightarrow> rgba" where
  "mix this color weight =
     (let c1 = get_rgb this; c2 = get_rgb color;
          p = (case weight of None \<Rightarrow> 1 / 2 | Some w \<Rightarrow> w);
          w = 2 * p - 1;
          a = opacity c1 - opacity c2;
          w1 = ((if w * a = -1 then w else (w + a) / (1 + w * a)) + 1) / 2;
          w2 = 1 - w1
      in fromObject \<lparr>red = mask_channel (w1 * red c1 + w2 * red c2 + 1 / 2),
                     green = mask_channel (w1 * green c1 + w2 * green c2 + 1 / 2),
                     blue = mask_channel (w1 * blue c1 + w2 * blue c2 + 1 / 2),
                     opacity = p * opacity c1 + (1 - p) * opacity c2\<rparr>)"

definition color_clone :: "rgba \<Rightarrow> rgba" where
  "color_clone c = fromObject (get_rgb c)"

definition alpha :: "rgba \<Rightarrow> rat \<Rightarrow> rgba" where
  "alpha c a = c\<lparr>opacity := n2b a\<rparr>"

definition clearer :: "rgba \<Rightarrow> rat \<Rightarrow> rgba" where
  "clearer c ratio = c\<lparr>opacity := opacity c * (1 - ratio)\<rparr>"

definition greyscale :: "rgba \<Rightarrow> rgba" where
  "greyscale c =
     (let val = of_int (color_round (red c * (3 / 10) + green c * (59 / 100) + blue c * (11 / 100)))
      in c\<lparr>red := val, green := val, blue := val\<rparr>)"

definition opaquer :: "rgba \<Rightarrow> rat \<Rightarrow> rgba" where
  "opaquer c ratio = c\<lparr>opacity := opacity c * (1 + ratio)\<rparr>"

definition negate :: "rgba \<Rightarrow> rgba" where
  "negate c = c\<lparr>red := 255 - red c, green := 255 - green c, blue := 255 - blue c\<rparr>"

definition lighten :: "rgba \<Rightarrow> rat \<Rightarrow> rgba" where
  "lighten c ratio = modHSL c 2 ratio"

definition darken :: "rgba \<Rightarrow> rat \<Rightarrow> rgba" where
  "darken c ratio = modHSL c 2 (- ratio)"

definition saturate :: "rgba \<Rightarrow> rat \<Rightarrow> rgba" where
  "saturate c ratio = modHSL c 1 ratio"

definition desaturate :: "rgba \<Rightarrow> rat \<Rightarrow> rgba" where
  "desaturate c ratio = modHSL c 1 (- ratio)"

subsection \<open>Ranges of the conversions\<close>

lemma hue_range: "0 \<le> hue h \<and> hue h < 360"
  unfolding hue_def by (rule js_mod_nonneg) (use js_mod_lower[of 360 h] in auto)

lemma hueValue_range:
  assumes "mx = max (max r g) b" "mn = min (min r g) b" "mx \<noteq> mn"
  shows "0 \<le> hueValue r g b (mx - mn) mx \<and> hueValue r g b (mx - mn) mx \<le> 6"
proof -
  have d: "0 < mx - mn" and le: "mn \<le> r" "mn \<le> g" "mn \<le> b" "r \<le> mx" "g \<le> mx" "b \<le> mx"
    using assms by (auto simp: max_def min_def split: if_splits)
  have q: "- 1 \<le> (x - y) / (mx - mn) \<and> (x - y) / (mx - mn) \<le> 1"
    if "mn \<le> x" "x \<le> mx" "mn \<le> y" "y \<le> mx" for x y
    using d that by (simp add: divide_le_eq le_divide_eq)
  note gb = q[OF le(2,5) le(3,6)] and br = q[OF le(3,6) le(1,4)] and rg = q[OF le(1,4) le(2,5)]
  have sgn: "g < b \<Longrightarrow> (g - b) / (mx - mn) < 0" "\<not> g < b \<Longrightarrow> 0 \<le> (g - b) / (mx - mn)"
    using d by (simp_all add: divide_less_0_iff)
  have c: "hueValue r g b (mx - mn) mx =
      (if r = mx then (g - b) / (mx - mn) + (if g < b then 6 else 0)
       else if g = mx then (b - r) / (mx - mn) + 2 else (r - g) / (mx - mn) + 4)"
    by (simp add: hueValue_def)
  consider "r = mx" "g < b" | "r = mx" "\<not> g < b" | "r \<noteq> mx" "g = mx" | "r \<noteq> mx" "g \<noteq> mx"
    by blast
  then show ?thesis
  proof cases
    case 1
    then show ?thesis using c gb sgn(1) by simp
  next
    case 2
    then show ?thesis using c gb sgn(2) by simp
  next
    case 3
    then show ?thesis using c br by simp
  next
    case 4
    then show ?thesis using c rg by simp
  qed
qed

text \<open>
  \<open>rgb2hsl\<close> stays in the ranges of its result on every colour with channels between 0 and
  255: a whole hue from 0 to 360, saturation and lightness from 0 to 1 (no division by zero, and
  the 32-bit truncation of the hue never wraps).
\<close>

theorem rgb2hsl_range:
  assumes "0 \<le> red v" "red v \<le> 255" "0 \<le> green v" "green v \<le> 255" "0 \<le> blue v" "blue v \<le> 255"
    and "rgb2hsl v = (h, s, l)"
  shows "0 \<le> h \<and> h \<le> 360 \<and> 0 \<le> s \<and> s \<le> 1 \<and> 0 \<le> l \<and> l \<le> 1"
proof -
  define r g b where rgb: "r = red v / 255" "g = green v / 255" "b = blue v / 255"
  define mx mn where m: "mx = max (max r g) b" "mn = min (min r g) b"
  have rng: "0 \<le> mn" "mn \<le> mx" "mx \<le> 1"
    using assms(1-6) by (auto simp: rgb m)
  have l: "l = (mx + mn) / 2"
    using assms(7) by (auto simp: rgb2hsl_def Let_def rgb m split: if_splits)
  show ?thesis
  proof (cases "mx = mn")
    case True
    with assms(7) have "h = 0" "s = 0"
      by (auto simp: rgb2hsl_def Let_def rgb m split: if_splits)
    with l rng show ?thesis by simp
  next
    case False
    define w where "w = hueValue r g b (mx - mn) mx * 60 + 1 / 2"
    have h: "h = to_int32 w" and s: "s = (if l > 1 / 2 then (mx - mn) / (2 - mx - mn) else (mx - mn) / (mx + mn))"
      using assms(7) False by (auto simp: rgb2hsl_def Let_def rgb m w_def l split: if_splits)
    have w: "0 \<le> w" "w < 361"
      using hueValue_range[OF m False] by (auto simp: w_def)
    then have "0 \<le> \<lfloor>w\<rfloor>" "\<lfloor>w\<rfloor> \<le> 360"
      by (auto simp: floor_le_iff)
    then have "0 \<le> h" "h \<le> 360"
      using w by (auto simp: h to_int32_def trunc_int_nonneg wrap32_id)
    moreover have "0 \<le> s" "s \<le> 1"
      using rng False l by (auto simp: s divide_le_eq)
    ultimately show ?thesis using l rng by simp
  qed
qed

theorem rgb2hsl_range_witness: "0 \<le> fst (rgb2hsl \<lparr>red = 255, green = 0, blue = 128, opacity = 255\<rparr>)"
  using rgb2hsl_range[of "\<lparr>red = 255, green = 0, blue = 128, opacity = 255\<rparr>"]
  by (cases "rgb2hsl \<lparr>red = 255, green = 0, blue = 128, opacity = 255\<rparr>") auto

lemma hsl2rgb_range: "c \<in> set (hsl2rgb h s l) \<Longrightarrow> 0 \<le> c \<and> c \<le> 255"
  using n2b_range by (auto simp: hsl2rgb_def hsl2rgbn_def Let_def)

lemma length_hsl2rgb [simp]: "length (hsl2rgb h s l) = 3"
  by (simp add: hsl2rgb_def hsl2rgbn_def Let_def)

lemma set_rgb_hsl_range:
  "let w = set_rgb v (hsl2rgb h s l) in 0 \<le> red w \<and> red w \<le> 255 \<and> 0 \<le> green w \<and> green w \<le> 255 \<and>
     0 \<le> blue w \<and> blue w \<le> 255 \<and> opacity w = opacity v"
  using hsl2rgb_range[of _ h s l] by (simp add: set_rgb_def Let_def)

lemma negate_involution: "negate (negate c) = c"
  by (simp add: negate_def)

end
