(* ===== verification/ChartOptions.thy ===== *)
theory ChartOptions
  imports ChartCore ChartMath
begin

section \<open>Chart.js 3.9.1: option values, text direction and interpolation\<close>

text \<open>
  The option helpers of \<open>www/root/js/chart_3.9.js\<close>: \<open>toPercentage\<close> and
  \<open>toDimension\<close>, the readers of paddings and corner radii, \<open>resolve\<close>,
  \<open>_addGrace\<close>, the adapters for right-to-left text, the interpolations between two
  points, and \<open>_getStartAndCountOfVisiblePoints\<close>.
\<close>

subsection \<open>Dimensions and paddings\<close>

definition ends_with_percent :: "string \<Rightarrow> bool" where
  "ends_with_percent s \<longleftrightarrow> s \<noteq> [] \<and> last s = CHR ''%''"

definition toPercentage :: "jsval \<Rightarrow> jsnum \<Rightarrow> jsnum" where
  "toPercentage value dimension =
     (case value of
        VStr s \<Rightarrow> if ends_with_percent s then num_div (parseFloat s) (Fin 100)
                  else num_div (str_to_num s) dimension
      | v \<Rightarrow> num_div (to_number v) dimension)"

definition toDimension :: "jsval \<Rightarrow> jsnum \<Rightarrow> jsnum" where
  "toDimension value dimension =
     (case value of
        VStr s \<Rightarrow> if ends_with_percent s then num_mul (num_div (parseFloat s) (Fin 100)) dimension
                  else str_to_num s
      | v \<Rightarrow> to_number v)"

definition numberOrZero :: "jsval \<Rightarrow> jsnum" where
  "numberOrZero v = (let n = to_number v in if n = NaN then Fin 0 else n)"

definition obj_prop :: "jsval obj \<Rightarrow> string \<Rightarrow> jsval" where
  "obj_prop ps k = (case obj_get ps k of Some v \<Rightarrow> v | None \<Rightarrow> VUndef)"

text \<open>
  \<open>props\<close> is a list of names (\<open>Inl\<close>) or an object that gives each name an alias
  (\<open>Inr\<close>).
\<close>

definition readValueToProps :: "jsval \<Rightarrow> string list + (string \<times> string) list \<Rightarrow> (string \<times> jsnum) list" where
  "readValueToProps value prps =
     (let keys = (case prps of Inl ks \<Rightarrow> ks | Inr m \<Rightarrow> obj_keys m);
          rd = (case value of
                  VObj ps \<Rightarrow>
                    (case prps of
                       Inr m \<Rightarrow> (\<lambda>prop. valueOrDefault (obj_prop ps prop) (obj_prop ps (the (obj_get m prop))))
                     | Inl _ \<Rightarrow> (\<lambda>prop. obj_prop ps prop))
                | _ \<Rightarrow> (\<lambda>_. value))
      in foldl (\<lambda>ret prop. obj_set ret prop (numberOrZero (rd prop))) [] keys)"

definition toTRBL :: "jsval \<Rightarrow> (string \<times> jsnum) list" where
  "toTRBL value =
     readValueToProps value
       (Inr [(''top'', ''y''), (''right'', ''x''), (''bottom'', ''y''), (''left'', ''x'')])"

definition toTRBLCorners :: "jsval \<Rightarrow> (string \<times> jsnum) list" where
  "toTRBLCorners value =
     readValueToProps value (Inl [''topLeft'', ''topRight'', ''bottomLeft'', ''bottomRight''])"

definition side :: "(string \<times> jsnum) list \<Rightarrow> string \<Rightarrow> jsnum" where
  "side ps k = (case obj_get ps k of Some n \<Rightarrow> n | None \<Rightarrow> NaN)"

definition toPadding :: "jsval \<Rightarrow> (string \<times> jsnum) list" where
  "toPadding value =
     (let o1 = toTRBL value;
          o2 = obj_set o1 ''width'' (num_add (side o1 ''left'') (side o1 ''right''))
      in obj_set o2 ''height'' (num_add (side o2 ''top'') (side o2 ''bottom'')))"

lemma toTRBL_keys: "obj_keys (toTRBL value) = [''top'', ''right'', ''bottom'', ''left'']"
  by (cases "value") (simp_all add: toTRBL_def readValueToProps_def Let_def)

lemma toTRBL_scalar:
  "\<not> isObject value \<Longrightarrow> k \<in> {''top'', ''right'', ''bottom'', ''left''} \<Longrightarrow>
   side (toTRBL value) k = numberOrZero value"
  by (cases "value") (auto simp: toTRBL_def readValueToProps_def side_def Let_def)

lemma toTRBL_object:
  "side (toTRBL (VObj ps)) ''top'' = numberOrZero (valueOrDefault (obj_prop ps ''top'') (obj_prop ps ''y''))"
  "side (toTRBL (VObj ps)) ''bottom'' = numberOrZero (valueOrDefault (obj_prop ps ''bottom'') (obj_prop ps ''y''))"
  "side (toTRBL (VObj ps)) ''left'' = numberOrZero (valueOrDefault (obj_prop ps ''left'') (obj_prop ps ''x''))"
  "side (toTRBL (VObj ps)) ''right'' = numberOrZero (valueOrDefault (obj_prop ps ''right'') (obj_prop ps ''x''))"
  by (simp_all add: toTRBL_def readValueToProps_def side_def Let_def)

lemma toPadding_sides:
  "k \<in> {''top'', ''right'', ''bottom'', ''left''} \<Longrightarrow> side (toPadding value) k = side (toTRBL value) k"
  "side (toPadding value) ''width'' = num_add (side (toTRBL value) ''left'') (side (toTRBL value) ''right'')"
  "side (toPadding value) ''height'' = num_add (side (toTRBL value) ''top'') (side (toTRBL value) ''bottom'')"
  by (auto simp: toPadding_def side_def Let_def)

subsection \<open>Resolving a value among candidates\<close>

text \<open>
  \<open>call f\<close> is the result of a scriptable option on the given context; the flag of the
  result tells whether the value may be cached.
\<close>

definition array_at :: "jsval list \<Rightarrow> nat \<Rightarrow> jsval" where
  "array_at xs i = (if xs = [] then VUndef else xs ! (i mod length xs))"

fun resolve_loop :: "(nat \<Rightarrow> jsval) option \<Rightarrow> nat option \<Rightarrow> bool \<Rightarrow> jsval list \<Rightarrow> jsval \<times> bool" where
  "resolve_loop call index cacheable [] = (VUndef, True)"
| "resolve_loop call index cacheable (v # inputs) =
     (if v = VUndef then resolve_loop call index cacheable inputs
      else
        (let (v1, c1) = (case (call, v) of (Some f, VFun t) \<Rightarrow> (f t, False) | _ \<Rightarrow> (v, cacheable));
             (v2, c2) = (case (index, v1) of (Some i, VArr xs) \<Rightarrow> (array_at xs i, False) | _ \<Rightarrow> (v1, c1))
         in if v2 \<noteq> VUndef then (v2, c2) else resolve_loop call index c2 inputs))"

definition resolve_info :: "jsval list \<Rightarrow> (nat \<Rightarrow> jsval) option \<Rightarrow> nat option \<Rightarrow> jsval \<times> bool" where
  "resolve_info inputs call index = resolve_loop call index True inputs"

text \<open>The call without a context and an index: the first defined input.\<close>

definition resolve :: "jsval list \<Rightarrow> jsval" where
  "resolve inputs = fst (resolve_info inputs None None)"

lemma resolve_loop_plain:
  "resolve_loop None None c inputs =
     (case find (\<lambda>v. v \<noteq> VUndef) inputs of None \<Rightarrow> (VUndef, True) | Some v \<Rightarrow> (v, c))"
  by (induction inputs) auto

lemma resolve_find:
  "resolve inputs = (case find (\<lambda>v. v \<noteq> VUndef) inputs of None \<Rightarrow> VUndef | Some v \<Rightarrow> v)"
  by (auto simp: resolve_def resolve_info_def resolve_loop_plain split: option.splits)

lemma resolve_Cons [js_simps]:
  "resolve [] = VUndef" "resolve (v # vs) = (if v = VUndef then resolve vs else v)"
  by (simp_all add: resolve_find)

lemma resolve_loop_False: "snd (resolve_loop call index False inputs) \<longrightarrow> fst (resolve_loop call index False inputs) = VUndef"
  by (induction inputs) (auto simp: Let_def split: option.splits jsval.splits)

text \<open>A value reported as cacheable is one of the inputs itself, used as it is.\<close>

lemma resolve_cacheable:
  "resolve_info inputs call index = (v, True) \<Longrightarrow> v \<noteq> VUndef \<Longrightarrow> v \<in> set inputs"
  unfolding resolve_info_def
proof (induction inputs)
  case Nil
  then show ?case by simp
next
  case (Cons x inputs)
  have "resolve_loop call index False inputs \<noteq> (v, True)"
    using resolve_loop_False[of call index inputs] Cons.prems(2) by force
  with Cons show ?case
    by (auto simp: Let_def split: if_splits option.splits jsval.splits)
qed

subsection \<open>Grace\<close>

definition addGrace :: "jsnum \<Rightarrow> jsnum \<Rightarrow> jsval \<Rightarrow> bool \<Rightarrow> jsnum \<times> jsnum" where
  "addGrace mn mx grace beginAtZero =
     (let change = toDimension grace (num_div (num_sub mx mn) (Fin 2));
          keepZero = (\<lambda>value add. if beginAtZero \<and> value = Fin 0 then Fin 0 else num_add value add)
      in (keepZero mn (num_neg (num_abs change)), keepZero mx change))"

lemma addGrace_widens:
  assumes "mn \<le> mx" "to_number grace = Fin g" "0 \<le> g" "\<And>s. grace \<noteq> VStr s"
  shows "\<exists>lo hi. addGrace (Fin mn) (Fin mx) grace b = (Fin lo, Fin hi) \<and> lo \<le> mn \<and> mx \<le> hi"
proof -
  have "toDimension grace d = Fin g" for d
    using assms(2,4) by (cases grace) (auto simp: toDimension_def)
  with assms(1,3) show ?thesis
    by (auto simp: addGrace_def Let_def)
qed

subsection \<open>Alignment and text direction\<close>

definition toLeftRightCenter :: "string \<Rightarrow> string" where
  "toLeftRightCenter align =
     (if align = ''start'' then ''left'' else if align = ''end'' then ''right'' else ''center'')"

definition alignStartEnd :: "string \<Rightarrow> rat \<Rightarrow> rat \<Rightarrow> rat" where
  "alignStartEnd align s e =
     (if align = ''start'' then s else if align = ''end'' then e else (s + e) / 2)"

definition textX :: "string \<Rightarrow> rat \<Rightarrow> rat \<Rightarrow> bool \<Rightarrow> rat" where
  "textX align left right rtl =
     (let check = (if rtl then ''left'' else ''right'')
      in if align = check then right else if align = ''center'' then (left + right) / 2 else left)"

text \<open>The adapters: a state (the width of the right-to-left one can be set) and its methods.\<close>

datatype adapter = RightToLeft rat rat | LeftToRight

definition getRtlAdapter :: "bool \<Rightarrow> rat \<Rightarrow> rat \<Rightarrow> adapter" where
  "getRtlAdapter rtl rectX width = (if rtl then RightToLeft rectX width else LeftToRight)"

fun adapter_x :: "adapter \<Rightarrow> rat \<Rightarrow> rat" where
  "adapter_x (RightToLeft rectX width) x = rectX + rectX + width - x"
| "adapter_x LeftToRight x = x"

fun adapter_setWidth :: "adapter \<Rightarrow> rat \<Rightarrow> adapter" where
  "adapter_setWidth (RightToLeft rectX width) w = RightToLeft rectX w"
| "adapter_setWidth LeftToRight w = LeftToRight"

fun adapter_textAlign :: "adapter \<Rightarrow> string \<Rightarrow> string" where
  "adapter_textAlign (RightToLeft rectX width) align =
     (if align = ''center'' then align else if align = ''right'' then ''left'' else ''right'')"
| "adapter_textAlign LeftToRight align = align"

fun adapter_xPlus :: "adapter \<Rightarrow> rat \<Rightarrow> rat \<Rightarrow> rat" where
  "adapter_xPlus (RightToLeft rectX width) x value = x - value"
| "adapter_xPlus LeftToRight x value = x + value"

fun adapter_leftForLtr :: "adapter \<Rightarrow> rat \<Rightarrow> rat \<Rightarrow> rat" where
  "adapter_leftForLtr (RightToLeft rectX width) x itemWidth = x - itemWidth"
| "adapter_leftForLtr LeftToRight x itemWidth = x"

text \<open>
  What the title, the legend and the tooltip rely on: the position map undoes itself and turns
  the adapter's addition into addition, so that laying out in adapter coordinates and mapping
  back is laying out left to right.
\<close>

locale text_direction =
  fixes pos :: "'a \<Rightarrow> rat \<Rightarrow> rat"
    and plus :: "'a \<Rightarrow> rat \<Rightarrow> rat \<Rightarrow> rat"
    and left_of :: "'a \<Rightarrow> rat \<Rightarrow> rat \<Rightarrow> rat"
  assumes pos_pos: "pos a (pos a x) = x"
    and pos_plus: "pos a (plus a x v) = pos a x + v"
    and left_range: "left_of a x w \<le> max x (plus a x w)" "min x (plus a x w) \<le> left_of a x w"
begin

lemma pos_inj: "pos a x = pos a y \<longleftrightarrow> x = y"
  by (metis pos_pos)

lemma plus_pos: "plus a (pos a x) v = pos a (x + v)"
  by (metis pos_pos pos_plus)

lemma plus_plus: "plus a (plus a x v) w = plus a x (v + w)"
  by (metis pos_plus pos_inj add.assoc)

lemma plus_comm: "plus a (plus a x v) w = plus a (plus a x w) v"
  by (simp add: plus_plus add.commute)

end

interpretation rtl: text_direction adapter_x adapter_xPlus adapter_leftForLtr
proof unfold_locales
  fix a :: adapter and x v w :: rat
  show "adapter_x a (adapter_x a x) = x" by (cases a) simp_all
  show "adapter_x a (adapter_xPlus a x v) = adapter_x a x + v" by (cases a) simp_all
  show "adapter_leftForLtr a x w \<le> max x (adapter_xPlus a x w)"
    by (cases a) (simp_all add: max_def)
  show "min x (adapter_xPlus a x w) \<le> adapter_leftForLtr a x w"
    by (cases a) (simp_all add: min_def)
qed

subsection \<open>Interpolation between points\<close>

record point =
  pt_x :: rat
  pt_y :: rat

record bezier_point = point +
  cp1x :: rat
  cp1y :: rat
  cp2x :: rat
  cp2y :: rat

definition pointInLine :: "'a point_scheme \<Rightarrow> 'b point_scheme \<Rightarrow> rat \<Rightarrow> point" where
  "pointInLine p1 p2 t =
     \<lparr>pt_x = pt_x p1 + t * (pt_x p2 - pt_x p1), pt_y = pt_y p1 + t * (pt_y p2 - pt_y p1)\<rparr>"

definition steppedInterpolation :: "'a point_scheme \<Rightarrow> 'b point_scheme \<Rightarrow> rat \<Rightarrow> string \<Rightarrow> point" where
  "steppedInterpolation p1 p2 t mode =
     \<lparr>pt_x = pt_x p1 + t * (pt_x p2 - pt_x p1),
      pt_y = (if mode = ''middle'' then (if t < 1 / 2 then pt_y p1 else pt_y p2)
              else if mode = ''after'' then (if t < 1 then pt_y p1 else pt_y p2)
              else if t > 0 then pt_y p2 else pt_y p1)\<rparr>"

definition bezierInterpolation :: "bezier_point \<Rightarrow> bezier_point \<Rightarrow> rat \<Rightarrow> point" where
  "bezierInterpolation p1 p2 t =
     (let c1 = \<lparr>pt_x = cp2x p1, pt_y = cp2y p1\<rparr>;
          c2 = \<lparr>pt_x = cp1x p2, pt_y = cp1y p2\<rparr>;
          a = pointInLine p1 c1 t;
          b = pointInLine c1 c2 t;
          c = pointInLine c2 p2 t;
          d = pointInLine a b t;
          e = pointInLine b c t
      in pointInLine d e t)"

text \<open>Every interpolation starts at the first point and ends at the second.\<close>

lemma interpolation_ends:
  "pointInLine p1 p2 0 = \<lparr>pt_x = pt_x p1, pt_y = pt_y p1\<rparr>"
  "pointInLine p1 p2 1 = \<lparr>pt_x = pt_x p2, pt_y = pt_y p2\<rparr>"
  "steppedInterpolation p1 p2 0 mode = \<lparr>pt_x = pt_x p1, pt_y = pt_y p1\<rparr>"
  "steppedInterpolation p1 p2 1 mode = \<lparr>pt_x = pt_x p2, pt_y = pt_y p2\<rparr>"
  "bezierInterpolation b1 b2 0 = \<lparr>pt_x = pt_x b1, pt_y = pt_y b1\<rparr>"
  "bezierInterpolation b1 b2 1 = \<lparr>pt_x = pt_x b2, pt_y = pt_y b2\<rparr>"
  by (simp_all add: pointInLine_def steppedInterpolation_def bezierInterpolation_def Let_def)

subsection \<open>The visible part of a data set\<close>

text \<open>
  The fields of \<open>meta\<close> that \<open>_getStartAndCountOfVisiblePoints\<close> reads: the parsed values
  and the points along the index axis, the user bounds and the pixel of a value.
\<close>

record visible_meta =
  vm_sorted :: bool
  vm_parsed :: "rat list"
  vm_pixels :: "rat list"
  vm_min :: rat
  vm_max :: rat
  vm_minDefined :: bool
  vm_maxDefined :: bool

definition getStartAndCount :: "visible_meta \<Rightarrow> (rat \<Rightarrow> rat) \<Rightarrow> bool \<Rightarrow> int \<times> int" where
  "getStartAndCount meta getPixelForValue animationsDisabled =
     (let pointCount = int (length (vm_pixels meta)) in
      if vm_sorted meta then
        (let start = (if vm_minDefined meta then
                        limitIndex (min (fst (lookupByKey (\<lambda>v. v) (vm_parsed meta) (vm_min meta) False))
                                     (if animationsDisabled then pointCount
                                      else fst (lookupByKey (\<lambda>v. v) (vm_pixels meta)
                                                  (getPixelForValue (vm_min meta)) False)))
                          0 (pointCount - 1)
                      else 0);
             count = (if vm_maxDefined meta then
                        limitIndex (max (snd (lookupByKey (\<lambda>v. v) (vm_parsed meta) (vm_max meta) True) + 1)
                                     (if animationsDisabled then 0
                                      else snd (lookupByKey (\<lambda>v. v) (vm_pixels meta)
                                                  (getPixelForValue (vm_max meta)) True) + 1))
                          start pointCount - start
                      else pointCount - start)
         in (start, count))
      else (0, pointCount))"

lemma id_key [simp]:
  "lookupByKey (\<lambda>v. v) t v False = lookup t v"
  "lookupByKey (\<lambda>v. v) t v True = lookup_cmp (length t) (\<lambda>i. t ! nat i \<le> v)"
  using lookupByKey_map[of "\<lambda>v. v" t v] by simp_all

lemma start_below:
  assumes "sorted t" "i < length t" "int i < fst (lookup t v)"
  shows "t ! i < v"
  using plain_probe.below[of t v "fst (lookup t v)" "snd (lookup t v)" "int i"] assms
  by (cases t) (simp_all add: lookup_def)

lemma stop_above:
  fixes t :: "rat list"
  assumes "sorted t" "i < length t" "snd (lookup_cmp (length t) (\<lambda>i. t ! nat i \<le> v)) < int i"
  shows "v < t ! i"
  using last_probe.above[of t v "fst (lookup_cmp (length t) (\<lambda>i. t ! nat i \<le> v))"
      "snd (lookup_cmp (length t) (\<lambda>i. t ! nat i \<le> v))" "int i"] assms
  by (cases t) simp_all

text \<open>
  The visible window of a sorted data set is inside the data and misses no visible point:
  whatever the pixels say and whether or not animations run, every point whose parsed value
  lies between the user bounds has its index in the window.
\<close>

theorem visible_window:
  assumes "sorted (vm_parsed meta)" "length (vm_pixels meta) = length (vm_parsed meta)"
    and "getStartAndCount meta px anim = (start, cnt)"
  shows "0 \<le> start \<and> 0 \<le> cnt \<and> start + cnt \<le> int (length (vm_parsed meta)) \<and>
    (\<forall>i < length (vm_parsed meta).
       (vm_minDefined meta \<longrightarrow> vm_min meta \<le> vm_parsed meta ! i) \<and>
       (vm_maxDefined meta \<longrightarrow> vm_parsed meta ! i \<le> vm_max meta) \<longrightarrow>
       start \<le> int i \<and> int i < start + cnt)"
proof -
  define n where "n = int (length (vm_parsed meta))"
  define lo where "lo = fst (lookup (vm_parsed meta) (vm_min meta))"
  define hi where "hi = snd (lookup_cmp (length (vm_parsed meta)) (\<lambda>i. vm_parsed meta ! nat i \<le> vm_max meta))"
  have n0: "0 \<le> n" by (simp add: n_def)
  have lo: "vm_parsed meta ! i < vm_min meta" if "int i < n" "int i < lo" for i
    using start_below[OF assms(1)] that by (simp add: n_def lo_def)
  have hi: "vm_max meta < vm_parsed meta ! i" if "int i < n" "hi < int i" for i
    using stop_above[OF assms(1)] that by (simp add: n_def hi_def)
  obtain x where start: "start = (if vm_sorted meta \<and> vm_minDefined meta then limitIndex (min lo x) 0 (n - 1) else 0)"
    using assms(2,3) by (auto simp: getStartAndCount_def Let_def lo_def n_def split: if_splits)
  obtain y where stop: "start + cnt =
      (if vm_sorted meta \<and> vm_maxDefined meta then limitIndex (max (hi + 1) y) start n else n)"
    using assms(2,3) by (auto simp: getStartAndCount_def Let_def hi_def n_def split: if_splits)
  have s: "0 \<le> start" "start \<le> n" "start \<le> max 0 lo \<or> \<not> (vm_sorted meta \<and> vm_minDefined meta)"
      "vm_sorted meta \<and> vm_minDefined meta \<or> start = 0"
    using n0 by (auto simp: start limitIndex_def)
  have e: "start \<le> start + cnt" "start + cnt \<le> n"
      "vm_sorted meta \<and> vm_maxDefined meta \<longrightarrow> min n (hi + 1) \<le> start + cnt"
      "vm_sorted meta \<and> vm_maxDefined meta \<or> start + cnt = n"
    using s by (auto simp: stop limitIndex_def)
  have "start \<le> int i \<and> int i < start + cnt"
    if i: "int i < n" "vm_minDefined meta \<longrightarrow> vm_min meta \<le> vm_parsed meta ! i"
      "vm_maxDefined meta \<longrightarrow> vm_parsed meta ! i \<le> vm_max meta" for i
  proof
    show "start \<le> int i"
      using lo[OF i(1)] i(2) s by (cases "int i < lo") auto
    show "int i < start + cnt"
      using hi[OF i(1)] i(1,3) e by (cases "hi < int i") auto
  qed
  with s e show ?thesis by (simp add: n_def)
qed

theorem visible_window_witness:
  "\<exists>start cnt. getStartAndCount \<lparr>vm_sorted = True, vm_parsed = [1, 3, 5, 9], vm_pixels = [10, 30, 50, 90],
     vm_min = 2, vm_max = 6, vm_minDefined = True, vm_maxDefined = True\<rparr> (\<lambda>v. v * 10) False = (start, cnt)
     \<and> start \<le> 1 \<and> 2 < start + cnt \<and> start + cnt \<le> 4"
proof -
  let ?m = "\<lparr>vm_sorted = True, vm_parsed = [1, 3, 5, 9], vm_pixels = [10, 30, 50, 90],
     vm_min = 2, vm_max = 6, vm_minDefined = True, vm_maxDefined = True\<rparr>"
  obtain s c where sc: "getStartAndCount ?m (\<lambda>v. v * 10) False = (s, c)" by fastforce
  have all: "\<forall>i < 4. (2 \<le> [1, 3, 5, 9 :: rat] ! i \<and> [1, 3, 5, 9] ! i \<le> (6 :: rat)) \<longrightarrow> s \<le> int i \<and> int i < s + c"
    and le: "s + c \<le> 4"
    using visible_window[OF _ _ sc] by simp_all
  have "s \<le> int 1" using all[rule_format, of 1] by simp
  moreover have "int 2 < s + c" using all[rule_format, of 2] by simp
  ultimately show ?thesis using sc le by auto
qed

end
