(* ===== verification/ChartAnimator.thy ===== *)
theory ChartAnimator
  imports ChartOptions
begin

section \<open>Chart.js 3.9.1: animations\<close>

text \<open>
  The classes \<open>Animation\<close>, \<open>Animations\<close> and \<open>Animator\<close> of
  \<open>www/root/js/chart_3.9.js\<close>.  Animations and the objects they animate live in a store and
  are named by their index in it, because the animator's list, the table \<open>$animations\<close> of a
  target and the continuations of promises share them.  The interpolators and the easing
  functions are parameters (\<open>anim_env\<close>); so is the clock, the date of every call.  Callbacks
  are recorded in a log: a callback that calls back into the animator is not modelled.
\<close>

subsection \<open>State\<close>

datatype interpolator = CustomFn nat | NamedFn string

record anim_env =
  env_fn :: "interpolator \<Rightarrow> jsval \<Rightarrow> jsval \<Rightarrow> jsnum \<Rightarrow> jsval"
  env_ease :: "string \<Rightarrow> jsnum \<Rightarrow> jsnum"

text \<open>The animation options after \<open>configure\<close>; \<open>cfg_duration\<close> is \<open>NaN\<close> when unset,
  \<open>cfg_delay\<close> zero.\<close>

record anim_cfg =
  cfg_delay :: rat
  cfg_duration :: jsnum
  cfg_easing :: string
  cfg_fn :: "nat option"
  cfg_from :: jsval
  cfg_loop :: bool
  cfg_to :: jsval
  cfg_type :: string

record animation =
  an_active :: bool
  an_fn :: interpolator
  an_easing :: string
  an_start :: rat
  an_duration :: jsnum
  an_total :: jsnum
  an_loop :: bool
  an_target :: nat
  an_prop :: string
  an_from :: jsval
  an_to :: jsval
  an_promises :: "nat list"

text \<open>An animated object: its values, \<open>$animations\<close>, \<open>$shared\<close>, and the reference
  \<open>options\<close>.\<close>

record target_obj =
  t_props :: "(string \<times> jsval) list"
  t_running :: "(string \<times> nat) list"
  t_shared :: bool
  t_options :: "nat option"

record anim_world =
  anims :: "animation list"
  objs :: "target_obj list"
  settled :: "bool option list"
  awaiting :: "(nat list \<times> nat \<times> nat) list"

definition get_value :: "anim_world \<Rightarrow> nat \<Rightarrow> string \<Rightarrow> jsval" where
  "get_value w t p = obj_prop (t_props (objs w ! t)) p"

definition set_value :: "nat \<Rightarrow> string \<Rightarrow> jsval \<Rightarrow> anim_world \<Rightarrow> anim_world" where
  "set_value t p v w = w\<lparr>objs := (objs w)[t := (objs w ! t)\<lparr>t_props := obj_set (t_props (objs w ! t)) p v\<rparr>]\<rparr>"

definition put_anim :: "nat \<Rightarrow> animation \<Rightarrow> anim_world \<Rightarrow> anim_world" where
  "put_anim a an w = w\<lparr>anims := (anims w)[a := an]\<rparr>"

subsection \<open>The class Animation\<close>

text \<open>A promise settles once: later calls of its functions have no effect.\<close>

definition settle :: "bool \<Rightarrow> bool option list \<Rightarrow> nat \<Rightarrow> bool option list" where
  "settle resolved ps p = (if ps ! p = None then ps[p := Some resolved] else ps)"

definition anim_notify :: "nat \<Rightarrow> bool \<Rightarrow> anim_world \<Rightarrow> anim_world" where
  "anim_notify a resolved w = w\<lparr>settled := foldl (settle resolved) (settled w) (an_promises (anims w ! a))\<rparr>"

definition new_animation :: "anim_cfg \<Rightarrow> nat \<Rightarrow> string \<Rightarrow> jsval \<Rightarrow> rat \<Rightarrow> anim_world \<Rightarrow> nat \<times> anim_world" where
  "new_animation cfg target p to date w =
     (let currentValue = get_value w target p;
          to' = resolve [cfg_to cfg, to, currentValue, cfg_from cfg];
          from = resolve [cfg_from cfg, currentValue, to'];
          an = \<lparr>an_active = True,
                an_fn = (case cfg_fn cfg of Some f \<Rightarrow> CustomFn f
                         | None \<Rightarrow> NamedFn (if cfg_type cfg \<noteq> [] then cfg_type cfg else js_typeof from)),
                an_easing = cfg_easing cfg,
                an_start = of_int \<lfloor>date + cfg_delay cfg\<rfloor>,
                an_duration = num_floor (cfg_duration cfg), an_total = num_floor (cfg_duration cfg),
                an_loop = cfg_loop cfg, an_target = target, an_prop = p,
                an_from = from, an_to = to', an_promises = []\<rparr>
      in (length (anims w), w\<lparr>anims := anims w @ [an]\<rparr>))"

definition anim_update :: "nat \<Rightarrow> anim_cfg \<Rightarrow> jsval \<Rightarrow> rat \<Rightarrow> anim_world \<Rightarrow> anim_world" where
  "anim_update a cfg to date w =
     (if an_active (anims w ! a) then
        (let w = anim_notify a False w;
             an = anims w ! a;
             currentValue = get_value w (an_target an) (an_prop an);
             elapsed = date - an_start an;
             remain = num_sub (an_duration an) (Fin elapsed);
             to' = resolve [cfg_to cfg, to, currentValue, cfg_from cfg];
             from = resolve [cfg_from cfg, currentValue, to']
         in put_anim a (an\<lparr>an_start := date,
                           an_duration := num_floor (num_max remain (cfg_duration cfg)),
                           an_total := num_add (an_total an) (Fin elapsed),
                           an_loop := cfg_loop cfg, an_to := to', an_from := from\<rparr>) w)
      else w)"

definition still_active :: "rat \<Rightarrow> animation \<Rightarrow> bool" where
  "still_active date an \<longleftrightarrow>
     \<not> strict_eq (an_from an) (an_to an) \<and> (an_loop an \<or> num_less (Fin (date - an_start an)) (an_duration an))"

definition anim_factor :: "anim_env \<Rightarrow> rat \<Rightarrow> animation \<Rightarrow> jsnum" where
  "anim_factor env date an =
     (let factor = num_mod (num_div (Fin (date - an_start an)) (an_duration an)) (Fin 2);
          factor = (if an_loop an \<and> num_less (Fin 1) factor then num_sub (Fin 2) factor else factor)
      in env_ease env (an_easing an) (num_min (Fin 1) (num_max (Fin 0) factor)))"

definition tick :: "anim_env \<Rightarrow> rat \<Rightarrow> nat \<Rightarrow> anim_world \<Rightarrow> anim_world" where
  "tick env date a w =
     (let an = anims w ! a; act = still_active date an; w = put_anim a (an\<lparr>an_active := act\<rparr>) w in
      if \<not> act then anim_notify a True (set_value (an_target an) (an_prop an) (an_to an) w)
      else if date - an_start an < 0 then set_value (an_target an) (an_prop an) (an_from an) w
      else set_value (an_target an) (an_prop an)
             (env_fn env (an_fn an) (an_from an) (an_to an) (anim_factor env date an)) w)"

definition cancel :: "anim_env \<Rightarrow> rat \<Rightarrow> nat \<Rightarrow> anim_world \<Rightarrow> anim_world" where
  "cancel env date a w =
     (if an_active (anims w ! a) then
        (let w = tick env date a w;
             w = put_anim a ((anims w ! a)\<lparr>an_active := False\<rparr>) w
         in anim_notify a False w)
      else w)"

definition anim_wait :: "nat \<Rightarrow> anim_world \<Rightarrow> nat \<times> anim_world" where
  "anim_wait a w =
     (let p = length (settled w); an = anims w ! a in
      (p, put_anim a (an\<lparr>an_promises := an_promises an @ [p]\<rparr>) (w\<lparr>settled := settled w @ [None]\<rparr>)))"

subsection \<open>The class Animations\<close>

text \<open>The new values for a target; \<open>options\<close> is a reference or falsy.\<close>

datatype new_value = Plain jsval | NewOptions "nat option"

definition awaitAll :: "(string \<times> nat) list \<Rightarrow> string list \<Rightarrow> anim_world \<Rightarrow> nat list \<times> anim_world" where
  "awaitAll running keys w =
     foldl (\<lambda>(ps, w) key. case obj_get running key of
              Some a \<Rightarrow> if an_active (anims w ! a) then (let (p, w') = anim_wait a w in (ps @ [p], w')) else (ps, w)
            | None \<Rightarrow> (ps, w)) ([], w) keys"

definition resolveTargetOptions :: "nat \<Rightarrow> nat option \<Rightarrow> anim_world \<Rightarrow> nat option \<times> anim_world" where
  "resolveTargetOptions target newOptions w =
     (case newOptions of
        None \<Rightarrow> (None, w)
      | Some n \<Rightarrow>
          (case t_options (objs w ! target) of
             None \<Rightarrow> (None, w\<lparr>objs := (objs w)[target := (objs w ! target)\<lparr>t_options := Some n\<rparr>]\<rparr>)
           | Some opts \<Rightarrow>
               if t_shared (objs w ! opts) then
                 (let c = length (objs w);
                      copy = (objs w ! opts)\<lparr>t_shared := False, t_running := []\<rparr>
                  in (Some c, w\<lparr>objs := (objs w)[target := (objs w ! target)\<lparr>t_options := Some c\<rparr>] @ [copy]\<rparr>))
               else (Some opts, w)))"

definition truthy_num :: "jsnum \<Rightarrow> bool" where
  "truthy_num n \<longleftrightarrow> n \<noteq> NaN \<and> n \<noteq> Fin 0"

text \<open>The new animation for one property of a target, or the direct assignment.\<close>

definition start_animation ::
  "anim_cfg option \<Rightarrow> rat \<Rightarrow> nat \<Rightarrow> string \<Rightarrow> jsval \<Rightarrow> nat list \<times> anim_world \<Rightarrow> nat list \<times> anim_world" where
  "start_animation cfg date target p v st =
     (let (created, w) = st in
      case cfg of
        None \<Rightarrow> (created, set_value target p v w)
      | Some c \<Rightarrow>
          if \<not> truthy_num (cfg_duration c) then (created, set_value target p v w)
          else (let (a, w') = new_animation c target p v date w in
                (created @ [a],
                 w'\<lparr>objs := (objs w')[target := (objs w' ! target)\<lparr>t_running := obj_set (t_running (objs w' ! target)) p a\<rparr>]\<rparr>)))"

definition create_one ::
  "anim_env \<Rightarrow> (string \<times> anim_cfg) list \<Rightarrow> rat \<Rightarrow> nat \<Rightarrow> string \<Rightarrow> jsval \<Rightarrow>
   nat list \<times> anim_world \<Rightarrow> nat list \<times> anim_world" where
  "create_one env animated date target p v st =
     (let (created, w) = st; cfg = obj_get animated p in
      case obj_get (t_running (objs w ! target)) p of
        None \<Rightarrow> start_animation cfg date target p v (created, w)
      | Some a \<Rightarrow>
          (case cfg of
             Some c \<Rightarrow> if an_active (anims w ! a) then (created, anim_update a c v date w)
                       else start_animation cfg date target p v (created, cancel env date a w)
           | None \<Rightarrow> start_animation cfg date target p v (created, cancel env date a w)))"

definition private_name :: "string \<Rightarrow> bool" where
  "private_name p \<longleftrightarrow> p \<noteq> [] \<and> hd p = CHR ''$''"

text \<open>\<open>_createAnimations\<close> on plain values, from the last key to the first.\<close>

definition create_plain ::
  "anim_env \<Rightarrow> (string \<times> anim_cfg) list \<Rightarrow> rat \<Rightarrow> nat \<Rightarrow> (string \<times> jsval) list \<Rightarrow>
   nat list \<times> anim_world \<Rightarrow> nat list \<times> anim_world" where
  "create_plain env animated date target vals st =
     foldr (\<lambda>kv st. if private_name (fst kv) then st
                    else create_one env animated date target (fst kv) (snd kv) st) vals st"

definition animateOptions ::
  "anim_env \<Rightarrow> (string \<times> anim_cfg) list \<Rightarrow> rat \<Rightarrow> nat \<Rightarrow> nat option \<Rightarrow>
   nat list \<times> anim_world \<Rightarrow> nat list \<times> anim_world" where
  "animateOptions env animated date target newOptions st =
     (let (created, w) = st; (opts, w) = resolveTargetOptions target newOptions w in
      case (opts, newOptions) of
        (Some t, Some n) \<Rightarrow>
          (let (created, w) = create_plain env animated date t (t_props (objs w ! n)) (created, w) in
           if t_shared (objs w ! n) then
             (let (ps, w) = awaitAll (t_running (objs w ! t)) (obj_keys (t_props (objs w ! n))) w
              in (created, w\<lparr>awaiting := awaiting w @ [(ps, target, n)]\<rparr>))
           else (created, w))
      | _ \<Rightarrow> (created, w))"

definition createAnimations ::
  "anim_env \<Rightarrow> (string \<times> anim_cfg) list \<Rightarrow> rat \<Rightarrow> nat \<Rightarrow> (string \<times> new_value) list \<Rightarrow>
   nat list \<times> anim_world \<Rightarrow> nat list \<times> anim_world" where
  "createAnimations env animated date target vals st =
     foldr (\<lambda>kv st. if private_name (fst kv) then st
                    else (case snd kv of
                            NewOptions n \<Rightarrow> animateOptions env animated date target n st
                          | Plain v \<Rightarrow> create_one env animated date target (fst kv) v st)) vals st"

text \<open>A continuation of \<open>awaitAll\<close>: when all its promises are resolved, the shared options
  are put back.\<close>

definition run_await :: "anim_world \<Rightarrow> nat list \<times> nat \<times> nat \<Rightarrow> anim_world" where
  "run_await w c =
     (let (ps, target, n) = c in
      if list_all (\<lambda>p. settled w ! p = Some True) ps
      then w\<lparr>objs := (objs w)[target := (objs w ! target)\<lparr>t_options := Some n\<rparr>]\<rparr>
      else w)"

text \<open>The table of animated properties built by \<open>configure\<close>: an entry's own name wins over a
  name listed in \<open>properties\<close>, and a listed name is only added once.  An entry that is not an
  object is \<open>None\<close>; \<open>properties\<close> is \<open>None\<close> when it is not an array.\<close>

definition configure ::
  "(string \<times> (string list option \<times> anim_cfg) option) list \<Rightarrow> (string \<times> anim_cfg) list \<Rightarrow> (string \<times> anim_cfg) list" where
  "configure config animated =
     foldl (\<lambda>ap kc. case snd kc of
              None \<Rightarrow> ap
            | Some (listed, c) \<Rightarrow>
                foldl (\<lambda>ap p. if p = fst kc \<or> \<not> obj_has ap p then obj_set ap p c else ap) ap
                  (case listed of Some ps \<Rightarrow> ps | None \<Rightarrow> [fst kc])) animated config"

subsection \<open>At most one running animation drives a property\<close>

definition wf_world :: "anim_world \<Rightarrow> bool" where
  "wf_world w \<longleftrightarrow>
     (\<forall>t < length (objs w).
        (\<forall>p a. obj_get (t_running (objs w ! t)) p = Some a \<longrightarrow> a < length (anims w)) \<and>
        (\<forall>n. t_options (objs w ! t) = Some n \<longrightarrow> n < length (objs w))) \<and>
     (\<forall>a < length (anims w). an_active (anims w ! a) \<longrightarrow>
        an_target (anims w ! a) < length (objs w) \<and>
        obj_get (t_running (objs w ! an_target (anims w ! a))) (an_prop (anims w ! a)) = Some a)"

text \<open>A step that creates nothing, starts nothing and moves no reference.\<close>

definition quiet :: "anim_world \<Rightarrow> anim_world \<Rightarrow> bool" where
  "quiet w w' \<longleftrightarrow>
     length (anims w') = length (anims w) \<and> length (objs w') = length (objs w) \<and>
     (\<forall>a < length (anims w). an_target (anims w' ! a) = an_target (anims w ! a) \<and>
        an_prop (anims w' ! a) = an_prop (anims w ! a) \<and>
        (an_active (anims w' ! a) \<longrightarrow> an_active (anims w ! a))) \<and>
     (\<forall>t < length (objs w). t_running (objs w' ! t) = t_running (objs w ! t) \<and>
        t_options (objs w' ! t) = t_options (objs w ! t))"

lemma quiet_refl [simp, intro]: "quiet w w"
  by (simp add: quiet_def)

lemma quiet_trans [trans]: "quiet w w' \<Longrightarrow> quiet w' w'' \<Longrightarrow> quiet w w''"
  by (simp add: quiet_def)

lemma quiet_wf: "quiet w w' \<Longrightarrow> wf_world w \<Longrightarrow> wf_world w'"
  unfolding wf_world_def quiet_def by (metis (no_types, lifting))

lemma quiet_set_value [intro]: "quiet w (set_value t p v w)"
  by (simp add: quiet_def set_value_def nth_update)

lemma quiet_notify [intro]: "quiet w (anim_notify a r w)"
  by (simp add: quiet_def anim_notify_def)

lemma quiet_settled [intro]: "quiet w (w\<lparr>settled := s\<rparr>)"
  by (simp add: quiet_def)

lemma quiet_put:
  "an_target an = an_target (anims w ! a) \<Longrightarrow> an_prop an = an_prop (anims w ! a) \<Longrightarrow>
   (an_active an \<longrightarrow> an_active (anims w ! a)) \<Longrightarrow> quiet w (put_anim a an w)"
  by (simp add: quiet_def put_anim_def nth_update)

lemma anims_set_value [simp]: "anims (set_value t p v w) = anims w"
  by (simp add: set_value_def)

lemma anims_notify [simp]: "anims (anim_notify a r w) = anims w"
  by (simp add: anim_notify_def)

lemma anims_tick: "anims (tick env d a w) = (anims w)[a := (anims w ! a)\<lparr>an_active := still_active d (anims w ! a)\<rparr>]"
  by (simp add: tick_def put_anim_def Let_def)

lemma quiet_tick: "an_active (anims w ! a) \<Longrightarrow> quiet w (tick env d a w)"
proof -
  assume act: "an_active (anims w ! a)"
  let ?w = "put_anim a ((anims w ! a)\<lparr>an_active := still_active d (anims w ! a)\<rparr>) w"
  have "quiet w ?w" by (rule quiet_put) (simp_all add: act)
  then show ?thesis
    unfolding tick_def Let_def
    using quiet_set_value quiet_notify quiet_trans by (smt (verit, best))
qed

lemma quiet_cancel: "quiet w (cancel env d a w)"
proof (cases "an_active (anims w ! a)")
  case True
  have "quiet (tick env d a w) (put_anim a ((anims (tick env d a w) ! a)\<lparr>an_active := False\<rparr>) (tick env d a w))"
    by (rule quiet_put) simp_all
  from quiet_trans[OF quiet_tick[OF True] this] quiet_notify show ?thesis
    by (auto simp: cancel_def Let_def intro: quiet_trans)
qed (simp add: cancel_def)

lemma quiet_anim_update: "quiet w (anim_update a cfg v d w)"
proof (cases "an_active (anims w ! a)")
  case True
  obtain an where "anim_update a cfg v d w = put_anim a an (anim_notify a False w)"
    and "an_target an = an_target (anims w ! a)" "an_prop an = an_prop (anims w ! a)"
    using True by (simp add: anim_update_def Let_def)
  with True show ?thesis
    by (simp add: quiet_trans[OF quiet_notify quiet_put])
qed (simp add: anim_update_def)

lemma quiet_wait: "quiet w (snd (anim_wait a w))"
  unfolding anim_wait_def Let_def snd_conv
  by (rule quiet_trans[OF quiet_settled quiet_put]) simp_all

lemma quiet_awaitAll: "quiet w (snd (awaitAll running keys w))"
proof -
  have "quiet w (snd st) \<Longrightarrow>
    quiet w (snd (foldl (\<lambda>(ps, w) key. case obj_get running key of
        Some a \<Rightarrow> if an_active (anims w ! a) then (let (p, w') = anim_wait a w in (ps @ [p], w')) else (ps, w)
      | None \<Rightarrow> (ps, w)) st keys))" for st
  proof (induction keys arbitrary: st)
    case Nil
    then show ?case by simp
  next
    case (Cons k keys)
    have "quiet w (snd ((\<lambda>(ps, w) key. case obj_get running key of
        Some a \<Rightarrow> if an_active (anims w ! a) then (let (p, w') = anim_wait a w in (ps @ [p], w')) else (ps, w)
      | None \<Rightarrow> (ps, w)) st k))"
      using Cons.prems quiet_wait[of "snd st"]
      by (auto simp: Let_def case_prod_beta split: option.splits intro: quiet_trans)
    from Cons.IH[OF this] show ?case by simp
  qed
  then show ?thesis by (simp add: awaitAll_def)
qed

text \<open>Registering a new animation is safe where the property has no active one.\<close>

lemma wf_start:
  assumes "wf_world w" "target < length (objs w)"
    and idle: "\<And>a. obj_get (t_running (objs w ! target)) p = Some a \<Longrightarrow> \<not> an_active (anims w ! a)"
  shows "wf_world (snd (start_animation cfg d target p v (created, w)))
    \<and> length (objs (snd (start_animation cfg d target p v (created, w)))) = length (objs w)"
proof (cases "\<exists>c. cfg = Some c \<and> truthy_num (cfg_duration c)")
  case False
  then have "snd (start_animation cfg d target p v (created, w)) = set_value target p v w"
    by (auto simp: start_animation_def split: option.splits)
  with quiet_wf[OF quiet_set_value assms(1)] show ?thesis by (simp add: set_value_def)
next
  case True
  then obtain c an where
    w': "snd (start_animation cfg d target p v (created, w)) =
      w\<lparr>anims := anims w @ [an], objs := (objs w)[target := (objs w ! target)\<lparr>t_running := obj_set (t_running (objs w ! target)) p (length (anims w))\<rparr>]\<rparr>"
    and an: "an_target an = target" "an_prop an = p" "an_active an"
    by (auto simp: start_animation_def new_animation_def Let_def)
  have no: "\<not> (an_active (anims w ! a) \<and> an_target (anims w ! a) = target \<and> an_prop (anims w ! a) = p)"
    if "a < length (anims w)" for a
    using that assms(1) idle[of a] by (auto simp: wf_world_def)
  show ?thesis
    unfolding w' using assms(1,2) an no
    by (auto simp: wf_world_def nth_list_update nth_append less_Suc_eq split: if_splits)
qed

lemma cancel_idle: "a < length (anims w) \<Longrightarrow> \<not> an_active (anims (cancel env d a w) ! a)"
  by (simp add: cancel_def put_anim_def anims_tick nth_update Let_def)

lemma wf_create_one:
  assumes "wf_world w" "target < length (objs w)"
  shows "wf_world (snd (create_one env animated d target p v (created, w)))
    \<and> length (objs (snd (create_one env animated d target p v (created, w)))) = length (objs w)"
proof (cases "obj_get (t_running (objs w ! target)) p")
  case None
  with wf_start[OF assms, of p "obj_get animated p" d v created] show ?thesis
    by (simp add: create_one_def)
next
  case (Some a)
  have a: "a < length (anims w)" using assms Some by (auto simp: wf_world_def)
  have u: "wf_world (anim_update a c v d w) \<and> length (objs (anim_update a c v d w)) = length (objs w)" for c
    using quiet_anim_update[of w a c v d] quiet_wf[OF quiet_anim_update assms(1)] by (simp add: quiet_def)
  have q: "quiet w (cancel env d a w)" by (rule quiet_cancel)
  have "wf_world (snd (start_animation cfg d target p v (created, cancel env d a w)))
    \<and> length (objs (snd (start_animation cfg d target p v (created, cancel env d a w)))) = length (objs w)" for cfg
    using wf_start[OF quiet_wf[OF q assms(1)], of target p cfg d v created] q assms(2) Some cancel_idle[OF a]
    by (auto simp: quiet_def)
  with u Some show ?thesis by (auto simp: create_one_def Let_def split: option.splits)
qed

lemma wf_create_plain:
  assumes "wf_world (snd st)" "target < length (objs (snd st))"
  shows "wf_world (snd (create_plain env animated d target vals st))
    \<and> length (objs (snd (create_plain env animated d target vals st))) = length (objs (snd st))"
proof (induction vals)
  case Nil
  with assms show ?case by (simp add: create_plain_def)
next
  case (Cons kv vals)
  obtain c w where cw: "create_plain env animated d target vals st = (c, w)" by fastforce
  with Cons wf_create_one[of w target env animated d "fst kv" "snd kv" c] assms(2)
  show ?case by (simp add: create_plain_def)
qed

lemma wf_set_options:
  assumes "wf_world w" "t < length (objs w)" "n < length (objs w)"
  shows "wf_world (w\<lparr>objs := (objs w)[t := (objs w ! t)\<lparr>t_options := Some n\<rparr>]\<rparr>)"
proof -
  let ?w = "w\<lparr>objs := (objs w)[t := (objs w ! t)\<lparr>t_options := Some n\<rparr>]\<rparr>"
  have "t_running (objs ?w ! u) = t_running (objs w ! u)"
    "t_options (objs ?w ! u) = (if u = t \<and> t < length (objs w) then Some n else t_options (objs w ! u))" for u
    by (simp_all add: nth_update)
  with assms show ?thesis by (simp add: wf_world_def del: select_convs)
qed

lemma wf_resolveTargetOptions:
  assumes "wf_world w" "target < length (objs w)" "\<And>n. newOptions = Some n \<Longrightarrow> n < length (objs w)"
    and "resolveTargetOptions target newOptions w = (r, w')"
  shows "wf_world w' \<and> length (objs w) \<le> length (objs w') \<and> (\<forall>t. r = Some t \<longrightarrow> t < length (objs w'))"
proof (cases newOptions)
  case None
  with assms show ?thesis by (simp add: resolveTargetOptions_def)
next
  case (Some n)
  have n: "n < length (objs w)" by (rule assms(3)[OF Some])
  show ?thesis
  proof (cases "t_options (objs w ! target)")
    case None
    with assms Some n wf_set_options[OF assms(1,2) n] show ?thesis
      by (auto simp: resolveTargetOptions_def)
  next
    case (Some opts)
    then have o: "opts < length (objs w)" using assms by (auto simp: wf_world_def)
    show ?thesis
    proof (cases "t_shared (objs w ! opts)")
      case True
      with assms Some \<open>newOptions = Some n\<close> have
        w': "w' = w\<lparr>objs := (objs w)[target := (objs w ! target)\<lparr>t_options := Some (length (objs w))\<rparr>] @
               [(objs w ! opts)\<lparr>t_shared := False, t_running := []\<rparr>]\<rparr>" and r: "r = Some (length (objs w))"
        by (auto simp: resolveTargetOptions_def Let_def)
      have "t < length (objs w) \<Longrightarrow> t_running (objs w' ! t) = t_running (objs w ! t)" for t
        by (simp add: w' nth_append nth_update)
      moreover have "n < length (objs w')"
        if "t < length (objs w')" "t_options (objs w' ! t) = Some n" for t n
        using that assms(1) o by (auto simp: w' nth_append nth_update wf_world_def less_Suc_eq split: if_splits)
      moreover have "t_running (objs w' ! length (objs w)) = []"
        by (simp add: w' nth_append)
      moreover have "length (objs w') = Suc (length (objs w))" "anims w' = anims w"
        by (simp_all add: w')
      ultimately show ?thesis
        using assms(1) r by (fastforce simp: wf_world_def less_Suc_eq)
    next
      case False
      with assms Some \<open>newOptions = Some n\<close> o show ?thesis
        by (auto simp: resolveTargetOptions_def)
    qed
  qed
qed

lemma wf_animateOptions:
  assumes "wf_world w" "target < length (objs w)" "\<And>n. newOptions = Some n \<Longrightarrow> n < length (objs w)"
  shows "wf_world (snd (animateOptions env animated d target newOptions (created, w)))
    \<and> length (objs w) \<le> length (objs (snd (animateOptions env animated d target newOptions (created, w))))"
proof -
  obtain r w1 where r: "resolveTargetOptions target newOptions w = (r, w1)" by fastforce
  note w1 = wf_resolveTargetOptions[OF assms r]
  show ?thesis
  proof (cases "\<exists>t n. r = Some t \<and> newOptions = Some n")
    case True
    then obtain t n where tn: "r = Some t" "newOptions = Some n" by blast
    obtain c w2 where w2: "create_plain env animated d t (t_props (objs w1 ! n)) (created, w1) = (c, w2)"
      by fastforce
    have wf2: "wf_world w2" "length (objs w2) = length (objs w1)"
      using wf_create_plain[of "(created, w1)" t env animated d "t_props (objs w1 ! n)"] w1 tn w2 by auto
    obtain ps w3 where w3: "awaitAll (t_running (objs w2 ! t)) (obj_keys (t_props (objs w2 ! n))) w2 = (ps, w3)"
      by fastforce
    have "quiet w2 w3" using quiet_awaitAll[of w2] w3 by (metis snd_conv)
    then have "wf_world w3" "length (objs w3) = length (objs w2)"
      using quiet_wf[OF _ wf2(1)] by (auto simp: quiet_def)
    then have "wf_world (w3\<lparr>awaiting := x\<rparr>)" for x by (simp add: wf_world_def)
    with r w2 w3 tn w1 wf2 \<open>length (objs w3) = length (objs w2)\<close> show ?thesis
      by (auto simp: animateOptions_def Let_def)
  next
    case False
    with r w1 show ?thesis by (auto simp: animateOptions_def split: option.splits)
  qed
qed

definition values_ok :: "(string \<times> new_value) list \<Rightarrow> anim_world \<Rightarrow> bool" where
  "values_ok vals w \<longleftrightarrow> (\<forall>k n. (k, NewOptions (Some n)) \<in> set vals \<longrightarrow> n < length (objs w))"

lemma wf_createAnimations:
  assumes "wf_world (snd st)" "target < length (objs (snd st))" "values_ok vals (snd st)"
  shows "wf_world (snd (createAnimations env animated d target vals st))
    \<and> length (objs (snd st)) \<le> length (objs (snd (createAnimations env animated d target vals st)))"
  using assms(3)
proof (induction vals)
  case Nil
  with assms show ?case by (simp add: createAnimations_def)
next
  case (Cons kv vals)
  obtain c w where cw: "createAnimations env animated d target vals st = (c, w)" by fastforce
  have "values_ok vals (snd st)" using Cons.prems by (auto simp: values_ok_def)
  with Cons.IH cw have w: "wf_world w" "length (objs (snd st)) \<le> length (objs w)" by auto
  then have t: "target < length (objs w)" using assms(2) by simp
  show ?case
  proof (cases "snd kv")
    case (Plain v)
    with cw w t wf_create_one[OF w(1) t, of env animated d "fst kv" v c] show ?thesis
      by (auto simp: createAnimations_def)
  next
    case (NewOptions no)
    have "n < length (objs w)" if "no = Some n" for n
      using that NewOptions Cons.prems w(2) by (cases kv) (fastforce simp: values_ok_def)
    with cw w NewOptions wf_animateOptions[OF w(1) t, of no env animated d c] show ?thesis
      by (auto simp: createAnimations_def)
  qed
qed

text \<open>
  What can happen to the animations of a page: an object is created, a target is given new
  values, the animator ticks an active animation or cancels one, a continuation runs.
\<close>

inductive anim_step :: "anim_env \<Rightarrow> anim_world \<Rightarrow> anim_world \<Rightarrow> bool" for env where
  step_object: "t_running ob = [] \<Longrightarrow> t_options ob = None \<Longrightarrow>
     anim_step env w (w\<lparr>objs := objs w @ [ob]\<rparr>)"
| step_create: "target < length (objs w) \<Longrightarrow> values_ok vals w \<Longrightarrow>
     createAnimations env animated d target vals ([], w) = (created, w') \<Longrightarrow> anim_step env w w'"
| step_tick: "a < length (anims w) \<Longrightarrow> an_active (anims w ! a) \<Longrightarrow> anim_step env w (tick env d a w)"
| step_cancel: "anim_step env w (cancel env d a w)"
| step_await: "c \<in> set (awaiting w) \<Longrightarrow> fst (snd c) < length (objs w) \<Longrightarrow> snd (snd c) < length (objs w) \<Longrightarrow>
     anim_step env w (run_await w c)"

definition empty_world :: anim_world where
  "empty_world = \<lparr>anims = [], objs = [], settled = [], awaiting = []\<rparr>"

inductive anim_reach :: "anim_env \<Rightarrow> anim_world \<Rightarrow> bool" for env where
  reach_init: "anim_reach env empty_world"
| reach_step: "anim_reach env w \<Longrightarrow> anim_step env w w' \<Longrightarrow> anim_reach env w'"

lemma anim_step_wf: "anim_step env w w' \<Longrightarrow> wf_world w \<Longrightarrow> wf_world w'"
proof (induction rule: anim_step.induct)
  case (step_object ob w)
  then show ?case
    by (auto simp: wf_world_def nth_append less_Suc_eq)
next
  case (step_create target w vals animated d created w')
  then show ?case using wf_createAnimations[of "([], w)" target vals env animated d] by auto
next
  case (step_tick a w d)
  then show ?case using quiet_tick quiet_wf by blast
next
  case (step_cancel w d a)
  then show ?case using quiet_cancel quiet_wf by blast
next
  case (step_await c w)
  obtain ps t n where "c = (ps, t, n)" by (rule prod_cases3)
  with step_await show ?case
    using wf_set_options[OF step_await.prems] by (simp add: run_await_def)
qed

lemma anim_reach_wf: "anim_reach env w \<Longrightarrow> wf_world w"
proof (induction rule: anim_reach.induct)
  case reach_init
  show ?case by (simp add: wf_world_def empty_world_def)
next
  case (reach_step w w')
  then show ?case using anim_step_wf by blast
qed

text \<open>
  C1. No property is driven twice: in every state that creations, updates, ticks,
  cancellations and option hand-overs can reach, two active animations of the same property
  of the same object are the same animation.
\<close>

theorem one_driver:
  assumes "anim_reach env w" "a < length (anims w)" "b < length (anims w)"
    and "an_active (anims w ! a)" "an_active (anims w ! b)"
    and "an_target (anims w ! a) = an_target (anims w ! b)" "an_prop (anims w ! a) = an_prop (anims w ! b)"
  shows "a = b"
proof -
  have act: "c < length (anims w) \<Longrightarrow> an_active (anims w ! c) \<Longrightarrow>
      obj_get (t_running (objs w ! an_target (anims w ! c))) (an_prop (anims w ! c)) = Some c" for c
    using anim_reach_wf[OF assms(1)] by (simp add: wf_world_def)
  have "Some a = Some b"
    unfolding act[OF assms(2,4), symmetric] act[OF assms(3,5), symmetric] assms(6,7) ..
  then show ?thesis by simp
qed

definition linear_env :: anim_env where
  "linear_env =
     \<lparr>env_fn = (\<lambda>_ from to factor. case (from, to) of
                 (VNum a, VNum b) \<Rightarrow> VNum (num_add a (num_mul (num_sub b a) factor))
               | _ \<Rightarrow> to),
      env_ease = (\<lambda>_ t. t)\<rparr>"

definition basic_cfg :: anim_cfg where
  "basic_cfg = \<lparr>cfg_delay = 0, cfg_duration = Fin 1000, cfg_easing = ''linear'', cfg_fn = None,
     cfg_from = VUndef, cfg_loop = False, cfg_to = VUndef, cfg_type = []\<rparr>"

definition sample_object :: target_obj where
  "sample_object = \<lparr>t_props = [(''x'', VNum (Fin 0)), (''y'', VNum (Fin 0))], t_running = [],
     t_shared = False, t_options = None\<rparr>"

definition sample_world :: anim_world where
  "sample_world =
     snd (createAnimations linear_env [(''x'', basic_cfg), (''y'', basic_cfg)] 10 0
            [(''x'', Plain (VNum (Fin 100))), (''y'', Plain (VNum (Fin 50)))]
            ([], empty_world\<lparr>objs := [sample_object]\<rparr>))"

lemma sample_world_reach: "anim_reach linear_env sample_world"
proof -
  have "anim_step linear_env empty_world (empty_world\<lparr>objs := [sample_object]\<rparr>)"
    using step_object[of sample_object linear_env empty_world]
    by (simp add: sample_object_def empty_world_def)
  then have w1: "anim_reach linear_env (empty_world\<lparr>objs := [sample_object]\<rparr>)"
    by (rule reach_step[OF reach_init])
  obtain created where c: "createAnimations linear_env [(''x'', basic_cfg), (''y'', basic_cfg)] 10 0
      [(''x'', Plain (VNum (Fin 100))), (''y'', Plain (VNum (Fin 50)))]
      ([], empty_world\<lparr>objs := [sample_object]\<rparr>) = (created, sample_world)"
    unfolding sample_world_def by (metis prod.collapse)
  show ?thesis
    by (rule reach_step[OF w1 step_create[OF _ _ c]]) (simp_all add: empty_world_def values_ok_def)
qed

lemma sample_world_eval:
  "length (anims sample_world) = 2" "an_active (anims sample_world ! 0)" "an_active (anims sample_world ! 1)"
  "an_prop (anims sample_world ! 0) = ''y''" "an_prop (anims sample_world ! 1) = ''x''"
  by (simp_all add: sample_world_def createAnimations_def create_one_def start_animation_def
      new_animation_def sample_object_def basic_cfg_def empty_world_def private_name_def truthy_num_def Let_def)

theorem one_driver_witness:
  "filter (\<lambda>b. an_active (anims sample_world ! b) \<and>
       an_target (anims sample_world ! b) = an_target (anims sample_world ! 1) \<and>
       an_prop (anims sample_world ! b) = an_prop (anims sample_world ! 1)) [0 ..< 2] = [1]"
proof -
  have "b = 1" if "b < 2" "an_active (anims sample_world ! b)"
    "an_target (anims sample_world ! b) = an_target (anims sample_world ! 1)"
    "an_prop (anims sample_world ! b) = an_prop (anims sample_world ! 1)" for b
    using one_driver[OF sample_world_reach, of b 1] that sample_world_eval by simp
  from this[of 0] show ?thesis
    using sample_world_eval by (auto simp: upt_rec numeral_2_eq_2)
qed

subsection \<open>The class Animator\<close>

datatype anim_event =
    Drawn nat
  | Progress nat nat bool jsnum jsnum
  | Complete nat nat bool jsnum jsnum

text \<open>The entry of a chart: \<open>ca_start\<close> and \<open>ca_duration\<close> are \<open>NaN\<close> until the
  first start.\<close>

record chart_anims =
  ca_running :: bool
  ca_initial :: bool
  ca_items :: "nat list"
  ca_complete :: "nat list"
  ca_progress :: "nat list"
  ca_start :: jsnum
  ca_duration :: jsnum

record animator =
  ar_request :: bool
  ar_charts :: "(nat \<times> chart_anims) list"
  ar_running :: bool
  ar_lastDate :: "rat option"
  ar_world :: anim_world
  ar_log :: "anim_event list"

definition new_entry :: chart_anims where
  "new_entry = \<lparr>ca_running = False, ca_initial = True, ca_items = [], ca_complete = [], ca_progress = [],
     ca_start = NaN, ca_duration = NaN\<rparr>"

definition current_step :: "chart_anims \<Rightarrow> rat \<Rightarrow> jsnum" where
  "current_step ca date = num_min (num_sub (Fin date) (ca_start ca)) (ca_duration ca)"

definition notify_complete :: "nat \<Rightarrow> chart_anims \<Rightarrow> rat \<Rightarrow> anim_event list" where
  "notify_complete chart ca date =
     map (\<lambda>fn. Complete chart fn (ca_initial ca) (ca_duration ca) (current_step ca date)) (ca_complete ca)"

definition notify_progress :: "nat \<Rightarrow> chart_anims \<Rightarrow> rat \<Rightarrow> anim_event list" where
  "notify_progress chart ca date =
     map (\<lambda>fn. Progress chart fn (ca_initial ca) (ca_duration ca) (current_step ca date)) (ca_progress ca)"

text \<open>\<open>_refresh\<close>: ask for a frame unless one is pending.\<close>

definition refresh :: "animator \<Rightarrow> animator" where
  "refresh ar = (if ar_request ar then ar else ar\<lparr>ar_running := True, ar_request := True\<rparr>)"

text \<open>
  The loop over the items, from the last index down: an active item is ticked, an inactive one
  is overwritten by the last item and the list is shortened.
\<close>

fun update_items ::
  "anim_env \<Rightarrow> rat \<Rightarrow> nat \<Rightarrow> nat list \<times> jsnum \<times> bool \<times> anim_world \<Rightarrow> nat list \<times> jsnum \<times> bool \<times> anim_world" where
  "update_items env date 0 st = st"
| "update_items env date (Suc i) (items, duration, draw, w) =
     (let an = anims w ! (items ! i) in
      if an_active an
      then update_items env date i
             (items, if num_less duration (an_total an) then an_total an else duration, True,
              tick env date (items ! i) w)
      else update_items env date i (butlast (items[i := last items]), duration, draw, w))"

definition update_chart ::
  "anim_env \<Rightarrow> rat \<Rightarrow> nat \<Rightarrow> chart_anims \<Rightarrow> anim_world \<Rightarrow> chart_anims \<times> anim_world \<times> anim_event list" where
  "update_chart env date chart ca w =
     (if \<not> ca_running ca \<or> ca_items ca = [] then (ca, w, [])
      else
        (let (items, duration, draw, w) =
               update_items env date (length (ca_items ca)) (ca_items ca, ca_duration ca, False, w);
             ca = ca\<lparr>ca_items := items, ca_duration := duration\<rparr>;
             log1 = (if draw then Drawn chart # notify_progress chart ca date else []);
             (ca, log2) = (if items = []
                           then (ca\<lparr>ca_running := False, ca_initial := False\<rparr>,
                                 notify_complete chart (ca\<lparr>ca_running := False\<rparr>) date)
                           else (ca, []))
         in (ca, w, log1 @ log2)))"

text \<open>\<open>remaining\<close> counts the items of the charts that were not skipped.\<close>

fun update_charts ::
  "anim_env \<Rightarrow> rat \<Rightarrow> (nat \<times> chart_anims) list \<Rightarrow> anim_world \<Rightarrow>
   (nat \<times> chart_anims) list \<times> anim_world \<times> anim_event list \<times> nat" where
  "update_charts env date [] w = ([], w, [], 0)"
| "update_charts env date (e # es) w =
     (let (ca, w1, log1) = update_chart env date (fst e) (snd e) w;
          (es', w2, log2, remaining) = update_charts env date es w1
      in ((fst e, ca) # es', w2, log1 @ log2,
          (if \<not> ca_running (snd e) \<or> ca_items (snd e) = [] then 0 else length (ca_items ca)) + remaining))"

definition animator_update :: "anim_env \<Rightarrow> rat \<Rightarrow> animator \<Rightarrow> animator" where
  "animator_update env date ar =
     (let (charts, w, log, remaining) = update_charts env date (ar_charts ar) (ar_world ar)
      in ar\<lparr>ar_charts := charts, ar_world := w, ar_log := ar_log ar @ log, ar_lastDate := Some date,
            ar_running := (if remaining = 0 then False else ar_running ar)\<rparr>)"

text \<open>The frame callback that \<open>_refresh\<close> asked for.\<close>

definition animator_frame :: "anim_env \<Rightarrow> rat \<Rightarrow> animator \<Rightarrow> animator" where
  "animator_frame env date ar =
     (let ar = (animator_update env date ar)\<lparr>ar_request := False\<rparr>
      in if ar_running ar then refresh ar else ar)"

definition getAnims :: "nat \<Rightarrow> animator \<Rightarrow> chart_anims \<times> animator" where
  "getAnims chart ar =
     (case obj_get (ar_charts ar) chart of
        Some ca \<Rightarrow> (ca, ar)
      | None \<Rightarrow> (new_entry, ar\<lparr>ar_charts := obj_set (ar_charts ar) chart new_entry\<rparr>))"

definition put_entry :: "nat \<Rightarrow> chart_anims \<Rightarrow> animator \<Rightarrow> animator" where
  "put_entry chart ca ar = ar\<lparr>ar_charts := obj_set (ar_charts ar) chart ca\<rparr>"

definition animator_listen :: "nat \<Rightarrow> bool \<Rightarrow> nat \<Rightarrow> animator \<Rightarrow> animator" where
  "animator_listen chart onComplete cb ar =
     (let (ca, ar) = getAnims chart ar
      in put_entry chart (if onComplete then ca\<lparr>ca_complete := ca_complete ca @ [cb]\<rparr>
                          else ca\<lparr>ca_progress := ca_progress ca @ [cb]\<rparr>) ar)"

definition animator_add :: "nat \<Rightarrow> nat list \<Rightarrow> animator \<Rightarrow> animator" where
  "animator_add chart items ar =
     (if items = [] then ar
      else (let (ca, ar) = getAnims chart ar in put_entry chart (ca\<lparr>ca_items := ca_items ca @ items\<rparr>) ar))"

definition animator_has :: "nat \<Rightarrow> animator \<Rightarrow> bool \<times> animator" where
  "animator_has chart ar = (let (ca, ar) = getAnims chart ar in (ca_items ca \<noteq> [], ar))"

definition animator_start :: "nat \<Rightarrow> rat \<Rightarrow> animator \<Rightarrow> animator" where
  "animator_start chart date ar =
     (case obj_get (ar_charts ar) chart of
        None \<Rightarrow> ar
      | Some ca \<Rightarrow>
          refresh (put_entry chart
            (ca\<lparr>ca_running := True, ca_start := Fin date,
                ca_duration := foldl (\<lambda>acc a. num_max acc (an_duration (anims (ar_world ar) ! a))) (Fin 0) (ca_items ca)\<rparr>) ar))"

definition animator_running :: "nat \<Rightarrow> animator \<Rightarrow> bool" where
  "animator_running chart ar =
     (if \<not> ar_running ar then False
      else (case obj_get (ar_charts ar) chart of
              None \<Rightarrow> False
            | Some ca \<Rightarrow> ca_running ca \<and> ca_items ca \<noteq> []))"

definition animator_stop :: "anim_env \<Rightarrow> nat \<Rightarrow> rat \<Rightarrow> animator \<Rightarrow> animator" where
  "animator_stop env chart date ar =
     (case obj_get (ar_charts ar) chart of
        None \<Rightarrow> ar
      | Some ca \<Rightarrow>
          if ca_items ca = [] then ar
          else (let ca' = ca\<lparr>ca_items := []\<rparr>
                in put_entry chart ca'
                     (ar\<lparr>ar_world := foldr (cancel env date) (ca_items ca) (ar_world ar),
                         ar_log := ar_log ar @ notify_complete chart ca' date\<rparr>)))"

definition animator_remove :: "nat \<Rightarrow> animator \<Rightarrow> bool \<times> animator" where
  "animator_remove chart ar = (obj_has (ar_charts ar) chart, ar\<lparr>ar_charts := obj_del (ar_charts ar) chart\<rparr>)"

text \<open>\<open>Animations.update\<close>: without animated properties the values are assigned at once.\<close>

definition assign_value :: "nat \<Rightarrow> anim_world \<Rightarrow> string \<times> new_value \<Rightarrow> anim_world" where
  "assign_value target w kv =
     (case snd kv of
        Plain v \<Rightarrow> set_value target (fst kv) v w
      | NewOptions n \<Rightarrow> w\<lparr>objs := (objs w)[target := (objs w ! target)\<lparr>t_options := n\<rparr>]\<rparr>)"

definition animations_update ::
  "anim_env \<Rightarrow> nat \<Rightarrow> (string \<times> anim_cfg) list \<Rightarrow> rat \<Rightarrow> nat \<Rightarrow> (string \<times> new_value) list \<Rightarrow>
   animator \<Rightarrow> bool \<times> animator" where
  "animations_update env chart animated date target vals ar =
     (if animated = [] then (False, ar\<lparr>ar_world := foldl (assign_value target) (ar_world ar) vals\<rparr>)
      else (let (created, w) = createAnimations env animated date target vals ([], ar_world ar);
                ar = ar\<lparr>ar_world := w\<rparr>
            in if created \<noteq> [] then (True, animator_add chart created ar) else (False, ar)))"

subsection \<open>What a frame does to a chart\<close>

definition ticked :: "rat \<Rightarrow> animation \<Rightarrow> animation" where
  "ticked date an = an\<lparr>an_active := still_active date an\<rparr>"

lemma anims_tick_nth:
  "b < length (anims w) \<Longrightarrow> anims (tick env d a w) ! b = (if b = a then ticked d (anims w ! a) else anims w ! b)"
  by (simp add: anims_tick nth_update ticked_def)

lemma length_anims_tick [simp]: "length (anims (tick env d a w)) = length (anims w)"
  by (simp add: anims_tick)

text \<open>Overwriting an entry by the last one and dropping the last removes just that entry.\<close>

lemma swap_pop:
  assumes "distinct xs" "i < length xs"
  shows "distinct (butlast (xs[i := last xs]))" "set (butlast (xs[i := last xs])) = set xs - {xs ! i}"
    "j < i \<Longrightarrow> butlast (xs[i := last xs]) ! j = xs ! j" "length (butlast (xs[i := last xs])) = length xs - 1"
proof -
  from assms(2) obtain ys y where xs: "xs = ys @ [y]" by (cases xs rule: rev_cases) auto
  have e: "butlast (xs[i := last xs]) = (if i < length ys then ys[i := y] else ys)"
  proof (cases "i < length ys")
    case True
    then show ?thesis by (simp add: xs list_update_append butlast_append)
  next
    case False
    with assms(2) have "i = length ys" by (simp add: xs)
    then show ?thesis by (simp add: xs)
  qed
  have d: "distinct ys" "y \<notin> set ys" using assms(1) xs by auto
  have s: "set (ys[i := y]) = insert y (set ys - {ys ! i})" if "i < length ys"
    using d(1) that by (simp add: set_update_distinct)
  show "distinct (butlast (xs[i := last xs]))"
    unfolding e using d by (simp add: distinct_list_update)
  show "set (butlast (xs[i := last xs])) = set xs - {xs ! i}"
    unfolding e using s d assms(2) by (auto simp: xs nth_append)
  show "j < i \<Longrightarrow> butlast (xs[i := last xs]) ! j = xs ! j"
    unfolding e using assms(2) by (auto simp: xs nth_append)
  show "length (butlast (xs[i := last xs])) = length xs - 1" by simp
qed

lemma update_items_spec:
  assumes "distinct items" "i \<le> length items" "\<forall>a \<in> set items. a < length (anims w)"
    and "update_items env d i (items, dur, draw, w) = (items', dur', draw', w')"
  shows "distinct items' \<and> length (anims w') = length (anims w) \<and>
    set items' = set items - {items ! j | j. j < i \<and> \<not> an_active (anims w ! (items ! j))} \<and>
    (\<forall>b < length (anims w). anims w' ! b =
       (if (\<exists>j < i. b = items ! j) \<and> an_active (anims w ! b) then ticked d (anims w ! b) else anims w ! b)) \<and>
    draw' = (draw \<or> (\<exists>j < i. an_active (anims w ! (items ! j))))"
  using assms
proof (induction i arbitrary: items dur draw w)
  case 0
  then show ?case by simp
next
  case (Suc i)
  let ?a = "items ! i"
  have i: "i < length items" using Suc.prems(2) by simp
  then have a: "?a < length (anims w)" using Suc.prems(3) by simp
  have ne: "items ! j \<noteq> ?a" if "j < i" for j
    using that i Suc.prems(1) by (simp add: nth_eq_iff_index_eq)
  have ex: "(\<exists>j < Suc i. P (items ! j)) \<longleftrightarrow> P ?a \<or> (\<exists>j < i. P (items ! j))" for P
    by (auto simp: less_Suc_eq)
  have del: "{items ! j | j. j < Suc i \<and> \<not> an_active (anims w ! (items ! j))} =
      (if an_active (anims w ! ?a) then {} else {?a}) \<union> {items ! j | j. j < i \<and> \<not> an_active (anims w ! (items ! j))}"
    by (auto simp: less_Suc_eq)
  show ?case
  proof (cases "an_active (anims w ! ?a)")
    case True
    let ?w = "tick env d ?a w"
    obtain dur1 where u: "update_items env d i (items, dur1, True, ?w) = (items', dur', draw', w')"
      using Suc.prems(4) True by (auto simp: Let_def)
    have same: "anims ?w ! (items ! j) = anims w ! (items ! j)" if "j < i" for j
      using that ne i Suc.prems(3) by (simp add: anims_tick_nth)
    have gen: "{items ! j | j. j < i \<and> \<not> an_active (anims ?w ! (items ! j))} =
        {items ! j | j. j < i \<and> \<not> an_active (anims w ! (items ! j))}"
      using same by auto
    have ih: "distinct items'" "length (anims w') = length (anims w)"
      "set items' = set items - {items ! j | j. j < i \<and> \<not> an_active (anims w ! (items ! j))}"
      "\<And>b. b < length (anims w) \<Longrightarrow> anims w' ! b =
         (if (\<exists>j < i. b = items ! j) \<and> an_active (anims ?w ! b) then ticked d (anims ?w ! b) else anims ?w ! b)"
      "draw'"
      using Suc.IH[OF Suc.prems(1) _ _ u] i Suc.prems(3) gen by auto
    have "anims w' ! b = (if (\<exists>j < Suc i. b = items ! j) \<and> an_active (anims w ! b)
        then ticked d (anims w ! b) else anims w ! b)" if b: "b < length (anims w)" for b
    proof (cases "b = ?a")
      case same_b: True
      have "\<not> (\<exists>j < i. ?a = items ! j)" using ne by force
      with ih(4)[OF b] True a same_b show ?thesis by (auto simp: anims_tick_nth)
    next
      case False
      with ih(4)[OF b] b show ?thesis by (auto simp: anims_tick_nth less_Suc_eq)
    qed
    with ih True ex[of "\<lambda>x. an_active (anims w ! x)"] show ?thesis
      unfolding del by simp
  next
    case False
    let ?is = "butlast (items[i := last items])"
    note sp = swap_pop[OF Suc.prems(1) i]
    have u: "update_items env d i (?is, dur, draw, w) = (items', dur', draw', w')"
      using Suc.prems(4) False by (simp add: Let_def)
    have same: "?is ! j = items ! j" if "j < i" for j using sp(3) that by blast
    have ih: "distinct items'" "length (anims w') = length (anims w)"
      "set items' = set ?is - {?is ! j | j. j < i \<and> \<not> an_active (anims w ! (?is ! j))}"
      "\<And>b. b < length (anims w) \<Longrightarrow> anims w' ! b =
         (if (\<exists>j < i. b = ?is ! j) \<and> an_active (anims w ! b) then ticked d (anims w ! b) else anims w ! b)"
      "draw' = (draw \<or> (\<exists>j < i. an_active (anims w ! (?is ! j))))"
      using Suc.IH[OF sp(1) _ _ u] i Suc.prems(3) sp(2,4) by auto
    have D: "{?is ! j | j. j < i \<and> \<not> an_active (anims w ! (?is ! j))} =
        {items ! j | j. j < i \<and> \<not> an_active (anims w ! (items ! j))}"
      using same by auto metis+
    have E: "(\<exists>j < i. P (?is ! j)) = (\<exists>j < i. P (items ! j))" for P using same by auto
    have "anims w' ! b = (if (\<exists>j < Suc i. b = items ! j) \<and> an_active (anims w ! b)
        then ticked d (anims w ! b) else anims w ! b)" if b: "b < length (anims w)" for b
      unfolding ex using ih(4)[OF b] False E[of "\<lambda>x. b = x"] by auto
    moreover have "draw' = (draw \<or> (\<exists>j < Suc i. an_active (anims w ! (items ! j))))"
      using ih(5) False E[of "\<lambda>x. an_active (anims w ! x)"] ex[of "\<lambda>x. an_active (anims w ! x)"] by simp
    moreover have "set items' = set items - {items ! j | j. j < Suc i \<and> \<not> an_active (anims w ! (items ! j))}"
      unfolding del ih(3) D sp(2) using False by auto
    ultimately show ?thesis using ih(1,2) by blast
  qed
qed

text \<open>The loop over all items of a chart.\<close>

lemma update_items_all:
  assumes "distinct items" "\<forall>a \<in> set items. a < length (anims w)"
    and "update_items env d (length items) (items, dur, draw, w) = (items', dur', draw', w')"
  shows "distinct items'" "length (anims w') = length (anims w)"
    "set items' = {a \<in> set items. an_active (anims w ! a)}"
    "\<And>b. b < length (anims w) \<Longrightarrow> anims w' ! b =
       (if b \<in> set items \<and> an_active (anims w ! b) then ticked d (anims w ! b) else anims w ! b)"
    "draw' = (draw \<or> (\<exists>a \<in> set items. an_active (anims w ! a)))"
proof -
  note u = update_items_spec[OF assms(1) le_refl assms(2,3)]
  have ex: "(\<exists>j < length items. P (items ! j)) \<longleftrightarrow> (\<exists>a \<in> set items. P a)" for P
    by (metis in_set_conv_nth)
  have "{items ! j | j. j < length items \<and> \<not> an_active (anims w ! (items ! j))} =
      {a \<in> set items. \<not> an_active (anims w ! a)}"
    by (auto simp: in_set_conv_nth)
  with u show "set items' = {a \<in> set items. an_active (anims w ! a)}" by auto
  show "distinct items'" "length (anims w') = length (anims w)" using u by simp_all
  show "draw' = (draw \<or> (\<exists>a \<in> set items. an_active (anims w ! a)))"
    using u ex[of "\<lambda>a. an_active (anims w ! a)"] by simp
  show "\<And>b. b < length (anims w) \<Longrightarrow> anims w' ! b =
       (if b \<in> set items \<and> an_active (anims w ! b) then ticked d (anims w ! b) else anims w ! b)"
    using u ex[of "\<lambda>a. _ = a"] by simp
qed

definition is_complete :: "anim_event \<Rightarrow> bool" where
  "is_complete e = (case e of Complete _ _ _ _ _ \<Rightarrow> True | _ \<Rightarrow> False)"

text \<open>
  C7. One frame of a running chart: the animations still listed afterwards are exactly those
  that were active before it, each once, and each of them was ticked; the chart is drawn if and
  only if there was one; and the complete listeners are called, each once and in order, if and
  only if there was none, in which case the chart stops running and is no longer in its initial
  animation.
\<close>

theorem frame_of_chart:
  assumes "ca_running ca" "ca_items ca \<noteq> []" "distinct (ca_items ca)"
    and "\<forall>a \<in> set (ca_items ca). a < length (anims w)"
    and "update_chart env d chart ca w = (ca', w', evs)"
  shows "distinct (ca_items ca') \<and> set (ca_items ca') = {a \<in> set (ca_items ca). an_active (anims w ! a)} \<and>
    (\<forall>a \<in> set (ca_items ca'). anims w' ! a = ticked d (anims w ! a)) \<and>
    (Drawn chart \<in> set evs \<longleftrightarrow> ca_items ca' \<noteq> []) \<and>
    filter is_complete evs =
      (if ca_items ca' = []
       then map (\<lambda>fn. Complete chart fn (ca_initial ca) (ca_duration ca') (current_step ca' d)) (ca_complete ca)
       else []) \<and>
    (ca_running ca' \<longleftrightarrow> ca_items ca' \<noteq> []) \<and>
    (ca_initial ca' \<longleftrightarrow> ca_initial ca \<and> ca_items ca' \<noteq> [])"
proof -
  obtain items dur draw w1 where
    u: "update_items env d (length (ca_items ca)) (ca_items ca, ca_duration ca, False, w) = (items, dur, draw, w1)"
    by (rule prod_cases4)
  note us = update_items_all[OF assms(3,4) u]
  have draw: "draw \<longleftrightarrow> items \<noteq> []"
    using us(3,5) by (metis (mono_tags, lifting) Collect_empty_eq empty_iff empty_set set_empty)
  have prog: "filter is_complete (notify_progress chart c d) = []" "Drawn chart \<notin> set (notify_progress chart c d)" for c
    by (auto simp: notify_progress_def is_complete_def filter_empty_conv)
  have comp: "filter is_complete (map (\<lambda>fn. Complete chart fn b n m) fns) = map (\<lambda>fn. Complete chart fn b n m) fns"
      "Drawn chart \<notin> set (map (\<lambda>fn. Complete chart fn b n m) fns)" for b n m fns
    by (auto simp: is_complete_def filter_map o_def)
  have w': "w' = w1" and items: "ca_items ca' = items"
    using assms(1,2,5) u by (auto simp: update_chart_def Let_def split: if_splits)
  have tk: "\<forall>a \<in> set items. anims w1 ! a = ticked d (anims w ! a)"
    using us(3,4) assms(4) by auto
  show ?thesis
  proof (cases "items = []")
    case True
    then have "ca' = ca\<lparr>ca_items := [], ca_duration := dur, ca_running := False, ca_initial := False\<rparr>"
      and "evs = notify_complete chart (ca\<lparr>ca_items := [], ca_duration := dur, ca_running := False\<rparr>) d"
      using assms(1,2,5) u draw by (simp_all add: update_chart_def Let_def)
    with True us(1,3) comp show ?thesis
      by (simp add: notify_complete_def current_step_def)
  next
    case False
    then have ca': "ca' = ca\<lparr>ca_items := items, ca_duration := dur\<rparr>"
      and evs: "evs = Drawn chart # notify_progress chart (ca\<lparr>ca_items := items, ca_duration := dur\<rparr>) d"
      using assms(1,2,5) u draw by (auto simp: update_chart_def Let_def)
    have "\<not> is_complete (Drawn chart)" by (simp add: is_complete_def)
    with False us(1,3) prog tk assms(1) w' show ?thesis
      unfolding ca' evs by simp
  qed
qed

definition sample_chart :: chart_anims where
  "sample_chart = \<lparr>ca_running = True, ca_initial = True, ca_items = [0, 1], ca_complete = [7],
     ca_progress = [], ca_start = Fin 10, ca_duration = Fin 1000\<rparr>"

theorem frame_of_chart_witness:
  "\<exists>ca' w' evs. update_chart linear_env 20 3 sample_chart sample_world = (ca', w', evs) \<and>
     set (ca_items ca') = {0, 1} \<and> Drawn 3 \<in> set evs \<and> filter is_complete evs = []"
proof -
  obtain ca' w' evs where u: "update_chart linear_env 20 3 sample_chart sample_world = (ca', w', evs)"
    by (rule prod_cases3)
  have s: "{a \<in> set (ca_items sample_chart). an_active (anims sample_world ! a)} = {0, 1}"
    using sample_world_eval by (auto simp: sample_chart_def)
  have p: "ca_running sample_chart" "ca_items sample_chart \<noteq> []" "distinct (ca_items sample_chart)"
      "\<forall>a \<in> set (ca_items sample_chart). a < length (anims sample_world)"
    using sample_world_eval(1) by (simp_all add: sample_chart_def)
  note f = frame_of_chart[OF p u, unfolded s]
  then have items: "set (ca_items ca') = {0, 1}" by blast
  then have ne: "ca_items ca' \<noteq> []" by force
  with f have "Drawn 3 \<in> set evs" "filter is_complete evs = []" by presburger+
  with u items show ?thesis by blast
qed

end
