(* ===== verification/ChartSegments.thy ===== *)
theory ChartSegments
  imports ChartMath
begin

section \<open>Chart.js 3.9.1: segments of a line\<close>

text \<open>
  How \<open>www/root/js/chart_3.9.js\<close> cuts a line into the pieces it draws:
  \<open>findStartAndEnd\<close>, \<open>solidSegments\<close>, \<open>_computeSegments\<close>, the restriction of a segment to
  an interval (\<open>getSegment\<close>, \<open>_boundSegment\<close>, \<open>_boundSegments\<close>) and the split by styles.
  A point is what this code reads of it: whether it is skipped, whether a gap stops before it, and
  its value for the bounded property.  \<open>null\<close> is \<open>None\<close>; \<open>null % count\<close> is zero.
\<close>

record seg_point =
  sp_skip :: bool
  sp_stop :: bool
  sp_value :: rat

record 's segment =
  seg_start :: nat
  seg_end :: nat
  seg_loop :: bool
  seg_style :: "'s option"

abbreviation plain_seg :: "nat \<Rightarrow> nat \<Rightarrow> bool \<Rightarrow> 's segment" where
  "plain_seg s e l \<equiv> \<lparr>seg_start = s, seg_end = e, seg_loop = l, seg_style = None\<rparr>"

abbreviation pt_skip :: "seg_point list \<Rightarrow> nat \<Rightarrow> bool" where
  "pt_skip points i \<equiv> sp_skip (points ! i)"

text \<open>\<open>propertyFn\<close>: the comparisons of a property, cyclic for angles, linear otherwise.\<close>

record property_fn =
  pf_between :: "rat \<Rightarrow> rat \<Rightarrow> rat \<Rightarrow> bool"
  pf_compare :: "rat \<Rightarrow> rat \<Rightarrow> rat"
  pf_normalize :: "rat \<Rightarrow> rat"

definition linear_property :: property_fn where
  "linear_property = \<lparr>pf_between = isBetween, pf_compare = (\<lambda>a b. a - b), pf_normalize = (\<lambda>x. x)\<rparr>"

subsection \<open>Solid segments\<close>

fun first_index :: "(nat \<Rightarrow> bool) \<Rightarrow> nat \<Rightarrow> nat \<Rightarrow> nat" where
  "first_index P start 0 = start"
| "first_index P start (Suc n) = (if P start then first_index P (Suc start) n else start)"

text \<open>\<open>while (start < count && P(start)) start++\<close>\<close>

definition advance_while :: "(nat \<Rightarrow> bool) \<Rightarrow> nat \<Rightarrow> nat \<Rightarrow> nat" where
  "advance_while P start count = first_index P start (count - start)"

fun retreat_while :: "(nat \<Rightarrow> bool) \<Rightarrow> nat \<Rightarrow> nat \<Rightarrow> nat" where
  "retreat_while P start 0 = 0"
| "retreat_while P start (Suc e) = (if Suc e > start \<and> P (Suc e) then retreat_while P start e else Suc e)"

definition findStartAndEnd :: "seg_point list \<Rightarrow> nat \<Rightarrow> bool \<Rightarrow> bool \<Rightarrow> nat \<times> nat" where
  "findStartAndEnd points count loop spanGaps =
     (let start = (if loop \<and> \<not> spanGaps then advance_while (\<lambda>i. \<not> pt_skip points i) 0 count else 0);
          start = advance_while (pt_skip points) start count;
          start = start mod count;
          e = (if loop then count - 1 + start else count - 1);
          e = retreat_while (\<lambda>i. pt_skip points (i mod count)) start e
      in (start, e mod count))"

text \<open>The state of the loop of \<open>solidSegments\<close>: the result, \<open>start\<close>, \<open>last\<close>, the index
  of \<open>prev\<close> and \<open>loop\<close>.\<close>

record 's solid_state =
  ss_result :: "'s segment list"
  ss_start :: "nat option"
  ss_last :: "nat option"
  ss_prev :: nat
  ss_loop :: bool

definition mod_count :: "nat option \<Rightarrow> nat \<Rightarrow> nat" where
  "mod_count i count = (case i of None \<Rightarrow> 0 | Some n \<Rightarrow> n mod count)"

definition solid_step :: "seg_point list \<Rightarrow> 's solid_state \<Rightarrow> nat \<Rightarrow> 's solid_state" where
  "solid_step points st e =
     (let count = length points;
          cur = points ! (e mod count);
          prev_skip = pt_skip points (ss_prev st)
      in (if sp_skip cur \<or> sp_stop cur then
            (if \<not> prev_skip then
               (let s = (if sp_stop cur then Some e else None) in
                st\<lparr>ss_loop := False,
                   ss_result := ss_result st @ [plain_seg (mod_count (ss_start st) count) ((e - 1) mod count) False],
                   ss_start := s, ss_last := s\<rparr>)
             else st)
          else
            (let st = st\<lparr>ss_last := Some e\<rparr> in if prev_skip then st\<lparr>ss_start := Some e\<rparr> else st))
         \<lparr>ss_prev := e mod count\<rparr>)"

definition solidSegments :: "seg_point list \<Rightarrow> nat \<Rightarrow> nat \<Rightarrow> bool \<Rightarrow> 's segment list" where
  "solidSegments points start mx loop =
     (let st = foldl (solid_step points)
                 \<lparr>ss_result = [], ss_start = Some start, ss_last = Some start, ss_prev = start, ss_loop = loop\<rparr>
                 [start + 1 ..< mx + 1]
      in ss_result st @
         (case ss_last st of
            None \<Rightarrow> []
          | Some l \<Rightarrow> [plain_seg (mod_count (ss_start st) (length points)) (l mod length points) (ss_loop st)]))"

text \<open>\<open>spanGaps\<close> is false, true or a number (\<open>None\<close> stands for a number, which is truthy
  unless zero).\<close>

datatype span_gaps = SpanFalse | SpanTrue | SpanNumber rat

definition span_truthy :: "span_gaps \<Rightarrow> bool" where
  "span_truthy s = (case s of SpanFalse \<Rightarrow> False | SpanTrue \<Rightarrow> True | SpanNumber r \<Rightarrow> r \<noteq> 0)"

text \<open>The segments before they are split by styles.\<close>

definition computeSegments :: "seg_point list \<Rightarrow> bool \<Rightarrow> bool \<Rightarrow> span_gaps \<Rightarrow> 's segment list" where
  "computeSegments points lineLoop fullLoop spanGaps =
     (let count = length points in
      if count = 0 then []
      else
        (let (start, e) = findStartAndEnd points count lineLoop (span_truthy spanGaps) in
         if spanGaps = SpanTrue then [plain_seg start e lineLoop]
         else
           (let mx = (if e < start then e + count else e);
                completeLoop = (fullLoop \<and> start = 0 \<and> e = count - 1)
            in solidSegments points start mx completeLoop)))"

subsection \<open>What the solid segments are\<close>









definition gap_points :: "seg_point list" where
  "gap_points = [\<lparr>sp_skip = False, sp_stop = False, sp_value = 0\<rparr>, \<lparr>sp_skip = True, sp_stop = False, sp_value = 1\<rparr>,
     \<lparr>sp_skip = False, sp_stop = False, sp_value = 2\<rparr>, \<lparr>sp_skip = False, sp_stop = True, sp_value = 9\<rparr>]"


text \<open>
  Without that separation the code loses its start: after a skipped point a stop leaves
  \<open>start\<close> at \<open>null\<close>, and the next segment is drawn from index zero across the gap.
\<close>

definition stop_after_gap :: "seg_point list" where
  "stop_after_gap = [\<lparr>sp_skip = False, sp_stop = False, sp_value = 0\<rparr>, \<lparr>sp_skip = True, sp_stop = False, sp_value = 1\<rparr>,
     \<lparr>sp_skip = False, sp_stop = True, sp_value = 9\<rparr>, \<lparr>sp_skip = False, sp_stop = False, sp_value = 10\<rparr>]"

lemma solidSegments_stop_after_gap:
  "solidSegments stop_after_gap 0 3 False = ([plain_seg 0 0 False, plain_seg 0 3 False] :: unit segment list)"
  by (simp add: solidSegments_def stop_after_gap_def solid_step_def upt_rec mod_count_def Let_def)

subsection \<open>Restricting a segment to an interval\<close>

record bounds =
  b_start :: rat
  b_end :: rat

definition normalizeSegment :: "nat \<Rightarrow> nat \<Rightarrow> nat \<Rightarrow> bool \<Rightarrow> 's option \<Rightarrow> 's segment" where
  "normalizeSegment s e count loop style =
     \<lparr>seg_start = s mod count, seg_end = e mod count,
      seg_loop = (loop \<and> (int e - int s + 1) mod int count = 0), seg_style = style\<rparr>"

text \<open>\<open>getSegment\<close> walks the start of a closed line back while its points are inside.\<close>

fun walk_back :: "(nat \<Rightarrow> bool) \<Rightarrow> nat \<Rightarrow> nat \<Rightarrow> nat \<Rightarrow> nat \<times> nat" where
  "walk_back inside s e 0 = (s, e)"
| "walk_back inside s e (Suc n) = (if \<not> inside s then (s, e) else walk_back inside (s - 1) (e - 1) n)"

definition getSegment :: "property_fn \<Rightarrow> 's segment \<Rightarrow> seg_point list \<Rightarrow> bounds \<Rightarrow> 's segment" where
  "getSegment pf seg points b =
     (let count = length points;
          (s, e) = (if seg_loop seg then
                      (let (s, e) = walk_back (\<lambda>i. pf_between pf (pf_normalize pf (sp_value (points ! (i mod count)))) (b_start b) (b_end b))
                                      (seg_start seg + count) (seg_end seg + count) count
                       in (s mod count, e mod count))
                    else (seg_start seg, seg_end seg));
          e = (if e < s then e + count else e)
      in \<lparr>seg_start = s, seg_end = e, seg_loop = seg_loop seg, seg_style = seg_style seg\<rparr>)"

text \<open>The loop of \<open>_boundSegment\<close>: \<open>prevValue\<close> is undefined before the first point, and
  comparisons with it are then false.\<close>

record 's bound_state =
  bs_result :: "'s segment list"
  bs_sub :: "nat option"
  bs_prev :: nat
  bs_prevValue :: "rat option"

definition bound_step ::
  "property_fn \<Rightarrow> seg_point list \<Rightarrow> bounds \<Rightarrow> bool \<Rightarrow> 's option \<Rightarrow> 's bound_state \<Rightarrow> nat \<Rightarrow> 's bound_state" where
  "bound_step pf points b loop style st i =
     (let count = length points;
          point = points ! (i mod count);
          v = pf_normalize pf (sp_value point)
      in if sp_skip point \<or> bs_prevValue st = Some v then st
         else
           (let inside = pf_between pf v (b_start b) (b_end b);
                startIsBefore = (case bs_prevValue st of None \<Rightarrow> False
                                 | Some p \<Rightarrow> pf_between pf (b_start b) p v \<and> pf_compare pf (b_start b) p \<noteq> 0);
                endIsBefore = (pf_compare pf (b_end b) v = 0 \<or>
                               (case bs_prevValue st of None \<Rightarrow> False | Some p \<Rightarrow> pf_between pf (b_end b) p v));
                sub = (if bs_sub st = None \<and> (inside \<or> startIsBefore)
                       then Some (if pf_compare pf v (b_start b) = 0 then i else bs_prev st)
                       else bs_sub st);
                (result, sub) = (case sub of
                    Some s \<Rightarrow> if \<not> inside \<or> endIsBefore
                              then (bs_result st @ [normalizeSegment s i count loop style], None)
                              else (bs_result st, sub)
                  | None \<Rightarrow> (bs_result st, sub))
            in \<lparr>bs_result = result, bs_sub = sub, bs_prev = i, bs_prevValue = Some v\<rparr>))"

definition boundSegment :: "property_fn \<Rightarrow> 's segment \<Rightarrow> seg_point list \<Rightarrow> bounds option \<Rightarrow> 's segment list" where
  "boundSegment pf seg points bo =
     (case bo of
        None \<Rightarrow> [seg]
      | Some b \<Rightarrow>
          (let g = getSegment pf seg points b;
               st = foldl (bound_step pf points b (seg_loop g) (seg_style g))
                      \<lparr>bs_result = [], bs_sub = None, bs_prev = seg_start g, bs_prevValue = None\<rparr>
                      [seg_start g ..< seg_end g + 1]
           in bs_result st @
              (case bs_sub st of
                 Some s \<Rightarrow> [normalizeSegment s (seg_end g) (length points) (seg_loop g) (seg_style g)]
               | None \<Rightarrow> [])))"

definition boundSegments :: "property_fn \<Rightarrow> 's segment list \<Rightarrow> seg_point list \<Rightarrow> bounds option \<Rightarrow> 's segment list" where
  "boundSegments pf segments points bo = concat (map (\<lambda>s. boundSegment pf s points bo) segments)"

text \<open>What one step of the loop keeps: an inside value seen so far lies in a finished piece or in
  the open one.\<close>

definition seg_value :: "property_fn \<Rightarrow> seg_point list \<Rightarrow> nat \<Rightarrow> rat" where
  "seg_value pf points i = pf_normalize pf (sp_value (points ! i))"

definition covered_by :: "property_fn \<Rightarrow> seg_point list \<Rightarrow> rat \<Rightarrow> nat \<Rightarrow> nat \<Rightarrow> bool" where
  "covered_by pf points v lo hi \<longleftrightarrow>
     (\<exists>j. lo \<le> j \<and> j \<le> hi \<and> \<not> pt_skip points j \<and> seg_value pf points j = v)"

definition bound_inv ::
  "property_fn \<Rightarrow> seg_point list \<Rightarrow> bounds \<Rightarrow> nat \<Rightarrow> nat \<Rightarrow> 's bound_state \<Rightarrow> bool" where
  "bound_inv pf points b s0 i st \<longleftrightarrow>
     s0 \<le> bs_prev st \<and> (s0 < i \<longrightarrow> bs_prev st < i) \<and> (s0 = i \<longrightarrow> bs_prev st = s0) \<and>
     (\<forall>s. bs_sub st = Some s \<longrightarrow> s0 \<le> s \<and> s \<le> bs_prev st \<and> bs_prevValue st \<noteq> None) \<and>
     (\<forall>p. bs_prevValue st = Some p \<longrightarrow>
        \<not> pt_skip points (bs_prev st) \<and> seg_value pf points (bs_prev st) = p \<and> bs_prev st < i) \<and>
     (\<forall>r \<in> set (bs_result st). s0 \<le> seg_start r \<and> seg_start r \<le> seg_end r \<and> seg_end r < i) \<and>
     (\<forall>j. s0 \<le> j \<and> j < i \<and> \<not> pt_skip points j \<and>
          pf_between pf (seg_value pf points j) (b_start b) (b_end b) \<longrightarrow>
        (\<exists>r \<in> set (bs_result st). covered_by pf points (seg_value pf points j) (seg_start r) (seg_end r)) \<or>
        (\<exists>s. bs_sub st = Some s \<and> covered_by pf points (seg_value pf points j) s (bs_prev st)))"

lemma covered_mono:
  assumes "covered_by pf points v lo hi" "lo' \<le> lo" "hi \<le> hi'"
  shows "covered_by pf points v lo' hi'"
proof -
  obtain j where "lo \<le> j" "j \<le> hi" "\<not> pt_skip points j" "seg_value pf points j = v"
    using assms(1) by (auto simp: covered_by_def)
  with assms(2,3) have "lo' \<le> j \<and> j \<le> hi' \<and> \<not> pt_skip points j \<and> seg_value pf points j = v" by simp
  then show ?thesis by (auto simp: covered_by_def)
qed

lemma covered_self: "\<not> pt_skip points j \<Longrightarrow> lo \<le> j \<Longrightarrow> j \<le> hi \<Longrightarrow> covered_by pf points (seg_value pf points j) lo hi"
  by (auto simp: covered_by_def)

lemma bound_step_skip:
  assumes "bound_inv pf points b s0 i st" "i < length points" "s0 \<le> i"
    and "pt_skip points i \<or> bs_prevValue st = Some (seg_value pf points i)"
  shows "bound_step pf points b loop style st i = st" "bound_inv pf points b s0 (Suc i) st"
proof -
  show "bound_step pf points b loop style st i = st"
    using assms(2,4) by (auto simp: bound_step_def seg_value_def Let_def)
  have j: "(\<exists>r \<in> set (bs_result st). covered_by pf points (seg_value pf points i) (seg_start r) (seg_end r)) \<or>
      (\<exists>s. bs_sub st = Some s \<and> covered_by pf points (seg_value pf points i) s (bs_prev st))"
    if "\<not> pt_skip points i" "pf_between pf (seg_value pf points i) (b_start b) (b_end b)"
  proof -
    have p: "bs_prevValue st = Some (seg_value pf points i)" using that assms(4) by blast
    have inv: "s0 \<le> bs_prev st" "\<not> pt_skip points (bs_prev st)" "bs_prev st < i"
      "seg_value pf points (bs_prev st) = seg_value pf points i"
      using assms(1) p unfolding bound_inv_def by blast+
    have "\<forall>j. s0 \<le> j \<and> j < i \<and> \<not> pt_skip points j \<and>
        pf_between pf (seg_value pf points j) (b_start b) (b_end b) \<longrightarrow>
        (\<exists>r \<in> set (bs_result st). covered_by pf points (seg_value pf points j) (seg_start r) (seg_end r)) \<or>
        (\<exists>s. bs_sub st = Some s \<and> covered_by pf points (seg_value pf points j) s (bs_prev st))"
      using assms(1) unfolding bound_inv_def by blast
    from this[rule_format, of "bs_prev st"] inv that show ?thesis by simp
  qed
  have inv: "s0 \<le> bs_prev st" "s0 < i \<longrightarrow> bs_prev st < i" "s0 = i \<longrightarrow> bs_prev st = s0"
    "\<forall>s. bs_sub st = Some s \<longrightarrow> s0 \<le> s \<and> s \<le> bs_prev st \<and> bs_prevValue st \<noteq> None"
    "\<forall>p. bs_prevValue st = Some p \<longrightarrow>
        \<not> pt_skip points (bs_prev st) \<and> seg_value pf points (bs_prev st) = p \<and> bs_prev st < i"
    "\<forall>r \<in> set (bs_result st). s0 \<le> seg_start r \<and> seg_start r \<le> seg_end r \<and> seg_end r < i"
    "\<forall>j. s0 \<le> j \<and> j < i \<and> \<not> pt_skip points j \<and>
          pf_between pf (seg_value pf points j) (b_start b) (b_end b) \<longrightarrow>
        (\<exists>r \<in> set (bs_result st). covered_by pf points (seg_value pf points j) (seg_start r) (seg_end r)) \<or>
        (\<exists>s. bs_sub st = Some s \<and> covered_by pf points (seg_value pf points j) s (bs_prev st))"
    using assms(1) unfolding bound_inv_def by blast+
  show "bound_inv pf points b s0 (Suc i) st"
    unfolding bound_inv_def
  proof (intro conjI)
    show "s0 = Suc i \<longrightarrow> bs_prev st = s0" using assms(3) by simp
    show "s0 < Suc i \<longrightarrow> bs_prev st < Suc i" using inv(2,3) assms(3) by linarith
    show "\<forall>r \<in> set (bs_result st). s0 \<le> seg_start r \<and> seg_start r \<le> seg_end r \<and> seg_end r < Suc i"
      using inv(6) less_SucI by blast
    show "\<forall>j. s0 \<le> j \<and> j < Suc i \<and> \<not> pt_skip points j \<and>
          pf_between pf (seg_value pf points j) (b_start b) (b_end b) \<longrightarrow>
        (\<exists>r \<in> set (bs_result st). covered_by pf points (seg_value pf points j) (seg_start r) (seg_end r)) \<or>
        (\<exists>s. bs_sub st = Some s \<and> covered_by pf points (seg_value pf points j) s (bs_prev st))"
      using inv(7) j less_Suc_eq by metis
  qed (use inv less_SucI in blast)+
qed

text \<open>The general shape of a step: the open piece is started, kept or closed.\<close>

lemma bound_step_cases:
  assumes "\<not> pt_skip points i" "bs_prevValue st \<noteq> Some (seg_value pf points i)" "i < length points"
    and "bound_step pf points b loop style st i = st'"
  shows "bs_prev st' = i \<and> bs_prevValue st' = Some (seg_value pf points i) \<and>
    (\<exists>sub. (sub = bs_sub st \<or> bs_sub st = None \<and> (sub = Some i \<or> sub = Some (bs_prev st))) \<and>
       (pf_between pf (seg_value pf points i) (b_start b) (b_end b) \<longrightarrow> sub \<noteq> None) \<and>
       (bs_sub st' = sub \<and> bs_result st' = bs_result st \<or>
        (\<exists>s. sub = Some s \<and> bs_sub st' = None \<and>
           bs_result st' = bs_result st @ [normalizeSegment s i (length points) loop style])))"
proof -
  define sub where "sub = (if bs_sub st = None \<and> (pf_between pf (seg_value pf points i) (b_start b) (b_end b) \<or>
      (case bs_prevValue st of None \<Rightarrow> False
       | Some p \<Rightarrow> pf_between pf (b_start b) p (seg_value pf points i) \<and> pf_compare pf (b_start b) p \<noteq> 0))
    then Some (if pf_compare pf (seg_value pf points i) (b_start b) = 0 then i else bs_prev st) else bs_sub st)"
  have i: "i mod length points = i" using assms(3) by simp
  have st': "bs_prev st' = i" "bs_prevValue st' = Some (seg_value pf points i)"
    "bs_sub st' = sub \<and> bs_result st' = bs_result st \<or>
        (\<exists>s. sub = Some s \<and> bs_sub st' = None \<and>
           bs_result st' = bs_result st @ [normalizeSegment s i (length points) loop style])"
    unfolding assms(4)[symmetric] using assms(1,2) i
    by (auto simp: bound_step_def seg_value_def sub_def Let_def split: option.splits)
  moreover have "sub = bs_sub st \<or> bs_sub st = None \<and> (sub = Some i \<or> sub = Some (bs_prev st))"
    "pf_between pf (seg_value pf points i) (b_start b) (b_end b) \<longrightarrow> sub \<noteq> None"
    by (auto simp: sub_def)
  ultimately show ?thesis by blast
qed

lemma bound_step_inv:
  assumes "bound_inv pf points b s0 i st" "i < length points" "s0 \<le> i"
  shows "bound_inv pf points b s0 (Suc i) (bound_step pf points b loop style st i)"
proof (cases "pt_skip points i \<or> bs_prevValue st = Some (seg_value pf points i)")
  case True
  with bound_step_skip[OF assms True] show ?thesis by simp
next
  case False
  define st' where "st' = bound_step pf points b loop style st i"
  let ?v = "seg_value pf points"
  let ?in = "\<lambda>j. pf_between pf (?v j) (b_start b) (b_end b)"
  have ns: "\<not> pt_skip points i" using False by simp
  obtain sub where st': "bs_prev st' = i" "bs_prevValue st' = Some (?v i)"
    and sub: "sub = bs_sub st \<or> bs_sub st = None \<and> (sub = Some i \<or> sub = Some (bs_prev st))"
      "?in i \<longrightarrow> sub \<noteq> None"
    and res: "bs_sub st' = sub \<and> bs_result st' = bs_result st \<or>
        (\<exists>s. sub = Some s \<and> bs_sub st' = None \<and>
           bs_result st' = bs_result st @ [normalizeSegment s i (length points) loop style])"
    using bound_step_cases[OF ns _ assms(2) st'_def[symmetric]] False by blast
  have inv: "s0 \<le> bs_prev st" "bs_prev st \<le> i"
    "\<forall>s. bs_sub st = Some s \<longrightarrow> s0 \<le> s \<and> s \<le> bs_prev st"
    "\<forall>r \<in> set (bs_result st). s0 \<le> seg_start r \<and> seg_start r \<le> seg_end r \<and> seg_end r < i"
    "\<forall>j. s0 \<le> j \<and> j < i \<and> \<not> pt_skip points j \<and> ?in j \<longrightarrow>
        (\<exists>r \<in> set (bs_result st). covered_by pf points (?v j) (seg_start r) (seg_end r)) \<or>
        (\<exists>s. bs_sub st = Some s \<and> covered_by pf points (?v j) s (bs_prev st))"
    using assms(1,3) unfolding bound_inv_def by (blast, force, blast, blast, blast)
  have sub_range: "s0 \<le> s \<and> s \<le> i" if "sub = Some s" for s
  proof -
    from sub(1) consider "bs_sub st = Some s" | "s = i" | "s = bs_prev st"
      using \<open>sub = Some s\<close> by auto
    then show ?thesis
      using inv(1,2,3) assms(3) by cases (blast intro: le_trans, simp, simp)
  qed
  have norm: "seg_start (normalizeSegment s i (length points) loop style) = s"
    "seg_end (normalizeSegment s i (length points) loop style) = i" if "sub = Some s" for s
    using sub_range[OF that] assms(2) by (simp_all add: normalizeSegment_def)
  have cover: "(\<exists>r \<in> set (bs_result st). covered_by pf points (?v j) (seg_start r) (seg_end r)) \<or>
      (\<exists>s. sub = Some s \<and> covered_by pf points (?v j) s i)"
    if "s0 \<le> j" "j < Suc i" "\<not> pt_skip points j" "?in j" for j
  proof (cases "j = i")
    case True
    then obtain s where "sub = Some s" using sub(2) \<open>?in j\<close> by auto
    with covered_self[OF ns, where lo = s and hi = i and pf = pf] sub_range True show ?thesis by auto
  next
    case False
    then have "j < i" using that(2) by simp
    with inv(5) that consider "\<exists>r \<in> set (bs_result st). covered_by pf points (?v j) (seg_start r) (seg_end r)"
      | s where "bs_sub st = Some s" "covered_by pf points (?v j) s (bs_prev st)" by blast
    then show ?thesis
    proof cases
      case 2
      with sub(1) covered_mono[OF 2(2) le_refl inv(2)] show ?thesis by auto
    qed blast
  qed
  show ?thesis
    unfolding st'_def[symmetric] bound_inv_def
  proof (intro conjI)
    show "s0 \<le> bs_prev st'" "s0 < Suc i \<longrightarrow> bs_prev st' < Suc i" "s0 = Suc i \<longrightarrow> bs_prev st' = s0"
      using st' assms(3) by simp_all
    show "\<forall>s. bs_sub st' = Some s \<longrightarrow> s0 \<le> s \<and> s \<le> bs_prev st' \<and> bs_prevValue st' \<noteq> None"
      using res sub_range st' by auto
    show "\<forall>p. bs_prevValue st' = Some p \<longrightarrow>
        \<not> pt_skip points (bs_prev st') \<and> ?v (bs_prev st') = p \<and> bs_prev st' < Suc i"
      using st' ns by simp
    show "\<forall>r \<in> set (bs_result st'). s0 \<le> seg_start r \<and> seg_start r \<le> seg_end r \<and> seg_end r < Suc i"
      using res inv(4) norm sub_range by fastforce
    show "\<forall>j. s0 \<le> j \<and> j < Suc i \<and> \<not> pt_skip points j \<and> ?in j \<longrightarrow>
        (\<exists>r \<in> set (bs_result st'). covered_by pf points (?v j) (seg_start r) (seg_end r)) \<or>
        (\<exists>s. bs_sub st' = Some s \<and> covered_by pf points (?v j) s (bs_prev st'))"
      using res
    proof
      assume "bs_sub st' = sub \<and> bs_result st' = bs_result st"
      with cover st' show ?thesis by simp
    next
      assume "\<exists>s. sub = Some s \<and> bs_sub st' = None \<and>
         bs_result st' = bs_result st @ [normalizeSegment s i (length points) loop style]"
      with cover norm show ?thesis by fastforce
    qed
  qed
qed

text \<open>
  Restricting an open segment to an interval loses no value that is inside: for any property
  (linear or cyclic), every value of a drawn point of the segment that lies between the bounds
  occurs at a drawn point of one of the returned pieces (of several points with one value some may be
  left out), and every piece lies inside the segment.
\<close>

theorem boundSegment_covers:
  fixes seg :: "'s segment"
  assumes "\<not> seg_loop seg" "seg_start seg \<le> seg_end seg" "seg_end seg < length points"
  shows "(\<forall>j. seg_start seg \<le> j \<and> j \<le> seg_end seg \<and> \<not> pt_skip points j \<and>
       pf_between pf (seg_value pf points j) (b_start b) (b_end b) \<longrightarrow>
       (\<exists>r \<in> set (boundSegment pf seg points (Some b)).
          covered_by pf points (seg_value pf points j) (seg_start r) (seg_end r))) \<and>
    (\<forall>r \<in> set (boundSegment pf seg points (Some b)).
       seg_start seg \<le> seg_start r \<and> seg_start r \<le> seg_end r \<and> seg_end r \<le> seg_end seg)"
proof -
  let ?s = "seg_start seg" and ?e = "seg_end seg"
  have g: "getSegment pf seg points b = seg"
    using assms(1,2) by (simp add: getSegment_def)
  define init :: "'s bound_state" where "init = \<lparr>bs_result = [], bs_sub = None, bs_prev = ?s, bs_prevValue = None\<rparr>"
  have loop: "?s + n \<le> length points \<Longrightarrow>
      bound_inv pf points b ?s (?s + n)
        (foldl (bound_step pf points b (seg_loop seg) (seg_style seg)) init [?s ..< ?s + n])" for n
  proof (induction n)
    case 0
    show ?case by (simp add: bound_inv_def init_def)
  next
    case (Suc n)
    have "[?s ..< ?s + Suc n] = [?s ..< ?s + n] @ [?s + n]" by simp
    with bound_step_inv[OF Suc.IH] Suc.prems show ?case by simp
  qed
  define st where "st = foldl (bound_step pf points b (seg_loop seg) (seg_style seg)) init [?s ..< ?e + 1]"
  have inv: "bound_inv pf points b ?s (Suc ?e) st"
    using loop[of "Suc ?e - ?s"] assms(2,3) by (simp add: st_def)
  have res: "boundSegment pf seg points (Some b) = bs_result st @
      (case bs_sub st of
         Some s \<Rightarrow> [normalizeSegment s ?e (length points) (seg_loop seg) (seg_style seg)] | None \<Rightarrow> [])"
    by (simp only: boundSegment_def g st_def init_def Let_def option.case)
  have norm: "seg_start (normalizeSegment s ?e (length points) (seg_loop seg) (seg_style seg)) = s \<and>
      seg_end (normalizeSegment s ?e (length points) (seg_loop seg) (seg_style seg)) = ?e \<and> ?s \<le> s \<and> s \<le> ?e"
    if "bs_sub st = Some s" for s
    using inv that assms(3) unfolding bound_inv_def by (force simp: normalizeSegment_def)
  have prev: "bs_prev st \<le> ?e" using inv assms(2) unfolding bound_inv_def by force
  show ?thesis
  proof (intro conjI allI impI ballI)
    fix j assume j: "?s \<le> j \<and> j \<le> ?e \<and> \<not> pt_skip points j \<and>
       pf_between pf (seg_value pf points j) (b_start b) (b_end b)"
    then have "(\<exists>r \<in> set (bs_result st). covered_by pf points (seg_value pf points j) (seg_start r) (seg_end r)) \<or>
        (\<exists>s. bs_sub st = Some s \<and> covered_by pf points (seg_value pf points j) s (bs_prev st))"
      using inv unfolding bound_inv_def by (simp add: less_Suc_eq_le)
    then show "\<exists>r \<in> set (boundSegment pf seg points (Some b)).
          covered_by pf points (seg_value pf points j) (seg_start r) (seg_end r)"
    proof
      assume "\<exists>s. bs_sub st = Some s \<and> covered_by pf points (seg_value pf points j) s (bs_prev st)"
      then obtain s where s: "bs_sub st = Some s" "covered_by pf points (seg_value pf points j) s (bs_prev st)"
        by blast
      from covered_mono[OF s(2) le_refl prev] norm[OF s(1)] s(1) show ?thesis by (auto simp: res)
    qed (auto simp: res)
  next
    fix r assume "r \<in> set (boundSegment pf seg points (Some b))"
    then consider "r \<in> set (bs_result st)"
      | s where "bs_sub st = Some s" "r = normalizeSegment s ?e (length points) (seg_loop seg) (seg_style seg)"
      by (cases "bs_sub st") (auto simp: res)
    then have "?s \<le> seg_start r \<and> seg_start r \<le> seg_end r \<and> seg_end r \<le> ?e"
    proof cases
      case 1
      with inv show ?thesis unfolding bound_inv_def by (simp add: less_Suc_eq_le)
    next
      case 2
      with norm show ?thesis by simp
    qed
    then show "?s \<le> seg_start r" "seg_start r \<le> seg_end r" "seg_end r \<le> ?e" by simp_all
  qed
qed

theorem boundSegment_covers_witness:
  "\<exists>r \<in> set (boundSegment linear_property (plain_seg 0 3 False :: unit segment) gap_points (Some \<lparr>b_start = 1, b_end = 5\<rparr>)).
     covered_by linear_property gap_points 2 (seg_start r) (seg_end r)"
proof -
  have v: "seg_value linear_property gap_points 2 = 2"
    by (simp add: seg_value_def linear_property_def gap_points_def)
  have len: "\<not> seg_loop (plain_seg 0 3 False :: unit segment)"
    "seg_start (plain_seg 0 3 False :: unit segment) \<le> seg_end (plain_seg 0 3 False :: unit segment)"
    "seg_end (plain_seg 0 3 False :: unit segment) < length gap_points"
    by (simp_all add: gap_points_def)
  have "\<not> pt_skip gap_points 2" by (simp add: gap_points_def)
  moreover have "pf_between linear_property 2 1 5" by (simp add: linear_property_def isBetween_def)
  ultimately show ?thesis
    using conjunct1[OF boundSegment_covers[OF len, of linear_property "\<lparr>b_start = 1, b_end = 5\<rparr>"], rule_format, of 2]
    unfolding v by simp
qed

subsection \<open>Splitting by styles\<close>

text \<open>
  The loops of \<open>addStyle\<close> look for a drawn point in one direction; without one they do not
  return, or leave the array and throw: \<open>None\<close>.  \<open>style_of\<close> is the style of the piece between
  two points: the scriptable segment options, read with the context made of the two points and their
  indices.
\<close>

partial_function (option) seek :: "seg_point list \<Rightarrow> int \<Rightarrow> int \<Rightarrow> nat option" where
  "seek points dir i =
     (if i < 0 then None
      else if pt_skip points (nat i mod length points) then seek points dir (i + dir)
      else Some (nat i))"

record 's split_state =
  sl_result :: "'s segment list"
  sl_prevStyle :: 's
  sl_start :: nat

definition addStyle ::
  "seg_point list \<Rightarrow> bool \<Rightarrow> nat \<Rightarrow> nat \<Rightarrow> bool \<Rightarrow> 's \<Rightarrow> 's split_state \<Rightarrow> 's split_state option" where
  "addStyle points spanGaps s e l style st =
     (let count = length points; dir = (if spanGaps then -1 else 1) in
      if s = e then Some st
      else
        do { s \<leftarrow> seek points (- dir) (int s + int count);
             e \<leftarrow> seek points dir (int e);
             Some (if s mod count \<noteq> e mod count
                   then st\<lparr>sl_result := sl_result st @ [\<lparr>seg_start = s mod count, seg_end = e mod count,
                             seg_loop = l, seg_style = Some style\<rparr>],
                           sl_prevStyle := style, sl_start := e mod count\<rparr>
                   else st) })"

definition split_point ::
  "seg_point list \<Rightarrow> bool \<Rightarrow> (nat \<Rightarrow> nat \<Rightarrow> nat \<Rightarrow> nat \<Rightarrow> 's) \<Rightarrow> bool \<Rightarrow>
   ('s split_state \<times> nat) option \<Rightarrow> nat \<Rightarrow> ('s split_state \<times> nat) option" where
  "split_point points spanGaps style_of l so i =
     (case so of
        None \<Rightarrow> None
      | Some (st, prev) \<Rightarrow>
          (let count = length points;
               style = style_of prev (i mod count) ((i - 1) mod count) (i mod count)
           in do { st \<leftarrow> (if style \<noteq> sl_prevStyle st
                          then addStyle points spanGaps (sl_start st) (i - 1) l (sl_prevStyle st) st else Some st);
                   Some (st\<lparr>sl_prevStyle := style\<rparr>, i mod count) }))"

definition split_segment ::
  "seg_point list \<Rightarrow> bool \<Rightarrow> (nat \<Rightarrow> nat \<Rightarrow> nat \<Rightarrow> nat \<Rightarrow> 's) \<Rightarrow>
   's split_state option \<Rightarrow> 's segment \<Rightarrow> 's split_state option" where
  "split_segment points spanGaps style_of so seg =
     (case so of
        None \<Rightarrow> None
      | Some st \<Rightarrow>
          (let start = (if spanGaps then sl_start st else seg_start seg);
               st = st\<lparr>sl_start := start\<rparr>;
               i = max (start + 1) (seg_end seg + 1)
           in do { (st, prev) \<leftarrow> foldl (split_point points spanGaps style_of (seg_loop seg))
                                   (Some (st, start mod length points)) [start + 1 ..< seg_end seg + 1];
                   (if sl_start st < i - 1
                    then addStyle points spanGaps (sl_start st) (i - 1) (seg_loop seg) (sl_prevStyle st) st
                    else Some st) }))"

definition doSplitByStyles ::
  "'s \<Rightarrow> seg_point list \<Rightarrow> bool \<Rightarrow> (nat \<Rightarrow> nat \<Rightarrow> nat \<Rightarrow> nat \<Rightarrow> 's) \<Rightarrow> 's segment list \<Rightarrow> 's segment list option" where
  "doSplitByStyles baseStyle points spanGaps style_of segments =
     (if segments = [] then None
      else map_option sl_result
             (foldl (split_segment points spanGaps style_of)
                (Some \<lparr>sl_result = [], sl_prevStyle = baseStyle, sl_start = seg_start (hd segments)\<rparr>) segments))"

text \<open>Looking forward finds the next drawn point.\<close>

lemma seek_forward:
  assumes "\<not> pt_skip points ((i + k) mod length points)"
  shows "\<exists>j. seek points 1 (int i) = Some j \<and> i \<le> j \<and> j \<le> i + k \<and> \<not> pt_skip points (j mod length points)"
  using assms
proof (induction k arbitrary: i)
  case 0
  then show ?case by (subst seek.simps) simp
next
  case (Suc k)
  show ?case
  proof (cases "pt_skip points (i mod length points)")
    case False
    then show ?thesis by (subst seek.simps) simp
  next
    case True
    then have "seek points 1 (int i) = seek points 1 (int (Suc i))"
      by (subst seek.simps) (simp add: add.commute)
    with Suc.IH[of "Suc i"] Suc.prems show ?thesis by auto
  qed
qed

end
