(* ===== verification/ChartInteraction.thy ===== *)
theory ChartInteraction
  imports ChartCore ChartMath
begin

section \<open>Chart.js 3.9.1: finding the items of an interaction\<close>

text \<open>
  The interaction modes of \<open>www/root/js/chart_3.9.js\<close> and the searches they share.  An element
  is what this code asks of it: whether it is skipped, its position, its centre and its range
  predicates (functions of the element classes, fields here, already read for the given
  \<open>useFinalPosition\<close>).  The code compares square roots of sums of squares; the sums
  themselves are compared here, which orders them alike.
\<close>

record element =
  el_skip :: bool
  el_x :: rat
  el_y :: rat
  el_center :: "rat \<times> rat"
  el_inRange :: "rat \<Rightarrow> rat \<Rightarrow> bool"
  el_inXRange :: "rat \<Rightarrow> bool"
  el_inYRange :: "rat \<Rightarrow> bool"
  el_inAngle :: "rat \<Rightarrow> rat \<Rightarrow> bool"
  el_range :: "string \<Rightarrow> rat option"

text \<open>A visible data set: \<open>ms_scale\<close> is the axis of its index scale and whether its pixels are
  reversed.\<close>

record metaset =
  ms_index :: nat
  ms_data :: "element list"
  ms_sorted :: bool
  ms_scale :: "(string \<times> bool) option"
  ms_shared :: bool

record chart_view =
  cv_metasets :: "metaset list"
  cv_inArea :: "rat \<times> rat \<Rightarrow> bool"
  cv_datasets :: "element list list"

record item =
  it_element :: element
  it_dataset :: nat
  it_index :: nat

definition el_pos :: "string \<Rightarrow> element \<Rightarrow> rat" where
  "el_pos axis el = (if axis = ''x'' then el_x el else el_y el)"

definition pos_on :: "string \<Rightarrow> rat \<times> rat \<Rightarrow> rat" where
  "pos_on axis p = (if axis = ''x'' then fst p else snd p)"

subsection \<open>Searching\<close>

definition lookup_method :: "bool \<Rightarrow> string \<Rightarrow> element list \<Rightarrow> rat \<Rightarrow> int \<times> int" where
  "lookup_method rvs axis data v =
     (if rvs then rlookupByKey (el_pos axis) data v else lookupByKey (el_pos axis) data v False)"

definition binarySearch :: "metaset \<Rightarrow> string \<Rightarrow> rat \<Rightarrow> bool \<Rightarrow> int \<times> int" where
  "binarySearch ms axis v intersect =
     (let data = ms_data ms; whole = (0, int (length data) - 1) in
      case ms_scale ms of
        None \<Rightarrow> whole
      | Some (scaleAxis, rvs) \<Rightarrow>
          if axis = scaleAxis \<and> axis \<noteq> ''r'' \<and> ms_sorted ms \<and> data \<noteq> [] then
            (if \<not> intersect then lookup_method rvs axis data v
             else if ms_shared ms then
               (case el_range (data ! 0) axis of
                  Some r \<Rightarrow>
                    if r \<noteq> 0
                    then (fst (lookup_method rvs axis data (v - r)), snd (lookup_method rvs axis data (v + r)))
                    else whole
                | None \<Rightarrow> whole)
             else whole)
          else whole)"

text \<open>The items the handler is called on, in order.\<close>

definition evaluated_in :: "metaset \<Rightarrow> int \<times> int \<Rightarrow> item list" where
  "evaluated_in ms r =
     map (\<lambda>j. \<lparr>it_element = ms_data ms ! nat j, it_dataset = ms_index ms, it_index = nat j\<rparr>)
       (filter (\<lambda>j. \<not> el_skip (ms_data ms ! nat j)) [fst r .. snd r])"

definition evaluateInteractionItems :: "chart_view \<Rightarrow> string \<Rightarrow> rat \<times> rat \<Rightarrow> bool \<Rightarrow> item list" where
  "evaluateInteractionItems chart axis position intersect =
     concat (map (\<lambda>ms. evaluated_in ms (binarySearch ms axis (pos_on axis position) intersect)) (cv_metasets chart))"

definition has_char :: "char \<Rightarrow> string \<Rightarrow> bool" where
  "has_char c s \<longleftrightarrow> c \<in> set s"

definition distance2 :: "string \<Rightarrow> rat \<times> rat \<Rightarrow> rat \<times> rat \<Rightarrow> rat" where
  "distance2 axis p q =
     (let dx = (if has_char CHR ''x'' axis then \<bar>fst p - fst q\<bar> else 0);
          dy = (if has_char CHR ''y'' axis then \<bar>snd p - snd q\<bar> else 0)
      in dx ^ 2 + dy ^ 2)"

subsection \<open>The three searches\<close>

definition getIntersectItems :: "chart_view \<Rightarrow> rat \<times> rat \<Rightarrow> string \<Rightarrow> bool \<Rightarrow> item list" where
  "getIntersectItems chart position axis includeInvisible =
     (if \<not> includeInvisible \<and> \<not> cv_inArea chart position then []
      else filter (\<lambda>it. (includeInvisible \<or> cv_inArea chart (el_x (it_element it), el_y (it_element it))) \<and>
                        el_inRange (it_element it) (fst position) (snd position))
             (evaluateInteractionItems chart axis position True))"

definition getNearestRadialItems :: "chart_view \<Rightarrow> rat \<times> rat \<Rightarrow> string \<Rightarrow> item list" where
  "getNearestRadialItems chart position axis =
     filter (\<lambda>it. el_inAngle (it_element it) (fst position) (snd position))
       (evaluateInteractionItems chart axis position False)"

definition nearest_step ::
  "(item \<Rightarrow> bool) \<Rightarrow> (item \<Rightarrow> rat) \<Rightarrow> item list \<times> rat option \<Rightarrow> item \<Rightarrow> item list \<times> rat option" where
  "nearest_step admissible dst st it =
     (let (items, minDistance) = st in
      if \<not> admissible it then st
      else (case minDistance of
              None \<Rightarrow> ([it], Some (dst it))
            | Some m \<Rightarrow> if dst it < m then ([it], Some (dst it))
                        else if dst it = m then (items @ [it], minDistance)
                        else st))"

definition admissible_item :: "chart_view \<Rightarrow> rat \<times> rat \<Rightarrow> bool \<Rightarrow> bool \<Rightarrow> item \<Rightarrow> bool" where
  "admissible_item chart position intersect includeInvisible it =
     (let inRange = el_inRange (it_element it) (fst position) (snd position);
          pointInArea = (includeInvisible \<or> cv_inArea chart (el_center (it_element it)))
      in \<not> (intersect \<and> \<not> inRange) \<and> (pointInArea \<or> inRange))"

definition getNearestCartesianItems ::
  "chart_view \<Rightarrow> rat \<times> rat \<Rightarrow> string \<Rightarrow> bool \<Rightarrow> bool \<Rightarrow> item list" where
  "getNearestCartesianItems chart position axis intersect includeInvisible =
     fst (foldl (nearest_step (admissible_item chart position intersect includeInvisible)
                   (\<lambda>it. distance2 axis position (el_center (it_element it))))
            ([], None) (evaluateInteractionItems chart axis position False))"

definition getNearestItems :: "chart_view \<Rightarrow> rat \<times> rat \<Rightarrow> string \<Rightarrow> bool \<Rightarrow> bool \<Rightarrow> item list" where
  "getNearestItems chart position axis intersect includeInvisible =
     (if \<not> includeInvisible \<and> \<not> cv_inArea chart position then []
      else if axis = ''r'' \<and> \<not> intersect then getNearestRadialItems chart position axis
      else getNearestCartesianItems chart position axis intersect includeInvisible)"

definition getAxisItems :: "chart_view \<Rightarrow> rat \<times> rat \<Rightarrow> string \<Rightarrow> bool \<Rightarrow> item list" where
  "getAxisItems chart position axis intersect =
     (let inAxis = (\<lambda>it. if axis = ''x'' then el_inXRange (it_element it) (fst position)
                         else el_inYRange (it_element it) (snd position));
          items = filter inAxis (evaluateInteractionItems chart axis position False);
          intersectsItem = list_ex (\<lambda>it. el_inRange (it_element it) (fst position) (snd position)) items
      in if intersect \<and> \<not> intersectsItem then [] else items)"

subsection \<open>The modes\<close>

record mode_options =
  mo_axis :: "string option"
  mo_intersect :: bool
  mo_includeInvisible :: bool

definition mode_axis :: "string \<Rightarrow> mode_options \<Rightarrow> string" where
  "mode_axis dflt options = (case mo_axis options of Some a \<Rightarrow> if a = [] then dflt else a | None \<Rightarrow> dflt)"

definition hit_items :: "chart_view \<Rightarrow> rat \<times> rat \<Rightarrow> string \<Rightarrow> mode_options \<Rightarrow> item list" where
  "hit_items chart position axis options =
     (if mo_intersect options then getIntersectItems chart position axis (mo_includeInvisible options)
      else getNearestItems chart position axis False (mo_includeInvisible options))"

definition mode_index :: "chart_view \<Rightarrow> rat \<times> rat \<Rightarrow> mode_options \<Rightarrow> item list" where
  "mode_index chart position options =
     (case hit_items chart position (mode_axis ''x'' options) options of
        [] \<Rightarrow> []
      | it # _ \<Rightarrow>
          concat (map (\<lambda>ms. if it_index it < length (ms_data ms) \<and> \<not> el_skip (ms_data ms ! it_index it)
                            then [\<lparr>it_element = ms_data ms ! it_index it, it_dataset = ms_index ms,
                                   it_index = it_index it\<rparr>]
                            else []) (cv_metasets chart)))"

definition mode_dataset :: "chart_view \<Rightarrow> rat \<times> rat \<Rightarrow> mode_options \<Rightarrow> item list" where
  "mode_dataset chart position options =
     (case hit_items chart position (mode_axis ''xy'' options) options of
        [] \<Rightarrow> []
      | it # _ \<Rightarrow>
          (let data = cv_datasets chart ! it_dataset it
           in map (\<lambda>i. \<lparr>it_element = data ! i, it_dataset = it_dataset it, it_index = i\<rparr>) [0..<length data]))"

definition mode_point :: "chart_view \<Rightarrow> rat \<times> rat \<Rightarrow> mode_options \<Rightarrow> item list" where
  "mode_point chart position options =
     getIntersectItems chart position (mode_axis ''xy'' options) (mo_includeInvisible options)"

definition mode_nearest :: "chart_view \<Rightarrow> rat \<times> rat \<Rightarrow> mode_options \<Rightarrow> item list" where
  "mode_nearest chart position options =
     getNearestItems chart position (mode_axis ''xy'' options) (mo_intersect options) (mo_includeInvisible options)"

definition mode_x :: "chart_view \<Rightarrow> rat \<times> rat \<Rightarrow> mode_options \<Rightarrow> item list" where
  "mode_x chart position options = getAxisItems chart position ''x'' (mo_intersect options)"

definition mode_y :: "chart_view \<Rightarrow> rat \<times> rat \<Rightarrow> mode_options \<Rightarrow> item list" where
  "mode_y chart position options = getAxisItems chart position ''y'' (mo_intersect options)"

subsection \<open>The nearest items are the nearest\<close>

definition closest :: "(item \<Rightarrow> rat) \<Rightarrow> item list \<Rightarrow> item list" where
  "closest dst its = filter (\<lambda>it. \<forall>other \<in> set its. dst it \<le> dst other) its"

definition nearest_inv :: "(item \<Rightarrow> rat) \<Rightarrow> item list \<Rightarrow> item list \<times> rat option \<Rightarrow> bool" where
  "nearest_inv dst seen st \<longleftrightarrow>
     (case snd st of
        None \<Rightarrow> seen = [] \<and> fst st = []
      | Some m \<Rightarrow> (\<exists>it \<in> set seen. dst it = m) \<and> (\<forall>it \<in> set seen. m \<le> dst it) \<and>
                  fst st = filter (\<lambda>it. dst it = m) seen)"

lemma nearest_step_inv:
  assumes "nearest_inv dst seen st" "ok it"
  shows "nearest_inv dst (seen @ [it]) (nearest_step ok dst st it)"
proof (cases "snd st")
  case None
  with assms show ?thesis
    by (cases st) (simp add: nearest_inv_def nearest_step_def)
next
  case (Some m)
  then obtain items where st: "st = (items, Some m)" by (cases st) auto
  have i: "\<exists>it \<in> set seen. dst it = m" "\<forall>it \<in> set seen. m \<le> dst it" "items = filter (\<lambda>it. dst it = m) seen"
    using assms(1) by (simp_all add: nearest_inv_def st)
  consider "dst it < m" | "dst it = m" | "m < dst it" by linarith
  then show ?thesis
  proof cases
    case 1
    then have "filter (\<lambda>x. dst x = dst it) seen = []"
      using i(2) by (force simp: filter_empty_conv)
    with 1 assms(2) i show ?thesis
      by (force simp: nearest_inv_def nearest_step_def st)
  next
    case 2
    with assms(2) i show ?thesis by (auto simp: nearest_inv_def nearest_step_def st)
  next
    case 3
    with assms(2) i show ?thesis by (auto simp: nearest_inv_def nearest_step_def st)
  qed
qed

lemma nearest_fold_inv: "nearest_inv dst (filter ok its) (foldl (nearest_step ok dst) ([], None) its)"
proof (induction its rule: rev_induct)
  case Nil
  then show ?case by (simp add: nearest_inv_def)
next
  case (snoc it its)
  show ?case
  proof (cases "ok it")
    case True
    with nearest_step_inv[of dst "filter ok its" _ ok it, OF snoc True] show ?thesis by simp
  next
    case False
    with snoc show ?thesis by (simp add: nearest_step_def Let_def split_beta)
  qed
qed

lemma nearest_inv_closest: "nearest_inv dst its st \<Longrightarrow> fst st = closest dst its"
proof (cases "snd st")
  case None
  then show "nearest_inv dst its st \<Longrightarrow> ?thesis" by (simp add: nearest_inv_def closest_def)
next
  case (Some m)
  assume inv: "nearest_inv dst its st"
  then have i: "\<exists>it \<in> set its. dst it = m" "\<forall>it \<in> set its. m \<le> dst it"
      "fst st = filter (\<lambda>it. dst it = m) its"
    by (simp_all add: nearest_inv_def Some)
  have "filter (\<lambda>it. dst it = m) its = closest dst its"
    unfolding closest_def by (rule filter_cong) (use i(1,2) in force)+
  with i(3) show ?thesis by simp
qed

text \<open>
  C9. The nearest mode on a cartesian axis returns, of the evaluated items it may consider, all
  those at the smallest distance and no other, in the order of evaluation.
\<close>

theorem nearest_exact:
  "getNearestCartesianItems chart position axis intersect includeInvisible =
     closest (\<lambda>it. distance2 axis position (el_center (it_element it)))
       (filter (admissible_item chart position intersect includeInvisible)
          (evaluateInteractionItems chart axis position False))"
  unfolding getNearestCartesianItems_def by (rule nearest_inv_closest[OF nearest_fold_inv])

lemma lookup_closest:
  assumes "sorted t" "j < length t"
  shows "\<exists>i. fst (lookup t v) \<le> int i \<and> int i \<le> snd (lookup t v) \<and> i < length t \<and> \<bar>t ! i - v\<bar> \<le> \<bar>t ! j - v\<bar>"
proof -
  obtain lo hi where lh: "lookup t v = (lo, hi)" by fastforce
  have ne: "t \<noteq> []" using assms(2) by auto
  note r = lookup_nonempty_range[OF lh ne]
  have lk: "lookup_cmp (length t) (\<lambda>i. t ! nat i < v) = (lo, hi)" using lh by (simp add: lookup_def)
  have pos: "0 < length t" using assms(2) by linarith
  consider "lo \<le> int j" "int j \<le> hi" | "int j < lo" | "hi < int j" by linarith
  then show ?thesis
  proof cases
    case 1
    with lh assms(2) show ?thesis by (auto intro!: exI[of _ j])
  next
    case 2
    then have "t ! nat lo < v" using plain_probe.below[OF assms(1) lk pos, of lo] by simp
    moreover have "t ! j \<le> t ! nat lo" 
      by (rule sorted_nth_mono[OF assms(1)]) (use 2 r in linarith)+
    moreover have "nat lo < length t" using r 2 by linarith
    ultimately show ?thesis using lh r 2 by (intro exI[of _ "nat lo"]) simp
  next
    case 3
    then have "v \<le> t ! nat hi"
      using plain_probe.above[OF assms(1) lk pos, of hi] assms(2) by simp
    moreover have "t ! nat hi \<le> t ! j" 
      by (rule sorted_nth_mono[OF assms(1)]) (use 3 r assms(2) in linarith)+
    moreover have "nat hi < length t" using r 3 assms(2) by linarith
    ultimately show ?thesis using lh r 3 by (intro exI[of _ "nat hi"]) simp
  qed
qed

text \<open>
  C10. The binary search of the interaction code never hides the nearest item: on a sorted data
  set with increasing pixels, for every element of the data there is one in the evaluated range
  that is at least as close to the position along the axis.
\<close>

theorem binarySearch_closest:
  assumes "ms_scale ms = Some (axis, False)" "sorted (map (el_pos axis) (ms_data ms))"
    and "j < length (ms_data ms)" "binarySearch ms axis v False = (lo, hi)"
  shows "\<exists>i < length (ms_data ms). lo \<le> int i \<and> int i \<le> hi \<and>
    \<bar>el_pos axis (ms_data ms ! i) - v\<bar> \<le> \<bar>el_pos axis (ms_data ms ! j) - v\<bar>"
proof -
  let ?t = "map (el_pos axis) (ms_data ms)"
  have "(lo, hi) = (0, int (length (ms_data ms)) - 1) \<or> (lo, hi) = lookup ?t v"
    using assms(1,4) by (auto simp: binarySearch_def lookup_method_def lookupByKey_map Let_def split: if_splits)
  then show ?thesis
  proof
    assume "(lo, hi) = (0, int (length (ms_data ms)) - 1)"
    with assms(3) show ?thesis by (auto intro!: exI[of _ j])
  next
    assume "(lo, hi) = lookup ?t v"
    with lookup_closest[OF assms(2), of j v] assms(3) show ?thesis
      by (auto simp: nth_map) (metis fst_conv snd_conv nth_map)
  qed
qed

definition dot_at :: "rat \<Rightarrow> rat \<Rightarrow> element" where
  "dot_at px py = \<lparr>el_skip = False, el_x = px, el_y = py, el_center = (px, py),
     el_inRange = (\<lambda>x y. \<bar>x - px\<bar> \<le> 3 \<and> \<bar>y - py\<bar> \<le> 3), el_inXRange = (\<lambda>x. \<bar>x - px\<bar> \<le> 3),
     el_inYRange = (\<lambda>y. \<bar>y - py\<bar> \<le> 3), el_inAngle = (\<lambda>_ _. False), el_range = (\<lambda>_. None)\<rparr>"

definition three_dots :: metaset where
  "three_dots = \<lparr>ms_index = 0, ms_data = [dot_at 10 5, dot_at 20 9, dot_at 40 2], ms_sorted = True,
     ms_scale = Some (''x'', False), ms_shared = False\<rparr>"

theorem binarySearch_closest_witness:
  "\<exists>i < 3. \<bar>el_pos ''x'' (ms_data three_dots ! i) - 24\<bar> \<le> \<bar>el_pos ''x'' (ms_data three_dots ! 0) - 24\<bar>"
proof -
  obtain lo hi where r: "binarySearch three_dots ''x'' 24 False = (lo, hi)" by fastforce
  have "sorted (map (el_pos ''x'') (ms_data three_dots))" "ms_scale three_dots = Some (''x'', False)"
      "length (ms_data three_dots) = 3"
    by (simp_all add: three_dots_def dot_at_def el_pos_def)
  with binarySearch_closest[OF _ _ _ r, of 0] show ?thesis by auto
qed

end
