(* ===== verification/ChartLayout.thy ===== *)
theory ChartLayout
  imports ChartOptions
begin

section \<open>Chart.js 3.9.1: the layout of boxes around the chart area\<close>

text \<open>
  The object \<open>layouts\<close> of \<open>www/root/js/chart_3.9.js\<close> with its helpers: scales, legends and
  titles are boxes that are fitted around the chart area and then placed.  A box is named by its
  index in \<open>chart.boxes\<close>; what \<open>wrapBoxes\<close> puts around it is part of its record.  The method
  \<open>update\<close> of a box is code of its class and a parameter (\<open>fit\<close>): given the box, the offered
  width and height and the margins, it returns the new width, height and padding.  A width of
  \<open>0\<close> stands for every falsy one.  Loading the options and drawing are not modelled.
\<close>

subsection \<open>State\<close>

datatype box_pos = PosName string | PosObject

record sides =
  sd_left :: rat
  sd_top :: rat
  sd_right :: rat
  sd_bottom :: rat

record lbox =
  bx_pos :: box_pos
  bx_horizontal :: bool
  bx_weight :: rat
  bx_stack :: string
  bx_stackWeight :: rat
  bx_fullSize :: bool
  bx_axis :: string
  bx_display :: bool
  bx_padding :: "sides option"
  bx_left :: rat
  bx_top :: rat
  bx_right :: rat
  bx_bottom :: rat
  bx_width :: rat
  bx_height :: rat
  lw_width :: rat
  lw_height :: rat
  lw_size :: rat

record lstack =
  st_count :: nat
  st_placed :: rat
  st_weight :: rat
  st_size :: rat
  st_start :: "rat option"

record chart_area =
  ca_sides :: sides
  ca_maxPadding :: sides
  ca_w :: rat
  ca_h :: rat
  ca_x :: rat
  ca_y :: rat

record layout_params =
  lp_outerWidth :: rat
  lp_outerHeight :: rat
  lp_padding :: sides
  lp_availableWidth :: rat
  lp_availableHeight :: rat
  lp_vBoxMaxWidth :: rat
  lp_hBoxMaxHeight :: rat

record layout_state =
  ls_boxes :: "lbox list"
  ls_stacks :: "(string \<times> lstack) list"
  ls_area :: chart_area

type_synonym fit_fn = "nat \<Rightarrow> lbox \<Rightarrow> rat \<Rightarrow> rat \<Rightarrow> sides \<Rightarrow> rat \<times> rat \<times> sides option"

subsection \<open>Selecting and ordering\<close>

definition staticPositions :: "string list" where
  "staticPositions = [''left'', ''top'', ''right'', ''bottom'']"

definition is_static :: "lbox \<Rightarrow> bool" where
  "is_static b = (case bx_pos b of PosName p \<Rightarrow> p \<in> set staticPositions | PosObject \<Rightarrow> False)"

definition filterByPosition :: "lbox list \<Rightarrow> string \<Rightarrow> nat list" where
  "filterByPosition boxes position = filter (\<lambda>i. bx_pos (boxes ! i) = PosName position) [0..<length boxes]"

definition filterDynamicPositionByAxis :: "lbox list \<Rightarrow> string \<Rightarrow> nat list" where
  "filterDynamicPositionByAxis boxes axis =
     filter (\<lambda>i. \<not> is_static (boxes ! i) \<and> bx_axis (boxes ! i) = axis) [0..<length boxes]"

text \<open>The comparison of \<open>sortByWeight\<close>: by weight, then by index; both reversed on demand.\<close>

definition weight_le :: "lbox list \<Rightarrow> bool \<Rightarrow> nat \<Rightarrow> nat \<Rightarrow> bool" where
  "weight_le boxes reverse a b =
     (let v0 = (if reverse then b else a); v1 = (if reverse then a else b) in
      if bx_weight (boxes ! v0) = bx_weight (boxes ! v1) then v0 \<le> v1
      else bx_weight (boxes ! v0) < bx_weight (boxes ! v1))"

fun insert_by :: "('a \<Rightarrow> 'a \<Rightarrow> bool) \<Rightarrow> 'a \<Rightarrow> 'a list \<Rightarrow> 'a list" where
  "insert_by le x [] = [x]"
| "insert_by le x (y # ys) = (if le x y then x # y # ys else y # insert_by le x ys)"

text \<open>\<open>Array.prototype.sort\<close> with a comparison that is a total order.\<close>

definition sort_by :: "('a \<Rightarrow> 'a \<Rightarrow> bool) \<Rightarrow> 'a list \<Rightarrow> 'a list" where
  "sort_by le xs = foldr (insert_by le) xs []"

definition sortByWeight :: "lbox list \<Rightarrow> bool \<Rightarrow> nat list \<Rightarrow> nat list" where
  "sortByWeight boxes reverse idx = sort_by (weight_le boxes reverse) idx"

record layout_boxes =
  lb_fullSize :: "nat list"
  lb_leftAndTop :: "nat list"
  lb_rightAndBottom :: "nat list"
  lb_chartArea :: "nat list"
  lb_vertical :: "nat list"
  lb_horizontal :: "nat list"

definition left_boxes :: "lbox list \<Rightarrow> nat list" where
  "left_boxes boxes = sortByWeight boxes True (filterByPosition boxes ''left'')"

definition right_boxes :: "lbox list \<Rightarrow> nat list" where
  "right_boxes boxes = sortByWeight boxes False (filterByPosition boxes ''right'')"

definition top_boxes :: "lbox list \<Rightarrow> nat list" where
  "top_boxes boxes = sortByWeight boxes True (filterByPosition boxes ''top'')"

definition bottom_boxes :: "lbox list \<Rightarrow> nat list" where
  "bottom_boxes boxes = sortByWeight boxes False (filterByPosition boxes ''bottom'')"

definition buildLayoutBoxes :: "lbox list \<Rightarrow> layout_boxes" where
  "buildLayoutBoxes boxes =
     (let left = left_boxes boxes; right = right_boxes boxes;
          tp = top_boxes boxes; bottom = bottom_boxes boxes;
          centerHorizontal = filterDynamicPositionByAxis boxes ''x'';
          centerVertical = filterDynamicPositionByAxis boxes ''y''
      in \<lparr>lb_fullSize = sortByWeight boxes True (filter (\<lambda>i. bx_fullSize (boxes ! i)) [0..<length boxes]),
          lb_leftAndTop = left @ tp,
          lb_rightAndBottom = right @ centerVertical @ bottom @ centerHorizontal,
          lb_chartArea = filterByPosition boxes ''chartArea'',
          lb_vertical = left @ right @ centerVertical,
          lb_horizontal = tp @ bottom @ centerHorizontal\<rparr>)"

subsection \<open>Stacks and offered sizes\<close>

text \<open>\<open>stack && (pos + stack)\<close>\<close>

definition stack_key :: "lbox \<Rightarrow> string" where
  "stack_key b =
     (if bx_stack b = [] then []
      else (case bx_pos b of PosName p \<Rightarrow> p | PosObject \<Rightarrow> ''[object Object]'') @ bx_stack b)"

definition buildStacks :: "lbox list \<Rightarrow> nat list \<Rightarrow> (string \<times> lstack) list" where
  "buildStacks boxes idx =
     foldl (\<lambda>stacks i.
        let b = boxes ! i; k = stack_key b in
        if k = [] \<or> \<not> is_static b then stacks
        else (let s = (case obj_get stacks k of Some s \<Rightarrow> s
                       | None \<Rightarrow> \<lparr>st_count = 0, st_placed = 0, st_weight = 0, st_size = 0, st_start = None\<rparr>)
              in obj_set stacks k (s\<lparr>st_count := st_count s + 1, st_weight := st_weight s + bx_stackWeight b\<rparr>)))
       [] idx"

definition setLayoutDims :: "nat list \<Rightarrow> layout_params \<Rightarrow> lbox list \<Rightarrow> lbox list \<times> (string \<times> lstack) list" where
  "setLayoutDims idx params boxes =
     (let stacks = buildStacks boxes idx in
      (foldl (\<lambda>boxes i.
         let b = boxes ! i;
             factor = (case obj_get stacks (stack_key b) of Some s \<Rightarrow> bx_stackWeight b / st_weight s | None \<Rightarrow> 0)
         in boxes[i :=
              (if bx_horizontal b
               then b\<lparr>lw_width := (if factor \<noteq> 0 then factor * lp_vBoxMaxWidth params
                                   else if bx_fullSize b then lp_availableWidth params else 0),
                      lw_height := lp_hBoxMaxHeight params\<rparr>
               else b\<lparr>lw_width := lp_vBoxMaxWidth params,
                      lw_height := (if factor \<noteq> 0 then factor * lp_hBoxMaxHeight params
                                    else if bx_fullSize b then lp_availableHeight params else 0)\<rparr>)]) boxes idx,
       stacks))"

subsection \<open>Fitting\<close>

definition get_side :: "sides \<Rightarrow> string \<Rightarrow> rat" where
  "get_side s p =
     (if p = ''left'' then sd_left s else if p = ''top'' then sd_top s
      else if p = ''right'' then sd_right s else if p = ''bottom'' then sd_bottom s else 0)"

text \<open>Writing a side; any other position name becomes a property that nothing reads.\<close>

definition set_side :: "sides \<Rightarrow> string \<Rightarrow> rat \<Rightarrow> sides" where
  "set_side s p v =
     (if p = ''left'' then s\<lparr>sd_left := v\<rparr> else if p = ''top'' then s\<lparr>sd_top := v\<rparr>
      else if p = ''right'' then s\<lparr>sd_right := v\<rparr> else if p = ''bottom'' then s\<lparr>sd_bottom := v\<rparr> else s)"

definition getCombinedMax :: "sides \<Rightarrow> sides \<Rightarrow> string \<Rightarrow> string \<Rightarrow> rat" where
  "getCombinedMax maxPadding area a b =
     max (get_side maxPadding a) (get_side area a) + max (get_side maxPadding b) (get_side area b)"

definition updateMaxPadding :: "sides \<Rightarrow> sides \<Rightarrow> sides" where
  "updateMaxPadding m p =
     \<lparr>sd_left = max (sd_left m) (sd_left p), sd_top = max (sd_top m) (sd_top p),
      sd_right = max (sd_right m) (sd_right p), sd_bottom = max (sd_bottom m) (sd_bottom p)\<rparr>"

definition getMargins :: "bool \<Rightarrow> chart_area \<Rightarrow> sides" where
  "getMargins horizontal area =
     (let m = (\<lambda>p. max (get_side (ca_sides area) p) (get_side (ca_maxPadding area) p)) in
      if horizontal
      then \<lparr>sd_left = m ''left'', sd_top = 0, sd_right = m ''right'', sd_bottom = 0\<rparr>
      else \<lparr>sd_left = 0, sd_top = m ''top'', sd_right = 0, sd_bottom = m ''bottom''\<rparr>)"

text \<open>The first part of \<open>updateDims\<close>: the size of the box moves its side of the chart area.\<close>

definition update_size :: "nat \<Rightarrow> layout_state \<Rightarrow> layout_state" where
  "update_size i st =
     (let b = ls_boxes st ! i; area = ls_area st in
      case bx_pos b of
        PosObject \<Rightarrow> st
      | PosName p \<Rightarrow>
          (let sides = (if lw_size b \<noteq> 0 then set_side (ca_sides area) p (get_side (ca_sides area) p - lw_size b)
                        else ca_sides area);
               dim = (if bx_horizontal b then bx_height b else bx_width b);
               k = stack_key b;
               found = obj_get (ls_stacks st) k;
               ssize = max (case found of Some s \<Rightarrow> st_size s | None \<Rightarrow> 0) dim;
               cnt = (case found of Some s \<Rightarrow> st_count s | None \<Rightarrow> 1);
               sz = ssize / of_nat cnt
           in st\<lparr>ls_boxes := (ls_boxes st)[i := b\<lparr>lw_size := sz\<rparr>],
                 ls_stacks := (case found of Some s \<Rightarrow> obj_set (ls_stacks st) k (s\<lparr>st_size := ssize\<rparr>)
                               | None \<Rightarrow> ls_stacks st),
                 ls_area := area\<lparr>ca_sides := set_side sides p (get_side sides p + sz)\<rparr>\<rparr>))"

definition updateDims :: "layout_params \<Rightarrow> nat \<Rightarrow> layout_state \<Rightarrow> bool \<times> bool \<times> layout_state" where
  "updateDims params i st =
     (let st = update_size i st;
          b = ls_boxes st ! i;
          area = ls_area st;
          mp = (case bx_padding b of Some p \<Rightarrow> updateMaxPadding (ca_maxPadding area) p | None \<Rightarrow> ca_maxPadding area);
          newWidth = max 0 (lp_outerWidth params - getCombinedMax mp (ca_sides area) ''left'' ''right'');
          newHeight = max 0 (lp_outerHeight params - getCombinedMax mp (ca_sides area) ''top'' ''bottom'');
          widthChanged = (newWidth \<noteq> ca_w area);
          heightChanged = (newHeight \<noteq> ca_h area);
          st = st\<lparr>ls_area := area\<lparr>ca_maxPadding := mp, ca_w := newWidth, ca_h := newHeight\<rparr>\<rparr>
      in if bx_horizontal b then (widthChanged, heightChanged, st) else (heightChanged, widthChanged, st))"

definition box_update :: "fit_fn \<Rightarrow> nat \<Rightarrow> layout_state \<Rightarrow> layout_state" where
  "box_update fit i st =
     (let b = ls_boxes st ! i;
          (w, h, p) = fit i b (if lw_width b \<noteq> 0 then lw_width b else ca_w (ls_area st))
                            (if lw_height b \<noteq> 0 then lw_height b else ca_h (ls_area st))
                            (getMargins (bx_horizontal b) (ls_area st))
      in st\<lparr>ls_boxes := (ls_boxes st)[i := b\<lparr>bx_width := w, bx_height := h, bx_padding := p\<rparr>]\<rparr>)"

text \<open>One round over the boxes: the boxes to fit again, whether to do so, whether the other
  dimension changed.\<close>

definition fit_step ::
  "fit_fn \<Rightarrow> layout_params \<Rightarrow> nat list \<times> bool \<times> bool \<times> layout_state \<Rightarrow> nat \<Rightarrow> nat list \<times> bool \<times> bool \<times> layout_state" where
  "fit_step fit params acc i =
     (let (refitBoxes, refit, changed, st) = acc;
          (same, other, st) = updateDims params i (box_update fit i st)
      in (if bx_fullSize (ls_boxes st ! i) then refitBoxes else refitBoxes @ [i],
          refit \<or> same \<and> refitBoxes \<noteq> [], changed \<or> other, st))"

text \<open>
  The recursion of \<open>fitBoxes\<close> has no bound of its own: with boxes that never settle it does not
  return, \<open>None\<close>.
\<close>

partial_function (option) fitBoxes ::
  "fit_fn \<Rightarrow> layout_params \<Rightarrow> nat list \<Rightarrow> layout_state \<Rightarrow> (bool \<times> layout_state) option" where
  "fitBoxes fit params idx st =
     (let acc = foldl (fit_step fit params) ([], False, False, st) idx in
      if fst (snd acc)
      then Option.bind (fitBoxes fit params (fst acc) (snd (snd (snd acc))))
             (\<lambda>r. Some (fst r \<or> fst (snd (snd acc)), snd r))
      else Some (fst (snd (snd acc)), snd (snd (snd acc))))"

definition handleMaxPadding :: "chart_area \<Rightarrow> chart_area" where
  "handleMaxPadding area =
     (let change = (\<lambda>p. max (get_side (ca_maxPadding area) p - get_side (ca_sides area) p) 0);
          s = ca_sides area
      in area\<lparr>ca_y := ca_y area + change ''top'', ca_x := ca_x area + change ''left'',
              ca_sides := \<lparr>sd_left = sd_left s + change ''left'', sd_top = sd_top s + change ''top'',
                           sd_right = sd_right s + change ''right'', sd_bottom = sd_bottom s + change ''bottom''\<rparr>\<rparr>)"

subsection \<open>Placing\<close>

definition setBoxDims :: "lbox \<Rightarrow> rat \<Rightarrow> rat \<Rightarrow> rat \<Rightarrow> rat \<Rightarrow> lbox" where
  "setBoxDims b left tp width height =
     b\<lparr>bx_top := tp, bx_left := left, bx_right := left + width, bx_bottom := tp + height,
       bx_width := width, bx_height := height\<rparr>"

definition default_stack :: lstack where
  "default_stack = \<lparr>st_count = 1, st_placed = 0, st_weight = 1, st_size = 0, st_start = None\<rparr>"

definition or_else :: "rat \<Rightarrow> rat \<Rightarrow> rat" where
  "or_else a b = (if a \<noteq> 0 then a else b)"

definition place_step ::
  "layout_params \<Rightarrow> chart_area \<Rightarrow> rat \<times> rat \<times> lbox list \<times> (string \<times> lstack) list \<Rightarrow> nat \<Rightarrow>
   rat \<times> rat \<times> lbox list \<times> (string \<times> lstack) list" where
  "place_step params area acc i =
     (let (x, y, boxes, stacks) = acc;
          b = boxes ! i;
          pad = lp_padding params;
          found = obj_get stacks (stack_key b);
          stack = (case found of Some s \<Rightarrow> s | None \<Rightarrow> default_stack);
          weight = or_else (bx_stackWeight b / st_weight stack) 1
      in if bx_horizontal b then
           (let width = ca_w area * weight;
                height = or_else (st_size stack) (bx_height b);
                y = (case st_start stack of Some s \<Rightarrow> s | None \<Rightarrow> y);
                b' = (if bx_fullSize b
                      then setBoxDims b (sd_left pad) y (lp_outerWidth params - sd_right pad - sd_left pad) height
                      else setBoxDims b (sd_left (ca_sides area) + st_placed stack) y width height);
                stacks = (case found of Some s \<Rightarrow> obj_set stacks (stack_key b)
                            (s\<lparr>st_start := Some y, st_placed := st_placed s + width\<rparr>) | None \<Rightarrow> stacks)
            in (x, bx_bottom b', boxes[i := b'], stacks))
         else
           (let height = ca_h area * weight;
                width = or_else (st_size stack) (bx_width b);
                x = (case st_start stack of Some s \<Rightarrow> s | None \<Rightarrow> x);
                b' = (if bx_fullSize b
                      then setBoxDims b x (sd_top pad) width (lp_outerHeight params - sd_bottom pad - sd_top pad)
                      else setBoxDims b x (sd_top (ca_sides area) + st_placed stack) width height);
                stacks = (case found of Some s \<Rightarrow> obj_set stacks (stack_key b)
                            (s\<lparr>st_start := Some x, st_placed := st_placed s + height\<rparr>) | None \<Rightarrow> stacks)
            in (bx_right b', y, boxes[i := b'], stacks)))"

definition placeBoxes :: "layout_params \<Rightarrow> nat list \<Rightarrow> layout_state \<Rightarrow> layout_state" where
  "placeBoxes params idx st =
     (let (x, y, boxes, stacks) =
            foldl (place_step params (ls_area st))
              (ca_x (ls_area st), ca_y (ls_area st), ls_boxes st, ls_stacks st) idx
      in st\<lparr>ls_boxes := boxes, ls_stacks := stacks, ls_area := (ls_area st)\<lparr>ca_x := x, ca_y := y\<rparr>\<rparr>)"

subsection \<open>The public operations\<close>

text \<open>\<open>addBox\<close> fills in what a box lacks; boxes are compared by identity, here by a number.\<close>

record box_item =
  bi_id :: nat
  bi_fullSize :: bool
  bi_position :: string
  bi_weight :: rat

definition addBox :: "box_item list option \<Rightarrow> box_item \<Rightarrow> box_item list option" where
  "addBox boxes item =
     (let item = item\<lparr>bi_position := (if bi_position item = [] then ''top'' else bi_position item)\<rparr>
      in Some ((case boxes of Some bs \<Rightarrow> bs | None \<Rightarrow> []) @ [item]))"

definition removeBox :: "box_item list option \<Rightarrow> nat \<Rightarrow> box_item list option" where
  "removeBox boxes item =
     (case boxes of
        None \<Rightarrow> None
      | Some bs \<Rightarrow> (case index_of (map bi_id bs) item of
                      Some i \<Rightarrow> Some (splice bs i 1 [])
                    | None \<Rightarrow> Some bs))"

definition visible_count :: "lbox list \<Rightarrow> nat list \<Rightarrow> nat" where
  "visible_count boxes idx =
     (let n = length (filter (\<lambda>i. bx_display (boxes ! i)) idx) in if n = 0 then 1 else n)"

definition layout_params_of :: "rat \<Rightarrow> rat \<Rightarrow> sides \<Rightarrow> lbox list \<Rightarrow> layout_params" where
  "layout_params_of width height padding boxes =
     (let aw = max (width - (sd_left padding + sd_right padding)) 0;
          ah = max (height - (sd_top padding + sd_bottom padding)) 0
      in \<lparr>lp_outerWidth = width, lp_outerHeight = height, lp_padding = padding,
          lp_availableWidth = aw, lp_availableHeight = ah,
          lp_vBoxMaxWidth = aw / 2 / of_nat (visible_count boxes (lb_vertical (buildLayoutBoxes boxes))),
          lp_hBoxMaxHeight = ah / 2\<rparr>)"

definition initial_area :: "layout_params \<Rightarrow> sides \<Rightarrow> chart_area" where
  "initial_area params minPadding =
     \<lparr>ca_sides = lp_padding params,
      ca_maxPadding = updateMaxPadding (lp_padding params) minPadding,
      ca_w = lp_availableWidth params, ca_h = lp_availableHeight params,
      ca_x = sd_left (lp_padding params), ca_y = sd_top (lp_padding params)\<rparr>"

definition fit_all ::
  "fit_fn \<Rightarrow> layout_params \<Rightarrow> layout_boxes \<Rightarrow> layout_state \<Rightarrow> layout_state option" where
  "fit_all fit params lb st =
     do { (_, st) \<leftarrow> fitBoxes fit params (lb_fullSize lb) st;
          (_, st) \<leftarrow> fitBoxes fit params (lb_vertical lb) st;
          (again, st) \<leftarrow> fitBoxes fit params (lb_horizontal lb) st;
          if again then map_option snd (fitBoxes fit params (lb_vertical lb) st) else Some st }"

text \<open>\<open>layouts.update\<close>: new boxes, and the chart area that is written to the chart.\<close>

definition layout_update ::
  "fit_fn \<Rightarrow> rat \<Rightarrow> rat \<Rightarrow> sides \<Rightarrow> sides \<Rightarrow> lbox list \<Rightarrow> layout_state option" where
  "layout_update fit width height padding minPadding boxes =
     (let lb = buildLayoutBoxes boxes;
          params = layout_params_of width height padding boxes;
          (boxes, stacks) = setLayoutDims (lb_vertical lb @ lb_horizontal lb) params
             (map (\<lambda>b. b\<lparr>lw_width := 0, lw_height := 0, lw_size := 0\<rparr>) boxes)
      in do { st \<leftarrow> fit_all fit params lb
                 \<lparr>ls_boxes = boxes, ls_stacks = stacks, ls_area = initial_area params minPadding\<rparr>;
              let st = placeBoxes params (lb_leftAndTop lb) (st\<lparr>ls_area := handleMaxPadding (ls_area st)\<rparr>);
                  a = ls_area st;
                  st = placeBoxes params (lb_rightAndBottom lb)
                         (st\<lparr>ls_area := a\<lparr>ca_x := ca_x a + ca_w a, ca_y := ca_y a + ca_h a\<rparr>\<rparr>);
                  s = ca_sides (ls_area st); w = ca_w (ls_area st); h = ca_h (ls_area st)
              in Some (st\<lparr>ls_boxes :=
                     foldl (\<lambda>boxes i.
                       let b = (boxes ! i)\<lparr>bx_left := sd_left s, bx_top := sd_top s, bx_right := sd_left s + w,
                                           bx_bottom := sd_top s + h, bx_height := h, bx_width := w\<rparr>;
                           (w', h', p) = fit i b w h \<lparr>sd_left = 0, sd_top = 0, sd_right = 0, sd_bottom = 0\<rparr>
                       in boxes[i := b\<lparr>bx_width := w', bx_height := h', bx_padding := p\<rparr>])
                     (ls_boxes st) (lb_chartArea lb)\<rparr>) })"

subsection \<open>Sorting\<close>

lemma insert_by_set [simp]: "set (insert_by le x ys) = insert x (set ys)"
  by (induction ys) auto

lemma insert_by_distinct: "distinct (insert_by le x ys) \<longleftrightarrow> x \<notin> set ys \<and> distinct ys"
  by (induction ys) auto

lemma sort_by_set [simp]: "set (sort_by le xs) = set xs"
  by (induction xs) (simp_all add: sort_by_def)

lemma sort_by_distinct [simp]: "distinct (sort_by le xs) \<longleftrightarrow> distinct xs"
proof (induction xs)
  case (Cons x xs)
  then show ?case using sort_by_set[of le xs] by (simp add: sort_by_def insert_by_distinct)
qed (simp add: sort_by_def)

lemma sort_by_sorted:
  assumes "\<And>x y. le x y \<or> le y x" "\<And>x y z. le x y \<Longrightarrow> le y z \<Longrightarrow> le x z"
  shows "sorted_wrt le (sort_by le xs)"
proof -
  have ins: "sorted_wrt le ys \<Longrightarrow> sorted_wrt le (insert_by le x ys)" for x ys
    by (induction ys) (auto intro: assms(2), insert assms, blast+)
  show ?thesis by (induction xs) (simp_all add: sort_by_def ins)
qed

lemma weight_le_total: "weight_le boxes r a b \<or> weight_le boxes r b a"
  by (auto simp: weight_le_def Let_def)

lemma weight_le_trans: "weight_le boxes r a b \<Longrightarrow> weight_le boxes r b c \<Longrightarrow> weight_le boxes r a c"
  by (cases r) (auto simp: weight_le_def Let_def split: if_splits)

lemma sortByWeight_sorted: "sorted_wrt (weight_le boxes r) (sortByWeight boxes r idx)"
  unfolding sortByWeight_def by (rule sort_by_sorted) (use weight_le_total weight_le_trans in blast)+

lemma position_boxes [simp]:
  "set (left_boxes boxes) = {i. i < length boxes \<and> bx_pos (boxes ! i) = PosName ''left''}"
  "set (right_boxes boxes) = {i. i < length boxes \<and> bx_pos (boxes ! i) = PosName ''right''}"
  "set (top_boxes boxes) = {i. i < length boxes \<and> bx_pos (boxes ! i) = PosName ''top''}"
  "set (bottom_boxes boxes) = {i. i < length boxes \<and> bx_pos (boxes ! i) = PosName ''bottom''}"
  "distinct (left_boxes boxes)" "distinct (right_boxes boxes)"
  "distinct (top_boxes boxes)" "distinct (bottom_boxes boxes)"
  by (auto simp: left_boxes_def right_boxes_def top_boxes_def bottom_boxes_def sortByWeight_def filterByPosition_def)

subsection \<open>What fitting keeps\<close>

definition sum_sizes :: "lbox list \<Rightarrow> string \<Rightarrow> rat" where
  "sum_sizes boxes p = (\<Sum>i \<in> {i. i < length boxes \<and> bx_pos (boxes ! i) = PosName p}. lw_size (boxes ! i))"

definition same_static :: "lbox \<Rightarrow> lbox \<Rightarrow> bool" where
  "same_static a b \<longleftrightarrow> bx_pos a = bx_pos b \<and> bx_horizontal a = bx_horizontal b \<and> bx_stack a = bx_stack b"

definition dim_of :: "lbox \<Rightarrow> rat" where
  "dim_of b = (if bx_horizontal b then bx_height b else bx_width b)"

text \<open>The invariant of fitting, without stacks: each side of the chart area is the padding plus
  the sizes of the boxes of that side, and a fitted box has its dimension as size.\<close>

definition fit_inv :: "lbox list \<Rightarrow> sides \<Rightarrow> rat \<Rightarrow> nat set \<Rightarrow> layout_state \<Rightarrow> bool" where
  "fit_inv boxes padding x0 fitted st \<longleftrightarrow>
     length (ls_boxes st) = length boxes \<and> (\<forall>i < length boxes. same_static (ls_boxes st ! i) (boxes ! i)) \<and>
     ls_stacks st = [] \<and> ca_x (ls_area st) = x0 \<and>
     (\<forall>p \<in> set staticPositions. get_side (ca_sides (ls_area st)) p = get_side padding p + sum_sizes (ls_boxes st) p) \<and>
     (\<forall>i \<in> fitted. i < length boxes \<and> 0 \<le> bx_width (ls_boxes st ! i) \<and>
        (bx_pos (boxes ! i) \<noteq> PosObject \<longrightarrow> lw_size (ls_boxes st ! i) = max 0 (dim_of (ls_boxes st ! i))))"

lemma sum_sizes_update:
  assumes "i < length boxes" "bx_pos b = bx_pos (boxes ! i)"
  shows "sum_sizes (boxes[i := b]) p =
    sum_sizes boxes p + (if bx_pos b = PosName p then lw_size b - lw_size (boxes ! i) else 0)"
proof -
  let ?A = "{j. j < length boxes \<and> bx_pos (boxes ! j) = PosName p}"
  have A: "{j. j < length (boxes[i := b]) \<and> bx_pos (boxes[i := b] ! j) = PosName p} = ?A"
    using assms by (auto simp: nth_list_update split: if_splits)
  show ?thesis
  proof (cases "i \<in> ?A")
    case True
    have "(\<Sum>j \<in> ?A. lw_size (boxes[i := b] ! j)) = lw_size b + (\<Sum>j \<in> ?A - {i}. lw_size (boxes ! j))"
      using True assms(1) by (subst sum.remove[of _ i]) (auto intro!: sum.cong)
    moreover have "(\<Sum>j \<in> ?A. lw_size (boxes ! j)) = lw_size (boxes ! i) + (\<Sum>j \<in> ?A - {i}. lw_size (boxes ! j))"
      using True by (subst sum.remove[of _ i]) auto
    ultimately show ?thesis
      using True assms unfolding sum_sizes_def A by simp
  next
    case False
    then have "(\<Sum>j \<in> ?A. lw_size (boxes[i := b] ! j)) = (\<Sum>j \<in> ?A. lw_size (boxes ! j))"
      by (intro sum.cong refl) (metis (mono_tags, lifting) nth_list_update_neq)
    with False assms show ?thesis unfolding sum_sizes_def A by simp
  qed
qed

lemma get_set_side [simp]:
  "p \<in> set staticPositions \<Longrightarrow> get_side (set_side s p v) q = (if q = p then v else get_side s q)"
  "p \<notin> set staticPositions \<Longrightarrow> set_side s p v = s"
  by (auto simp: get_side_def set_side_def staticPositions_def)

lemma fit_inv_box_update:
  assumes "fit_inv boxes padding x0 P st" "i < length boxes"
    and nn: "\<And>i b w h m. 0 \<le> fst (fit i b w h m)"
  shows "fit_inv boxes padding x0 (P - {i}) (box_update fit i st) \<and> 0 \<le> bx_width (ls_boxes (box_update fit i st) ! i)"
proof -
  obtain w h m where f: "fit i (ls_boxes st ! i)
      (if lw_width (ls_boxes st ! i) \<noteq> 0 then lw_width (ls_boxes st ! i) else ca_w (ls_area st))
      (if lw_height (ls_boxes st ! i) \<noteq> 0 then lw_height (ls_boxes st ! i) else ca_h (ls_area st))
      (getMargins (bx_horizontal (ls_boxes st ! i)) (ls_area st)) = (w, h, m)"
    by (rule prod_cases3)
  then have r: "box_update fit i st =
      st\<lparr>ls_boxes := (ls_boxes st)[i := (ls_boxes st ! i)\<lparr>bx_width := w, bx_height := h, bx_padding := m\<rparr>]\<rparr>"
    unfolding box_update_def Let_def f by simp
  have w: "0 \<le> w" by (metis nn f fst_conv)
  have "sum_sizes ((ls_boxes st)[i := (ls_boxes st ! i)\<lparr>bx_width := w, bx_height := h, bx_padding := m\<rparr>]) p =
      sum_sizes (ls_boxes st) p" for p
    using assms by (subst sum_sizes_update) (auto simp: fit_inv_def)
  with assms(1,2) w show ?thesis
    by (auto simp: fit_inv_def r nth_update same_static_def)
qed

lemma same_static_trans: "same_static a b \<Longrightarrow> same_static b c \<Longrightarrow> same_static a c"
  by (simp add: same_static_def)

lemma fit_inv_update_size:
  assumes inv: "fit_inv boxes padding x0 P st" and i: "i < length boxes"
    and stackless: "\<forall>b \<in> set boxes. bx_stack b = []" and w: "0 \<le> bx_width (ls_boxes st ! i)"
  shows "fit_inv boxes padding x0 (insert i P) (update_size i st)"
proof -
  let ?b = "ls_boxes st ! i"
  have st: "length (ls_boxes st) = length boxes" "same_static ?b (boxes ! i)" "ls_stacks st = []"
    using inv i by (auto simp: fit_inv_def)
  have stat: "bx_pos ?b = bx_pos (boxes ! i)" "bx_stack ?b = []"
    using st(2) stackless i by (auto simp: same_static_def)
  show ?thesis
  proof (cases "bx_pos ?b")
    case PosObject
    with inv i stat w show ?thesis by (auto simp: update_size_def fit_inv_def)
  next
    case (PosName p)
    define sz where "sz = max 0 (dim_of ?b)"
    define s0 where "s0 = ca_sides (ls_area st)"
    let ?b' = "?b\<lparr>lw_size := sz\<rparr>"
    have r: "update_size i st = st\<lparr>ls_boxes := (ls_boxes st)[i := ?b'],
        ls_area := (ls_area st)\<lparr>ca_sides := set_side (if lw_size ?b \<noteq> 0 then set_side s0 p (get_side s0 p - lw_size ?b) else s0) p
          (get_side (if lw_size ?b \<noteq> 0 then set_side s0 p (get_side s0 p - lw_size ?b) else s0) p + sz)\<rparr>\<rparr>"
      using PosName st(3) stat by (simp add: update_size_def sz_def dim_of_def s0_def Let_def stack_key_def)
    have sides: "get_side (ca_sides (ls_area (update_size i st))) q =
        get_side s0 q + (if q = p then sz - lw_size ?b else 0)" if "q \<in> set staticPositions" for q
      using that by (cases "p \<in> set staticPositions") (auto simp: r)
    have sums: "sum_sizes (ls_boxes (update_size i st)) q =
        sum_sizes (ls_boxes st) q + (if q = p then sz - lw_size ?b else 0)" for q
      using st(1) i PosName by (simp add: r sum_sizes_update)
    have "get_side (ca_sides (ls_area (update_size i st))) q = get_side padding q + sum_sizes (ls_boxes (update_size i st)) q"
      if "q \<in> set staticPositions" for q
      using inv that unfolding sides[OF that] sums by (simp add: fit_inv_def s0_def)
    moreover have "length (ls_boxes (update_size i st)) = length boxes" "ls_stacks (update_size i st) = []"
      "ca_x (ls_area (update_size i st)) = x0"
      "\<forall>j < length boxes. same_static (ls_boxes (update_size i st) ! j) (boxes ! j)"
      using inv st(2) by (auto simp: r fit_inv_def nth_update same_static_def)
    moreover have "\<forall>j \<in> insert i P. j < length boxes \<and> 0 \<le> bx_width (ls_boxes (update_size i st) ! j) \<and>
        (bx_pos (boxes ! j) \<noteq> PosObject \<longrightarrow>
         lw_size (ls_boxes (update_size i st) ! j) = max 0 (dim_of (ls_boxes (update_size i st) ! j)))"
      using inv i st(1) w by (auto simp: r fit_inv_def nth_update sz_def dim_of_def)
    ultimately show ?thesis by (simp add: fit_inv_def)
  qed
qed

lemma fit_inv_step:
  assumes "fit_inv boxes padding x0 P (snd (snd (snd acc)))" "i < length boxes"
    and "\<forall>b \<in> set boxes. bx_stack b = []" and nn: "\<And>i b w h m. 0 \<le> fst (fit i b w h m)"
  shows "fit_inv boxes padding x0 (insert i P) (snd (snd (snd (fit_step fit params acc i))))"
proof -
  obtain rb rf ch st where acc: "acc = (rb, rf, ch, st)" by (rule prod_cases4)
  have inv: "fit_inv boxes padding x0 (insert i (P - {i})) (update_size i (box_update fit i st))"
    using fit_inv_box_update[OF _ assms(2) nn, of padding x0 P st] assms(1)
    by (intro fit_inv_update_size[OF _ assms(2,3)]) (simp_all add: acc)
  obtain a where "snd (snd (updateDims params i (box_update fit i st))) =
      (update_size i (box_update fit i st))\<lparr>ls_area := a\<rparr>"
    and "ca_sides a = ca_sides (ls_area (update_size i (box_update fit i st)))"
    and "ca_x a = ca_x (ls_area (update_size i (box_update fit i st)))"
    unfolding updateDims_def Let_def by (cases "bx_horizontal (ls_boxes (update_size i (box_update fit i st)) ! i)") auto
  with inv have "fit_inv boxes padding x0 (insert i P) (snd (snd (updateDims params i (box_update fit i st))))"
    by (simp add: fit_inv_def)
  then show ?thesis by (simp add: fit_step_def acc split_beta)
qed

lemma fit_inv_fold:
  assumes "fit_inv boxes padding x0 P (snd (snd (snd acc)))" "set idx \<subseteq> {..<length boxes}"
    and "\<forall>b \<in> set boxes. bx_stack b = []" and nn: "\<And>i b w h m. 0 \<le> fst (fit i b w h m)"
  shows "fit_inv boxes padding x0 (P \<union> set idx) (snd (snd (snd (foldl (fit_step fit params) acc idx))))
    \<and> set (fst (foldl (fit_step fit params) acc idx)) \<subseteq> set (fst acc) \<union> set idx"
  using assms(1,2)
proof (induction idx arbitrary: acc P)
  case Nil
  then show ?case by simp
next
  case (Cons i idx)
  have "set (fst (fit_step fit params acc i)) \<subseteq> insert i (set (fst acc))"
    by (auto simp: fit_step_def split_beta Let_def)
  with Cons.IH[OF fit_inv_step[OF Cons.prems(1) _ assms(3) nn]] Cons.prems(2) show ?case by fastforce
qed

lemma fit_inv_fitBoxes:
  assumes "fitBoxes fit params idx st = Some r" "fit_inv boxes padding x0 P st"
    and "set idx \<subseteq> {..<length boxes}" "\<forall>b \<in> set boxes. bx_stack b = []"
    and nn: "\<And>i b w h m. 0 \<le> fst (fit i b w h m)"
  shows "fit_inv boxes padding x0 (P \<union> set idx) (snd r)"
  using assms(1-3) nn
proof (induction arbitrary: P rule: fitBoxes.raw_induct[rotated 1, consumes 1, case_names step])
  case (step fB fit params idx st r)
  let ?acc = "foldl (fit_step fit params) ([], False, False, st) idx"
  have f: "fit_inv boxes padding x0 (P \<union> set idx) (snd (snd (snd ?acc)))" "set (fst ?acc) \<subseteq> set idx"
    using fit_inv_fold[of boxes padding x0 P "([], False, False, st)" idx fit params] step.prems assms(4)
    by simp_all
  show ?case
  proof (cases "fst (snd ?acc)")
    case True
    with step.hyps obtain r' where r': "fB fit params (fst ?acc) (snd (snd (snd ?acc))) = Some r'" "snd r = snd r'"
      by (auto simp: Let_def split: bind_splits)
    have "fit_inv boxes padding x0 (P \<union> set idx \<union> set (fst ?acc)) (snd r')"
      using step.IH[OF r'(1) f(1) _ step.prems(3)] f(2) step.prems(2) by blast
    moreover have "P \<union> set idx \<union> set (fst ?acc) = P \<union> set idx" using f(2) by blast
    ultimately show ?thesis by (simp add: r'(2))
  next
    case False
    with step.hyps f(1) show ?thesis by (auto simp: Let_def)
  qed
qed

text \<open>Once a box was fitted, the width of the chart area is what the sides leave of the chart.\<close>

definition in_sync :: "layout_params \<Rightarrow> layout_state \<Rightarrow> bool" where
  "in_sync params st \<longleftrightarrow> ca_w (ls_area st) =
     max 0 (lp_outerWidth params - getCombinedMax (ca_maxPadding (ls_area st)) (ca_sides (ls_area st)) ''left'' ''right'')"

lemma in_sync_step: "in_sync params (snd (snd (snd (fit_step fit params acc i))))"
  by (simp add: fit_step_def updateDims_def in_sync_def split_beta Let_def)

lemma in_sync_fold:
  "idx \<noteq> [] \<or> in_sync params (snd (snd (snd acc))) \<Longrightarrow> in_sync params (snd (snd (snd (foldl (fit_step fit params) acc idx))))"
  by (cases idx rule: rev_cases) (simp_all add: in_sync_step)

lemma in_sync_fitBoxes:
  assumes "fitBoxes fit params idx st = Some r" "idx \<noteq> [] \<or> in_sync params st"
  shows "in_sync params (snd r)"
  using assms
proof (induction rule: fitBoxes.raw_induct[rotated 1, consumes 1, case_names step])
  case (step fB fit params idx st r)
  let ?acc = "foldl (fit_step fit params) ([], False, False, st) idx"
  have f: "in_sync params (snd (snd (snd ?acc)))" using step.prems by (intro in_sync_fold) simp
  show ?case
  proof (cases "fst (snd ?acc)")
    case True
    with step.hyps obtain r' where r': "fB fit params (fst ?acc) (snd (snd (snd ?acc))) = Some r'" "snd r = snd r'"
      by (auto simp: Let_def split: bind_splits)
    show ?thesis using step.IH[OF r'(1)] f r'(2) by simp
  next
    case False
    with step.hyps f show ?thesis by (auto simp: Let_def)
  qed
qed

lemma in_sync_fit_all:
  assumes "fit_all fit params lb st = Some st'" "lb_vertical lb \<noteq> []"
  shows "in_sync params st'"
proof -
  obtain r1 r2 r3 where r: "fitBoxes fit params (lb_vertical lb) (snd r1) = Some r2"
    "fitBoxes fit params (lb_horizontal lb) (snd r2) = Some r3"
    and st': "if fst r3 then map_option snd (fitBoxes fit params (lb_vertical lb) (snd r3)) = Some st' else snd r3 = st'"
    using assms(1) by (auto simp: fit_all_def split_beta split: bind_splits if_splits)
  have "in_sync params (snd r3)" using in_sync_fitBoxes[OF r(2)] in_sync_fitBoxes[OF r(1)] assms(2) by blast
  then show ?thesis using st' in_sync_fitBoxes[of fit params "lb_vertical lb" "snd r3"] assms(2) by (auto split: if_splits)
qed

subsection \<open>Where the boxes end up\<close>

fun tiles :: "rat \<Rightarrow> (rat \<times> rat) list \<Rightarrow> rat \<Rightarrow> bool" where
  "tiles a [] b \<longleftrightarrow> a = b"
| "tiles a (e # es) b \<longleftrightarrow> fst e = a \<and> a \<le> snd e \<and> tiles (snd e) es b"

definition extents :: "lbox list \<Rightarrow> nat list \<Rightarrow> (rat \<times> rat) list" where
  "extents boxes idx = map (\<lambda>i. (bx_left (boxes ! i), bx_right (boxes ! i))) idx"

lemma place_step_plain:
  assumes "i < length boxes" "place_step params area (x, y, boxes, []) i = (x', y', boxes', stacks')"
  shows "stacks' = [] \<and> (\<exists>b. boxes' = boxes[i := b] \<and> same_static b (boxes ! i) \<and>
     (if bx_horizontal (boxes ! i) then x' = x
      else bx_left b = x \<and> bx_right b = x' \<and> x' = x + bx_width (boxes ! i)))"
proof -
  have "stacks' = [] \<and> boxes' = boxes[i := boxes' ! i] \<and> same_static (boxes' ! i) (boxes ! i) \<and>
     (if bx_horizontal (boxes ! i) then x' = x
      else bx_left (boxes' ! i) = x \<and> bx_right (boxes' ! i) = x' \<and> x' = x + bx_width (boxes ! i))"
  proof (cases "bx_horizontal (boxes ! i)")
    case True
    with assms show ?thesis
      by (cases "bx_fullSize (boxes ! i)")
        (auto simp: place_step_def Let_def default_stack_def same_static_def setBoxDims_def)
  next
    case False
    with assms show ?thesis
      by (cases "bx_fullSize (boxes ! i)")
        (auto simp: place_step_def Let_def default_stack_def same_static_def setBoxDims_def or_else_def)
  qed
  then show ?thesis by blast
qed

lemma place_fold:
  assumes "set idx \<subseteq> {..<length boxes}" "distinct idx"
    and "foldl (place_step params area) (x, y, boxes, []) idx = (x', y', boxes', stacks')"
  shows "stacks' = [] \<and> length boxes' = length boxes \<and> (\<forall>j. j \<notin> set idx \<longrightarrow> boxes' ! j = boxes ! j) \<and>
    (\<forall>j < length boxes. same_static (boxes' ! j) (boxes ! j)) \<and>
    ((\<forall>i \<in> set idx. bx_horizontal (boxes ! i)) \<longrightarrow> x' = x) \<and>
    ((\<forall>i \<in> set idx. \<not> bx_horizontal (boxes ! i) \<and> 0 \<le> bx_width (boxes ! i)) \<longrightarrow>
       tiles x (extents boxes' idx) x' \<and> x' = x + (\<Sum>i \<leftarrow> idx. bx_width (boxes ! i)))"
  using assms
proof (induction idx arbitrary: x y boxes)
  case Nil
  then show ?case by (auto simp: extents_def same_static_def)
next
  case (Cons i idx)
  obtain x1 y1 boxes1 st1 where s: "place_step params area (x, y, boxes, []) i = (x1, y1, boxes1, st1)"
    by (rule prod_cases4)
  have i: "i < length boxes" and d: "i \<notin> set idx" "distinct idx" using Cons.prems by auto
  obtain b where st1: "st1 = []" and b: "boxes1 = boxes[i := b]" "same_static b (boxes ! i)"
    "if bx_horizontal (boxes ! i) then x1 = x else bx_left b = x \<and> bx_right b = x1 \<and> x1 = x + bx_width (boxes ! i)"
    using place_step_plain[OF i s] by auto
  have f: "foldl (place_step params area) (x1, y1, boxes1, []) idx = (x', y', boxes', stacks')"
    using Cons.prems(3) s st1 by simp
  have len: "length boxes1 = length boxes" using b by simp
  have same: "boxes1 ! j = boxes ! j" if "j \<noteq> i" for j using that b by simp
  have same_idx: "boxes1 ! j = boxes ! j" if "j \<in> set idx" for j using same that d by metis
  note ih = Cons.IH[OF _ d(2) f, unfolded len]
  have sub: "set idx \<subseteq> {..<length boxes}" using Cons.prems(1) by simp
  have bi: "boxes' ! i = b" using ih[OF sub] d(1) b(1) i by simp
  have widths: "(\<Sum>i \<leftarrow> idx. bx_width (boxes1 ! i)) = (\<Sum>i \<leftarrow> idx. bx_width (boxes ! i))"
    using same_idx by (simp cong: map_cong)
  have stat: "same_static (boxes1 ! j) (boxes ! j)" if "j < length boxes" for j
    using b that by (cases "j = i") (auto simp: same_static_def)
  show ?case
  proof (intro conjI impI)
    show "stacks' = []" "length boxes' = length boxes" using ih[OF sub] by auto
    show "\<forall>j. j \<notin> set (i # idx) \<longrightarrow> boxes' ! j = boxes ! j" using ih[OF sub] same by auto
    show "\<forall>j < length boxes. same_static (boxes' ! j) (boxes ! j)"
      using ih[OF sub] stat same_static_trans by blast
    show "x' = x" if "\<forall>i \<in> set (i # idx). bx_horizontal (boxes ! i)"
      using that ih[OF sub] b(3) same_idx by simp
    show "tiles x (extents boxes' (i # idx)) x'"
      "x' = x + (\<Sum>i \<leftarrow> i # idx. bx_width (boxes ! i))"
      if "\<forall>i \<in> set (i # idx). \<not> bx_horizontal (boxes ! i) \<and> 0 \<le> bx_width (boxes ! i)"
      using that ih[OF sub] b(3) same_idx widths bi by (auto simp: extents_def)
  qed
qed

lemma setLayoutDims_plain:
  assumes "\<forall>b \<in> set boxes. bx_stack b = [] \<and> lw_size b = 0" "set idx \<subseteq> {..<length boxes}"
    and "setLayoutDims idx params boxes = (boxes', stacks)"
  shows "stacks = [] \<and> length boxes' = length boxes \<and>
    (\<forall>i < length boxes. same_static (boxes' ! i) (boxes ! i) \<and> lw_size (boxes' ! i) = 0)"
proof -
  have nostack: "buildStacks boxes idx = []"
    using assms(1,2)
  proof (induction idx rule: rev_induct)
    case (snoc i idx)
    then have "bx_stack (boxes ! i) = []" by simp
    with snoc show ?case by (simp add: buildStacks_def stack_key_def)
  qed (simp add: buildStacks_def)
  define step where "step = (\<lambda>boxes i.
         let b = boxes ! i;
             factor = (case obj_get ([] :: (string \<times> lstack) list) (stack_key b) of Some s \<Rightarrow> bx_stackWeight b / st_weight s | None \<Rightarrow> 0)
         in boxes[i :=
              (if bx_horizontal b
               then b\<lparr>lw_width := (if factor \<noteq> 0 then factor * lp_vBoxMaxWidth params
                                   else if bx_fullSize b then lp_availableWidth params else 0),
                      lw_height := lp_hBoxMaxHeight params\<rparr>
               else b\<lparr>lw_width := lp_vBoxMaxWidth params,
                      lw_height := (if factor \<noteq> 0 then factor * lp_hBoxMaxHeight params
                                    else if bx_fullSize b then lp_availableHeight params else 0)\<rparr>)])"
  have b': "boxes' = foldl step boxes idx" "stacks = []"
    using assms(3) nostack by (simp_all add: setLayoutDims_def step_def)
  have "length (foldl step boxes idx) = length boxes \<and>
      (\<forall>i < length boxes. same_static (foldl step boxes idx ! i) (boxes ! i) \<and> lw_size (foldl step boxes idx ! i) = 0)"
  proof (induction idx rule: rev_induct)
    case Nil
    with assms(1) show ?case by (simp add: same_static_def)
  next
    case (snoc i idx)
    have "\<exists>b. step (foldl step boxes idx) i = (foldl step boxes idx)[i := b] \<and>
        same_static b (foldl step boxes idx ! i) \<and> lw_size b = lw_size (foldl step boxes idx ! i)"
      by (cases "bx_horizontal (foldl step boxes idx ! i)") (auto simp: step_def same_static_def Let_def)
    with snoc show ?case by (auto simp: nth_update same_static_def split: if_splits)
  qed
  with b' show ?thesis by simp
qed

lemma sum_sizes_zero: "\<forall>i < length boxes. lw_size (boxes ! i) = 0 \<Longrightarrow> sum_sizes boxes p = 0"
  by (simp add: sum_sizes_def)

lemma sum_sizes_list:
  assumes "distinct idx" "set idx = {i. i < length boxes \<and> bx_pos (boxes ! i) = PosName p}"
  shows "sum_sizes boxes p = (\<Sum>i \<leftarrow> idx. lw_size (boxes ! i))"
  using assms by (simp add: sum_sizes_def sum_list_distinct_conv_sum_set)

text \<open>The state after fitting, in a run without stacks.\<close>

lemma fit_all_inv:
  assumes "fit_all fit params (buildLayoutBoxes boxes) st = Some st'"
    and "fit_inv boxes padding x0 {} st" "\<forall>b \<in> set boxes. bx_stack b = []"
    and nn: "\<And>i b w h m. 0 \<le> fst (fit i b w h m)"
  shows "\<exists>P. set (lb_vertical (buildLayoutBoxes boxes)) \<subseteq> P \<and> fit_inv boxes padding x0 P st'"
proof -
  let ?lb = "buildLayoutBoxes boxes"
  have sub: "set (lb_fullSize ?lb) \<subseteq> {..<length boxes}" "set (lb_vertical ?lb) \<subseteq> {..<length boxes}"
    "set (lb_horizontal ?lb) \<subseteq> {..<length boxes}"
    by (auto simp: buildLayoutBoxes_def Let_def sortByWeight_def filterDynamicPositionByAxis_def)
  obtain r1 r2 r3 where r: "fitBoxes fit params (lb_fullSize ?lb) st = Some r1"
    "fitBoxes fit params (lb_vertical ?lb) (snd r1) = Some r2"
    "fitBoxes fit params (lb_horizontal ?lb) (snd r2) = Some r3"
    and st': "if fst r3 then map_option snd (fitBoxes fit params (lb_vertical ?lb) (snd r3)) = Some st' else snd r3 = st'"
    using assms(1) by (auto simp: fit_all_def split_beta split: bind_splits if_splits)
  note i1 = fit_inv_fitBoxes[OF r(1) assms(2) sub(1) assms(3) nn]
  note i2 = fit_inv_fitBoxes[OF r(2) i1 sub(2) assms(3) nn]
  note i3 = fit_inv_fitBoxes[OF r(3) i2 sub(3) assms(3) nn]
  show ?thesis
  proof (cases "fst r3")
    case True
    with st' obtain r4 where r4: "fitBoxes fit params (lb_vertical ?lb) (snd r3) = Some r4" "st' = snd r4" by auto
    from fit_inv_fitBoxes[OF r4(1) i3 sub(2) assms(3) nn] show ?thesis
      by (intro exI[of _ "{} \<union> set (lb_fullSize ?lb) \<union> set (lb_vertical ?lb) \<union> set (lb_horizontal ?lb) \<union> set (lb_vertical ?lb)"])
        (auto simp: r4(2))
  next
    case False
    with st' i3 show ?thesis
      by (intro exI[of _ "{} \<union> set (lb_fullSize ?lb) \<union> set (lb_vertical ?lb) \<union> set (lb_horizontal ?lb)"]) auto
  qed
qed

lemma foldl_update_other:
  assumes "\<And>xs i. i < length xs \<Longrightarrow> \<exists>b. f xs i = xs[i := b]" "set idx \<subseteq> {..<length xs}" "j \<notin> set idx"
  shows "foldl f xs idx ! j = xs ! j"
  using assms(2,3)
proof (induction idx arbitrary: xs)
  case (Cons i idx)
  then obtain b where "f xs i = xs[i := b]" using assms(1) by fastforce
  with Cons show ?case by simp
qed simp

lemma extents_cong: "(\<And>i. i \<in> set idx \<Longrightarrow> b1 ! i = b2 ! i) \<Longrightarrow> extents b1 idx = extents b2 idx"
  by (simp add: extents_def)

text \<open>Fitting and placing as one statement about the boxes to the left and right.\<close>

lemma placed_sides:
  assumes inv: "fit_inv boxes padding (sd_left padding) P st"
    and P: "set (left_boxes boxes) \<subseteq> P" "set (right_boxes boxes) \<subseteq> P"
    and hor: "\<forall>b \<in> set boxes. (bx_pos b = PosName ''left'' \<or> bx_pos b = PosName ''right'' \<longrightarrow> \<not> bx_horizontal b)
        \<and> (bx_pos b = PosName ''top'' \<longrightarrow> bx_horizontal b)"
    and st1: "st1 = placeBoxes params (left_boxes boxes @ top_boxes boxes) (st\<lparr>ls_area := handleMaxPadding (ls_area st)\<rparr>)"
    and st2: "st2 = placeBoxes params (right_boxes boxes @ rest)
        (st1\<lparr>ls_area := (ls_area st1)\<lparr>ca_x := ca_x (ls_area st1) + ca_w (ls_area st1),
                                      ca_y := ca_y (ls_area st1) + ca_h (ls_area st1)\<rparr>\<rparr>)"
    and rest: "distinct rest" "set rest \<subseteq> {..<length boxes}"
      "set rest \<inter> (set (left_boxes boxes) \<union> set (right_boxes boxes)) = {}"
    and sync: "right_boxes boxes \<noteq> [] \<longrightarrow> in_sync params st"
  shows "(\<exists>x0 \<ge> sd_left padding. tiles x0 (extents (ls_boxes st2) (left_boxes boxes)) (sd_left (ca_sides (ls_area st2)))) \<and>
    (\<exists>x1. tiles (sd_left (ca_sides (ls_area st2)) + ca_w (ls_area st2)) (extents (ls_boxes st2) (right_boxes boxes)) x1 \<and>
       (right_boxes boxes \<noteq> [] \<and> 0 < ca_w (ls_area st2) \<longrightarrow> x1 \<le> lp_outerWidth params - sd_right padding)) \<and>
    length (ls_boxes st2) = length boxes"
proof -
  let ?L = "left_boxes boxes" and ?T = "top_boxes boxes" and ?R = "right_boxes boxes"
  define area where "area = handleMaxPadding (ls_area st)"
  define c where "c = max (get_side (ca_maxPadding (ls_area st)) ''left'' - get_side (ca_sides (ls_area st)) ''left'') 0"
  have st: "length (ls_boxes st) = length boxes" "ls_stacks st = []" "ca_x (ls_area st) = sd_left padding"
    "\<And>i. i < length boxes \<Longrightarrow> same_static (ls_boxes st ! i) (boxes ! i)"
    using inv by (auto simp: fit_inv_def)
  have fitted: "0 \<le> bx_width (ls_boxes st ! i) \<and> lw_size (ls_boxes st ! i) = bx_width (ls_boxes st ! i) \<and>
      \<not> bx_horizontal (ls_boxes st ! i)" if "i \<in> set ?L \<union> set ?R" for i
  proof -
    have i: "i < length boxes" "bx_pos (boxes ! i) = PosName ''left'' \<or> bx_pos (boxes ! i) = PosName ''right''"
      using that by auto
    then have "\<not> bx_horizontal (boxes ! i)" using hor nth_mem by blast
    moreover have "0 \<le> bx_width (ls_boxes st ! i)" "lw_size (ls_boxes st ! i) = max 0 (dim_of (ls_boxes st ! i))"
      using inv that P i by (auto simp: fit_inv_def)
    ultimately show ?thesis using st(4)[OF i(1)] by (simp add: same_static_def dim_of_def)
  qed
  have left: "sd_left (ca_sides area) = sd_left padding + (\<Sum>i \<leftarrow> ?L. bx_width (ls_boxes st ! i)) + c"
  proof -
    have "get_side (ca_sides (ls_area st)) ''left'' = get_side padding ''left'' + sum_sizes (ls_boxes st) ''left''"
      using inv by (simp add: fit_inv_def staticPositions_def)
    moreover have "sum_sizes (ls_boxes st) ''left'' = (\<Sum>i \<leftarrow> ?L. lw_size (ls_boxes st ! i))"
      by (rule sum_sizes_list) (use st in \<open>auto simp: same_static_def\<close>)
    moreover have "(\<Sum>i \<leftarrow> ?L. lw_size (ls_boxes st ! i)) = (\<Sum>i \<leftarrow> ?L. bx_width (ls_boxes st ! i))"
      by (rule arg_cong[where f = sum_list], rule map_cong) (use fitted in auto)
    ultimately show ?thesis by (simp add: area_def handleMaxPadding_def get_side_def c_def Let_def)
  qed
  have x: "ca_x area = sd_left padding + c"
    using st(3) by (simp add: area_def handleMaxPadding_def c_def Let_def)
  obtain xL yL bL sL where fL: "foldl (place_step params area) (ca_x area, ca_y area, ls_boxes st, []) ?L = (xL, yL, bL, sL)"
    by (rule prod_cases4)
  have L: "sL = []" "length bL = length boxes" "\<forall>j. j \<notin> set ?L \<longrightarrow> bL ! j = ls_boxes st ! j"
      "\<forall>j < length boxes. same_static (bL ! j) (ls_boxes st ! j)" "tiles (ca_x area) (extents bL ?L) xL"
      "xL = ca_x area + (\<Sum>i \<leftarrow> ?L. bx_width (ls_boxes st ! i))"
    using place_fold[OF _ _ fL] st(1) fitted by auto
  obtain xT yT bT sT where fT: "foldl (place_step params area) (xL, yL, bL, []) ?T = (xT, yT, bT, sT)"
    by (rule prod_cases4)
  have topH: "\<forall>i \<in> set ?T. bx_horizontal (bL ! i)"
  proof
    fix i assume "i \<in> set ?T"
    then have i: "i < length boxes" "bx_pos (boxes ! i) = PosName ''top''" by auto
    then have "bx_horizontal (boxes ! i)" using hor nth_mem by blast
    with L(4) st(4) i(1) show "bx_horizontal (bL ! i)" by (simp add: same_static_def)
  qed
  have T: "sT = []" "length bT = length boxes" "\<forall>j. j \<notin> set ?T \<longrightarrow> bT ! j = bL ! j" "xT = xL"
    "\<forall>j < length boxes. same_static (bT ! j) (bL ! j)"
    using place_fold[OF _ _ fT] L(2) topH by auto
  have s1: "st1 = st\<lparr>ls_boxes := bT, ls_stacks := [], ls_area := area\<lparr>ca_x := xT, ca_y := yT\<rparr>\<rparr>"
    using fL fT L(1) T(1) st(2) by (simp add: st1 placeBoxes_def area_def[symmetric])
  have xT: "xT = sd_left (ca_sides area)" using T(4) L(6) x left by simp
  define area1 where "area1 = area\<lparr>ca_x := xT + ca_w area, ca_y := yT + ca_h area\<rparr>"
  obtain xR yR bR sR where fR: "foldl (place_step params area1) (xT + ca_w area, yT + ca_h area, bT, []) ?R = (xR, yR, bR, sR)"
    by (rule prod_cases4)
  have bTR: "bT ! i = ls_boxes st ! i" if "i \<in> set ?R" for i using that T(3) L(3) by auto
  have R: "sR = []" "length bR = length boxes" "\<forall>j. j \<notin> set ?R \<longrightarrow> bR ! j = bT ! j"
      "tiles (xT + ca_w area) (extents bR ?R) xR" "xR = xT + ca_w area + (\<Sum>i \<leftarrow> ?R. bx_width (bT ! i))"
    using place_fold[OF _ _ fR] T(2) fitted bTR by auto
  have right: "xR \<le> lp_outerWidth params - sd_right padding" if "?R \<noteq> []" "0 < ca_w area"
  proof -
    have "get_side (ca_sides (ls_area st)) ''right'' = get_side padding ''right'' + sum_sizes (ls_boxes st) ''right''"
      using inv by (simp add: fit_inv_def staticPositions_def)
    moreover have "sum_sizes (ls_boxes st) ''right'' = (\<Sum>i \<leftarrow> ?R. lw_size (ls_boxes st ! i))"
      by (rule sum_sizes_list) (use st in \<open>auto simp: same_static_def\<close>)
    moreover have "(\<Sum>i \<leftarrow> ?R. lw_size (ls_boxes st ! i)) = (\<Sum>i \<leftarrow> ?R. bx_width (bT ! i))"
      by (rule arg_cong[where f = sum_list], rule map_cong) (use fitted bTR in auto)
    moreover have "ca_w area = ca_w (ls_area st)" by (simp add: area_def handleMaxPadding_def Let_def)
    moreover have "sd_left (ca_sides area) = max (sd_left (ca_maxPadding (ls_area st))) (sd_left (ca_sides (ls_area st)))"
      by (simp add: area_def handleMaxPadding_def get_side_def Let_def max_def)
    ultimately show ?thesis
      using that sync R(5) xT by (simp add: in_sync_def getCombinedMax_def get_side_def max_def split: if_splits)
  qed
  obtain xX yX bX sX where fX: "foldl (place_step params area1) (xR, yR, bR, []) rest = (xX, yX, bX, sX)"
    by (rule prod_cases4)
  have X: "length bX = length boxes" "\<forall>j. j \<notin> set rest \<longrightarrow> bX ! j = bR ! j"
    using place_fold[OF _ rest(1) fX] R(2) rest(2) by auto
  have s2: "ls_boxes st2 = bX \<and> ca_sides (ls_area st2) = ca_sides area \<and> ca_w (ls_area st2) = ca_w area"
    using fR fX R(1) s1 by (simp add: st2 placeBoxes_def area1_def)
  have eL: "extents bX ?L = extents bL ?L"
    by (rule extents_cong) (use X(2) R(3) T(3) rest(3) in auto)
  have eR: "extents bX ?R = extents bR ?R"
    by (rule extents_cong) (use X(2) rest(3) in auto)
  have "sd_left padding \<le> ca_x area" by (simp add: x c_def)
  then show ?thesis
    using L(5) R(4) X(1) s2 eL eR xT T(4) right by auto
qed

text \<open>
  C8. Boxes never overlap sideways: whenever the layout returns, for boxes without stacks, vertical
  on the left and right and horizontal on top, that report no negative width, the boxes on the left
  stand side by side in the order of their weights, none begins left of the padding and the last
  one ends exactly where the chart area begins; and the boxes on the right stand side by side from
  the right edge of the chart area and, when the chart area has a width at all, end within the
  right padding of the chart.
\<close>

theorem side_boxes_tile:
  assumes "layout_update fit width height padding minPadding boxes = Some st"
    and "\<forall>b \<in> set boxes. bx_stack b = []"
    and "\<forall>b \<in> set boxes. (bx_pos b = PosName ''left'' \<or> bx_pos b = PosName ''right'' \<longrightarrow> \<not> bx_horizontal b)
        \<and> (bx_pos b = PosName ''top'' \<longrightarrow> bx_horizontal b)"
    and "\<And>i b w h m. 0 \<le> fst (fit i b w h m)"
  shows "(\<exists>x0 \<ge> sd_left padding. tiles x0 (extents (ls_boxes st) (left_boxes boxes)) (sd_left (ca_sides (ls_area st)))) \<and>
    (\<exists>x1. tiles (sd_left (ca_sides (ls_area st)) + ca_w (ls_area st)) (extents (ls_boxes st) (right_boxes boxes)) x1 \<and>
       (right_boxes boxes \<noteq> [] \<and> 0 < ca_w (ls_area st) \<longrightarrow> x1 \<le> width - sd_right padding))"
proof -
  let ?lb = "buildLayoutBoxes boxes"
  define params where "params = layout_params_of width height padding boxes"
  define boxes0 where "boxes0 = map (\<lambda>b. b\<lparr>lw_width := 0, lw_height := 0, lw_size := 0\<rparr>) boxes"
  obtain boxes1 stacks where dims: "setLayoutDims (lb_vertical ?lb @ lb_horizontal ?lb) params boxes0 = (boxes1, stacks)"
    by fastforce
  have sub: "set (lb_vertical ?lb @ lb_horizontal ?lb) \<subseteq> {..<length boxes0}"
    by (auto simp: boxes0_def buildLayoutBoxes_def Let_def filterDynamicPositionByAxis_def)
  have d: "stacks = []" "length boxes1 = length boxes"
    "\<And>i. i < length boxes \<Longrightarrow> same_static (boxes1 ! i) (boxes ! i) \<and> lw_size (boxes1 ! i) = 0"
    using setLayoutDims_plain[OF _ sub dims] assms(2) by (auto simp: boxes0_def same_static_def)
  define st0 where "st0 = \<lparr>ls_boxes = boxes1, ls_stacks = stacks, ls_area = initial_area params minPadding\<rparr>"
  have inv0: "fit_inv boxes padding (sd_left padding) {} st0"
    using d by (auto simp: fit_inv_def st0_def initial_area_def params_def layout_params_of_def sum_sizes_zero Let_def)
  obtain st' where fa: "fit_all fit params ?lb st0 = Some st'"
    and rest: "st = (let st = placeBoxes params (lb_leftAndTop ?lb) (st'\<lparr>ls_area := handleMaxPadding (ls_area st')\<rparr>);
                  a = ls_area st;
                  st = placeBoxes params (lb_rightAndBottom ?lb)
                         (st\<lparr>ls_area := a\<lparr>ca_x := ca_x a + ca_w a, ca_y := ca_y a + ca_h a\<rparr>\<rparr>);
                  s = ca_sides (ls_area st); w = ca_w (ls_area st); h = ca_h (ls_area st)
              in st\<lparr>ls_boxes :=
                     foldl (\<lambda>boxes i.
                       let b = (boxes ! i)\<lparr>bx_left := sd_left s, bx_top := sd_top s, bx_right := sd_left s + w,
                                           bx_bottom := sd_top s + h, bx_height := h, bx_width := w\<rparr>;
                           (w', h', p) = fit i b w h \<lparr>sd_left = 0, sd_top = 0, sd_right = 0, sd_bottom = 0\<rparr>
                       in boxes[i := b\<lparr>bx_width := w', bx_height := h', bx_padding := p\<rparr>])
                     (ls_boxes st) (lb_chartArea ?lb)\<rparr>)"
    using assms(1) dims unfolding layout_update_def params_def[symmetric] boxes0_def[symmetric] Let_def
    by (auto simp: st0_def split: bind_splits)
  obtain P where P: "set (lb_vertical ?lb) \<subseteq> P" "fit_inv boxes padding (sd_left padding) P st'"
    using fit_all_inv[OF fa inv0 assms(2,4)] by blast
  define st1 where "st1 = placeBoxes params (lb_leftAndTop ?lb) (st'\<lparr>ls_area := handleMaxPadding (ls_area st')\<rparr>)"
  define st2 where "st2 = placeBoxes params (lb_rightAndBottom ?lb)
        (st1\<lparr>ls_area := (ls_area st1)\<lparr>ca_x := ca_x (ls_area st1) + ca_w (ls_area st1),
                                      ca_y := ca_y (ls_area st1) + ca_h (ls_area st1)\<rparr>\<rparr>)"
  have lists: "lb_leftAndTop ?lb = left_boxes boxes @ top_boxes boxes"
    "lb_rightAndBottom ?lb = right_boxes boxes @ (filterDynamicPositionByAxis boxes ''y'' @ bottom_boxes boxes @
       filterDynamicPositionByAxis boxes ''x'')"
    "set (left_boxes boxes) \<subseteq> P" "set (right_boxes boxes) \<subseteq> P"
    "lb_chartArea ?lb = filterByPosition boxes ''chartArea''"
    using P(1) by (auto simp: buildLayoutBoxes_def Let_def)
  have dyn: "i \<in> set (filterDynamicPositionByAxis boxes a) \<longleftrightarrow> i < length boxes \<and> \<not> is_static (boxes ! i) \<and> bx_axis (boxes ! i) = a"
    for i a by (auto simp: filterDynamicPositionByAxis_def)
  have stat: "is_static (boxes ! i)" if "bx_pos (boxes ! i) = PosName p" "p \<in> set staticPositions" for i p
    using that by (simp add: is_static_def)
  have rest_ok: "distinct (filterDynamicPositionByAxis boxes ''y'' @ bottom_boxes boxes @ filterDynamicPositionByAxis boxes ''x'')"
    "set (filterDynamicPositionByAxis boxes ''y'' @ bottom_boxes boxes @ filterDynamicPositionByAxis boxes ''x'') \<subseteq> {..<length boxes}"
    "set (filterDynamicPositionByAxis boxes ''y'' @ bottom_boxes boxes @ filterDynamicPositionByAxis boxes ''x'')
       \<inter> (set (left_boxes boxes) \<union> set (right_boxes boxes)) = {}"
    using stat by (auto simp: dyn staticPositions_def) (auto simp: filterDynamicPositionByAxis_def)
  have sync: "right_boxes boxes \<noteq> [] \<longrightarrow> in_sync params st'"
    using in_sync_fit_all[OF fa] by (auto simp: buildLayoutBoxes_def Let_def)
  have main: "(\<exists>x0 \<ge> sd_left padding. tiles x0 (extents (ls_boxes st2) (left_boxes boxes)) (sd_left (ca_sides (ls_area st2)))) \<and>
    (\<exists>x1. tiles (sd_left (ca_sides (ls_area st2)) + ca_w (ls_area st2)) (extents (ls_boxes st2) (right_boxes boxes)) x1 \<and>
       (right_boxes boxes \<noteq> [] \<and> 0 < ca_w (ls_area st2) \<longrightarrow> x1 \<le> lp_outerWidth params - sd_right padding)) \<and>
    length (ls_boxes st2) = length boxes"
    by (rule placed_sides[OF P(2) lists(3,4) assms(3) _ _ rest_ok sync]) (simp_all add: st1_def st2_def lists(1,2))
  have outer: "lp_outerWidth params = width" by (simp add: params_def layout_params_of_def Let_def)
  have area: "ls_area st = ls_area st2"
    unfolding rest st1_def[symmetric] Let_def st2_def by simp
  have other: "ls_boxes st ! j = ls_boxes st2 ! j" if "j \<notin> set (filterByPosition boxes ''chartArea'')" for j
  proof -
    have "ls_boxes st ! j = foldl (\<lambda>bs i.
         let b = (bs ! i)\<lparr>bx_left := sd_left (ca_sides (ls_area st2)), bx_top := sd_top (ca_sides (ls_area st2)),
                    bx_right := sd_left (ca_sides (ls_area st2)) + ca_w (ls_area st2),
                    bx_bottom := sd_top (ca_sides (ls_area st2)) + ca_h (ls_area st2),
                    bx_height := ca_h (ls_area st2), bx_width := ca_w (ls_area st2)\<rparr>;
             (w', h', p) = fit i b (ca_w (ls_area st2)) (ca_h (ls_area st2)) \<lparr>sd_left = 0, sd_top = 0, sd_right = 0, sd_bottom = 0\<rparr>
         in bs[i := b\<lparr>bx_width := w', bx_height := h', bx_padding := p\<rparr>]) (ls_boxes st2) (lb_chartArea ?lb) ! j"
      unfolding rest st1_def[symmetric] Let_def st2_def by simp
    also have "\<dots> = ls_boxes st2 ! j"
      by (rule foldl_update_other)
        (use that main in \<open>auto simp: Let_def split_beta lists(5) filterByPosition_def\<close>)
    finally show ?thesis .
  qed
  have "extents (ls_boxes st) (left_boxes boxes) = extents (ls_boxes st2) (left_boxes boxes)"
    "extents (ls_boxes st) (right_boxes boxes) = extents (ls_boxes st2) (right_boxes boxes)"
    by (rule extents_cong, rule other, auto simp: filterByPosition_def)+
  with main outer show ?thesis by (simp add: area)
qed

text \<open>One box is never fitted again in its own round.\<close>

lemma fitBoxes_short:
  assumes "length idx \<le> 1"
  shows "\<exists>r. fitBoxes fit params idx st = Some r"
proof (cases idx)
  case Nil
  then have "fitBoxes fit params idx st = Some (False, st)" by (subst fitBoxes.simps) simp
  then show ?thesis by blast
next
  case (Cons i rest)
  with assms have "\<not> fst (snd (foldl (fit_step fit params) ([], False, False, st) idx))"
    by (simp add: fit_step_def split_beta)
  then have "fitBoxes fit params idx st =
      Some (fst (snd (snd (foldl (fit_step fit params) ([], False, False, st) idx))),
            snd (snd (snd (foldl (fit_step fit params) ([], False, False, st) idx))))"
    by (subst fitBoxes.simps) (simp add: Let_def)
  then show ?thesis by blast
qed

definition sample_axis :: lbox where
  "sample_axis = \<lparr>bx_pos = PosName ''left'', bx_horizontal = False, bx_weight = 1, bx_stack = [], bx_stackWeight = 1,
     bx_fullSize = False, bx_axis = ''y'', bx_display = True, bx_padding = None, bx_left = 0, bx_top = 0,
     bx_right = 0, bx_bottom = 0, bx_width = 0, bx_height = 0, lw_width = 0, lw_height = 0, lw_size = 0\<rparr>"

definition zero_sides :: sides where
  "zero_sides = \<lparr>sd_left = 0, sd_top = 0, sd_right = 0, sd_bottom = 0\<rparr>"

definition fixed_fit :: fit_fn where
  "fixed_fit i b w h m = (40, 100, None)"

theorem side_boxes_tile_witness:
  "\<exists>st. layout_update fixed_fit 400 300 zero_sides zero_sides [sample_axis] = Some st \<and>
     (\<exists>x0 \<ge> 0. tiles x0 (extents (ls_boxes st) (left_boxes [sample_axis])) (sd_left (ca_sides (ls_area st))))"
proof -
  have lb: "length (lb_fullSize (buildLayoutBoxes [sample_axis])) \<le> 1"
    "length (lb_vertical (buildLayoutBoxes [sample_axis])) \<le> 1"
    "length (lb_horizontal (buildLayoutBoxes [sample_axis])) \<le> 1"
    by (simp_all add: buildLayoutBoxes_def left_boxes_def right_boxes_def top_boxes_def bottom_boxes_def
        sortByWeight_def sort_by_def filterByPosition_def filterDynamicPositionByAxis_def is_static_def
        staticPositions_def sample_axis_def Let_def)
  have fa: "\<exists>st'. fit_all fixed_fit params (buildLayoutBoxes [sample_axis]) st = Some st'" for params st
  proof -
    obtain r1 where r1: "fitBoxes fixed_fit params (lb_fullSize (buildLayoutBoxes [sample_axis])) st = Some r1"
      using fitBoxes_short[OF lb(1)] by blast
    obtain r2 where r2: "fitBoxes fixed_fit params (lb_vertical (buildLayoutBoxes [sample_axis])) (snd r1) = Some r2"
      using fitBoxes_short[OF lb(2)] by blast
    obtain r3 where r3: "fitBoxes fixed_fit params (lb_horizontal (buildLayoutBoxes [sample_axis])) (snd r2) = Some r3"
      using fitBoxes_short[OF lb(3)] by blast
    obtain r4 where r4: "fitBoxes fixed_fit params (lb_vertical (buildLayoutBoxes [sample_axis])) (snd r3) = Some r4"
      using fitBoxes_short[OF lb(2)] by blast
    show ?thesis by (cases "fst r3") (simp_all add: fit_all_def r1 r2 r3 r4 split_beta)
  qed
  obtain st where st: "layout_update fixed_fit 400 300 zero_sides zero_sides [sample_axis] = Some st"
    using fa unfolding layout_update_def Let_def split_beta by (metis bind.bind_lunit)
  have "(\<exists>x0 \<ge> sd_left zero_sides. tiles x0 (extents (ls_boxes st) (left_boxes [sample_axis])) (sd_left (ca_sides (ls_area st)))) \<and>
    (\<exists>x1. tiles (sd_left (ca_sides (ls_area st)) + ca_w (ls_area st)) (extents (ls_boxes st) (right_boxes [sample_axis])) x1 \<and>
       (right_boxes [sample_axis] \<noteq> [] \<and> 0 < ca_w (ls_area st) \<longrightarrow> x1 \<le> 400 - sd_right zero_sides))"
    by (rule side_boxes_tile[OF st]) (simp_all add: sample_axis_def fixed_fit_def)
  with st show ?thesis by (auto simp: zero_sides_def)
qed

subsection \<open>The list of boxes\<close>

lemma removeBox_addBox:
  "bi_id item \<notin> set (map bi_id bs) \<Longrightarrow> removeBox (addBox (Some bs) item) (bi_id item) = Some bs"
proof -
  assume new: "bi_id item \<notin> set (map bi_id bs)"
  have idx: "index_of (map bi_id bs @ [bi_id item]) (bi_id item) = Some (length bs)"
    using new index_of_append_new[of "bi_id item" "map bi_id bs" "[]"] by simp
  then show ?thesis by (simp add: removeBox_def addBox_def splice_def Let_def)
qed

end
