(* ===== verification/ChartDataset.thy ===== *)
theory ChartDataset
  imports ChartCore ChartMath
begin

section \<open>Chart.js 3.9.1: data sets, stacks and the elements of a data set\<close>

text \<open>
  The data side of \<open>www/root/js/chart_3.9.js\<close>: the listeners put on a data array
  (\<open>listenArrayEvents\<close>), clipping, stacking, and of the class \<open>DatasetController\<close> the
  parsing, the range of the parsed values and the deferred synchronisation of elements with the data
  array.  A parsed value is a number or \<open>null\<close> (\<open>None\<close>).
\<close>

subsection \<open>Listening to an array\<close>

text \<open>\<open>_chartjs\<close> on an array: absent, or its listeners.  With it the five mutators are replaced.\<close>

type_synonym array_stub = "nat list option"

definition listenArrayEvents :: "array_stub \<Rightarrow> nat \<Rightarrow> array_stub" where
  "listenArrayEvents stub listener =
     (case stub of Some ls \<Rightarrow> Some (ls @ [listener]) | None \<Rightarrow> Some [listener])"

definition unlistenArrayEvents :: "array_stub \<Rightarrow> nat \<Rightarrow> array_stub" where
  "unlistenArrayEvents stub listener =
     (case stub of
        None \<Rightarrow> None
      | Some ls \<Rightarrow>
          (let ls = (case index_of ls listener of Some i \<Rightarrow> splice ls i 1 [] | None \<Rightarrow> ls)
           in if ls \<noteq> [] then Some ls else None))"

definition array_listeners :: "array_stub \<Rightarrow> nat list" where
  "array_listeners stub = (case stub of None \<Rightarrow> [] | Some ls \<Rightarrow> ls)"

lemma unlisten_listen:
  "stub \<noteq> Some [] \<Longrightarrow> l \<notin> set (array_listeners stub) \<Longrightarrow> unlistenArrayEvents (listenArrayEvents stub l) l = stub"
proof (cases stub)
  case None
  then show ?thesis by (simp add: listenArrayEvents_def unlistenArrayEvents_def splice_def)
next
  case (Some ls)
  assume a: "stub \<noteq> Some []" "l \<notin> set (array_listeners stub)"
  then have "index_of (ls @ [l]) l = Some (length ls)"
    unfolding Some array_listeners_def by (simp add: index_of_append_new)
  with a Some show ?thesis
    by (simp add: listenArrayEvents_def unlistenArrayEvents_def splice_def)
qed

lemma unlisten_never_empty: "unlistenArrayEvents stub l \<noteq> Some []"
  by (auto simp: unlistenArrayEvents_def Let_def split: option.splits)

subsection \<open>Clipping\<close>

record clip_range =
  cr_start :: rat
  cr_end :: rat

record clip_sides =
  cl_top :: jsval
  cl_right :: jsval
  cl_bottom :: jsval
  cl_left :: jsval

text \<open>A scale's options as the clip reads them: reversed, and whether a minimum and a maximum are
  set; without a scale all are unset.\<close>

record clip_scale =
  cs_reverse :: bool
  cs_min :: bool
  cs_max :: bool

definition scaleClip :: "clip_scale option \<Rightarrow> rat \<Rightarrow> clip_range" where
  "scaleClip scale allowedOverflow =
     (let opts = (case scale of Some s \<Rightarrow> s | None \<Rightarrow> \<lparr>cs_reverse = False, cs_min = False, cs_max = False\<rparr>);
          mn = (if \<not> cs_min opts then allowedOverflow else 0);
          mx = (if \<not> cs_max opts then allowedOverflow else 0)
      in \<lparr>cr_start = (if cs_reverse opts then mx else mn), cr_end = (if cs_reverse opts then mn else mx)\<rparr>)"

definition defaultClip :: "clip_scale option \<Rightarrow> clip_scale option \<Rightarrow> rat option \<Rightarrow> jsval" where
  "defaultClip xScale yScale allowedOverflow =
     (case allowedOverflow of
        None \<Rightarrow> VBool False
      | Some a \<Rightarrow>
          (let x = scaleClip xScale a; y = scaleClip yScale a
           in VObj [(''top'', VNum (Fin (cr_end y))), (''right'', VNum (Fin (cr_end x))),
                    (''bottom'', VNum (Fin (cr_start y))), (''left'', VNum (Fin (cr_start x)))]))"

definition toClip :: "jsval \<Rightarrow> clip_sides \<times> bool" where
  "toClip v =
     ((case v of
         VObj ps \<Rightarrow> (let g = (\<lambda>k. case obj_get ps k of Some w \<Rightarrow> w | None \<Rightarrow> VUndef)
                     in \<lparr>cl_top = g ''top'', cl_right = g ''right'', cl_bottom = g ''bottom'', cl_left = g ''left''\<rparr>)
       | _ \<Rightarrow> \<lparr>cl_top = v, cl_right = v, cl_bottom = v, cl_left = v\<rparr>),
      v = VBool False)"

subsection \<open>Stacks\<close>

type_synonym parsed_value = "jsnum option"

text \<open>The numeric sign, \<open>NaN\<close> for \<open>NaN\<close> and (after conversion) zero for \<open>null\<close>.\<close>

definition finite_value :: "parsed_value \<Rightarrow> rat option" where
  "finite_value v = (case v of Some (Fin r) \<Rightarrow> Some r | _ \<Rightarrow> None)"

text \<open>The values of one stack by data set index, with the last positive and negative indices.\<close>

record stack_obj =
  so_values :: "(nat \<times> parsed_value) list"
  so_top :: "nat option"
  so_bottom :: "nat option"

text \<open>\<open>applyStack\<close> on a number: the values of the data sets before the given one, in the order
  of the keys.\<close>

fun applyStack_loop ::
  "bool \<Rightarrow> bool \<Rightarrow> nat \<Rightarrow> (nat \<Rightarrow> rat option) \<Rightarrow> nat list \<Rightarrow> rat \<Rightarrow> rat" where
  "applyStack_loop singleMode useAll dsIndex stackValue [] v = v"
| "applyStack_loop singleMode useAll dsIndex stackValue (k # keys) v =
     (if k = dsIndex then (if useAll then applyStack_loop singleMode useAll dsIndex stackValue keys v else v)
      else (case stackValue k of
              Some other \<Rightarrow>
                applyStack_loop singleMode useAll dsIndex stackValue keys
                  (if singleMode \<or> (v = 0 \<or> sign v = sign other) then v + other else v)
            | None \<Rightarrow> applyStack_loop singleMode useAll dsIndex stackValue keys v))"

definition stack_lookup :: "stack_obj \<Rightarrow> nat \<Rightarrow> rat option" where
  "stack_lookup stack k = (case obj_get (so_values stack) k of Some v \<Rightarrow> finite_value v | None \<Rightarrow> None)"

definition applyStack :: "nat list \<Rightarrow> stack_obj \<Rightarrow> rat option \<Rightarrow> nat \<Rightarrow> bool \<Rightarrow> bool \<Rightarrow> rat option" where
  "applyStack keys stack v dsIndex singleMode useAll =
     (case v of None \<Rightarrow> None | Some r \<Rightarrow> Some (applyStack_loop singleMode useAll dsIndex (stack_lookup stack) keys r))"

definition convertObjectDataToArray :: "jsval obj \<Rightarrow> jsval list" where
  "convertObjectDataToArray data =
     map (\<lambda>k. VObj [(''x'', VStr k), (''y'', the (obj_get data k))]) (obj_keys data)"

text \<open>\<open>stacked\<close> is the scale's option, \<open>None\<close> without a scale.\<close>

definition isStacked :: "jsval option \<Rightarrow> string option \<Rightarrow> bool" where
  "isStacked stacked metaStack =
     (let s = (case stacked of Some v \<Rightarrow> v | None \<Rightarrow> VUndef)
      in truthy s \<or> (s = VUndef \<and> metaStack \<noteq> None))"

definition getStackKey :: "string \<Rightarrow> string \<Rightarrow> string option \<Rightarrow> string \<Rightarrow> string" where
  "getStackKey indexScaleId valueScaleId metaStack metaType =
     indexScaleId @ ''.'' @ valueScaleId @ ''.'' @
       (case metaStack of Some s \<Rightarrow> if s = [] then metaType else s | None \<Rightarrow> metaType)"

record user_bounds =
  ub_min :: jsnum
  ub_max :: jsnum
  ub_minDefined :: bool
  ub_maxDefined :: bool

definition getUserBounds :: "user_bounds \<Rightarrow> jsnum \<times> jsnum" where
  "getUserBounds b = (if ub_minDefined b then ub_min b else NInf, if ub_maxDefined b then ub_max b else PInf)"

text \<open>
  The stacks of a chart, by stack key and index value.  The entries are objects shared by all items
  with the same key and index, so an item keeps the pair as its reference.
\<close>

type_synonym stack_ref = "string \<times> parsed_value"

type_synonym stacks = "(stack_ref \<times> stack_obj) list"

definition getOrCreateStack :: "stacks \<Rightarrow> stack_ref \<Rightarrow> stack_obj \<times> stacks" where
  "getOrCreateStack stacks r =
     (case obj_get stacks r of
        Some s \<Rightarrow> (s, stacks)
      | None \<Rightarrow> (let s = \<lparr>so_values = [], so_top = None, so_bottom = None\<rparr> in (s, obj_set stacks r s)))"

definition getLastIndexInStack :: "stack_obj \<Rightarrow> nat list \<Rightarrow> bool \<Rightarrow> nat option" where
  "getLastIndexInStack stack metaIndices positive =
     find (\<lambda>i. case obj_get (so_values stack) i of
                 Some (Some v) \<Rightarrow> if positive then num_less (Fin 0) v else num_less v (Fin 0)
               | _ \<Rightarrow> False) (rev metaIndices)"

record parsed_item =
  pi_index :: parsed_value
  pi_value :: parsed_value
  pi_stack :: "stack_ref option"

definition updateStack_item ::
  "string \<Rightarrow> nat \<Rightarrow> nat list \<Rightarrow> stacks \<times> parsed_item list \<Rightarrow> parsed_item \<Rightarrow> stacks \<times> parsed_item list" where
  "updateStack_item key dsIndex metaIndices st item =
     (let (stacks, acc) = st;
          r = (key, pi_index item);
          (s, stacks) = getOrCreateStack stacks r;
          s = s\<lparr>so_values := obj_set (so_values s) dsIndex (pi_value item)\<rparr>;
          s = s\<lparr>so_top := getLastIndexInStack s metaIndices True\<rparr>;
          s = s\<lparr>so_bottom := getLastIndexInStack s metaIndices False\<rparr>
      in (obj_set stacks r s, acc @ [item\<lparr>pi_stack := Some r\<rparr>]))"

definition updateStacks :: "string \<Rightarrow> nat \<Rightarrow> nat list \<Rightarrow> stacks \<Rightarrow> parsed_item list \<Rightarrow> stacks \<times> parsed_item list" where
  "updateStacks key dsIndex metaIndices stacks parsed =
     foldl (updateStack_item key dsIndex metaIndices) (stacks, []) parsed"

text \<open>\<open>clearStacks\<close> stops at the first item that has no value in its stack.\<close>

fun clearStacks :: "nat \<Rightarrow> parsed_item list \<Rightarrow> stacks \<Rightarrow> stacks" where
  "clearStacks dsIndex [] stacks = stacks"
| "clearStacks dsIndex (item # items) stacks =
     (case pi_stack item of
        None \<Rightarrow> stacks
      | Some r \<Rightarrow>
          (case obj_get stacks r of
             None \<Rightarrow> stacks
           | Some s \<Rightarrow>
               if \<not> obj_has (so_values s) dsIndex then stacks
               else clearStacks dsIndex items (obj_set stacks r (s\<lparr>so_values := obj_del (so_values s) dsIndex\<rparr>))))"

definition getFirstScaleId :: "(string \<times> string) list \<Rightarrow> string \<Rightarrow> string option" where
  "getFirstScaleId scales axis = map_option fst (find (\<lambda>p. snd p = axis) scales)"

text \<open>\<open>updateIndex\<close>: moving a data set clears its stacks first.\<close>

definition updateIndex :: "nat \<Rightarrow> nat \<Rightarrow> parsed_item list \<Rightarrow> stacks \<Rightarrow> nat \<times> stacks" where
  "updateIndex old new parsed stacks = (new, if old \<noteq> new then clearStacks old parsed stacks else stacks)"

subsection \<open>What a stacked value is\<close>

definition before_in :: "nat list \<Rightarrow> nat \<Rightarrow> nat list" where
  "before_in keys ds = takeWhile (\<lambda>k. k \<noteq> ds) keys"

lemma sign_add: "v \<noteq> 0 \<Longrightarrow> sign v = sign w \<Longrightarrow> sign (v + w) = sign v \<and> v + w \<noteq> 0"
  by (auto simp: sign_def split: if_splits)

lemma applyStack_loop_sum:
  "v \<noteq> 0 \<Longrightarrow> applyStack_loop False False ds val keys v =
     v + sum_list (map (\<lambda>k. case val k of Some w \<Rightarrow> if sign w = sign v then w else 0 | None \<Rightarrow> 0) (before_in keys ds))"
proof (induction keys arbitrary: v)
  case Nil
  then show ?case by (simp add: before_in_def)
next
  case (Cons k keys)
  show ?case
  proof (cases "k = ds")
    case True
    then show ?thesis by (simp add: before_in_def)
  next
    case False
    show ?thesis
    proof (cases "val k")
      case None
      with False Cons show ?thesis by (simp add: before_in_def)
    next
      case (Some w)
      show ?thesis
      proof (cases "sign v = sign w")
        case True
        with sign_add[OF Cons.prems True] have s: "v + w \<noteq> 0" "sign (v + w) = sign v" by auto
        show ?thesis
          using False Some True Cons.IH[OF s(1)] Cons.prems unfolding s(2) by (simp add: before_in_def)
      next
        case neq: False
        with False Some Cons show ?thesis by (auto simp: before_in_def)
      qed
    qed
  qed
qed

text \<open>
  A stacked bar stands on the bars of its own sign only: the stacked value of a non-zero value
  is the value plus the sum of the finite values of the same sign of the data sets before it, in the
  order of the keys; values of the other sign and gaps do not move it.
\<close>

theorem applyStack_sum:
  assumes "v \<noteq> 0"
  shows "applyStack keys stack (Some v) ds False False =
    Some (v + sum_list (map (\<lambda>k. case stack_lookup stack k of Some w \<Rightarrow> if sign w = sign v then w else 0 | None \<Rightarrow> 0)
                          (takeWhile (\<lambda>k. k \<noteq> ds) keys)))"
  using applyStack_loop_sum[OF assms] by (simp add: applyStack_def before_in_def)

theorem applyStack_sum_witness:
  "applyStack [0, 1, 2] \<lparr>so_values = [(0, Some (Fin 3)), (1, Some (Fin (-2))), (2, Some (Fin 4))],
      so_top = None, so_bottom = None\<rparr> (Some 4) 2 False False = Some 7"
  by (simp add: applyStack_sum stack_lookup_def finite_value_def sign_def)

subsection \<open>Parsing\<close>

text \<open>A parsed item read through the scales: the values along x and y, and which of them is the
  index.\<close>

definition parsed_xy :: "bool \<Rightarrow> parsed_value \<Rightarrow> parsed_value \<Rightarrow> parsed_item" where
  "parsed_xy indexIsX px py = \<lparr>pi_index = (if indexIsX then px else py),
     pi_value = (if indexIsX then py else px), pi_stack = None\<rparr>"

type_synonym scale_parse = "jsval \<Rightarrow> nat \<Rightarrow> parsed_value"

definition parsePrimitiveData ::
  "scale_parse \<Rightarrow> scale_parse \<Rightarrow> jsval list \<Rightarrow> bool \<Rightarrow> jsval list \<Rightarrow> nat \<Rightarrow> nat \<Rightarrow> parsed_item list" where
  "parsePrimitiveData iparse vparse labels singleScale data start count =
     map (\<lambda>i. let index = i + start;
                  v = vparse (if index < length data then data ! index else VUndef) index
              in \<lparr>pi_index = (if singleScale then v
                              else iparse (if index < length labels then labels ! index else VUndef) index),
                  pi_value = v, pi_stack = None\<rparr>) [0..<count]"

definition array_get :: "jsval \<Rightarrow> nat \<Rightarrow> jsval" where
  "array_get v i = (case v of VArr xs \<Rightarrow> if i < length xs then xs ! i else VUndef | _ \<Rightarrow> VUndef)"

definition parseArrayData ::
  "scale_parse \<Rightarrow> scale_parse \<Rightarrow> bool \<Rightarrow> jsval list \<Rightarrow> nat \<Rightarrow> nat \<Rightarrow> parsed_item list" where
  "parseArrayData xparse yparse indexIsX data start count =
     map (\<lambda>i. let index = i + start; item = data ! index
              in parsed_xy indexIsX (xparse (array_get item 0) index) (yparse (array_get item 1) index)) [0..<count]"

text \<open>An item that is \<open>null\<close> or \<open>undefined\<close> makes the shortcut keys throw.\<close>

fun sequence :: "('e + 'a) list \<Rightarrow> 'e + 'a list" where
  "sequence [] = Inr []"
| "sequence (Inl e # xs) = Inl e"
| "sequence (Inr x # xs) = (case sequence xs of Inl e \<Rightarrow> Inl e | Inr ys \<Rightarrow> Inr (x # ys))"

definition parseObjectData ::
  "scale_parse \<Rightarrow> scale_parse \<Rightarrow> string \<Rightarrow> string \<Rightarrow> bool \<Rightarrow> jsval list \<Rightarrow> nat \<Rightarrow> nat \<Rightarrow> js_error + parsed_item list" where
  "parseObjectData xparse yparse xAxisKey yAxisKey indexIsX data start count =
     sequence (map (\<lambda>i. let index = i + start; item = data ! index in
        case resolveObjectKey item xAxisKey of
          Inl e \<Rightarrow> Inl e
        | Inr vx \<Rightarrow> (case resolveObjectKey item yAxisKey of
                       Inl e \<Rightarrow> Inl e
                     | Inr vy \<Rightarrow> Inr (parsed_xy indexIsX (xparse vx index) (yparse vy index)))) [0..<count])"

definition num_of :: "parsed_value \<Rightarrow> jsnum" where
  "num_of v = (case v of Some n \<Rightarrow> n | None \<Rightarrow> Fin 0)"

definition notInOrder :: "parsed_item option \<Rightarrow> parsed_item \<Rightarrow> bool" where
  "notInOrder prev cur \<longleftrightarrow>
     pi_index cur = None \<or> (\<exists>p. prev = Some p \<and> num_less (num_of (pi_index cur)) (num_of (pi_index p)))"

fun sorted_loop :: "bool \<Rightarrow> parsed_item option \<Rightarrow> parsed_item list \<Rightarrow> bool" where
  "sorted_loop isSorted prev [] = isSorted"
| "sorted_loop isSorted prev (cur # rest) =
     (if isSorted then sorted_loop (\<not> notInOrder prev cur) (Some cur) rest
      else sorted_loop False prev rest)"

record meta_data =
  md_parsed :: "parsed_item list"
  md_sorted :: bool

text \<open>\<open>parse\<close> with parsing switched on: the new items replace their part of \<open>_parsed\<close>.\<close>

definition parse_store :: "nat \<Rightarrow> nat \<Rightarrow> nat \<Rightarrow> parsed_item list \<Rightarrow> meta_data \<Rightarrow> meta_data" where
  "parse_store start count dataLength items md =
     (let isSorted = (if start = 0 \<and> count = dataLength then True else md_sorted md);
          prev = (if 0 < start \<and> start - 1 < length (md_parsed md) then Some (md_parsed md ! (start - 1)) else None)
      in \<lparr>md_parsed = splice (md_parsed md) start count items, md_sorted = sorted_loop isSorted prev items\<rparr>)"

subsection \<open>The range of the parsed values\<close>

text \<open>What \<open>getMinMax\<close> reads of an item: its value along the scale, along the other scale, and
  the stacked value where stacks apply.\<close>

record range_item =
  ri_value :: parsed_value
  ri_other :: parsed_value
  ri_stacked :: "jsnum option"

definition skip_item :: "jsnum \<Rightarrow> jsnum \<Rightarrow> range_item \<Rightarrow> bool" where
  "skip_item otherMin otherMax it \<longleftrightarrow>
     finite_value (ri_value it) = None \<or> num_less (num_of (ri_other it)) otherMin \<or>
     num_less otherMax (num_of (ri_other it))"

definition updateRangeFromParsed :: "jsnum \<times> jsnum \<Rightarrow> range_item \<Rightarrow> jsnum \<times> jsnum" where
  "updateRangeFromParsed rng it =
     (let v = (case ri_stacked it of Some s \<Rightarrow> s | None \<Rightarrow> (case ri_value it of None \<Rightarrow> NaN | Some n \<Rightarrow> n))
      in (num_min (fst rng) v, num_max (snd rng) v))"

definition getMinMax :: "bool \<Rightarrow> jsnum \<times> jsnum \<Rightarrow> range_item list \<Rightarrow> jsnum \<times> jsnum" where
  "getMinMax isSorted otherBounds items =
     (let skip = skip_item (fst otherBounds) (snd otherBounds); init = (PInf, NInf) in
      if isSorted then
        (let r = (case find (\<lambda>it. \<not> skip it) items of Some it \<Rightarrow> updateRangeFromParsed init it | None \<Rightarrow> init)
         in case find (\<lambda>it. \<not> skip it) (rev items) of Some it \<Rightarrow> updateRangeFromParsed r it | None \<Rightarrow> r)
      else foldl (\<lambda>r it. if skip it then r else updateRangeFromParsed r it) init items)"

definition getAllParsedValues :: "parsed_value list \<Rightarrow> rat list" where
  "getAllParsedValues vs = concat (map (\<lambda>v. case finite_value v of Some r \<Rightarrow> [r] | None \<Rightarrow> []) vs)"

lemma fold_filter: "foldl (\<lambda>r it. if P it then r else f r it) z xs = foldl f z (filter (\<lambda>it. \<not> P it) xs)"
  by (induction xs arbitrary: z) auto

lemma find_hd: "find P xs = (case filter P xs of [] \<Rightarrow> None | y # _ \<Rightarrow> Some y)"
  by (induction xs) auto

lemma range_fold:
  assumes "vs \<noteq> []" "sorted vs"
  shows "foldl (\<lambda>r v. (num_min (fst r) (Fin v), num_max (snd r) (Fin v))) (PInf, NInf) vs =
    (Fin (hd vs), Fin (last vs))"
  using assms
proof (induction vs rule: rev_induct)
  case Nil
  then show ?case by simp
next
  case (snoc v vs)
  show ?case
  proof (cases "vs = []")
    case True
    then show ?thesis by (simp add: num_min.simps num_max.simps)
  next
    case False
    from snoc.prems(2) have s: "sorted vs" "\<forall>w \<in> set vs. w \<le> v" by (auto simp: sorted_append)
    have h: "hd vs \<le> v" "last vs \<le> v" using s(2) False by auto
    from snoc.IH[OF False s(1)] h False show ?thesis by (simp add: min_def max_def)
  qed
qed

text \<open>
  The shortcut for sorted data is exact: on items whose visible finite values are in ascending
  order and are not stacked, looking only at the first and the last visible item gives the same
  minimum and maximum as looking at all of them.
\<close>

theorem getMinMax_sorted:
  assumes "sorted (getAllParsedValues (map ri_value
      (filter (\<lambda>it. \<not> skip_item (fst otherBounds) (snd otherBounds) it) items)))"
    and "\<forall>it \<in> set items. ri_stacked it = None"
  shows "getMinMax True otherBounds items = getMinMax False otherBounds items"
proof -
  let ?skip = "skip_item (fst otherBounds) (snd otherBounds)"
  define vis where "vis = filter (\<lambda>it. \<not> ?skip it) items"
  define val :: "range_item \<Rightarrow> rat" where "val it = the (finite_value (ri_value it))" for it
  have fin: "\<exists>r. ri_value it = Some (Fin r)" if "it \<in> set vis" for it
    using that by (auto simp: vis_def skip_item_def finite_value_def split: option.splits jsnum.splits)
  have upd: "updateRangeFromParsed r it = (num_min (fst r) (Fin (val it)), num_max (snd r) (Fin (val it)))"
    if "it \<in> set vis" for r it
    using fin[OF that] that assms(2) by (auto simp: updateRangeFromParsed_def val_def finite_value_def vis_def Let_def)
  have vals: "getAllParsedValues (map ri_value vis) = map val vis"
  proof -
    have "(case finite_value (ri_value it) of Some r \<Rightarrow> [r] | None \<Rightarrow> []) = [val it]" if "it \<in> set vis" for it
      using fin[OF that] by (auto simp: val_def finite_value_def)
    then have "map (\<lambda>it. case finite_value (ri_value it) of Some r \<Rightarrow> [r] | None \<Rightarrow> []) vis = map (\<lambda>it. [val it]) vis"
      by simp
    moreover have "concat (map (\<lambda>it. [val it]) vis) = map val vis" by (induction vis) simp_all
    ultimately show ?thesis unfolding getAllParsedValues_def map_map o_def by (simp only:)
  qed
  then have sorted: "sorted (map val vis)" using assms(1) by (simp add: vis_def)
  have scan: "getMinMax False otherBounds items = foldl updateRangeFromParsed (PInf, NInf) vis"
    by (simp add: getMinMax_def fold_filter vis_def)
  also have "\<dots> = foldl (\<lambda>r v. (num_min (fst r) (Fin v), num_max (snd r) (Fin v))) (PInf, NInf) (map val vis)"
    unfolding foldl_map by (rule foldl_cong) (simp_all add: upd)
  finally have full: "getMinMax False otherBounds items =
      foldl (\<lambda>r v. (num_min (fst r) (Fin v), num_max (snd r) (Fin v))) (PInf, NInf) (map val vis)" .
  show ?thesis
  proof (cases "vis = []")
    case True
    then have "find (\<lambda>it. \<not> ?skip it) items = None" "find (\<lambda>it. \<not> ?skip it) (rev items) = None"
      by (simp_all add: find_hd vis_def rev_filter[symmetric])
    with True show ?thesis unfolding full by (simp add: getMinMax_def Let_def)
  next
    case False
    then obtain a rest where vis_a: "vis = a # rest" by (cases vis) auto
    obtain b front where vis_b: "vis = front @ [b]" using False by (cases vis rule: rev_cases) auto
    have f: "find (\<lambda>it. \<not> ?skip it) items = Some a"
      using vis_a by (simp add: find_hd vis_def)
    have l: "find (\<lambda>it. \<not> ?skip it) (rev items) = Some b"
      using arg_cong[OF vis_b, of rev] by (simp add: find_hd vis_def rev_filter[symmetric])
    have ab: "a \<in> set vis" "b \<in> set vis" by (simp add: vis_a, simp add: vis_b)
    have "val a \<le> val b"
      using sorted vis_a vis_b by (metis ab(2) list.map(2) list.set_map image_eqI sorted_simps(2) set_ConsD order_refl)
    moreover have "hd (map val vis) = val a" using vis_a by simp
    moreover have "last (map val vis) = val b" using vis_b by simp
    ultimately show ?thesis
      using False range_fold[OF _ sorted] upd[OF ab(1)] upd[OF ab(2)] f l
      unfolding full by (simp add: getMinMax_def Let_def num_min.simps[of PInf] num_max.simps[of NInf] min_def max_def)
  qed
qed

theorem getMinMax_sorted_witness:
  "getMinMax True (NInf, PInf)
     [\<lparr>ri_value = Some (Fin 1), ri_other = Some (Fin 5), ri_stacked = None\<rparr>,
      \<lparr>ri_value = None, ri_other = Some (Fin 5), ri_stacked = None\<rparr>,
      \<lparr>ri_value = Some (Fin 4), ri_other = Some (Fin 2), ri_stacked = None\<rparr>] =
   getMinMax False (NInf, PInf)
     [\<lparr>ri_value = Some (Fin 1), ri_other = Some (Fin 5), ri_stacked = None\<rparr>,
      \<lparr>ri_value = None, ri_other = Some (Fin 5), ri_stacked = None\<rparr>,
      \<lparr>ri_value = Some (Fin 4), ri_other = Some (Fin 2), ri_stacked = None\<rparr>]"
  by (rule getMinMax_sorted) (simp_all add: skip_item_def finite_value_def num_of_def getAllParsedValues_def)

subsection \<open>Keeping the elements in step with the data array\<close>

text \<open>
  The five mutators of an array, with their arguments.  \<open>splice\<close> may be called without a count and
  then without items.  \<open>splice_start\<close> is the language's treatment of a start out of range.
\<close>

datatype 'd array_op =
    Push "'d list" | Pop | Shift | Splice int "nat option" "'d list" | Unshift "'d list"

definition splice_start :: "nat \<Rightarrow> int \<Rightarrow> nat" where
  "splice_start len s = (if s < 0 then nat (max 0 (int len + s)) else min (nat s) len)"

definition js_splice :: "'d list \<Rightarrow> int \<Rightarrow> nat option \<Rightarrow> 'd list \<Rightarrow> 'd list" where
  "js_splice xs s count items =
     (let k = splice_start (length xs) s; c = (case count of Some c \<Rightarrow> min c (length xs - k) | None \<Rightarrow> length xs - k)
      in splice xs k c items)"

fun apply_array_op :: "'d array_op \<Rightarrow> 'd list \<Rightarrow> 'd list" where
  "apply_array_op (Push items) xs = xs @ items"
| "apply_array_op Pop xs = butlast xs"
| "apply_array_op Shift xs = tl xs"
| "apply_array_op (Splice s c items) xs = js_splice xs s c items"
| "apply_array_op (Unshift items) xs = items @ xs"

text \<open>The calls the listener methods make or put on \<open>_syncList\<close>; the second number of an
  insertion is \<open>arguments.length - 2\<close> for a splice.\<close>

datatype sync_call = InsertElements int int | RemoveElements int nat

fun on_data_op :: "'d array_op \<Rightarrow> nat \<Rightarrow> nat \<Rightarrow> sync_call list" where
  "on_data_op (Push items) dataLen elemLen =
     [InsertElements (int dataLen - int (length items)) (int (length items))]"
| "on_data_op Pop dataLen elemLen = [RemoveElements (int elemLen - 1) 1]"
| "on_data_op Shift dataLen elemLen = [RemoveElements 0 1]"
| "on_data_op (Splice s c items) dataLen elemLen =
     (case c of Some n \<Rightarrow> if n \<noteq> 0 then [RemoveElements s n] else [] | None \<Rightarrow> []) @
     (let newCount = (case c of Some n \<Rightarrow> int (length items) | None \<Rightarrow> -1)
      in if newCount \<noteq> 0 then [InsertElements s newCount] else [])"
| "on_data_op (Unshift items) dataLen elemLen = [InsertElements 0 (int (length items))]"

text \<open>\<open>_insertElements\<close> and \<open>_removeElements\<close> on the elements.  A negative start of an
  insertion writes outside the array and a negative count makes \<open>new Array(count)\<close> throw: \<open>None\<close>.\<close>

definition insertElements :: "'e \<Rightarrow> int \<Rightarrow> int \<Rightarrow> 'e list \<Rightarrow> 'e list option" where
  "insertElements fresh start count es =
     (if count < 0 \<or> start < 0 \<or> int (length es) < start then None
      else Some (take (nat start) es @ replicate (nat count) fresh @ drop (nat start) es))"

definition removeElements :: "int \<Rightarrow> nat \<Rightarrow> 'e list \<Rightarrow> 'e list" where
  "removeElements start count es = js_splice es start (Some count) []"

fun run_call :: "'e \<Rightarrow> sync_call \<Rightarrow> 'e list \<Rightarrow> 'e list option" where
  "run_call fresh (InsertElements s c) es = insertElements fresh s c es"
| "run_call fresh (RemoveElements s c) es = Some (removeElements s c es)"

fun run_calls :: "'e \<Rightarrow> sync_call list \<Rightarrow> 'e list \<Rightarrow> 'e list option" where
  "run_calls fresh [] es = Some es"
| "run_calls fresh (c # cs) es = (case run_call fresh c es of None \<Rightarrow> None | Some es' \<Rightarrow> run_calls fresh cs es')"

record 'e controller =
  ct_parsing :: bool
  ct_elements :: "'e list"
  ct_syncList :: "sync_call list"

text \<open>\<open>_sync\<close>: deferred while parsing is on, at once otherwise.\<close>

definition controller_sync :: "'e \<Rightarrow> sync_call \<Rightarrow> 'e controller \<Rightarrow> 'e controller option" where
  "controller_sync fresh c ct =
     (if ct_parsing ct then Some (ct\<lparr>ct_syncList := ct_syncList ct @ [c]\<rparr>)
      else map_option (\<lambda>es. ct\<lparr>ct_elements := es\<rparr>) (run_call fresh c (ct_elements ct)))"

text \<open>\<open>_resyncElements\<close>: replay the list, then match the number of elements to the data.\<close>

definition resyncElements :: "'e \<Rightarrow> nat \<Rightarrow> 'e controller \<Rightarrow> 'e controller option" where
  "resyncElements fresh numData ct =
     (case run_calls fresh (ct_syncList ct) (ct_elements ct) of
        None \<Rightarrow> None
      | Some es \<Rightarrow>
          (let es = (if length es < numData then es @ replicate (numData - length es) fresh
                     else take numData es)
           in Some (ct\<lparr>ct_elements := es, ct_syncList := []\<rparr>)))"

text \<open>A sequence of array operations on listened data, with the calls it records.\<close>

fun record_ops :: "'d array_op list \<Rightarrow> nat \<Rightarrow> 'd list \<Rightarrow> 'd list \<times> sync_call list" where
  "record_ops [] elemLen xs = (xs, [])"
| "record_ops (p # ps) elemLen xs =
     (let xs' = apply_array_op p xs;
          calls = on_data_op p (length xs') elemLen;
          (ys, rest) = record_ops ps elemLen xs'
      in (ys, calls @ rest))"

text \<open>Operations whose deferred replay is right on data of length \<open>n\<close> with \<open>e\<close> elements: a \<open>pop\<close>
  where both numbers agree (the removal is recorded at the number of elements), a \<open>splice\<close> with a
  count and, when it inserts, a start in range; every \<open>push\<close>, \<open>shift\<close> and \<open>unshift\<close>.\<close>

fun replayable :: "'d array_op \<Rightarrow> nat \<Rightarrow> nat \<Rightarrow> bool" where
  "replayable Pop e n = (e = n)"
| "replayable (Splice s c items) e n = (c \<noteq> None \<and> (items = [] \<or> 0 \<le> s \<and> s \<le> int n))"
| "replayable _ e n = True"

fun all_replayable :: "'d array_op list \<Rightarrow> nat \<Rightarrow> 'd list \<Rightarrow> bool" where
  "all_replayable [] e xs = True"
| "all_replayable (p # ps) e xs = (replayable p e (length xs) \<and> all_replayable ps e (apply_array_op p xs))"

fun op_items :: "'d array_op \<Rightarrow> 'd list" where
  "op_items (Push items) = items"
| "op_items (Splice s c items) = items"
| "op_items (Unshift items) = items"
| "op_items _ = []"

lemma run_calls_append:
  "run_calls fresh (cs @ ds) es = (case run_calls fresh cs es of None \<Rightarrow> None | Some es' \<Rightarrow> run_calls fresh ds es')"
  by (induction cs arbitrary: es) (auto split: option.splits)

lemma map_js_splice: "map f (js_splice xs s c items) = js_splice (map f xs) s c (map f items)"
  by (cases c) (simp_all add: js_splice_def splice_def take_map drop_map Let_def)

lemma map_constant: "\<forall>d \<in> set xs. f d = c \<Longrightarrow> map f xs = replicate (length xs) c"
  by (induction xs) auto

text \<open>One operation, mirrored on the elements.\<close>

lemma replay_one:
  assumes "replayable p n (length xs)" "\<forall>d \<in> set (op_items p). f d = fresh"
  shows "run_calls fresh (on_data_op p (length (apply_array_op p xs)) n) (map f xs) = Some (map f (apply_array_op p xs))"
proof (cases p)
  case (Push items)
  with assms(2) have "map f items = replicate (length items) fresh" by (simp add: map_constant)
  with Push show ?thesis by (simp add: insertElements_def)
next
  case Pop
  with assms(1) show ?thesis
    by (cases xs rule: rev_cases) (simp_all add: removeElements_def js_splice_def splice_start_def splice_def Let_def)
next
  case Shift
  then show ?thesis
    by (cases xs) (simp_all add: removeElements_def js_splice_def splice_start_def splice_def)
next
  case (Unshift items)
  with assms(2) have "map f items = replicate (length items) fresh" by (simp add: map_constant)
  with Unshift show ?thesis by (simp add: insertElements_def)
next
  case (Splice s c items)
  show ?thesis
  proof (cases "items = []")
    case True
    with Splice assms(1) show ?thesis
      by (auto simp: removeElements_def map_js_splice js_splice_def splice_def Let_def take_map drop_map
          simp flip: map_append)
  next
    case False
    with assms(1) Splice obtain n' where c: "c = Some n'" "0 \<le> s" "s \<le> int (length xs)" by auto
    have items: "map f items = replicate (length items) fresh"
      using assms(2) Splice by (simp add: map_constant)
    have st: "splice_start (length xs) s = nat s" using c by (simp add: splice_start_def)
    let ?m = "min n' (length xs - nat s)"
    have removed: "run_calls fresh (if n' \<noteq> 0 then [RemoveElements s n'] else []) (map f xs) =
        Some (take (nat s) (map f xs) @ drop (nat s + ?m) (map f xs))"
      using st by (simp add: removeElements_def js_splice_def splice_def Let_def)
    have "run_calls fresh (if items \<noteq> [] then [InsertElements s (int (length items))] else [])
        (take (nat s) (map f xs) @ drop (nat s + ?m) (map f xs)) =
        Some (take (nat s) (map f xs) @ replicate (length items) fresh @ drop (nat s + ?m) (map f xs))"
      using c by (auto simp: insertElements_def)
    moreover have "map f (apply_array_op p xs) =
        take (nat s) (map f xs) @ replicate (length items) fresh @ drop (nat s + ?m) (map f xs)"
      using Splice c st items by (simp add: map_js_splice js_splice_def splice_def take_map drop_map Let_def)
    ultimately show ?thesis
      using removed by (simp add: Splice c run_calls_append)
  qed
qed

lemma replay_all:
  "all_replayable ps n xs \<Longrightarrow> \<forall>p \<in> set ps. \<forall>d \<in> set (op_items p). f d = fresh \<Longrightarrow>
   record_ops ps n xs = (ys, calls) \<Longrightarrow> run_calls fresh calls (map f xs) = Some (map f ys)"
proof (induction ps arbitrary: xs calls)
  case Nil
  then show ?case by simp
next
  case (Cons p ps)
  obtain zs rest where r: "record_ops ps n (apply_array_op p xs) = (zs, rest)" by fastforce
  with Cons.prems(3) have ys: "zs = ys" "calls = on_data_op p (length (apply_array_op p xs)) n @ rest"
    by (simp_all add: Let_def)
  have "run_calls fresh rest (map f (apply_array_op p xs)) = Some (map f ys)"
    using Cons.IH[OF _ _ r[unfolded ys(1)]] Cons.prems(1,2) by simp
  with replay_one[of p n xs f fresh] Cons.prems(1,2) show ?case
    by (simp add: ys(2) run_calls_append)
qed

text \<open>
  C2. Deferred synchronisation keeps every element with its datum: after any sequence of
  \<open>push\<close>, \<open>shift\<close>, \<open>unshift\<close>, \<open>splice\<close> and \<open>pop\<close> calls on the data, the replay at the next update
  succeeds and leaves, position by position, the old element of every old datum that is still there
  and a new element for every new datum; provided that each \<open>splice\<close> names a count and, when it
  inserts, a start within the data, and that each \<open>pop\<close> finds as many data as there are elements.
  Without these two conditions the replay is wrong (the two lemmas below).
\<close>

theorem resync_keeps_elements:
  assumes "ct_parsing ct" "ct_syncList ct = calls" "ct_elements ct = map Some old"
    and "record_ops ops (length old) old = (data, calls)" "all_replayable ops (length old) old"
    and "\<forall>p \<in> set ops. \<forall>d \<in> set (op_items p). d \<notin> set old"
  shows "\<exists>ct'. resyncElements None (length data) ct = Some ct' \<and> ct_syncList ct' = [] \<and>
    ct_elements ct' = map (\<lambda>d. if d \<in> set old then Some d else None) data"
proof -
  let ?f = "\<lambda>d. if d \<in> set old then Some d else None"
  have "map Some old = map ?f old" by simp
  moreover have "run_calls None calls (map ?f old) = Some (map ?f data)"
    by (rule replay_all[OF assms(5) _ assms(4)]) (use assms(6) in auto)
  ultimately have "run_calls None (ct_syncList ct) (ct_elements ct) = Some (map ?f data)"
    using assms(2,3) by metis
  then show ?thesis by (simp add: resyncElements_def)
qed

theorem resync_keeps_elements_witness:
  "\<exists>ct'. resyncElements None 4 \<lparr>ct_parsing = True, ct_elements = map Some [1, 2, 3 :: nat],
        ct_syncList = [InsertElements 3 2, RemoveElements 0 1]\<rparr> = Some ct' \<and> ct_syncList ct' = [] \<and>
     ct_elements ct' = [Some 2, Some 3, None, None]"
  using resync_keeps_elements[of "\<lparr>ct_parsing = True, ct_elements = map Some [1, 2, 3 :: nat],
        ct_syncList = [InsertElements 3 2, RemoveElements 0 1]\<rparr>" _ "[1, 2, 3]" "[Push [4, 5], Shift]" "[2, 3, 4, 5]"]
  by (simp add: eval_nat_numeral)

text \<open>A \<open>pop\<close> after a deferred \<open>push\<close> removes the wrong element: the old last element is
  lost and the new one stays in its place.\<close>

lemma push_pop_loses_element:
  "record_ops [Push [9], Pop] 2 [1, 2 :: nat] = ([1, 2], [InsertElements 2 1, RemoveElements 1 1])"
  "run_calls None [InsertElements 2 1, RemoveElements 1 1] [Some 1, Some (2 :: nat)] = Some [Some 1, None]"
  by (simp_all add: insertElements_def removeElements_def js_splice_def splice_start_def splice_def Let_def)

text \<open>A \<open>splice\<close> with its start alone records an insertion of \<open>-1\<close> elements, and the replay
  throws.\<close>

lemma splice_without_count_throws:
  "record_ops [Splice 0 None []] 2 [1, 2 :: nat] = ([], [InsertElements 0 (-1)])"
  "run_calls None [InsertElements 0 (-1)] [Some 1, Some (2 :: nat)] = None"
  by (simp_all add: insertElements_def js_splice_def splice_start_def splice_def Let_def)

end
