(* ===== verification/ChartTicks.thy ===== *)
theory ChartTicks
  imports ChartMath "HOL-Library.Sublist"
begin

section \<open>Chart.js 3.9.1: skipping ticks\<close>

text \<open>
  The automatic thinning of the ticks of a scale in \<open>www/root/js/chart_3.9.js\<close>:
  \<open>autoSkip\<close> with \<open>calculateSpacing\<close>, \<open>skipMajors\<close>, \<open>skip\<close> and \<open>getEvenSpacing\<close>,
  the sampling of labels, and the pixel of a grid line.  A spacing is a positive number or infinite
  (\<open>None\<close>, from a division by zero).
\<close>

record tick =
  tk_value :: rat
  tk_major :: bool

type_synonym spacing = "rat option"

definition spacing_div :: "rat \<Rightarrow> rat \<Rightarrow> spacing" where
  "spacing_div a b = (if b = 0 then None else Some (a / b))"

definition spacing_ceil :: "spacing \<Rightarrow> spacing" where
  "spacing_ceil s = map_option (\<lambda>r. of_int \<lceil>r\<rceil>) s"

definition spacing_max1 :: "spacing \<Rightarrow> spacing" where
  "spacing_max1 s = map_option (\<lambda>r. max r 1) s"

definition calculateDelta :: "rat \<Rightarrow> tick list \<Rightarrow> rat" where
  "calculateDelta tickValue ticks =
     (let delta = (if length ticks > 3 then tk_value (ticks ! 2) - tk_value (ticks ! 1)
                   else tk_value (ticks ! 1) - tk_value (ticks ! 0))
      in if \<bar>delta\<bar> \<ge> 1 \<and> tickValue \<noteq> of_int \<lfloor>tickValue\<rfloor> then tickValue - of_int \<lfloor>tickValue\<rfloor> else delta)"

definition determineMaxTicks :: "bool \<Rightarrow> rat \<Rightarrow> rat \<Rightarrow> rat \<Rightarrow> int" where
  "determineMaxTicks offset tickLength scaleLength maxLength =
     \<lfloor>min (scaleLength / tickLength + (if offset then 0 else 1)) (maxLength / tickLength)\<rfloor>"

definition getMajorIndices :: "tick list \<Rightarrow> nat list" where
  "getMajorIndices ticks = filter (\<lambda>i. tk_major (ticks ! i)) [0..<length ticks]"

text \<open>\<open>getEvenSpacing\<close>: \<open>None\<close> is \<open>false\<close>.\<close>

fun even_loop :: "nat \<Rightarrow> nat list \<Rightarrow> bool" where
  "even_loop diff (a # b # rest) = (if int b - int a \<noteq> int diff then False else even_loop diff (b # rest))"
| "even_loop diff _ = True"

definition getEvenSpacing :: "nat list \<Rightarrow> nat option" where
  "getEvenSpacing arr = (if length arr < 2 then None else if even_loop (hd arr) arr then Some (hd arr) else None)"

definition calculateSpacing :: "nat list \<Rightarrow> nat \<Rightarrow> rat \<Rightarrow> spacing" where
  "calculateSpacing majorIndices tickCount ticksLimit =
     (let spacing = spacing_div (of_nat tickCount) ticksLimit in
      case getEvenSpacing majorIndices of
        None \<Rightarrow> spacing_max1 spacing
      | Some 0 \<Rightarrow> spacing_max1 spacing
      | Some gap \<Rightarrow>
          (case find (\<lambda>f. case spacing of Some s \<Rightarrow> of_nat f > s | None \<Rightarrow> False) (butlast (factorize gap)) of
             Some f \<Rightarrow> Some (of_nat f)
           | None \<Rightarrow> spacing_max1 spacing))"

text \<open>The loop of \<open>skipMajors\<close>: \<open>next\<close> is undefined past the last major.\<close>

fun skipMajors_loop ::
  "nat list \<Rightarrow> nat \<Rightarrow> nat \<times> nat option \<times> 'a list \<Rightarrow> (nat \<times> 'a) list \<Rightarrow> nat \<times> nat option \<times> 'a list" where
  "skipMajors_loop majors spacing st [] = st"
| "skipMajors_loop majors spacing (count, nxt, acc) ((i, t) # rest) =
     (if Some i = nxt
      then skipMajors_loop majors spacing
             (count + 1,
              (if (count + 1) * spacing < length majors then Some (majors ! ((count + 1) * spacing)) else None),
              acc @ [t]) rest
      else skipMajors_loop majors spacing (count, nxt, acc) rest)"

definition skipMajors :: "'a list \<Rightarrow> nat list \<Rightarrow> spacing \<Rightarrow> 'a list" where
  "skipMajors ticks majors spacing =
     (let s = (case spacing_ceil spacing of Some r \<Rightarrow> nat \<lfloor>r\<rfloor> | None \<Rightarrow> length majors)
      in snd (snd (skipMajors_loop majors s (0, (if majors = [] then None else Some (majors ! 0)), [])
                     (enumerate 0 ticks))))"

text \<open>\<open>Math.round(start + count * spacing)\<close>; infinite spacings give no index.\<close>

definition next_index :: "int \<Rightarrow> nat \<Rightarrow> spacing \<Rightarrow> int option" where
  "next_index start count spacing =
     (case spacing of Some s \<Rightarrow> Some (round (of_int start + of_nat count * s)) | None \<Rightarrow> None)"

partial_function (option) skip_advance :: "int \<Rightarrow> spacing \<Rightarrow> nat \<Rightarrow> int option \<Rightarrow> (nat \<times> int option) option" where
  "skip_advance start spacing count nxt =
     (case nxt of
        None \<Rightarrow> Some (count, nxt)
      | Some n \<Rightarrow> if n < 0 then skip_advance start spacing (count + 1) (next_index start (count + 1) spacing)
                  else Some (count, nxt))"

fun skip_loop ::
  "int \<Rightarrow> spacing \<Rightarrow> nat \<Rightarrow> int option \<Rightarrow> 'a list \<Rightarrow> (nat \<times> 'a) list \<Rightarrow> 'a list" where
  "skip_loop start spacing count nxt acc [] = acc"
| "skip_loop start spacing count nxt acc ((i, t) # rest) =
     (if Some (int i) = nxt
      then skip_loop start spacing (count + 1) (next_index start (count + 1) spacing) (acc @ [t]) rest
      else skip_loop start spacing count nxt acc rest)"

definition skip :: "'a list \<Rightarrow> 'a list \<Rightarrow> spacing \<Rightarrow> (int \<times> int) option \<Rightarrow> 'a list option" where
  "skip ticks newTicks spacing major =
     (let n = int (length ticks);
          (start, stop) = (case major of Some (s, e) \<Rightarrow> (s, min e n) | None \<Rightarrow> (0, n));
          spacing = spacing_ceil spacing;
          spacing = (case major of
              Some (s, e) \<Rightarrow>
                if e \<noteq> 0
                then (case spacing of
                        Some r \<Rightarrow> spacing_div (of_int (e - s)) (of_int \<lfloor>of_int (e - s) / r\<rfloor>)
                      | None \<Rightarrow> None)
                else spacing
            | None \<Rightarrow> spacing)
      in map_option (\<lambda>(count, nxt).
           skip_loop start spacing count nxt newTicks
             (slice (enumerate 0 ticks) (nat (max start 0)) (nat (max stop 0))))
         (skip_advance start spacing 0 (Some start)))"

fun skip_between :: "tick list \<Rightarrow> spacing \<Rightarrow> nat list \<Rightarrow> tick list \<Rightarrow> tick list option" where
  "skip_between ticks spacing (a # b # rest) newTicks =
     Option.bind (skip ticks newTicks spacing (Some (int a, int b)))
       (skip_between ticks spacing (b # rest))"
| "skip_between ticks spacing _ newTicks = Some newTicks"

definition autoSkip :: "tick list \<Rightarrow> bool \<Rightarrow> rat \<Rightarrow> tick list option" where
  "autoSkip ticks majorEnabled ticksLimit =
     (let majors = (if majorEnabled then getMajorIndices ticks else []);
          m = length majors
      in if of_nat m > ticksLimit then Some (skipMajors ticks majors (spacing_div (of_nat m) ticksLimit))
         else
           (let spacing = calculateSpacing majors (length ticks) ticksLimit in
            if m > 0 then
              (let first = int (hd majors); lst = int (last majors);
                   avg = (if m > 1 then Some (round ((of_int (lst - first) :: rat) / of_nat (m - 1))) else None)
               in Option.bind (skip ticks [] spacing
                     (Some (case avg of None \<Rightarrow> 0 | Some a \<Rightarrow> first - a, first)))
                    (\<lambda>t. Option.bind (skip_between ticks spacing majors t)
                      (\<lambda>t. skip ticks t spacing
                         (Some (lst, (case avg of None \<Rightarrow> int (length ticks) | Some a \<Rightarrow> lst + a))))))
            else skip ticks [] spacing None))"

subsection \<open>Sampling and grid lines\<close>

text \<open>\<open>for (i = 0; i < len; i += increment)\<close> with a positive increment.\<close>

function sample_loop :: "'a list \<Rightarrow> rat \<Rightarrow> rat \<Rightarrow> 'a list" where
  "sample_loop arr increment i =
     (if i < of_nat (length arr) \<and> 0 < increment
      then arr ! nat \<lfloor>i\<rfloor> # sample_loop arr increment (i + increment) else [])"
  by pat_completeness auto
termination
proof (relation "measure (\<lambda>(arr, increment, i). nat \<lceil>(of_nat (length arr) - i) / increment\<rceil>)", goal_cases)
  case 1
  then show ?case by simp
next
  case (2 arr increment i)
  define q where "q = (of_nat (length arr) - i) / increment"
  have "0 < q" using 2 by (simp add: q_def)
  moreover have "(of_nat (length arr) - (i + increment)) / increment = q - 1"
    using 2 by (simp add: q_def field_simps)
  ultimately show ?case by (simp add: q_def[symmetric])
qed

declare sample_loop.simps [simp del]

definition sample :: "'a list \<Rightarrow> nat \<Rightarrow> 'a list" where
  "sample arr numItems = sample_loop arr (of_nat (length arr) / of_nat numItems) 0"

record grid_scale =
  gs_start :: rat
  gs_end :: rat
  gs_pixels :: "rat list"

definition getPixelForGridLine :: "grid_scale \<Rightarrow> nat \<Rightarrow> bool \<Rightarrow> rat option" where
  "getPixelForGridLine scale index offsetGridLines =
     (let len = length (gs_pixels scale);
          validIndex = min index (len - 1);
          start = gs_start scale; stop = gs_end scale;
          lineValue = gs_pixels scale ! validIndex
      in if offsetGridLines then
           (let offset = (if len = 1 then max (lineValue - start) (stop - lineValue)
                          else if index = 0 then (gs_pixels scale ! 1 - lineValue) / 2
                          else (lineValue - gs_pixels scale ! (validIndex - 1)) / 2);
                lineValue = lineValue + (if validIndex < index then offset else - offset)
            in if lineValue < start - 1 / 1000000 \<or> lineValue > stop + 1 / 1000000 then None else Some lineValue)
         else Some lineValue)"

subsection \<open>How many ticks are kept\<close>

lemma round_of_nat_mult: "round (of_int a + of_nat c * of_nat s :: rat) = a + int c * int s"
proof -
  have "of_int a + of_nat c * of_nat s = (of_int (a + int c * int s) :: rat)" by simp
  then show ?thesis by (simp only: round_of_int)
qed

text \<open>With a whole spacing and no majors, the loop keeps every \<open>s\<close>-th tick.\<close>

lemma skip_loop_multiples:
  assumes "0 < s" "k \<le> c * s" "c * s < k + s"
  shows "skip_loop 0 (Some (of_nat s)) c (Some (int c * int s)) acc (enumerate k xs) =
    acc @ map (\<lambda>j. xs ! (j - k)) (filter (\<lambda>j. s dvd j) [k ..< k + length xs])"
  using assms(2,3)
proof (induction xs arbitrary: k c acc)
  case Nil
  then show ?case by simp
next
  case (Cons x xs)
  have up: "[k ..< k + length (x # xs)] = k # [Suc k ..< Suc k + length xs]"
    by (simp add: upt_rec)
  have shift: "map (\<lambda>j. (x # xs) ! (j - k)) (filter (\<lambda>j. s dvd j) [Suc k ..< Suc k + length xs]) =
      map (\<lambda>j. xs ! (j - Suc k)) (filter (\<lambda>j. s dvd j) [Suc k ..< Suc k + length xs])"
  proof (rule map_cong[OF refl])
    fix j assume "j \<in> set (filter (\<lambda>j. s dvd j) [Suc k ..< Suc k + length xs])"
    then have "j - k = Suc (j - Suc k)" by auto
    then show "(x # xs) ! (j - k) = xs ! (j - Suc k)" by simp
  qed
  show ?case
  proof (cases "k = c * s")
    case True
    have ni: "next_index 0 (c + 1) (Some (of_nat s)) = Some (int (c + 1) * int s)"
      using round_of_nat_mult[of 0 "c + 1" s] by (simp add: next_index_def)
    have hd: "Some (int k) = Some (int c * int s)" using True by simp
    have dv: "s dvd k" using True by simp
    have "skip_loop 0 (Some (of_nat s)) c (Some (int c * int s)) acc (enumerate k (x # xs)) =
        skip_loop 0 (Some (of_nat s)) (c + 1) (Some (int (c + 1) * int s)) (acc @ [x]) (enumerate (Suc k) xs)"
      using hd ni by simp
    also have "\<dots> = (acc @ [x]) @ map (\<lambda>j. xs ! (j - Suc k)) (filter (\<lambda>j. s dvd j) [Suc k ..< Suc k + length xs])"
      by (rule Cons.IH) (use True assms(1) in simp_all)
    finally show ?thesis unfolding up using dv shift by simp
  next
    case False
    then have lt: "k < c * s" using Cons.prems by simp
    have "\<not> s dvd k"
    proof
      assume "s dvd k"
      then obtain m where m: "k = s * m" by auto
      then have "m < c" using lt by (simp add: mult.commute)
      then have "s * (m + 1) \<le> s * c" by (intro mult_le_mono2) simp
      with m Cons.prems(2) show False by (simp add: mult.commute)
    qed
    moreover have "Some (int k) \<noteq> Some (int c * int s)" using False by (metis of_nat_eq_iff of_nat_mult option.inject)
    moreover have "skip_loop 0 (Some (of_nat s)) c (Some (int c * int s)) acc (enumerate (Suc k) xs) =
        acc @ map (\<lambda>j. xs ! (j - Suc k)) (filter (\<lambda>j. s dvd j) [Suc k ..< Suc k + length xs])"
      by (rule Cons.IH) (use lt Cons.prems in simp_all)
    ultimately show ?thesis unfolding up using shift by simp
  qed
qed

lemma multiples_bound:
  assumes "0 < s" "n \<le> L * s"
  shows "length (filter (\<lambda>j. s dvd j) [0 ..< n]) \<le> L"
proof -
  have "length (filter (\<lambda>j. s dvd j) [0 ..< n]) = card {j. j < n \<and> s dvd j}"
    by (subst distinct_card[symmetric]) (auto intro!: arg_cong[where f = card])
  also have "\<dots> \<le> card {..<L}"
  proof (rule card_inj_on_le[where f = "\<lambda>j. j div s"])
    show "inj_on (\<lambda>j. j div s) {j. j < n \<and> s dvd j}"
      by (rule inj_onI) (metis (mono_tags, lifting) dvd_div_mult_self mem_Collect_eq)
    show "(\<lambda>j. j div s) ` {j. j < n \<and> s dvd j} \<subseteq> {..<L}"
    proof clarsimp
      fix j assume "j < n"
      then have "j < L * s" using assms(2) by simp
      then show "j div s < L" by (simp add: less_mult_imp_div_less)
    qed
  qed simp
  finally show ?thesis by simp
qed

text \<open>Without majors, every \<open>s\<close>-th tick.\<close>

definition every_nth :: "nat \<Rightarrow> 'a list \<Rightarrow> 'a list" where
  "every_nth s xs = map (\<lambda>j. xs ! j) (filter (\<lambda>j. s dvd j) [0 ..< length xs])"

text \<open>The whole spacing that a limit asks for.\<close>

definition whole_spacing :: "nat \<Rightarrow> nat \<Rightarrow> nat" where
  "whole_spacing n L = nat \<lceil>max (of_nat n / of_nat L) (1 :: rat)\<rceil>"

lemma whole_spacing_fits:
  assumes "0 < L"
  shows "1 \<le> whole_spacing n L" "n \<le> L * whole_spacing n L"
    "int (whole_spacing n L) = \<lceil>max (of_nat n / of_nat L) (1 :: rat)\<rceil>"
proof -
  define r where "r = max (of_nat n / of_nat L) (1 :: rat)"
  have r1: "1 \<le> r" by (simp add: r_def)
  then have c1: "1 \<le> \<lceil>r\<rceil>" by linarith
  then have s: "int (whole_spacing n L) = \<lceil>r\<rceil>" unfolding whole_spacing_def r_def[symmetric] by simp
  show "int (whole_spacing n L) = \<lceil>max (of_nat n / of_nat L) (1 :: rat)\<rceil>" using s by (simp add: r_def)
  show "1 \<le> whole_spacing n L" using s c1 by linarith
  have "r \<le> of_nat (whole_spacing n L)" using s le_of_int_ceiling[of r] by (metis of_int_of_nat_eq)
  then have "of_nat n / of_nat L \<le> (of_nat (whole_spacing n L) :: rat)" by (simp add: r_def)
  then have "of_nat n \<le> (of_nat L * of_nat (whole_spacing n L) :: rat)"
    using assms by (simp add: divide_le_eq mult.commute)
  then show "n \<le> L * whole_spacing n L" by (metis of_nat_le_iff of_nat_mult)
qed

lemma every_nth_bound: "0 < L \<Longrightarrow> length (every_nth (whole_spacing (length xs) L) xs) \<le> L"
  using whole_spacing_fits[of L "length xs"] multiples_bound[of "whole_spacing (length xs) L" "length xs" L]
  by (simp add: every_nth_def)

lemma skip_no_majors:
  assumes "0 < L"
  shows "skip ticks [] (calculateSpacing [] (length ticks) (of_nat L)) None = Some (every_nth (whole_spacing (length ticks) L) ticks)"
proof -
  define r where "r = max (of_nat (length ticks) / of_nat L) (1 :: rat)"
  define s where "s = whole_spacing (length ticks) L"
  have spacing: "calculateSpacing [] (length ticks) (of_nat L) = Some r"
    using assms by (simp add: calculateSpacing_def getEvenSpacing_def spacing_div_def spacing_max1_def r_def)
  have "int s = \<lceil>r\<rceil>" using whole_spacing_fits(3)[OF assms, of "length ticks"] unfolding s_def r_def .
  then have ceil: "spacing_ceil (Some r) = Some (of_nat s)" unfolding spacing_ceil_def by (metis of_int_of_nat_eq option.map(2))
  have adv: "skip_advance 0 (Some (of_nat s)) 0 (Some 0) = Some (0, Some 0)"
    by (subst skip_advance.simps) simp
  have "0 < s" using whole_spacing_fits(1)[OF assms, of "length ticks"] by (simp add: s_def)
  then show ?thesis
    using skip_loop_multiples[of s 0 0 "[]" ticks]
    unfolding spacing s_def[symmetric] by (simp add: skip_def ceil adv slice_def every_nth_def Let_def)
qed

subsection \<open>More majors than the limit\<close>

definition majors_from :: "nat list \<Rightarrow> nat \<Rightarrow> nat \<Rightarrow> nat set" where
  "majors_from majors s c = {majors ! (q * s) | q. c \<le> q \<and> q * s < length majors}"

lemma majors_from_Suc:
  "majors_from majors s c = (if c * s < length majors then insert (majors ! (c * s)) (majors_from majors s (Suc c)) else majors_from majors s (Suc c))"
  by (auto simp: majors_from_def le_Suc_eq Suc_le_eq) (metis le_neq_implies_less)+

lemma majors_from_none: "\<not> c * s < length majors \<Longrightarrow> majors_from majors s c = {}"
  by (auto simp: majors_from_def) (meson leD le_trans mult_le_mono1 not_less)

lemma skipMajors_loop_picks:
  assumes "sorted_wrt (<) majors" "0 < s"
    and "\<forall>m \<in> majors_from majors s c. k \<le> m"
  shows "snd (snd (skipMajors_loop majors s (c, (if c * s < length majors then Some (majors ! (c * s)) else None), acc) (enumerate k xs))) =
    acc @ map (\<lambda>j. xs ! (j - k)) (filter (\<lambda>j. j \<in> majors_from majors s c) [k ..< k + length xs])"
  using assms(3)
proof (induction xs arbitrary: k c acc)
  case Nil
  then show ?case by simp
next
  case (Cons x xs)
  define R where "R = [Suc k ..< Suc k + length xs]"
  have up: "[k ..< k + length (x # xs)] = k # R" unfolding R_def by (simp add: upt_rec)
  have shift: "map (\<lambda>j. (x # xs) ! (j - k)) (filter P R) = map (\<lambda>j. xs ! (j - Suc k)) (filter P R)" for P
    by (rule map_cong[OF refl]) (auto simp: R_def nth_Cons')
  note IH = Cons.IH[of _ "Suc k", folded R_def]
  show ?case
  proof (cases "c * s < length majors \<and> majors ! (c * s) = k")
    case True
    have later: "k < m" if m: "m \<in> majors_from majors s (Suc c)" for m
    proof -
      obtain q where q: "m = majors ! (q * s)" "Suc c \<le> q" "q * s < length majors" using m by (auto simp: majors_from_def)
      have "c * s < q * s" using q(2) assms(2) by simp
      from sorted_wrt_nth_less[OF assms(1) this q(3)] show ?thesis using q(1) True by simp
    qed
    have set_c: "j \<in> majors_from majors s c \<longleftrightarrow> j = k \<or> j \<in> majors_from majors s (Suc c)" for j
      using majors_from_Suc[of majors s c] True by simp
    have "filter (\<lambda>j. j \<in> majors_from majors s c) R = filter (\<lambda>j. j \<in> majors_from majors s (Suc c)) R"
      by (rule filter_cong[OF refl]) (auto simp: set_c R_def)
    moreover have "k \<in> majors_from majors s c" using set_c by simp
    moreover have "\<forall>m \<in> majors_from majors s (Suc c). Suc k \<le> m" using later by (simp add: Suc_le_eq)
    ultimately show ?thesis
      using IH[of "Suc c" "acc @ [x]"] True unfolding up by (auto simp: shift)
  next
    case False
    have "k \<notin> majors_from majors s c"
    proof
      assume "k \<in> majors_from majors s c"
      then obtain q where q: "k = majors ! (q * s)" "c \<le> q" "q * s < length majors" by (auto simp: majors_from_def)
      have cl: "c * s < length majors" using q by (meson le_less_trans mult_le_mono1)
      then have "c \<noteq> q" using False q(1) by auto
      then have "c * s < q * s" using q(2) assms(2) by simp
      from sorted_wrt_nth_less[OF assms(1) this q(3)] have "majors ! (c * s) < k" using q(1) by simp
      moreover have "majors ! (c * s) \<in> majors_from majors s c" using cl by (auto simp: majors_from_def)
      ultimately show False using Cons.prems by fastforce
    qed
    moreover from this have "\<forall>m \<in> majors_from majors s c. Suc k \<le> m" using Cons.prems by (metis Suc_leI le_neq_implies_less)
    moreover have "Some k \<noteq> (if c * s < length majors then Some (majors ! (c * s)) else None)" using False by auto
    ultimately show ?thesis
      using IH[of c acc] unfolding up by (simp add: shift)
  qed
qed

lemma getMajorIndices_sorted: "sorted_wrt (<) (getMajorIndices ticks)"
  unfolding getMajorIndices_def by (intro sorted_wrt_filter) simp

lemma getMajorIndices_bound: "m \<in> set (getMajorIndices ticks) \<longleftrightarrow> m < length ticks \<and> tk_major (ticks ! m)"
  by (auto simp: getMajorIndices_def)

lemma skipMajors_picks:
  assumes "sorted_wrt (<) majors" "majors \<noteq> []" "\<forall>m \<in> set majors. m < length ticks"
    and L: "0 < L" "L < length majors"
  defines "s \<equiv> whole_spacing (length majors) L"
  shows "skipMajors ticks majors (spacing_div (of_nat (length majors)) (of_nat L)) = map (\<lambda>m. ticks ! m) (every_nth s majors)"
proof -
  define r :: rat where "r = of_nat (length majors) / of_nat L"
  have s1: "0 < s" using whole_spacing_fits(1)[OF L(1), of "length majors"] by (simp add: s_def)
  have "1 \<le> (of_nat (length majors) / of_nat L :: rat)" using L by (simp add: le_divide_eq)
  then have "s = nat \<lceil>r\<rceil>" unfolding s_def whole_spacing_def r_def by (simp only: max_absorb1)
  then have sp: "nat \<lfloor>of_int \<lceil>r\<rceil> :: rat\<rfloor> = s" by simp
  have d: "spacing_div (of_nat (length majors)) (of_nat L) = Some r" using L(1) by (simp add: spacing_div_def r_def)
  have "skipMajors ticks majors (Some r) = map (\<lambda>j. ticks ! j) (filter (\<lambda>j. j \<in> majors_from majors s 0) [0 ..< length ticks])"
    using skipMajors_loop_picks[OF assms(1) s1, of 0 0 "[]" ticks] assms(2)
    by (simp add: skipMajors_def spacing_ceil_def sp[simplified])
  also have "filter (\<lambda>j. j \<in> majors_from majors s 0) [0 ..< length ticks] = every_nth s majors"
  proof (rule strict_sorted_equal)
    show "sorted_wrt (<) (filter (\<lambda>j. j \<in> majors_from majors s 0) [0 ..< length ticks])" by (intro sorted_wrt_filter) simp
    show "sorted_wrt (<) (every_nth s majors)"
      unfolding every_nth_def sorted_wrt_map
      by (rule sorted_wrt_mono_rel[where P = "(<)"]) (auto intro: sorted_wrt_nth_less[OF assms(1)] sorted_wrt_filter)
    show "set (filter (\<lambda>j. j \<in> majors_from majors s 0) [0 ..< length ticks]) = set (every_nth s majors)"
      using assms(3) by (auto simp: every_nth_def majors_from_def mult.commute elim!: dvdE)
  qed
  finally show ?thesis by (simp add: d)
qed

subsection \<open>Between the majors\<close>

lemma skip_loop_adds:
  "\<exists>ys. skip_loop start spacing c nxt acc rest = acc @ ys \<and> subseq ys (map snd rest)"
proof (induction start spacing c nxt acc rest rule: skip_loop.induct)
  case (2 start spacing c nxt acc i t rest)
  show ?case
  proof (cases "Some (int i) = nxt")
    case True
    with 2(1) obtain ys where "skip_loop start spacing (c + 1) (next_index start (c + 1) spacing) (acc @ [t]) rest = (acc @ [t]) @ ys"
      "subseq ys (map snd rest)" by blast
    then show ?thesis using True by (intro exI[of _ "t # ys"]) simp
  next
    case False
    with 2(2) show ?thesis by auto
  qed
qed simp

lemma slice_enumerate: "map snd (slice (enumerate 0 xs) a b) = slice xs a b"
  by (simp add: slice_def flip: take_map drop_map)

text \<open>The search for the first index from a negative start ends: the spacing is positive.\<close>

lemma skip_advance_ends:
  assumes "\<forall>r. spacing = Some r \<longrightarrow> 0 < r"
  shows "\<exists>c' n'. skip_advance start spacing c nxt = Some (c', n')"
proof (cases nxt)
  case None
  then show ?thesis by (subst skip_advance.simps) simp
next
  case n: (Some n)
  show ?thesis
  proof (cases spacing)
    case None
    then have "skip_advance start None (c + 1) None = Some (c + 1, None)" by (subst skip_advance.simps) simp
    then show ?thesis using n None by (subst skip_advance.simps) (simp add: next_index_def)
  next
    case (Some r)
    then have r: "0 < r" using assms by simp
    obtain C where C: "- of_int start / r < of_nat C" using reals_Archimedean2[of "- of_int start / r"] by blast
    have late: "0 \<le> (of_int start + of_nat k * r)" if "C \<le> k" for k
    proof -
      have "- of_int start / r < of_nat k" using C that by (meson less_le_trans of_nat_mono)
      from mult_strict_right_mono[OF this r] have "- of_int start < of_nat k * r" using r by simp
      then show ?thesis by linarith
    qed
    have "\<exists>c' n'. skip_advance start spacing k (Some m) = Some (c', n')" if "C - k = d" for k m d
      using that
    proof (induction d arbitrary: k m)
      case 0
      show ?case
      proof (cases "m < 0")
        case True
        have "0 \<le> round (of_int start + of_nat (k + 1) * r)"
          using late[of "k + 1"] 0 by (simp add: round_def)
        then have "skip_advance start spacing (k + 1) (next_index start (k + 1) spacing) =
            Some (k + 1, next_index start (k + 1) spacing)"
          unfolding Some by (subst skip_advance.simps) (simp add: next_index_def)
        then show ?thesis using True by (subst skip_advance.simps) simp
      qed (subst skip_advance.simps, simp)
    next
      case (Suc d)
      then show ?case using Some by (subst skip_advance.simps) (simp add: next_index_def)
    qed
    then show ?thesis using n by blast
  qed
qed

lemma skip_adds:
  assumes "spacing = Some r" "1 \<le> r" and "s \<le> e"
  shows "\<exists>ys. skip ticks acc spacing (Some (s, e)) = Some (acc @ ys) \<and>
    subseq ys (slice ticks (nat (max s 0)) (nat (max (min e (int (length ticks))) 0)))"
proof -
  define sp where "sp = (if e \<noteq> 0 then spacing_div (of_int (e - s)) (of_int \<lfloor>of_int (e - s) / of_int \<lceil>r\<rceil> :: rat\<rfloor>) else Some (of_int \<lceil>r\<rceil> :: rat))"
  have c: "1 \<le> \<lceil>r\<rceil>" using assms(2) by linarith
  have "0 < q" if "sp = Some q" for q
  proof (cases "e = 0")
    case True
    then have "q = of_int \<lceil>r\<rceil>" using that by (simp add: sp_def)
    then show ?thesis using c by simp
  next
    case False
    define f where "f = \<lfloor>of_int (e - s) / of_int \<lceil>r\<rceil> :: rat\<rfloor>"
    have "0 \<le> (of_int (e - s) / of_int \<lceil>r\<rceil> :: rat)" using assms(3) c by simp
    then have "0 \<le> f" by (simp add: f_def)
    moreover have "f \<noteq> 0" "q = of_int (e - s) / of_int f" using that False by (auto simp: sp_def spacing_div_def f_def split: if_splits)
    moreover have "e \<noteq> s" using \<open>f \<noteq> 0\<close> by (auto simp: f_def)
    ultimately show ?thesis using assms(3) by simp
  qed
  then obtain c' n' where a: "skip_advance s sp 0 (Some s) = Some (c', n')" using skip_advance_ends by blast
  have k: "skip ticks acc spacing (Some (s, e)) = Some (skip_loop s sp c' n' acc
      (slice (enumerate 0 ticks) (nat (max s 0)) (nat (max (min e (int (length ticks))) 0))))"
    using a by (simp add: skip_def assms(1) spacing_ceil_def sp_def Let_def split: if_splits)
  show ?thesis unfolding k using skip_loop_adds[of s sp c' n' acc] slice_enumerate by (metis option.inject)
qed

text \<open>From a major on, the major itself is kept.\<close>

lemma skip_keeps_start:
  assumes "spacing = Some r" "1 \<le> r" "m < length ticks" "int m < e"
  shows "\<exists>ys. skip ticks acc spacing (Some (int m, e)) = Some (acc @ ticks ! m # ys)"
proof -
  define b where "b = nat (min e (int (length ticks)))"
  have b: "m < b" "b \<le> length ticks" using assms(3,4) by (auto simp: b_def)
  have sl: "\<exists>rest. slice (enumerate 0 ticks) m b = (m, ticks ! m) # rest"
  proof -
    have "m < length (take b (enumerate 0 ticks))" using b by simp
    from Cons_nth_drop_Suc[OF this] have "(m, ticks ! m) # drop (Suc m) (take b (enumerate 0 ticks)) = drop m (take b (enumerate 0 ticks))"
      using assms(3) b by (simp add: nth_enumerate_eq)
    then show ?thesis unfolding slice_def by metis
  qed
  have adv: "skip_advance (int m) sp 0 (Some (int m)) = Some (0, Some (int m))" for sp by (subst skip_advance.simps) simp
  obtain rest where rest: "slice (enumerate 0 ticks) m b = (m, ticks ! m) # rest" using sl by blast
  define sp where "sp = (if e \<noteq> 0 then spacing_div (of_int (e - int m)) (of_int \<lfloor>of_int (e - int m) / of_int \<lceil>r\<rceil> :: rat\<rfloor>) else Some (of_int \<lceil>r\<rceil> :: rat))"
  have "nat (max (min e (int (length ticks))) 0) = b" using assms(4) by (simp add: b_def)
  then have "skip ticks acc spacing (Some (int m, e)) = Some (skip_loop (int m) sp 0 (Some (int m)) acc ((m, ticks ! m) # rest))"
    using adv[of sp] by (simp add: skip_def assms(1) spacing_ceil_def sp_def rest Let_def split: if_splits)
  then have "skip ticks acc spacing (Some (int m, e)) =
      Some (skip_loop (int m) sp 1 (next_index (int m) 1 sp) (acc @ [ticks ! m]) rest)" by auto
  then show ?thesis using skip_loop_adds[of "int m" sp 1 "next_index (int m) 1 sp" "acc @ [ticks ! m]" rest] by auto
qed

lemma slice_join: "a \<le> b \<Longrightarrow> b \<le> c \<Longrightarrow> slice xs a b @ slice xs b c = slice xs a c"
proof -
  assume ab: "a \<le> b" "b \<le> c"
  have t: "take b xs = take b (take c xs)" using ab by (simp add: min_def)
  have "drop a (take b (take c xs)) = take (b - a) (drop a (take c xs))" by (rule drop_take)
  moreover have "drop b (take c xs) = drop (b - a) (drop a (take c xs))" using ab by simp
  ultimately have "drop a (take b (take c xs)) @ drop b (take c xs) = drop a (take c xs)" by (simp only: append_take_drop_id)
  then show ?thesis unfolding slice_def t by simp
qed

lemma skip_part:
  assumes "spacing = Some r" "1 \<le> r" "m < length ticks" "int m < e"
  shows "\<exists>ys. skip ticks acc spacing (Some (int m, e)) = Some (acc @ ys) \<and> ticks ! m \<in> set ys \<and>
    subseq ys (slice ticks m (nat (min e (int (length ticks)))))"
proof -
  have "int m \<le> e" using assms(4) by simp
  moreover have "nat (max (int m) 0) = m" "nat (max (min e (int (length ticks))) 0) = nat (min e (int (length ticks)))" by auto
  ultimately obtain ys where ys: "skip ticks acc spacing (Some (int m, e)) = Some (acc @ ys)"
    "subseq ys (slice ticks m (nat (min e (int (length ticks)))))" using skip_adds[OF assms(1,2), of "int m" e ticks acc] by metis
  moreover from skip_keeps_start[OF assms, of acc] ys(1) have "ticks ! m \<in> set ys" by auto
  ultimately show ?thesis by blast
qed

lemma skip_between_part:
  assumes "spacing = Some r" "1 \<le> r"
  shows "sorted_wrt (<) ms \<Longrightarrow> ms \<noteq> [] \<Longrightarrow> \<forall>m \<in> set ms. m < length ticks \<Longrightarrow>
    \<exists>ys. skip_between ticks spacing ms t = Some (t @ ys) \<and> subseq ys (slice ticks (hd ms) (last ms)) \<and>
      (\<forall>m \<in> set (butlast ms). ticks ! m \<in> set ys)"
proof (induction ms arbitrary: t)
  case (Cons a ms)
  show ?case
  proof (cases ms)
    case Nil
    then show ?thesis by simp
  next
    case ms: (Cons b rest)
    have bl: "b \<le> last ms" using Cons.prems(1) ms by (cases "rest = []") (auto intro: less_imp_le)
    have ab: "a < b" "b < length ticks" "last ms < length ticks" using Cons.prems ms last_in_set[of ms] by auto
    obtain ys where ys: "skip ticks t spacing (Some (int a, int b)) = Some (t @ ys)" "ticks ! a \<in> set ys" "subseq ys (slice ticks a b)"
      using skip_part[OF assms, of a ticks "int b" t] ab by auto
    obtain zs where zs: "skip_between ticks spacing ms (t @ ys) = Some ((t @ ys) @ zs)" "subseq zs (slice ticks b (last ms))"
      "\<forall>m \<in> set (butlast ms). ticks ! m \<in> set zs"
      using Cons.IH[of "t @ ys"] Cons.prems ms by auto
    have "subseq (ys @ zs) (slice ticks a (last ms))"
      using list_emb_append_mono[OF ys(3) zs(2)] slice_join[of a b "last ms" ticks] ab(1) bl by simp
    then show ?thesis using ys zs ms by (intro exI[of _ "ys @ zs"]) auto
  qed
qed simp

lemma calculateSpacing_Some:
  assumes "0 < L"
  shows "\<exists>r. calculateSpacing majors n (of_nat L) = Some r \<and> 1 \<le> r"
proof -
  define q :: rat where "q = of_nat n / of_nat L"
  have q: "spacing_div (of_nat n) (of_nat L) = Some q" "0 \<le> q" using assms by (simp_all add: spacing_div_def q_def)
  have "1 \<le> (of_nat f :: rat)" if "find (\<lambda>f. of_nat f > q) fs = Some f" for f fs
    using that q(2) by (cases f) (auto simp: find_Some_iff)
  then show ?thesis
    unfolding calculateSpacing_def q(1) Let_def spacing_max1_def
    by (auto split: option.split nat.split)
qed

definition majors_of :: "bool \<Rightarrow> tick list \<Rightarrow> nat list" where
  "majors_of majorEnabled ticks = (if majorEnabled then getMajorIndices ticks else [])"

lemma mean_gap:
  assumes "sorted_wrt (<) majors" "1 < length majors"
  shows "1 \<le> round ((of_int (int (last majors) - int (hd majors)) :: rat) / of_nat (length majors - 1))"
proof -
  have "hd majors + k \<le> majors ! k" if "k < length majors" for k
    using that
  proof (induction k)
    case 0
    then show ?case by (cases majors) simp_all
  next
    case (Suc k)
    then show ?case using sorted_wrt_nth_less[OF assms(1), of k "Suc k"] by simp
  qed
  from this[of "length majors - 1"] have "hd majors + (length majors - 1) \<le> last majors"
    using assms(2) by (cases "majors = []") (simp_all add: last_conv_nth)
  then have "int (length majors - 1) \<le> int (last majors) - int (hd majors)" by linarith
  then have "of_nat (length majors - 1) \<le> (of_int (int (last majors) - int (hd majors)) :: rat)" by (metis of_int_le_iff of_int_of_nat_eq)
  then have "1 \<le> (of_int (int (last majors) - int (hd majors)) :: rat) / of_nat (length majors - 1)"
    using assms(2) by (simp add: le_divide_eq)
  from round_mono[OF this] show ?thesis by simp
qed

lemma autoSkip_keeps_majors:
  assumes "0 < L" "majors_of majorEnabled ticks \<noteq> []" "length (majors_of majorEnabled ticks) \<le> L"
  shows "\<exists>r. autoSkip ticks majorEnabled (of_nat L) = Some r \<and> subseq r ticks \<and> (\<forall>m \<in> set (majors_of majorEnabled ticks). ticks ! m \<in> set r)"
proof -
  define majors where "majors = majors_of majorEnabled ticks"
  have srt: "sorted_wrt (<) majors" and bnd: "\<forall>m \<in> set majors. m < length ticks" and ne: "majors \<noteq> []"
    using assms(2) getMajorIndices_sorted getMajorIndices_bound by (auto simp: majors_def majors_of_def)
  have hl: "hd majors \<le> last majors" "last majors < length ticks"
    using srt bnd ne last_in_set[OF ne] by (cases majors; auto intro: less_imp_le)+
  obtain q where q: "calculateSpacing majors (length ticks) (of_nat L) = Some q" "1 \<le> q" using calculateSpacing_Some[OF assms(1)] by blast
  define avg where "avg = (if length majors > 1 then Some (round ((of_int (int (last majors) - int (hd majors)) :: rat) / of_nat (length majors - 1))) else None)"
  have avg1: "1 \<le> a" if "avg = Some a" for a using that mean_gap[OF srt] unfolding avg_def by (metis option.distinct(1) option.inject)
  define s0 where "s0 = (case avg of None \<Rightarrow> 0 | Some a \<Rightarrow> int (hd majors) - a)"
  define e1 where "e1 = (case avg of None \<Rightarrow> int (length ticks) | Some a \<Rightarrow> int (last majors) + a)"
  have s0: "s0 \<le> int (hd majors)" and e1: "int (last majors) < e1"
    using avg1 hl(2) by (cases avg; fastforce simp: s0_def e1_def)+
  obtain xs where xs: "skip ticks [] (Some q) (Some (s0, int (hd majors))) = Some xs" "subseq xs (slice ticks (nat (max s0 0)) (hd majors))"
    using skip_adds[OF refl q(2) s0, of ticks "[]"] hl by auto
  obtain ys where ys: "skip_between ticks (Some q) majors xs = Some (xs @ ys)" "subseq ys (slice ticks (hd majors) (last majors))"
    "\<forall>m \<in> set (butlast majors). ticks ! m \<in> set ys"
    using skip_between_part[OF refl q(2) srt ne bnd] by blast
  obtain zs where zs: "skip ticks (xs @ ys) (Some q) (Some (int (last majors), e1)) = Some ((xs @ ys) @ zs)" "ticks ! last majors \<in> set zs"
    "subseq zs (slice ticks (last majors) (nat (min e1 (int (length ticks)))))"
    using skip_part[OF refl q(2) hl(2) e1] by blast
  have "subseq ((xs @ ys) @ zs) ((slice ticks (nat (max s0 0)) (hd majors) @ slice ticks (hd majors) (last majors)) @
      slice ticks (last majors) (nat (min e1 (int (length ticks)))))"
    by (intro list_emb_append_mono xs(2) ys(2) zs(3))
  also have "\<dots> = slice ticks (nat (max s0 0)) (nat (min e1 (int (length ticks))))"
    using s0 e1 hl by (subst slice_join, simp, simp, subst slice_join) auto
  also have "subseq \<dots> ticks" unfolding slice_def using sublist_imp_subseq sublist_drop sublist_take by (metis subseq_order.order_trans)
  finally have sub: "subseq ((xs @ ys) @ zs) ticks" .
  have kept: "\<forall>m \<in> set majors. ticks ! m \<in> set ((xs @ ys) @ zs)"
  proof
    fix m assume "m \<in> set majors"
    then have "m \<in> set (butlast majors) \<or> m = last majors" using append_butlast_last_id[OF ne] by (metis in_set_conv_decomp rotate1.simps(2) set_ConsD set_rotate1)
    then show "ticks ! m \<in> set ((xs @ ys) @ zs)" using ys(3) zs(2) by auto
  qed
  have "\<not> of_nat (length majors) > (of_nat L :: rat)" using assms(3) by (simp add: majors_def)
  then have "autoSkip ticks majorEnabled (of_nat L) = Some ((xs @ ys) @ zs)"
    using ne xs(1) ys(1) zs(1)
    unfolding autoSkip_def majors_of_def[symmetric] majors_def[symmetric] q(1) avg_def[symmetric] s0_def[symmetric] e1_def[symmetric] Let_def
    by simp
  then show ?thesis using sub kept unfolding majors_def by blast
qed

text \<open>
  C12. Automatic skipping.  Without major ticks it keeps every \<open>s\<close>-th tick, beginning with the
  first, for the whole spacing \<open>s\<close> of at least one that the limit asks for, never more than the
  limit.  With more major ticks than the limit it keeps every \<open>s\<close>-th major tick, never more than
  the limit.  With fewer it keeps ticks in their order, all major ones among them.
\<close>

theorem autoSkip_limit:
  assumes "0 < L"
  shows "\<exists>r. autoSkip ticks majorEnabled (of_nat L) = Some r \<and>
    (majors_of majorEnabled ticks = [] \<longrightarrow> r = every_nth (whole_spacing (length ticks) L) ticks \<and> length r \<le> L) \<and>
    (L < length (majors_of majorEnabled ticks) \<longrightarrow>
       r = map (\<lambda>m. ticks ! m) (every_nth (whole_spacing (length (majors_of majorEnabled ticks)) L) (majors_of majorEnabled ticks)) \<and> length r \<le> L) \<and>
    (majors_of majorEnabled ticks \<noteq> [] \<and> length (majors_of majorEnabled ticks) \<le> L \<longrightarrow>
       subseq r ticks \<and> (\<forall>m \<in> set (majors_of majorEnabled ticks). ticks ! m \<in> set r))"
proof -
  define majors where "majors = majors_of majorEnabled ticks"
  consider "majors = []" | "L < length majors" | "majors \<noteq> []" "length majors \<le> L" by linarith
  then show ?thesis
  proof cases
    case 1
    then have "autoSkip ticks majorEnabled (of_nat L) = Some (every_nth (whole_spacing (length ticks) L) ticks)"
      using skip_no_majors[OF assms, of ticks] unfolding majors_def majors_of_def by (simp add: autoSkip_def Let_def)
    then show ?thesis using 1 every_nth_bound[OF assms, of ticks] by (simp add: majors_def[symmetric])
  next
    case 2
    then have ne: "majors \<noteq> []" by auto
    have sb: "sorted_wrt (<) majors" "\<forall>m \<in> set majors. m < length ticks"
      using ne getMajorIndices_sorted getMajorIndices_bound by (auto simp: majors_def majors_of_def)
    have "autoSkip ticks majorEnabled (of_nat L) = Some (skipMajors ticks majors (spacing_div (of_nat (length majors)) (of_nat L)))"
      using 2 unfolding majors_def majors_of_def by (simp add: autoSkip_def Let_def)
    then show ?thesis
      using skipMajors_picks[OF sb(1) ne sb(2) assms 2] 2 ne every_nth_bound[OF assms, of majors] by (simp add: majors_def[symmetric])
  next
    case 3
    then show ?thesis using autoSkip_keeps_majors[OF assms 3[unfolded majors_def]] unfolding majors_def[symmetric] by auto
  qed
qed

theorem autoSkip_limit_witness:
  "\<exists>r. autoSkip (map (\<lambda>v. \<lparr>tk_value = of_nat v, tk_major = v = 2 \<or> v = 5\<rparr>) [0..<7]) True (of_nat 3) = Some r \<and>
     \<lparr>tk_value = 2, tk_major = True\<rparr> \<in> set r \<and> \<lparr>tk_value = 5, tk_major = True\<rparr> \<in> set r"
proof -
  let ?ts = "map (\<lambda>v. \<lparr>tk_value = of_nat v :: rat, tk_major = v = 2 \<or> v = 5\<rparr>) [0..<7]"
  have m: "majors_of True ?ts = [2, 5]" by code_simp
  from autoSkip_limit[of 3 ?ts True] obtain r where "autoSkip ?ts True (of_nat 3) = Some r" "\<forall>m \<in> set [2, 5]. ?ts ! m \<in> set r"
    unfolding m by auto
  then show ?thesis by (auto simp: nth_map)
qed

text \<open>What \<open>getEvenSpacing\<close> accepts: an even spacing, but only one that equals the first index.\<close>

lemma even_loop_iff:
  "even_loop d arr \<longleftrightarrow> (\<forall>i. Suc i < length arr \<longrightarrow> int (arr ! Suc i) - int (arr ! i) = int d)"
proof (induction d arr rule: even_loop.induct)
  case (1 d a b rest)
  have split: "(\<forall>i. Suc i < length (a # b # rest) \<longrightarrow> int ((a # b # rest) ! Suc i) - int ((a # b # rest) ! i) = int d) \<longleftrightarrow>
      int b - int a = int d \<and> (\<forall>i. Suc i < length (b # rest) \<longrightarrow> int ((b # rest) ! Suc i) - int ((b # rest) ! i) = int d)"
    (is "(\<forall>i. ?P i) \<longleftrightarrow> ?A \<and> (\<forall>i. ?Q i)")
  proof
    assume p: "\<forall>i. ?P i"
    show "?A \<and> (\<forall>i. ?Q i)" using p[rule_format, of 0] p[rule_format, of "Suc _"] by simp
  next
    assume q: "?A \<and> (\<forall>i. ?Q i)"
    show "\<forall>i. ?P i"
    proof
      fix i show "?P i" using q by (cases i) simp_all
    qed
  qed
  show ?case unfolding split using 1 by simp
qed auto

lemma getEvenSpacing_Some:
  "getEvenSpacing arr = Some d \<longleftrightarrow>
     2 \<le> length arr \<and> hd arr = d \<and> (\<forall>i. Suc i < length arr \<longrightarrow> int (arr ! Suc i) - int (arr ! i) = int d)"
  by (auto simp: getEvenSpacing_def even_loop_iff)

lemma getEvenSpacing_misses: "getEvenSpacing [0, 3, 6] = None" "getEvenSpacing [1, 4, 7] = None"
  by (simp_all add: getEvenSpacing_def)

end
