(* ===== verification/ChartRegistry.thy ===== *)
theory ChartRegistry
  imports ChartCore
begin

section \<open>Chart.js 3.9.1: the registry of components and the plugin service\<close>

text \<open>
  The scopes of the defaults (\<open>getScope$1\<close>, \<open>set\<close>), the classes \<open>TypedRegistry\<close> and
  \<open>Registry\<close>, and the class \<open>PluginService\<close> of \<open>www/root/js/chart_3.9.js\<close>.  Defaults and
  overrides are trees of option objects.  Routed defaults (\<open>route\<close>, accessor properties) and the
  resolver proxies are not modelled.
\<close>

subsection \<open>Scopes\<close>

text \<open>\<open>getScope$1\<close> walks the keys and creates the missing nodes; a truthy node that is no object
  is left as it is.\<close>

fun scope_modify :: "string list \<Rightarrow> (jsval obj \<Rightarrow> jsval obj) \<Rightarrow> jsval obj \<Rightarrow> jsval obj" where
  "scope_modify [] f node = f node"
| "scope_modify (k # ks) f node =
     (case obj_get node k of
        Some (VObj sub) \<Rightarrow> obj_set node k (VObj (scope_modify ks f sub))
      | Some v \<Rightarrow> if truthy v then node else obj_set node k (VObj (scope_modify ks f []))
      | None \<Rightarrow> obj_set node k (VObj (scope_modify ks f [])))"

definition scope_keys :: "string \<Rightarrow> string list" where
  "scope_keys key = (if key = [] then [] else split_char CHR ''.'' key)"

fun scope_read :: "string list \<Rightarrow> jsval obj \<Rightarrow> jsval obj" where
  "scope_read [] node = node"
| "scope_read (k # ks) node = (case obj_get node k of Some (VObj sub) \<Rightarrow> scope_read ks sub | _ \<Rightarrow> [])"

text \<open>\<open>defaults.get\<close>: the node, with the tree in which it was created.\<close>

definition getScope :: "jsval obj \<Rightarrow> string \<Rightarrow> jsval obj \<times> jsval obj" where
  "getScope rt key =
     (let rt' = scope_modify (scope_keys key) (\<lambda>n. n) rt in (scope_read (scope_keys key) rt', rt'))"

definition set_scope :: "jsval obj \<Rightarrow> string \<Rightarrow> jsval obj \<Rightarrow> jsval obj" where
  "set_scope rt scope vals = scope_modify (scope_keys scope) (\<lambda>n. merge_obj False n vals) rt"

lemma scope_read_modify:
  "(\<And>pre. prefix pre ks \<Longrightarrow> (\<exists>sub. path_get (VObj node) pre = Some (VObj sub)) \<or> path_get (VObj node) pre = None) \<Longrightarrow>
   scope_read ks (scope_modify ks f node) = f (scope_read ks node)"
proof (induction ks arbitrary: node)
  case Nil
  then show ?case by simp
next
  case (Cons k ks)
  have empty: "scope_read ks (scope_modify ks f []) = f []"
    if "\<And>node. (\<And>pre. prefix pre ks \<Longrightarrow> (\<exists>sub. path_get (VObj node) pre = Some (VObj sub)) \<or> path_get (VObj node) pre = None) \<Longrightarrow>
        scope_read ks (scope_modify ks f node) = f (scope_read ks node)"
  proof -
    have "(\<exists>sub. path_get (VObj []) pre = Some (VObj sub)) \<or> path_get (VObj []) pre = None" for pre
      by (cases pre) auto
    moreover have "scope_read ks [] = []" by (cases ks) auto
    ultimately show ?thesis using that[of "[]"] by simp
  qed
  show ?case
  proof (cases "obj_get node k")
    case None
    with empty[OF Cons.IH] show ?thesis by simp
  next
    case (Some v)
    have "(\<exists>sub. path_get (VObj node) [k] = Some (VObj sub)) \<or> path_get (VObj node) [k] = None"
      by (rule Cons.prems) simp
    with Some obtain sub where v: "v = VObj sub" by auto
    have "(\<exists>s. path_get (VObj sub) pre = Some (VObj s)) \<or> path_get (VObj sub) pre = None" if "prefix pre ks" for pre
      using Cons.prems[of "k # pre"] that Some v by simp
    from Cons.IH[OF this] Some v show ?thesis by simp
  qed
qed

subsection \<open>Typed registries\<close>

text \<open>A component class: its id, its defaults and overrides, and its parent class when that is a
  component too.\<close>

datatype component = Component (cp_id: string) (cp_defaults: "jsval obj") (cp_overrides: "jsval obj")
  (cp_parent: "component option")

record typed_registry =
  tr_scope :: string
  tr_override :: bool
  tr_items :: "(string \<times> component) list"

record registry_state =
  rs_reg :: typed_registry
  rs_defaults :: "jsval obj"
  rs_overrides :: "jsval obj"

definition registerDefaults :: "component \<Rightarrow> string \<Rightarrow> string option \<Rightarrow> registry_state \<Rightarrow> registry_state" where
  "registerDefaults item scope parentScope st =
     (let (parentDefaults, d) = (case parentScope of
              Some p \<Rightarrow> if p = [] then ([], rs_defaults st) else getScope (rs_defaults st) p
            | None \<Rightarrow> ([], rs_defaults st));
          (own, d) = getScope d scope;
          itemDefaults = merge_obj False (merge_obj False (merge_obj False [] parentDefaults) own) (cp_defaults item)
      in st\<lparr>rs_defaults := set_scope d scope itemDefaults\<rparr>)"

primrec register :: "component \<Rightarrow> registry_state \<Rightarrow> js_error + (string \<times> registry_state)" where
  "register (Component i d ov parent) st =
     (case (case map_option register parent of
              None \<Rightarrow> Inr (None, st)
            | Some reg \<Rightarrow> (case reg st of Inl e \<Rightarrow> Inl e | Inr (s, st') \<Rightarrow> Inr (Some s, st'))) of
        Inl e \<Rightarrow> Inl e
      | Inr (parentScope, st) \<Rightarrow>
          (let scope = tr_scope (rs_reg st) @ ''.'' @ i in
           if i = [] then Inl (ErrorMsg ''class does not have id'')
           else if obj_has (tr_items (rs_reg st)) i then Inr (scope, st)
           else
             (let item = Component i d ov parent;
                  st = st\<lparr>rs_reg := (rs_reg st)\<lparr>tr_items := obj_set (tr_items (rs_reg st)) i item\<rparr>\<rparr>;
                  st = registerDefaults item scope parentScope st;
                  st = (if tr_override (rs_reg st)
                        then st\<lparr>rs_overrides := set_scope (rs_overrides st) i ov\<rparr> else st)
              in Inr (scope, st))))"

definition registry_get :: "string \<Rightarrow> registry_state \<Rightarrow> component option" where
  "registry_get i st = obj_get (tr_items (rs_reg st)) i"

text \<open>\<open>unregister\<close> deletes the item, its defaults and, for controllers, its overrides.\<close>

definition unregister :: "component \<Rightarrow> registry_state \<Rightarrow> registry_state" where
  "unregister item st =
     (let i = cp_id item; scope = tr_scope (rs_reg st);
          st = (if obj_has (tr_items (rs_reg st)) i
                then st\<lparr>rs_reg := (rs_reg st)\<lparr>tr_items := obj_del (tr_items (rs_reg st)) i\<rparr>\<rparr> else st)
      in if scope \<noteq> [] \<and> obj_has (scope_read [scope] (rs_defaults st)) i
         then st\<lparr>rs_defaults := scope_modify [scope] (\<lambda>n. obj_del n i) (rs_defaults st),
                 rs_overrides := (if tr_override (rs_reg st) then obj_del (rs_overrides st) i else rs_overrides st)\<rparr>
         else st)"

text \<open>\<open>Registry._get\<close>.\<close>

definition registry_lookup :: "string \<Rightarrow> string \<Rightarrow> registry_state \<Rightarrow> js_error + component" where
  "registry_lookup i type st =
     (case registry_get i st of
        Some c \<Rightarrow> Inr c
      | None \<Rightarrow> Inl (ErrorMsg (CHR 0x22 # i @ CHR 0x22 # '' is not a registered '' @ type @ ''.'')))"

lemma rs_reg_registerDefaults [simp]: "rs_reg (registerDefaults item scope p st) = rs_reg st"
  by (simp add: registerDefaults_def Let_def split_beta)

text \<open>Registering keeps what is registered, and puts the class and its ancestors in.\<close>

lemma register_items:
  "register c st = Inr (s, st') \<Longrightarrow>
     tr_scope (rs_reg st') = tr_scope (rs_reg st) \<and> tr_override (rs_reg st') = tr_override (rs_reg st) \<and>
     s = tr_scope (rs_reg st) @ ''.'' @ cp_id c \<and> obj_has (tr_items (rs_reg st')) (cp_id c) \<and>
     (\<forall>i d. obj_get (tr_items (rs_reg st)) i = Some d \<longrightarrow> obj_get (tr_items (rs_reg st')) i = Some d)"
proof (induction c arbitrary: st s st')
  case (Component i d ov parent)
  obtain ps st1 where p: "(case map_option register parent of
              None \<Rightarrow> Inr (None, st)
            | Some reg \<Rightarrow> (case reg st of Inl e \<Rightarrow> Inl e | Inr (s, st') \<Rightarrow> Inr (Some s, st'))) = Inr (ps, st1)"
    using Component.prems by (auto split: sum.splits)
  have st1: "tr_scope (rs_reg st1) = tr_scope (rs_reg st) \<and> tr_override (rs_reg st1) = tr_override (rs_reg st) \<and>
      (\<forall>i d. obj_get (tr_items (rs_reg st)) i = Some d \<longrightarrow> obj_get (tr_items (rs_reg st1)) i = Some d)"
  proof (cases parent)
    case None
    with p show ?thesis by simp
  next
    case (Some c)
    with p obtain s1 where "register c st = Inr (s1, st1)" by (auto split: sum.splits)
    with Component.IH[of c] Some show ?thesis by auto
  qed
  from Component.prems p have
    "(let scope = tr_scope (rs_reg st1) @ ''.'' @ i in
           if i = [] then Inl (ErrorMsg ''class does not have id'')
           else if obj_has (tr_items (rs_reg st1)) i then Inr (scope, st1)
           else
             (let item = Component i d ov parent;
                  st = st1\<lparr>rs_reg := (rs_reg st1)\<lparr>tr_items := obj_set (tr_items (rs_reg st1)) i item\<rparr>\<rparr>;
                  st = registerDefaults item scope ps st;
                  st = (if tr_override (rs_reg st)
                        then st\<lparr>rs_overrides := set_scope (rs_overrides st) i ov\<rparr> else st)
              in Inr (scope, st))) = Inr (s, st')"
    by simp
  with st1 show ?case
    by (auto simp: Let_def obj_has_def split: if_splits)
qed

text \<open>The class and all its ancestors are registered.\<close>

primrec chain_registered :: "component \<Rightarrow> (string \<times> component) list \<Rightarrow> bool" where
  "chain_registered (Component i d ov parent) items =
     (i \<noteq> [] \<and> obj_has items i \<and>
      (case map_option chain_registered parent of None \<Rightarrow> True | Some f \<Rightarrow> f items))"

lemma chain_mono:
  "chain_registered c items \<Longrightarrow> (\<And>i. obj_has items i \<Longrightarrow> obj_has items' i) \<Longrightarrow> chain_registered c items'"
  by (induction c) (auto split: option.splits)

lemma register_again:
  "chain_registered c (tr_items (rs_reg st)) \<Longrightarrow>
   register c st = Inr (tr_scope (rs_reg st) @ ''.'' @ cp_id c, st)"
proof (induction c)
  case (Component i d ov parent)
  show ?case
  proof (cases parent)
    case None
    with Component.prems show ?thesis by simp
  next
    case (Some c)
    with Component show ?thesis by simp
  qed
qed

lemma register_chain:
  "register c st = Inr (s, st') \<Longrightarrow> chain_registered c (tr_items (rs_reg st'))"
proof (induction c arbitrary: st s st')
  case (Component i d ov parent)
  have i: "i \<noteq> []" using Component.prems by (auto simp: Let_def split: sum.splits if_splits)
  have here: "obj_has (tr_items (rs_reg st')) i" using register_items[OF Component.prems] by simp
  show ?case
  proof (cases parent)
    case None
    with i here show ?thesis by simp
  next
    case (Some c)
    then obtain s1 st1 where r1: "register c st = Inr (s1, st1)"
      using Component.prems by (auto split: sum.splits)
    have "chain_registered c (tr_items (rs_reg st1))" by (rule Component.IH[OF _ r1]) (simp add: Some)
    moreover have "obj_has (tr_items (rs_reg st')) j" if "obj_has (tr_items (rs_reg st1)) j" for j
      using that Component.prems r1 Some by (auto simp: Let_def obj_has_def split: if_splits)
    ultimately have "chain_registered c (tr_items (rs_reg st'))" by (rule chain_mono)
    with i here Some show ?thesis by simp
  qed
qed

text \<open>
  Registration is idempotent and unregistration undoes it: after a class has been registered
  its id is found; registering it again changes nothing, the defaults and the overrides included,
  however many ancestors were registered with it; and after unregistering it the lookup of its id
  fails with an error.
\<close>

theorem register_lifecycle:
  assumes "register c st = Inr (s, st')"
  shows "(\<exists>d. registry_lookup (cp_id c) t st' = Inr d) \<and> register c st' = Inr (s, st') \<and>
    (\<exists>e. registry_lookup (cp_id c) t (unregister c st') = Inl e)"
proof -
  note r = register_items[OF assms]
  have "register c st' = Inr (s, st')"
    using register_again[OF register_chain[OF assms]] r by simp
  moreover have "\<exists>d. registry_lookup (cp_id c) t st' = Inr d"
    using r by (auto simp: registry_lookup_def registry_get_def obj_has_def split: option.splits)
  moreover have "registry_get (cp_id c) (unregister c st') = None"
    using r by (auto simp: unregister_def registry_get_def Let_def)
  ultimately show ?thesis by (auto simp: registry_lookup_def)
qed

definition empty_registry :: registry_state where
  "empty_registry = \<lparr>rs_reg = \<lparr>tr_scope = ''scales'', tr_override = False, tr_items = []\<rparr>,
     rs_defaults = [(''scales'', VObj [])], rs_overrides = []\<rparr>"

theorem register_lifecycle_witness:
  "\<exists>st'. register (Component ''linear'' [(''display'', VBool True)] [] None) empty_registry = Inr (''scales.linear'', st') \<and>
     (\<exists>e. registry_lookup ''linear'' ''scale'' (unregister (Component ''linear'' [(''display'', VBool True)] [] None) st') = Inl e)"
proof -
  obtain s st' where r: "register (Component ''linear'' [(''display'', VBool True)] [] None) empty_registry = Inr (s, st')"
    using that by (simp add: empty_registry_def obj_has_def Let_def)
  from register_items[OF r] have "s = ''scales.linear''" by (simp add: empty_registry_def)
  with r register_lifecycle[OF r, of "''scale''"] show ?thesis by auto
qed

subsection \<open>The registry of all kinds\<close>

text \<open>\<open>_getRegistryForType\<close>: the first of controllers, scales and elements whose base class the
  type extends; everything else is a plugin.\<close>

datatype registry_kind = Controllers | Scales | Elements | Plugins

definition getRegistryForType :: "(registry_kind \<Rightarrow> bool) \<Rightarrow> registry_kind" where
  "getRegistryForType isForType =
     (case find isForType [Controllers, Scales, Elements] of Some k \<Rightarrow> k | None \<Rightarrow> Plugins)"

text \<open>An argument of \<open>add\<close> and \<open>remove\<close>: a component with the base classes it extends, or a
  collection of components.\<close>

datatype registry_arg = One "registry_kind \<Rightarrow> bool" bool component | Many "((registry_kind \<Rightarrow> bool) \<times> component) list"

definition each_target ::
  "registry_kind option \<Rightarrow> registry_arg \<Rightarrow> (registry_kind \<times> component) list" where
  "each_target typed arg =
     (case arg of
        One isFor hasId c \<Rightarrow>
          (let reg = (case typed of Some k \<Rightarrow> k | None \<Rightarrow> getRegistryForType isFor) in
           if typed \<noteq> None \<or> isFor reg \<or> (reg = Plugins \<and> hasId) then [(reg, c)] else [])
      | Many cs \<Rightarrow>
          map (\<lambda>(isFor, c). (case typed of Some k \<Rightarrow> k | None \<Rightarrow> getRegistryForType isFor, c)) cs)"

subsection \<open>The plugin service\<close>

text \<open>A plugin: its identity, its id and its default options.  A descriptor adds the options the
  plugin was resolved with.\<close>

record plugin =
  pl_ref :: nat
  pl_id :: string

record descriptor =
  ds_plugin :: plugin
  ds_options :: jsval
  ds_local :: bool

datatype hook = Install | Uninstall | Start | Stop | Hook string

record plugin_service =
  ps_init :: "descriptor list"
  ps_cache :: "descriptor list option"
  ps_oldCache :: "descriptor list option"
  ps_log :: "(hook \<times> plugin) list"

definition allPlugins :: "plugin list \<Rightarrow> plugin list \<Rightarrow> plugin list \<times> string list" where
  "allPlugins registered local =
     foldl (\<lambda>(plugins, localIds) p.
        if pl_ref p \<in> pl_ref ` set plugins then (plugins, localIds) else (plugins @ [p], localIds @ [pl_id p]))
       (registered, []) local"

definition getOpts :: "jsval \<Rightarrow> bool \<Rightarrow> jsval" where
  "getOpts options all =
     (if \<not> all \<and> options = VBool False then VNull
      else if options = VBool True then VObj [] else options)"

definition createDescriptors :: "plugin list \<times> string list \<Rightarrow> (string \<Rightarrow> jsval) \<Rightarrow> bool \<Rightarrow> descriptor list" where
  "createDescriptors pls options all =
     concat (map (\<lambda>p. let opts = getOpts (options (pl_id p)) all in
                      if opts = VNull then []
                      else [\<lparr>ds_plugin = p, ds_options = opts, ds_local = pl_id p \<in> set (snd pls)\<rparr>]) (fst pls))"

text \<open>The plugins and options a chart has at some moment: \<open>options.plugins\<close> is \<open>None\<close> when
  it is \<open>false\<close>.\<close>

record plugin_config =
  pc_registered :: "plugin list"
  pc_local :: "plugin list"
  pc_options :: "(string \<Rightarrow> jsval) option"

definition service_createDescriptors :: "plugin_config \<Rightarrow> bool \<Rightarrow> descriptor list" where
  "service_createDescriptors pc all =
     (case pc_options pc of
        None \<Rightarrow> if all then createDescriptors (allPlugins (pc_registered pc) (pc_local pc)) (\<lambda>_. VUndef) all else []
      | Some options \<Rightarrow> createDescriptors (allPlugins (pc_registered pc) (pc_local pc)) options all)"

text \<open>\<open>_notify\<close>: the plugins are called in order, up to the first that returns \<open>false\<close> to a
  cancelable hook.  \<open>reply\<close> is what the plugins return.\<close>

fun notify_all ::
  "(plugin \<Rightarrow> hook \<Rightarrow> jsval) \<Rightarrow> hook \<Rightarrow> bool \<Rightarrow> descriptor list \<Rightarrow> bool \<times> (hook \<times> plugin) list" where
  "notify_all reply h cancelable [] = (True, [])"
| "notify_all reply h cancelable (d # ds) =
     (if reply (ds_plugin d) h = VBool False \<and> cancelable then (False, [(h, ds_plugin d)])
      else (let (r, log) = notify_all reply h cancelable ds in (r, (h, ds_plugin d) # log)))"

definition service_invalidate :: "plugin_service \<Rightarrow> plugin_service" where
  "service_invalidate ps =
     (case ps_cache ps of
        None \<Rightarrow> ps
      | Some c \<Rightarrow> ps\<lparr>ps_oldCache := Some c, ps_cache := None\<rparr>)"

definition diff_descriptors :: "descriptor list \<Rightarrow> descriptor list \<Rightarrow> descriptor list" where
  "diff_descriptors a b = filter (\<lambda>x. pl_id (ds_plugin x) \<notin> (\<lambda>y. pl_id (ds_plugin y)) ` set b) a"

definition notifyStateChanges :: "(plugin \<Rightarrow> hook \<Rightarrow> jsval) \<Rightarrow> plugin_service \<Rightarrow> plugin_service" where
  "notifyStateChanges reply ps =
     (let previous = (case ps_oldCache ps of Some d \<Rightarrow> d | None \<Rightarrow> []);
          current = (case ps_cache ps of Some d \<Rightarrow> d | None \<Rightarrow> []);
          (_, log1) = notify_all reply Stop False (diff_descriptors previous current);
          (_, log2) = notify_all reply Start False (diff_descriptors current previous)
      in ps\<lparr>ps_log := ps_log ps @ log1 @ log2\<rparr>)"

definition service_descriptors ::
  "(plugin \<Rightarrow> hook \<Rightarrow> jsval) \<Rightarrow> plugin_config \<Rightarrow> plugin_service \<Rightarrow> descriptor list \<times> plugin_service" where
  "service_descriptors reply pc ps =
     (case ps_cache ps of
        Some d \<Rightarrow> (d, ps)
      | None \<Rightarrow>
          (let d = service_createDescriptors pc False
           in (d, notifyStateChanges reply (ps\<lparr>ps_cache := Some d\<rparr>))))"

definition service_notify ::
  "(plugin \<Rightarrow> hook \<Rightarrow> jsval) \<Rightarrow> plugin_config \<Rightarrow> string \<Rightarrow> bool \<Rightarrow> (descriptor \<Rightarrow> bool) \<Rightarrow>
   plugin_service \<Rightarrow> bool \<times> plugin_service" where
  "service_notify reply pc h cancelable flt ps =
     (let ps = (if h = ''beforeInit''
                then (let i = service_createDescriptors pc True; (_, log) = notify_all reply Install False i
                      in ps\<lparr>ps_init := i, ps_log := ps_log ps @ log\<rparr>)
                else ps);
          (ds, ps) = service_descriptors reply pc ps;
          ds = filter flt ds;
          (result, log) = notify_all reply (Hook h) cancelable ds;
          ps = ps\<lparr>ps_log := ps_log ps @ log\<rparr>;
          ps = (if h = ''afterDestroy''
                then (let (_, l1) = notify_all reply Stop False ds; (_, l2) = notify_all reply Uninstall False (ps_init ps)
                      in ps\<lparr>ps_log := ps_log ps @ l1 @ l2\<rparr>)
                else ps)
      in (result, ps))"

text \<open>The plugins that run, read off the log: started and not stopped since.\<close>

definition run_event :: "string set \<Rightarrow> hook \<times> plugin \<Rightarrow> string set" where
  "run_event running e =
     (case fst e of Start \<Rightarrow> insert (pl_id (snd e)) running | Stop \<Rightarrow> running - {pl_id (snd e)} | _ \<Rightarrow> running)"

definition running_plugins :: "(hook \<times> plugin) list \<Rightarrow> string set" where
  "running_plugins evs = foldl run_event {} evs"

definition descriptor_ids :: "descriptor list \<Rightarrow> string set" where
  "descriptor_ids ds = (\<lambda>d. pl_id (ds_plugin d)) ` set ds"

lemma notify_all_uncancelable: "notify_all reply h False ds = (True, map (\<lambda>d. (h, ds_plugin d)) ds)"
  by (induction ds) auto

lemma notify_all_prefix:
  "notify_all reply h c ds = (r, evs) \<Longrightarrow> prefix evs (map (\<lambda>d. (h, ds_plugin d)) ds)"
  by (induction ds arbitrary: r evs) (auto split: if_splits prod.splits)

lemma foldl_run_stop:
  "foldl run_event running (map (\<lambda>d. (Stop, ds_plugin d)) ds) = running - descriptor_ids ds"
  by (induction ds arbitrary: running) (auto simp: run_event_def descriptor_ids_def)

lemma foldl_run_start:
  "foldl run_event running (map (\<lambda>d. (Start, ds_plugin d)) ds) = running \<union> descriptor_ids ds"
  by (induction ds arbitrary: running) (auto simp: run_event_def descriptor_ids_def)

lemma foldl_run_other:
  "(\<And>e. e \<in> set evs \<Longrightarrow> fst e \<noteq> Start \<and> fst e \<noteq> Stop) \<Longrightarrow> foldl run_event running evs = running"
proof (induction evs arbitrary: running)
  case (Cons e evs)
  from Cons.prems[of e] have "run_event running e = running"
    by (cases "fst e") (auto simp: run_event_def)
  with Cons show ?case by simp
qed simp

lemma running_append: "running_plugins (a @ b) = foldl run_event (running_plugins a) b"
  by (simp add: running_plugins_def)

text \<open>What the service keeps: the plugins that run are those of the descriptors computed last.\<close>

definition service_inv :: "plugin_service \<Rightarrow> bool" where
  "service_inv ps \<longleftrightarrow>
     running_plugins (ps_log ps) =
       (case ps_cache ps of
          Some d \<Rightarrow> descriptor_ids d
        | None \<Rightarrow> (case ps_oldCache ps of Some d \<Rightarrow> descriptor_ids d | None \<Rightarrow> {}))"

lemma service_inv_invalidate: "service_inv ps \<Longrightarrow> service_inv (service_invalidate ps)"
  by (auto simp: service_inv_def service_invalidate_def split: option.splits)

lemma diff_ids: "descriptor_ids (diff_descriptors a b) = descriptor_ids a - descriptor_ids b"
  by (auto simp: descriptor_ids_def diff_descriptors_def)

lemma service_inv_descriptors:
  assumes "service_inv ps" "service_descriptors reply pc ps = (d, ps')"
  shows "service_inv ps' \<and> ps_cache ps' = Some d"
proof (cases "ps_cache ps")
  case (Some c)
  with assms show ?thesis by (auto simp: service_descriptors_def)
next
  case None
  let ?old = "case ps_oldCache ps of Some d \<Rightarrow> d | None \<Rightarrow> []"
  have run: "running_plugins (ps_log ps) = descriptor_ids ?old"
    using assms(1) None by (auto simp: service_inv_def descriptor_ids_def split: option.splits)
  have ps': "ps' = ps\<lparr>ps_cache := Some d, ps_log := ps_log ps @
      map (\<lambda>d. (Stop, ds_plugin d)) (diff_descriptors ?old d) @
      map (\<lambda>d. (Start, ds_plugin d)) (diff_descriptors d ?old)\<rparr>"
    using assms(2) None
    by (auto simp: service_descriptors_def notifyStateChanges_def notify_all_uncancelable Let_def)
  have "running_plugins (ps_log ps') = descriptor_ids d"
    unfolding ps' using run
    by (auto simp: running_append foldl_run_stop foldl_run_start diff_ids)
  then show ?thesis by (simp add: service_inv_def ps')
qed

lemma service_inv_notify:
  assumes "service_inv ps" "h \<noteq> ''afterDestroy''" "service_notify reply pc h c flt ps = (r, ps')"
  shows "service_inv ps'"
proof -
  define ps1 where "ps1 = (if h = ''beforeInit''
                then (let i = service_createDescriptors pc True; (_, log) = notify_all reply Install False i
                      in ps\<lparr>ps_init := i, ps_log := ps_log ps @ log\<rparr>)
                else ps)"
  have "foldl run_event running (map (\<lambda>d. (Install, ds_plugin d)) ds) = running"
    for running and ds :: "descriptor list"
    by (rule foldl_run_other) auto
  moreover have "ps1 = ps \<or> ps1 = ps\<lparr>ps_init := service_createDescriptors pc True,
      ps_log := ps_log ps @ map (\<lambda>d. (Install, ds_plugin d)) (service_createDescriptors pc True)\<rparr>"
    by (simp add: ps1_def notify_all_uncancelable Let_def)
  ultimately have i1: "service_inv ps1"
    using assms(1) by (auto simp: service_inv_def running_append split: option.splits)
  obtain ds ps2 where d: "service_descriptors reply pc ps1 = (ds, ps2)" by fastforce
  have i2: "service_inv ps2" using service_inv_descriptors[OF i1 d] by simp
  obtain res evs where n: "notify_all reply (Hook h) c (filter flt ds) = (res, evs)" by fastforce
  have "foldl run_event running evs = running" for running
    by (rule foldl_run_other) (use notify_all_prefix[OF n] set_mono_prefix in fastforce)
  moreover have "ps' = ps2\<lparr>ps_log := ps_log ps2 @ evs\<rparr>"
    using assms(2,3) d n unfolding service_notify_def ps1_def[symmetric] by (simp add: Let_def)
  ultimately show ?thesis using i2 by (simp add: service_inv_def running_append split: option.splits)
qed

text \<open>The life of a plugin service before its chart is destroyed.\<close>

datatype service_op = Notify string bool "descriptor \<Rightarrow> bool" plugin_config | Invalidate

fun service_run :: "(plugin \<Rightarrow> hook \<Rightarrow> jsval) \<Rightarrow> plugin_service \<Rightarrow> service_op list \<Rightarrow> plugin_service" where
  "service_run reply ps [] = ps"
| "service_run reply ps (Notify h c flt pc # rest) = service_run reply (snd (service_notify reply pc h c flt ps)) rest"
| "service_run reply ps (Invalidate # rest) = service_run reply (service_invalidate ps) rest"

definition new_service :: plugin_service where
  "new_service = \<lparr>ps_init = [], ps_cache = None, ps_oldCache = None, ps_log = []\<rparr>"

lemma service_run_inv:
  "service_inv ps \<Longrightarrow> (\<And>h c flt pc. Notify h c flt pc \<in> set ops \<Longrightarrow> h \<noteq> ''afterDestroy'') \<Longrightarrow>
   service_inv (service_run reply ps ops)"
proof (induction ops arbitrary: ps)
  case Nil
  then show ?case by simp
next
  case (Cons op ops)
  have rest: "\<And>h c flt pc. Notify h c flt pc \<in> set ops \<Longrightarrow> h \<noteq> ''afterDestroy''"
    using Cons.prems(2) by auto
  show ?case
  proof (cases op)
    case (Notify h c flt pc)
    then have "h \<noteq> ''afterDestroy''" using Cons.prems(2) by auto
    then have "service_inv (snd (service_notify reply pc h c flt ps))"
      using service_inv_notify[OF Cons.prems(1), of h reply pc c flt] by (metis prod.collapse)
    from Cons.IH[OF this rest] Notify show ?thesis by simp
  next
    case Invalidate
    with Cons.IH[OF service_inv_invalidate[OF Cons.prems(1)] rest] show ?thesis by simp
  qed
qed

text \<open>
  C6. Plugins are started and stopped in step with the configuration: whatever the plugins return
  and however the options change between notifications, as long as the chart is not destroyed the
  plugins that have been started and not stopped are exactly those of the descriptors in use.
\<close>

theorem plugins_running:
  assumes "\<And>h c flt pc. Notify h c flt pc \<in> set ops \<Longrightarrow> h \<noteq> ''afterDestroy''"
    and "ps_cache (service_run reply new_service ops) = Some ds"
  shows "running_plugins (ps_log (service_run reply new_service ops)) = descriptor_ids ds"
proof -
  have "service_inv new_service" by (simp add: service_inv_def new_service_def running_plugins_def)
  from service_run_inv[OF this assms(1)] assms(2) show ?thesis by (simp add: service_inv_def)
qed

definition sample_plugins :: "(string \<Rightarrow> jsval) \<Rightarrow> plugin_config" where
  "sample_plugins options = \<lparr>pc_registered = [\<lparr>pl_ref = 1, pl_id = ''title''\<rparr>, \<lparr>pl_ref = 2, pl_id = ''legend''\<rparr>],
     pc_local = [], pc_options = Some options\<rparr>"

theorem plugins_running_witness:
  "running_plugins (ps_log (service_run (\<lambda>_ _. VUndef) new_service
      [Notify ''beforeUpdate'' False (\<lambda>_. True) (sample_plugins (\<lambda>_. VUndef)), Invalidate,
       Notify ''beforeUpdate'' False (\<lambda>_. True) (sample_plugins (\<lambda>i. VBool (i \<noteq> ''title'')))])) = {''legend''}"
proof -
  let ?ops = "[Notify ''beforeUpdate'' False (\<lambda>_. True) (sample_plugins (\<lambda>_. VUndef)), Invalidate,
       Notify ''beforeUpdate'' False (\<lambda>_. True) (sample_plugins (\<lambda>i. VBool (i \<noteq> ''title'')))]"
  have "ps_cache (service_run (\<lambda>_ _. VUndef) new_service ?ops) =
      Some [\<lparr>ds_plugin = \<lparr>pl_ref = 2, pl_id = ''legend''\<rparr>, ds_options = VObj [], ds_local = False\<rparr>]"
    by (simp add: service_notify_def service_descriptors_def notifyStateChanges_def service_invalidate_def
        service_createDescriptors_def createDescriptors_def allPlugins_def getOpts_def sample_plugins_def
        new_service_def notify_all_uncancelable Let_def)
  from plugins_running[OF _ this] show ?thesis by (auto simp: descriptor_ids_def)
qed

end
