(* ===== verification/ChartMetasets.thy ===== *)
theory ChartMetasets
  imports ChartDataset
begin

text \<open>
  The data sets of a chart and what the chart keeps for them (\<open>class Chart\<close> of
  \<open>js/chart_3.9.js\<close>): the metasets, found by the identity of their data set, the controllers
  they own, the visibility of data sets and of single data, and the order of drawing.  Metasets
  and controllers live in stores and are named by their index in them, because
  \<open>_metasets\<close>, \<open>_sortedMetasets\<close> and the controllers share them; \<open>_metasets\<close> itself has holes
  (\<open>None\<close>), which \<open>delete\<close> leaves.  Data sets are objects of the user, compared by address.
  Which types are registered and what the axis of a type is are parameters.
\<close>

section \<open>State\<close>

record dataset =
  ds_type :: string
  ds_order :: rat
  ds_hidden :: bool
  ds_label :: string
  ds_indexAxis :: string
  ds_xAxisID :: "string option"
  ds_yAxisID :: "string option"
  ds_rAxisID :: "string option"

record meta_set =
  mt_type :: string
  mt_controller :: "nat option"
  mt_hidden :: "bool option"
  mt_order :: rat
  mt_index :: nat
  mt_dataset :: "nat option"
  mt_indexAxis :: string
  mt_label :: string
  mt_visible :: bool
  mt_xAxisID :: "string option"
  mt_yAxisID :: "string option"
  mt_rAxisID :: "string option"
  mt_iAxisID :: "string option"
  mt_vAxisID :: "string option"

record ctrl =
  ct_index :: nat
  ct_meta :: nat
  ct_type :: string
  ct_live :: bool

record chart =
  ch_type :: string
  ch_objs :: "nat \<Rightarrow> dataset"
  ch_datasets :: "nat list"
  ch_scales :: "(string \<times> string) list"
  ch_metas :: "meta_set list"
  ch_metasets :: "nat option list"
  ch_sorted :: "nat option list"
  ch_ctrls :: "ctrl list"
  ch_stacks :: bool

record chart_env =
  ev_registered :: "string \<Rightarrow> bool"
  ev_index_axis :: "string \<Rightarrow> string"

section \<open>Finding and making metasets\<close>

definition dataset_at :: "chart \<Rightarrow> nat \<Rightarrow> nat option" where
  "dataset_at c i = (if i < length (ch_datasets c) then Some (ch_datasets c ! i) else None)"

definition live_metas :: "chart \<Rightarrow> nat list" where
  "live_metas c = present (ch_metasets c)"

definition find_meta :: "chart \<Rightarrow> nat option \<Rightarrow> nat option" where
  "find_meta c d =
     (let found = filter (\<lambda>a. mt_dataset (ch_metas c ! a) = d) (live_metas c)
      in if found = [] then None else Some (last found))"

definition fresh_meta :: "chart \<Rightarrow> nat \<Rightarrow> meta_set" where
  "fresh_meta c i =
     \<lparr>mt_type = [], mt_controller = None, mt_hidden = None,
      mt_order = (case dataset_at c i of Some d \<Rightarrow> ds_order (ch_objs c d) | None \<Rightarrow> 0),
      mt_index = i, mt_dataset = dataset_at c i, mt_indexAxis = [], mt_label = [], mt_visible = False,
      mt_xAxisID = None, mt_yAxisID = None, mt_rAxisID = None, mt_iAxisID = None, mt_vAxisID = None\<rparr>"

definition getDatasetMeta :: "chart \<Rightarrow> nat \<Rightarrow> chart \<times> nat" where
  "getDatasetMeta c i =
     (case find_meta c (dataset_at c i) of
        Some a \<Rightarrow> (c, a)
      | None \<Rightarrow> (let a = length (ch_metas c) in
          (c\<lparr>ch_metas := ch_metas c @ [fresh_meta c i], ch_metasets := ch_metasets c @ [Some a]\<rparr>, a)))"

definition set_meta :: "chart \<Rightarrow> nat \<Rightarrow> (meta_set \<Rightarrow> meta_set) \<Rightarrow> chart" where
  "set_meta c a f = c\<lparr>ch_metas := (ch_metas c)[a := f (ch_metas c ! a)]\<rparr>"

definition set_ctrl :: "chart \<Rightarrow> nat \<Rightarrow> (ctrl \<Rightarrow> ctrl) \<Rightarrow> chart" where
  "set_ctrl c k f = c\<lparr>ch_ctrls := (ch_ctrls c)[k := f (ch_ctrls c ! k)]\<rparr>"

text \<open>\<open>_destroyDatasetMeta\<close> takes an index into \<open>_metasets\<close>; its controller is destroyed and
  the place becomes a hole.\<close>

definition destroyDatasetMeta :: "chart \<Rightarrow> nat \<Rightarrow> chart" where
  "destroyDatasetMeta c i =
     (if i < length (ch_metasets c) then
        (case ch_metasets c ! i of
           None \<Rightarrow> c
         | Some a \<Rightarrow>
             (let c1 = (case mt_controller (ch_metas c ! a) of
                          Some k \<Rightarrow> set_ctrl c k (\<lambda>t. t\<lparr>ct_live := False\<rparr>)
                        | None \<Rightarrow> c)
              in c1\<lparr>ch_metasets := (ch_metasets c1)[i := None]\<rparr>))
      else c)"

definition remove_unreferenced :: "nat \<Rightarrow> chart \<Rightarrow> chart" where
  "remove_unreferenced i c =
     (case ch_metasets c ! i of
        None \<Rightarrow> c
      | Some a \<Rightarrow> if mt_dataset (ch_metas c ! a) \<in> Some ` set (ch_datasets c) then c else destroyDatasetMeta c i)"

definition removeUnreferencedMetasets :: "chart \<Rightarrow> chart" where
  "removeUnreferencedMetasets c =
     (let c1 = (if length (ch_metasets c) > length (ch_datasets c) then c\<lparr>ch_stacks := False\<rparr> else c)
      in fold remove_unreferenced [0..<length (ch_metasets c1)] c1)"

section \<open>Visibility\<close>

definition shown :: "meta_set \<Rightarrow> dataset \<Rightarrow> bool" where
  "shown m ds = (case mt_hidden m of Some h \<Rightarrow> \<not> h | None \<Rightarrow> \<not> ds_hidden ds)"

definition isDatasetVisible :: "chart \<Rightarrow> nat \<Rightarrow> chart \<times> bool" where
  "isDatasetVisible c i =
     (case dataset_at c i of
        None \<Rightarrow> (c, False)
      | Some d \<Rightarrow> (let (c1, a) = getDatasetMeta c i in
          (c1, shown (ch_metas c1 ! a) (ch_objs c1 d))))"

definition setDatasetVisibility :: "chart \<Rightarrow> nat \<Rightarrow> bool \<Rightarrow> chart" where
  "setDatasetVisibility c i visible =
     (let (c1, a) = getDatasetMeta c i in set_meta c1 a (\<lambda>m. m\<lparr>mt_hidden := Some (\<not> visible)\<rparr>))"

section \<open>Controllers\<close>

definition chooseId :: "string \<Rightarrow> 'a \<Rightarrow> 'a \<Rightarrow> 'a \<Rightarrow> 'a" where
  "chooseId axis x y r = (if axis = ''x'' then x else if axis = ''r'' then r else y)"

definition first_scale :: "string option \<Rightarrow> chart \<Rightarrow> string \<Rightarrow> string option" where
  "first_scale given c axis = (case given of Some s \<Rightarrow> Some s | None \<Rightarrow> getFirstScaleId (ch_scales c) axis)"

definition linkScales :: "chart \<Rightarrow> nat \<Rightarrow> chart" where
  "linkScales c k =
     (let t = ch_ctrls c ! k;
          ds = ch_objs c (ch_datasets c ! ct_index t);
          xid = first_scale (ds_xAxisID ds) c ''x'';
          yid = first_scale (ds_yAxisID ds) c ''y'';
          rid = first_scale (ds_rAxisID ds) c ''r''
      in set_meta c (ct_meta t) (\<lambda>m. m\<lparr>mt_xAxisID := xid, mt_yAxisID := yid, mt_rAxisID := rid,
           mt_iAxisID := chooseId (mt_indexAxis m) xid yid rid, mt_vAxisID := chooseId (mt_indexAxis m) yid xid rid\<rparr>))"

definition new_controller :: "chart \<Rightarrow> nat \<Rightarrow> chart \<times> nat" where
  "new_controller c i =
     (let (c1, a) = getDatasetMeta c i;
          k = length (ch_ctrls c1);
          c2 = c1\<lparr>ch_ctrls := ch_ctrls c1 @ [\<lparr>ct_index = i, ct_meta = a, ct_type = mt_type (ch_metas c1 ! a), ct_live = True\<rparr>]\<rparr>
      in (linkScales c2 k, k))"

definition dataset_type_of :: "chart \<Rightarrow> nat \<Rightarrow> string" where
  "dataset_type_of c i =
     (let ty = ds_type (ch_objs c (ch_datasets c ! i)) in if ty = [] then ch_type c else ty)"

definition meta_of_type :: "chart \<Rightarrow> nat \<Rightarrow> chart \<times> nat" where
  "meta_of_type c i =
     (let (c1, a) = getDatasetMeta c i
      in if mt_type (ch_metas c1 ! a) \<noteq> [] \<and> mt_type (ch_metas c1 ! a) \<noteq> dataset_type_of c1 i
         then getDatasetMeta (destroyDatasetMeta c1 i) i else (c1, a))"

definition described :: "chart_env \<Rightarrow> chart \<Rightarrow> nat \<Rightarrow> meta_set \<Rightarrow> meta_set" where
  "described env c i m =
     (let ds = ch_objs c (ch_datasets c ! i); ty = dataset_type_of c i
      in m\<lparr>mt_type := ty,
           mt_indexAxis := (if ds_indexAxis ds \<noteq> [] then ds_indexAxis ds else ev_index_axis env ty),
           mt_order := ds_order ds, mt_index := i, mt_label := ds_label ds\<rparr>)"

definition describe_meta :: "chart_env \<Rightarrow> chart \<Rightarrow> nat \<Rightarrow> nat \<Rightarrow> chart" where
  "describe_meta env c i a =
     (let (c1, v) = isDatasetVisible (set_meta c a (described env c i)) i
      in set_meta c1 a (\<lambda>m. m\<lparr>mt_visible := v\<rparr>))"

definition attach_controller :: "chart_env \<Rightarrow> chart \<Rightarrow> nat \<Rightarrow> nat \<Rightarrow> chart \<times> (js_error + nat list)" where
  "attach_controller env c i a =
     (case mt_controller (ch_metas c ! a) of
        Some k \<Rightarrow> (linkScales (set_ctrl c k (\<lambda>t. t\<lparr>ct_index := i\<rparr>)) k, Inr [])
      | None \<Rightarrow>
          if \<not> ev_registered env (mt_type (ch_metas c ! a)) then (c, Inl TypeError)
          else (let (c1, k) = new_controller c i
                in (set_meta c1 a (\<lambda>m. m\<lparr>mt_controller := Some k\<rparr>), Inr [k])))"

definition update_controller :: "chart_env \<Rightarrow> chart \<Rightarrow> nat \<Rightarrow> chart \<times> (js_error + nat list)" where
  "update_controller env c i =
     (let (c1, a) = meta_of_type c i in attach_controller env (describe_meta env c1 i a) i a)"

fun update_controllers :: "chart_env \<Rightarrow> nat list \<Rightarrow> nat list \<Rightarrow> chart \<Rightarrow> chart \<times> (js_error + nat list)" where
  "update_controllers env [] news c = (c, Inr news)"
| "update_controllers env (i # is) news c =
     (case update_controller env c i of
        (c1, Inl e) \<Rightarrow> (c1, Inl e)
      | (c1, Inr ks) \<Rightarrow> update_controllers env is (news @ ks) c1)"

definition compare2Level :: "('a \<Rightarrow> rat) \<Rightarrow> ('a \<Rightarrow> rat) \<Rightarrow> 'a \<Rightarrow> 'a \<Rightarrow> rat" where
  "compare2Level l1 l2 a b = (if l1 a = l1 b then l2 a - l2 b else l1 a - l1 b)"

text \<open>Sorting an array with holes moves the holes behind the elements.\<close>

definition sort_holes :: "('a \<Rightarrow> 'a \<Rightarrow> rat) \<Rightarrow> 'a option list \<Rightarrow> 'a option list" where
  "sort_holes cmp xs =
     (let ys = sort_by cmp (present xs) in map Some ys @ replicate (length xs - length ys) None)"

definition updateMetasets :: "chart \<Rightarrow> chart" where
  "updateMetasets c =
     (let numData = length (ch_datasets c);
          numMeta = length (ch_metasets c);
          c1 = c\<lparr>ch_metasets := sort_holes
                  (\<lambda>a b. of_nat (mt_index (ch_metas c ! a)) - of_nat (mt_index (ch_metas c ! b))) (ch_metasets c)\<rparr>;
          c2 = (if numMeta > numData then
                  (let c2 = fold (\<lambda>i c. destroyDatasetMeta c i) [numData..<numMeta] c1
                   in c2\<lparr>ch_metasets := splice (ch_metasets c2) numData (numMeta - numData) []\<rparr>)
                else c1)
      in c2\<lparr>ch_sorted := sort_holes
           (compare2Level (\<lambda>a. mt_order (ch_metas c2 ! a)) (\<lambda>a. of_nat (mt_index (ch_metas c2 ! a))))
           (ch_metasets c2)\<rparr>)"

definition buildOrUpdateControllers :: "chart_env \<Rightarrow> chart \<Rightarrow> chart \<times> (js_error + nat list)" where
  "buildOrUpdateControllers env c =
     (case update_controllers env [0..<length (ch_datasets c)] [] (removeUnreferencedMetasets c) of
        (c1, Inl e) \<Rightarrow> (c1, Inl e)
      | (c1, Inr news) \<Rightarrow> (updateMetasets c1, Inr news))"

text \<open>\<open>_stop\<close> destroys the metaset at each index that is an index of a data set.\<close>

definition stop_metas :: "chart \<Rightarrow> chart" where
  "stop_metas c = fold (\<lambda>i c. destroyDatasetMeta c i) [0..<length (ch_datasets c)] c"

section \<open>Well-formed charts\<close>

text \<open>
  No metaset is listed twice, no two metasets have the same data set, and a metaset and its
  controller name each other.
\<close>

definition owns_controller :: "chart \<Rightarrow> nat \<Rightarrow> bool" where
  "owns_controller c a =
     (case mt_controller (ch_metas c ! a) of
        None \<Rightarrow> True
      | Some k \<Rightarrow> k < length (ch_ctrls c) \<and> ct_live (ch_ctrls c ! k) \<and> ct_meta (ch_ctrls c ! k) = a)"

definition wf_metas :: "chart \<Rightarrow> bool" where
  "wf_metas c \<longleftrightarrow> distinct (live_metas c) \<and> list_all (\<lambda>a. a < length (ch_metas c)) (live_metas c) \<and>
     inj_on (\<lambda>a. mt_dataset (ch_metas c ! a)) (set (live_metas c)) \<and> list_all (owns_controller c) (live_metas c)"

lemma live_metas_iff: "a \<in> set (live_metas c) \<longleftrightarrow> Some a \<in> set (ch_metasets c)"
  by (simp add: live_metas_def)

lemma find_meta_Some:
  assumes "inj_on (\<lambda>a. mt_dataset (ch_metas c ! a)) (set (live_metas c))"
  shows "find_meta c d = Some a \<longleftrightarrow> a \<in> set (live_metas c) \<and> mt_dataset (ch_metas c ! a) = d"
proof -
  let ?f = "filter (\<lambda>a. mt_dataset (ch_metas c ! a) = d) (live_metas c)"
  have "x = y" if "x \<in> set ?f" "y \<in> set ?f" for x y
    using that inj_onD[OF assms, of x y] by simp
  then have "last ?f = a" if "a \<in> set ?f"
    using that last_in_set[of ?f] by fastforce
  moreover have "last ?f \<in> set ?f" if "?f \<noteq> []" using that by (rule last_in_set)
  ultimately show ?thesis by (auto simp: find_meta_def filter_empty_conv)
qed

lemma find_meta_None: "find_meta c d = None \<longleftrightarrow> (\<forall>a \<in> set (live_metas c). mt_dataset (ch_metas c ! a) \<noteq> d)"
  by (auto simp: find_meta_def filter_empty_conv)

lemma find_meta_wf:
  "wf_metas c \<Longrightarrow> find_meta c d = Some a \<longleftrightarrow> a \<in> set (live_metas c) \<and> mt_dataset (ch_metas c ! a) = d"
  by (rule find_meta_Some) (simp add: wf_metas_def)

lemma find_meta_wfD:
  assumes "wf_metas c" "find_meta c d = Some a"
  shows "a \<in> set (live_metas c)" "mt_dataset (ch_metas c ! a) = d" "a < length (ch_metas c)" "owns_controller c a"
  using assms find_meta_wf[OF assms(1)] by (auto simp: wf_metas_def list_all_iff)

subsection \<open>The operations keep charts well-formed\<close>

lemma live_metas_push: "live_metas (c\<lparr>ch_metas := ms, ch_metasets := ch_metasets c @ [Some a]\<rparr>) = live_metas c @ [a]"
  by (simp add: live_metas_def)

lemma getDatasetMeta_wf:
  assumes "wf_metas c" "getDatasetMeta c i = (c', a)"
  shows "wf_metas c'"
proof (cases "find_meta c (dataset_at c i)")
  case None
  let ?n = "length (ch_metas c)"
  from None assms(2) have a: "a = ?n" and c': "c' = c\<lparr>ch_metas := ch_metas c @ [fresh_meta c i], ch_metasets := ch_metasets c @ [Some ?n]\<rparr>"
    by (auto simp: getDatasetMeta_def Let_def)
  from assms(1) have lt: "b < ?n" if "b \<in> set (live_metas c)" for b
    using that by (auto simp: wf_metas_def list_all_iff)
  have old: "ch_metas c' ! b = ch_metas c ! b" if "b \<in> set (live_metas c)" for b
    using lt[OF that] by (simp add: c' nth_append)
  have new: "ch_metas c' ! ?n = fresh_meta c i" by (simp add: c')
  have live: "live_metas c' = live_metas c @ [?n]" by (simp add: c' live_metas_push)
  have nf: "mt_dataset (ch_metas c ! b) \<noteq> dataset_at c i" if "b \<in> set (live_metas c)" for b
    using None that by (auto simp: find_meta_None)
  have ds: "mt_dataset (fresh_meta c i) = dataset_at c i" by (simp add: fresh_meta_def)
  have "inj_on (\<lambda>b. mt_dataset (ch_metas c' ! b)) (set (live_metas c'))"
  proof (rule inj_onI)
    fix x y assume "x \<in> set (live_metas c')" "y \<in> set (live_metas c')"
      and "mt_dataset (ch_metas c' ! x) = mt_dataset (ch_metas c' ! y)"
    with assms(1) nf ds show "x = y"
      by (auto simp: live old new wf_metas_def dest: inj_onD) (metis nf)+
  qed
  moreover have "owns_controller c' b" if "b \<in> set (live_metas c)" for b
    using that assms(1) old[OF that] by (auto simp: wf_metas_def list_all_iff owns_controller_def c' split: option.splits)
  moreover have "owns_controller c' ?n" by (simp add: owns_controller_def new fresh_meta_def)
  moreover have "length (ch_metas c') = Suc ?n" by (simp add: c')
  ultimately show ?thesis
    using assms(1) lt by (auto simp: wf_metas_def live list_all_iff less_Suc_eq)
next
  case (Some b)
  with assms show ?thesis by (auto simp: getDatasetMeta_def)
qed

definition same_data :: "chart \<Rightarrow> chart \<Rightarrow> bool" where
  "same_data c c' \<longleftrightarrow> ch_type c' = ch_type c \<and> ch_objs c' = ch_objs c \<and> ch_datasets c' = ch_datasets c \<and>
     ch_scales c' = ch_scales c"

lemma same_data_refl [simp, intro]: "same_data c c"
  by (simp add: same_data_def)

lemma same_data_trans [trans]: "same_data a b \<Longrightarrow> same_data b c \<Longrightarrow> same_data a c"
  by (simp add: same_data_def)

lemma dataset_at_same: "same_data c c' \<Longrightarrow> dataset_at c' i = dataset_at c i"
  by (simp add: same_data_def dataset_at_def)

lemma dataset_type_same: "same_data c c' \<Longrightarrow> dataset_type_of c' i = dataset_type_of c i"
  by (simp add: same_data_def dataset_type_of_def Let_def)

lemma getDatasetMeta_found: "find_meta c (dataset_at c i) = Some a \<Longrightarrow> getDatasetMeta c i = (c, a)"
  by (simp add: getDatasetMeta_def)

lemma getDatasetMeta_new:
  assumes "wf_metas c" "find_meta c (dataset_at c i) = None" "getDatasetMeta c i = (c', a)"
  shows "a = length (ch_metas c)" "find_meta c' (dataset_at c i) = Some a" "ch_metas c' ! a = fresh_meta c i"
    "ch_metasets c' = ch_metasets c @ [Some a]" "ch_ctrls c' = ch_ctrls c" "same_data c c'"
    "d \<noteq> dataset_at c i \<Longrightarrow> find_meta c' d = find_meta c d"
    "b < length (ch_metas c) \<Longrightarrow> ch_metas c' ! b = ch_metas c ! b"
proof -
  from assms(2,3) show a: "a = length (ch_metas c)" and ms: "ch_metasets c' = ch_metasets c @ [Some a]"
    and "ch_ctrls c' = ch_ctrls c" and "same_data c c'"
    by (auto simp: getDatasetMeta_def Let_def same_data_def)
  from assms(2,3) have m: "ch_metas c' = ch_metas c @ [fresh_meta c i]"
    by (auto simp: getDatasetMeta_def Let_def)
  then show n: "ch_metas c' ! a = fresh_meta c i" by (simp add: a)
  from m show old: "ch_metas c' ! b = ch_metas c ! b" if "b < length (ch_metas c)" for b
    using that by (simp add: nth_append)
  have w: "wf_metas c'" by (rule getDatasetMeta_wf[OF assms(1,3)])
  have live: "live_metas c' = live_metas c @ [a]" by (simp add: live_metas_def ms)
  show "find_meta c' (dataset_at c i) = Some a"
    by (simp add: find_meta_wf[OF w] live n) (simp add: fresh_meta_def)
  have o: "mt_dataset (ch_metas c' ! b) = mt_dataset (ch_metas c ! b)" if "b \<in> set (live_metas c)" for b
    using old[of b] that assms(1) by (auto simp: wf_metas_def list_all_iff)
  show "find_meta c' d = find_meta c d" if "d \<noteq> dataset_at c i" for d
  proof -
    have "find_meta c' d = Some b \<longleftrightarrow> find_meta c d = Some b" for b
      using that o by (auto simp: find_meta_wf[OF w] find_meta_wf[OF assms(1)] live n fresh_meta_def)
    then show ?thesis by (cases "find_meta c' d"; cases "find_meta c d"; metis option.distinct(1))
  qed
qed

lemma destroy_hole: "i < length (ch_metasets c) \<Longrightarrow> ch_metasets c ! i = None \<Longrightarrow> destroyDatasetMeta c i = c"
  by (simp add: destroyDatasetMeta_def)

lemma destroy_frame: "same_data c (destroyDatasetMeta c i)" "ch_metas (destroyDatasetMeta c i) = ch_metas c"
  "length (ch_metasets (destroyDatasetMeta c i)) = length (ch_metasets c)"
  "length (ch_ctrls (destroyDatasetMeta c i)) = length (ch_ctrls c)"
  by (auto simp: destroyDatasetMeta_def same_data_def set_ctrl_def Let_def split: option.split)

lemma destroy_metasets: "ch_metasets (destroyDatasetMeta c i) = (ch_metasets c)[i := None]"
proof (cases "i < length (ch_metasets c)")
  case True
  then show ?thesis
    by (cases "ch_metasets c ! i") (auto simp: destroyDatasetMeta_def set_ctrl_def Let_def split: option.split,
        metis list_update_id)
next
  case False
  then show ?thesis by (simp add: destroyDatasetMeta_def list_update_beyond)
qed

text \<open>What is destroyed with a metaset: its controller, if it has one.\<close>

lemma destroy_ctrls:
  assumes "i < length (ch_metasets c)" "ch_metasets c ! i = Some a"
  shows "ch_ctrls (destroyDatasetMeta c i) =
    (case mt_controller (ch_metas c ! a) of None \<Rightarrow> ch_ctrls c
     | Some k \<Rightarrow> (ch_ctrls c)[k := (ch_ctrls c ! k)\<lparr>ct_live := False\<rparr>])"
  using assms by (simp add: destroyDatasetMeta_def set_ctrl_def Let_def split: option.split)

lemma destroy_live:
  assumes "wf_metas c" "i < length (ch_metasets c)" "ch_metasets c ! i = Some a"
  shows "live_metas (destroyDatasetMeta c i) = filter (\<lambda>b. b \<noteq> a) (live_metas c)"
  using assms by (simp add: live_metas_def destroy_metasets present_delete wf_metas_def)

lemma nth_live: "i < length (ch_metasets c) \<Longrightarrow> ch_metasets c ! i = Some a \<Longrightarrow> a \<in> set (live_metas c)"
  by (metis live_metas_iff nth_mem)

lemma destroy_wf:
  assumes "wf_metas c" "i < length (ch_metasets c)" "ch_metasets c ! i = Some a"
  shows "wf_metas (destroyDatasetMeta c i)"
proof -
  let ?c = "destroyDatasetMeta c i"
  have live: "live_metas ?c = filter (\<lambda>b. b \<noteq> a) (live_metas c)" by (rule destroy_live[OF assms])
  have al: "a \<in> set (live_metas c)" by (rule nth_live[OF assms(2,3)])
  have "owns_controller ?c b" if "b \<in> set (live_metas c)" "b \<noteq> a" for b
  proof -
    from assms(1) that(1) al have ob: "owns_controller c b" and oa: "owns_controller c a"
      by (auto simp: wf_metas_def list_all_iff)
    show ?thesis
    proof (cases "mt_controller (ch_metas c ! a)")
      case (Some k)
      show ?thesis
      proof (cases "mt_controller (ch_metas c ! b)")
        case (Some l)
        with ob oa \<open>mt_controller (ch_metas c ! a) = Some k\<close> that(2) have "l \<noteq> k"
          by (auto simp: owns_controller_def)
        with ob Some show ?thesis
          using \<open>mt_controller (ch_metas c ! a) = Some k\<close>
          by (simp add: owns_controller_def destroy_frame destroy_ctrls[OF assms(2,3)])
      qed (simp add: owns_controller_def destroy_frame)
    qed (use ob in \<open>auto simp: owns_controller_def destroy_frame destroy_ctrls[OF assms(2,3)] split: option.split\<close>)
  qed
  with assms(1) show ?thesis
    by (auto simp: wf_metas_def live list_all_iff destroy_frame intro: inj_on_subset)
qed

lemma destroy_find:
  assumes "wf_metas c" "i < length (ch_metasets c)" "ch_metasets c ! i = Some a"
  shows "find_meta (destroyDatasetMeta c i) d = (if d = mt_dataset (ch_metas c ! a) then None else find_meta c d)"
proof -
  have w: "wf_metas (destroyDatasetMeta c i)" by (rule destroy_wf[OF assms])
  have al: "a \<in> set (live_metas c)" by (rule nth_live[OF assms(2,3)])
  have inj: "b = a" if "b \<in> set (live_metas c)" "mt_dataset (ch_metas c ! b) = mt_dataset (ch_metas c ! a)" for b
    using assms(1) that al by (auto simp: wf_metas_def dest: inj_onD)
  have "find_meta (destroyDatasetMeta c i) d = Some b \<longleftrightarrow>
      (d \<noteq> mt_dataset (ch_metas c ! a) \<and> find_meta c d = Some b)" for b
    using inj by (auto simp: find_meta_wf[OF w] find_meta_wf[OF assms(1)] destroy_live[OF assms] destroy_frame)
  then show ?thesis
    by (cases "find_meta (destroyDatasetMeta c i) d"; cases "find_meta c d"; metis option.distinct(1))
qed

text \<open>Writing to a metaset without changing what identifies it.\<close>

lemma set_meta_frame: "same_data c (set_meta c a f)" "ch_metasets (set_meta c a f) = ch_metasets c"
  "ch_ctrls (set_meta c a f) = ch_ctrls c" "live_metas (set_meta c a f) = live_metas c"
  "length (ch_metas (set_meta c a f)) = length (ch_metas c)"
  by (simp_all add: set_meta_def same_data_def live_metas_def)

lemma set_meta_nth: "ch_metas (set_meta c a f) ! b = (if b = a \<and> a < length (ch_metas c) then f (ch_metas c ! a) else ch_metas c ! b)"
  by (cases "a < length (ch_metas c)") (auto simp: set_meta_def nth_list_update list_update_beyond)

lemma set_meta_find:
  assumes "\<And>m. mt_dataset (f m) = mt_dataset m"
  shows "find_meta (set_meta c a f) d = find_meta c d"
proof -
  have "mt_dataset (ch_metas (set_meta c a f) ! b) = mt_dataset (ch_metas c ! b)" for b
    using assms by (simp add: set_meta_nth)
  then show ?thesis by (simp add: find_meta_def set_meta_frame)
qed

lemma set_meta_wf:
  assumes "\<And>m. mt_dataset (f m) = mt_dataset m" "\<And>m. mt_controller (f m) = mt_controller m"
  shows "wf_metas (set_meta c a f) \<longleftrightarrow> wf_metas c"
proof -
  have "mt_dataset (ch_metas (set_meta c a f) ! b) = mt_dataset (ch_metas c ! b)"
    and "mt_controller (ch_metas (set_meta c a f) ! b) = mt_controller (ch_metas c ! b)" for b
    using assms by (simp_all add: set_meta_nth)
  moreover from this have "owns_controller (set_meta c a f) = owns_controller c"
    by (intro ext) (simp add: owns_controller_def set_meta_frame split: option.split)
  ultimately show ?thesis by (simp add: wf_metas_def set_meta_frame)
qed

lemma set_ctrl_frame: "same_data c (set_ctrl c k f)" "ch_metasets (set_ctrl c k f) = ch_metasets c"
  "ch_metas (set_ctrl c k f) = ch_metas c" "live_metas (set_ctrl c k f) = live_metas c"
  "find_meta (set_ctrl c k f) d = find_meta c d" "length (ch_ctrls (set_ctrl c k f)) = length (ch_ctrls c)"
  by (simp_all add: set_ctrl_def same_data_def live_metas_def find_meta_def)

lemma set_ctrl_nth: "ch_ctrls (set_ctrl c k f) ! l = (if l = k \<and> k < length (ch_ctrls c) then f (ch_ctrls c ! k) else ch_ctrls c ! l)"
  by (cases "k < length (ch_ctrls c)") (auto simp: set_ctrl_def nth_list_update list_update_beyond)

lemma set_ctrl_wf:
  assumes "\<And>t. ct_live (f t) = ct_live t" "\<And>t. ct_meta (f t) = ct_meta t"
  shows "wf_metas (set_ctrl c k f) \<longleftrightarrow> wf_metas c"
proof -
  have "owns_controller (set_ctrl c k f) = owns_controller c"
    using assms by (intro ext) (auto simp: owns_controller_def set_ctrl_frame set_ctrl_nth split: option.split)
  then show ?thesis by (simp add: wf_metas_def set_ctrl_frame)
qed

text \<open>\<open>linkScales\<close> writes the identifiers of the axes and nothing else.\<close>

definition but_axes :: "meta_set \<Rightarrow> meta_set" where
  "but_axes m = m\<lparr>mt_xAxisID := None, mt_yAxisID := None, mt_rAxisID := None, mt_iAxisID := None, mt_vAxisID := None\<rparr>"

lemma but_axes_eq:
  assumes "but_axes m = but_axes n"
  shows "mt_type m = mt_type n" "mt_controller m = mt_controller n" "mt_hidden m = mt_hidden n"
    "mt_order m = mt_order n" "mt_index m = mt_index n" "mt_dataset m = mt_dataset n" "mt_visible m = mt_visible n"
  using assms by (cases m; cases n; simp add: but_axes_def)+

lemma linkScales_writes:
  obtains f where "linkScales c k = set_meta c (ct_meta (ch_ctrls c ! k)) f" "\<And>m. but_axes (f m) = but_axes m"
  by (rule that, unfold linkScales_def Let_def, rule refl, simp add: but_axes_def)

lemma isDatasetVisible_found:
  "i < length (ch_datasets c) \<Longrightarrow> find_meta c (dataset_at c i) = Some a \<Longrightarrow>
   isDatasetVisible c i = (c, shown (ch_metas c ! a) (ch_objs c (ch_datasets c ! i)))"
  by (simp add: isDatasetVisible_def dataset_at_def getDatasetMeta_def)

lemma shown_described: "shown (described env c i m) ds = shown m ds"
  by (simp add: shown_def described_def Let_def)

lemma describe_meta_effect:
  assumes "wf_metas c" "i < length (ch_datasets c)" "find_meta c (dataset_at c i) = Some a"
  shows "wf_metas (describe_meta env c i a)" "same_data c (describe_meta env c i a)"
    "ch_metasets (describe_meta env c i a) = ch_metasets c" "ch_ctrls (describe_meta env c i a) = ch_ctrls c"
    "length (ch_metas (describe_meta env c i a)) = length (ch_metas c)"
    "find_meta (describe_meta env c i a) d = find_meta c d"
    "b \<noteq> a \<Longrightarrow> ch_metas (describe_meta env c i a) ! b = ch_metas c ! b"
    "mt_type (ch_metas (describe_meta env c i a) ! a) = dataset_type_of c i"
    "mt_index (ch_metas (describe_meta env c i a) ! a) = i"
    "mt_order (ch_metas (describe_meta env c i a) ! a) = ds_order (ch_objs c (ch_datasets c ! i))"
    "mt_hidden (ch_metas (describe_meta env c i a) ! a) = mt_hidden (ch_metas c ! a)"
    "mt_controller (ch_metas (describe_meta env c i a) ! a) = mt_controller (ch_metas c ! a)"
    "mt_visible (ch_metas (describe_meta env c i a) ! a) = shown (ch_metas c ! a) (ch_objs c (ch_datasets c ! i))"
proof -
  let ?ds = "ch_objs c (ch_datasets c ! i)"
  let ?f = "described env c i"
  let ?c1 = "set_meta c a ?f"
  let ?v = "shown (ch_metas c ! a) ?ds"
  let ?g = "\<lambda>m. m\<lparr>mt_visible := ?v\<rparr>"
  have lt: "a < length (ch_metas c)" using find_meta_wfD(3)[OF assms(1,3)] .
  have same: "same_data c ?c1" by (rule set_meta_frame)
  then have i1: "i < length (ch_datasets ?c1)" and o1: "ch_objs ?c1 (ch_datasets ?c1 ! i) = ?ds"
    using assms(2) by (simp_all add: same_data_def)
  have f1: "find_meta ?c1 d = find_meta c d" for d by (rule set_meta_find) (simp add: described_def Let_def)
  then have "find_meta ?c1 (dataset_at ?c1 i) = Some a" using assms(3) dataset_at_same[OF same] by simp
  then have "isDatasetVisible ?c1 i = (?c1, ?v)"
    using isDatasetVisible_found[OF i1] lt unfolding o1
    by (simp add: set_meta_nth shown_described)
  then have d: "describe_meta env c i a = set_meta ?c1 a ?g" by (simp add: describe_meta_def)
  note frames = set_meta_frame set_meta_nth lt shown_described described_def Let_def
  show "wf_metas (describe_meta env c i a)" unfolding d using assms(1)
    by (simp add: set_meta_wf described_def Let_def)
  show "same_data c (describe_meta env c i a)" unfolding d by (rule same_data_trans[OF same set_meta_frame(1)])
  show "find_meta (describe_meta env c i a) d = find_meta c d" unfolding d by (simp add: set_meta_find f1)
  show "b \<noteq> a \<Longrightarrow> ch_metas (describe_meta env c i a) ! b = ch_metas c ! b" unfolding d by (simp add: set_meta_nth)
  show "ch_metasets (describe_meta env c i a) = ch_metasets c" "ch_ctrls (describe_meta env c i a) = ch_ctrls c"
    "length (ch_metas (describe_meta env c i a)) = length (ch_metas c)"
    "mt_type (ch_metas (describe_meta env c i a) ! a) = dataset_type_of c i"
    "mt_index (ch_metas (describe_meta env c i a) ! a) = i"
    "mt_order (ch_metas (describe_meta env c i a) ! a) = ds_order ?ds"
    "mt_hidden (ch_metas (describe_meta env c i a) ! a) = mt_hidden (ch_metas c ! a)"
    "mt_controller (ch_metas (describe_meta env c i a) ! a) = mt_controller (ch_metas c ! a)"
    "mt_visible (ch_metas (describe_meta env c i a) ! a) = ?v"
    unfolding d by (simp_all add: frames)
qed

text \<open>A metaset with its controller after the step for data set \<open>i\<close>.\<close>

definition in_place :: "chart \<Rightarrow> nat \<Rightarrow> nat \<Rightarrow> bool" where
  "in_place c i a \<longleftrightarrow> mt_index (ch_metas c ! a) = i \<and> mt_type (ch_metas c ! a) = dataset_type_of c i \<and>
     mt_order (ch_metas c ! a) = ds_order (ch_objs c (ch_datasets c ! i)) \<and>
     mt_visible (ch_metas c ! a) = shown (ch_metas c ! a) (ch_objs c (ch_datasets c ! i)) \<and>
     (\<exists>k < length (ch_ctrls c). mt_controller (ch_metas c ! a) = Some k \<and> ct_index (ch_ctrls c ! k) = i)"

lemma linkScales_effect:
  assumes "ct_meta (ch_ctrls c ! k) = a"
  shows "same_data c (linkScales c k)" "ch_metasets (linkScales c k) = ch_metasets c"
    "ch_ctrls (linkScales c k) = ch_ctrls c" "length (ch_metas (linkScales c k)) = length (ch_metas c)"
    "b \<noteq> a \<Longrightarrow> ch_metas (linkScales c k) ! b = ch_metas c ! b"
    "but_axes (ch_metas (linkScales c k) ! a) = but_axes (ch_metas c ! a)"
    "find_meta (linkScales c k) d = find_meta c d" "wf_metas (linkScales c k) \<longleftrightarrow> wf_metas c"
proof -
  obtain f where l: "linkScales c k = set_meta c (ct_meta (ch_ctrls c ! k)) f" and f: "\<And>m. but_axes (f m) = but_axes m"
    using linkScales_writes[of c k] by blast
  show "same_data c (linkScales c k)" "ch_metasets (linkScales c k) = ch_metasets c"
    "ch_ctrls (linkScales c k) = ch_ctrls c" "length (ch_metas (linkScales c k)) = length (ch_metas c)"
    "b \<noteq> a \<Longrightarrow> ch_metas (linkScales c k) ! b = ch_metas c ! b"
    "but_axes (ch_metas (linkScales c k) ! a) = but_axes (ch_metas c ! a)"
    by (simp_all add: l assms set_meta_frame set_meta_nth f)
  show "find_meta (linkScales c k) d = find_meta c d"
    unfolding l by (rule set_meta_find) (rule but_axes_eq(6)[OF f])
  show "wf_metas (linkScales c k) \<longleftrightarrow> wf_metas c"
    unfolding l by (rule set_meta_wf) (rule but_axes_eq(6)[OF f], rule but_axes_eq(2)[OF f])
qed

lemma in_place_but_axes:
  assumes "but_axes (ch_metas c' ! a) = but_axes (ch_metas c ! a)" "same_data c c'" "ch_ctrls c' = ch_ctrls c"
  shows "in_place c' i a \<longleftrightarrow> in_place c i a"
  using but_axes_eq[OF assms(1)] assms(2,3) dataset_type_same[OF assms(2)]
  by (simp add: in_place_def shown_def same_data_def)

lemma in_place_from:
  assumes "same_data c c'" "mt_index (ch_metas c' ! a) = i" "mt_type (ch_metas c' ! a) = dataset_type_of c i"
    "mt_order (ch_metas c' ! a) = ds_order (ch_objs c (ch_datasets c ! i))"
    "mt_visible (ch_metas c' ! a) = shown (ch_metas c ! a) (ch_objs c (ch_datasets c ! i))"
    "mt_hidden (ch_metas c' ! a) = mt_hidden (ch_metas c ! a)"
    "mt_controller (ch_metas c' ! a) = Some k" "k < length (ch_ctrls c')" "ct_index (ch_ctrls c' ! k) = i"
  shows "in_place c' i a"
proof -
  from assms(1) have o: "ch_objs c' = ch_objs c" "ch_datasets c' = ch_datasets c" by (simp_all add: same_data_def)
  show ?thesis
    using assms(2-) dataset_type_same[OF assms(1), of i] unfolding in_place_def shown_def o by simp
qed

text \<open>Giving a described metaset its controller: the one it has, or a new one.\<close>

lemma attach_controller_effect:
  assumes w: "wf_metas c" and i: "i < length (ch_datasets c)" and f: "find_meta c (dataset_at c i) = Some a"
    and reg: "ev_registered env (mt_type (ch_metas c ! a))"
    and desc: "mt_index (ch_metas c ! a) = i" "mt_type (ch_metas c ! a) = dataset_type_of c i"
      "mt_order (ch_metas c ! a) = ds_order (ch_objs c (ch_datasets c ! i))"
      "mt_visible (ch_metas c ! a) = shown (ch_metas c ! a) (ch_objs c (ch_datasets c ! i))"
  obtains c' ks where "attach_controller env c i a = (c', Inr ks)" "wf_metas c'" "same_data c c'"
    "ch_metasets c' = ch_metasets c" "length (ch_metas c') = length (ch_metas c)"
    "length (ch_ctrls c) \<le> length (ch_ctrls c')"
    "\<And>d. find_meta c' d = find_meta c d" "\<And>b. b \<noteq> a \<Longrightarrow> ch_metas c' ! b = ch_metas c ! b"
    "mt_hidden (ch_metas c' ! a) = mt_hidden (ch_metas c ! a)" "in_place c' i a"
    "\<And>k. mt_controller (ch_metas c ! a) = Some k \<Longrightarrow> mt_controller (ch_metas c' ! a) = Some k \<and> ks = []"
    "mt_controller (ch_metas c ! a) = None \<Longrightarrow> ks = [length (ch_ctrls c)]"
    "\<And>l. l < length (ch_ctrls c) \<Longrightarrow> ct_live (ch_ctrls c' ! l) = ct_live (ch_ctrls c ! l)"
    "\<And>l. l < length (ch_ctrls c) \<Longrightarrow> mt_controller (ch_metas c ! a) \<noteq> Some l \<Longrightarrow> ch_ctrls c' ! l = ch_ctrls c ! l"
proof (cases "mt_controller (ch_metas c ! a)")
  case (Some k)
  let ?c1 = "set_ctrl c k (\<lambda>t. t\<lparr>ct_index := i\<rparr>)"
  let ?c2 = "linkScales ?c1 k"
  have k: "k < length (ch_ctrls c)" "ct_meta (ch_ctrls c ! k) = a"
    using find_meta_wfD(4)[OF w f] Some by (auto simp: owns_controller_def)
  then have "ct_meta (ch_ctrls ?c1 ! k) = a" by (simp add: set_ctrl_nth)
  note l = linkScales_effect[OF this]
  have "same_data c ?c2" using same_data_trans[OF set_ctrl_frame(1) l(1)] .
  moreover have "in_place ?c1 i a"
    by (rule in_place_from[OF set_ctrl_frame(1), where k = k]) (simp_all add: set_ctrl_frame set_ctrl_nth desc Some k)
  then have "in_place ?c2 i a" using in_place_but_axes[OF l(6,1,3)] by simp
  ultimately show ?thesis
    using Some k w l by (intro that[of ?c2 "[]"])
      (simp_all add: attach_controller_def set_ctrl_frame set_ctrl_nth set_ctrl_wf but_axes_eq[OF l(6)])
next
  case None
  let ?k = "length (ch_ctrls c)"
  let ?c1 = "c\<lparr>ch_ctrls := ch_ctrls c @ [\<lparr>ct_index = i, ct_meta = a, ct_type = mt_type (ch_metas c ! a), ct_live = True\<rparr>]\<rparr>"
  let ?c2 = "linkScales ?c1 ?k"
  let ?c3 = "set_meta ?c2 a (\<lambda>m. m\<lparr>mt_controller := Some ?k\<rparr>)"
  have lt: "a < length (ch_metas c)" by (rule find_meta_wfD(3)[OF w f])
  have "ct_meta (ch_ctrls ?c1 ! ?k) = a" by simp
  note l = linkScales_effect[OF this]
  have at: "attach_controller env c i a = (?c3, Inr [?k])"
    using None reg f by (simp add: attach_controller_def new_controller_def getDatasetMeta_def Let_def)
  have s1: "same_data c ?c1" by (simp add: same_data_def)
  have s3: "same_data c ?c3" using same_data_trans[OF same_data_trans[OF s1 l(1)] set_meta_frame(1)] .
  have find3: "find_meta ?c3 d = find_meta c d" for d
    by (simp add: set_meta_find l(7)) (simp add: find_meta_def live_metas_def)
  have metas3: "ch_metas ?c3 ! b = ch_metas c ! b" if "b \<noteq> a" for b
    using that l(5)[of b] by (simp add: set_meta_nth)
  have len3: "length (ch_metas ?c3) = length (ch_metas c)" by (simp add: set_meta_frame l(4))
  have live3: "live_metas ?c3 = live_metas c" by (simp add: set_meta_frame live_metas_def l(2))
  have a3: "mt_dataset (ch_metas ?c3 ! a) = mt_dataset (ch_metas c ! a)" "mt_controller (ch_metas ?c3 ! a) = Some ?k"
      "mt_hidden (ch_metas ?c3 ! a) = mt_hidden (ch_metas c ! a)" "mt_index (ch_metas ?c3 ! a) = mt_index (ch_metas c ! a)"
      "mt_type (ch_metas ?c3 ! a) = mt_type (ch_metas c ! a)" "mt_order (ch_metas ?c3 ! a) = mt_order (ch_metas c ! a)"
      "mt_visible (ch_metas ?c3 ! a) = mt_visible (ch_metas c ! a)"
    using lt by (simp_all add: set_meta_nth l(4) but_axes_eq[OF l(6)])
  have ct3: "ch_ctrls ?c3 = ch_ctrls ?c1" by (simp add: set_meta_frame l(3))
  have "mt_dataset (ch_metas ?c3 ! b) = mt_dataset (ch_metas c ! b)" for b
    using a3 metas3 by (cases "b = a") simp_all
  moreover have "owns_controller ?c3 b" if "b \<in> set (live_metas c)" for b
  proof (cases "b = a")
    case True
    then show ?thesis by (simp add: owns_controller_def a3 ct3)
  next
    case False
    with that w show ?thesis
      by (auto simp: wf_metas_def list_all_iff owns_controller_def metas3 ct3 nth_append split: option.splits)
  qed
  ultimately have "wf_metas ?c3"
    using w by (simp add: wf_metas_def live3 list_all_iff len3)
  moreover have "in_place ?c3 i a"
    by (rule in_place_from[OF s3 trans[OF a3(4) desc(1)] trans[OF a3(5) desc(2)] trans[OF a3(6) desc(3)]
          trans[OF a3(7) desc(4)] a3(3) a3(2)]) (simp_all add: ct3)
  ultimately show ?thesis
  proof (intro that[OF at])
    show "same_data c ?c3" by (fact s3)
    show "find_meta ?c3 d = find_meta c d" for d by (fact find3)
    show "b \<noteq> a \<Longrightarrow> ch_metas ?c3 ! b = ch_metas c ! b" for b by (rule metas3)
    show "mt_hidden (ch_metas ?c3 ! a) = mt_hidden (ch_metas c ! a)" by (fact a3)
    show "length (ch_metas ?c3) = length (ch_metas c)" by (fact len3)
    show "ch_metasets ?c3 = ch_metasets c" by (simp add: set_meta_frame l(2))
    show "length (ch_ctrls c) \<le> length (ch_ctrls ?c3)" by (simp add: ct3)
    show "l < length (ch_ctrls c) \<Longrightarrow> ct_live (ch_ctrls ?c3 ! l) = ct_live (ch_ctrls c ! l)"
      "l < length (ch_ctrls c) \<Longrightarrow> ch_ctrls ?c3 ! l = ch_ctrls c ! l" for l
      by (simp_all add: ct3 nth_append)
  qed (use None in simp_all)
qed

subsection \<open>One step of the update\<close>

definition retyped :: "chart \<Rightarrow> nat \<Rightarrow> nat \<Rightarrow> bool" where
  "retyped c i a \<longleftrightarrow> mt_type (ch_metas c ! a) \<noteq> [] \<and> mt_type (ch_metas c ! a) \<noteq> dataset_type_of c i"

text \<open>The metaset the update keeps for data set \<open>i\<close>, and the controller it discards for it.\<close>

definition keeps :: "chart \<Rightarrow> nat \<Rightarrow> nat option" where
  "keeps c i = (case find_meta c (dataset_at c i) of
     Some a \<Rightarrow> if retyped c i a then None else Some a | None \<Rightarrow> None)"

definition discards :: "chart \<Rightarrow> nat \<Rightarrow> nat option" where
  "discards c i = (case find_meta c (dataset_at c i) of
     Some a \<Rightarrow> if retyped c i a then mt_controller (ch_metas c ! a) else None | None \<Rightarrow> None)"

lemma meta_of_type_keeps: "keeps c i = Some a \<Longrightarrow> meta_of_type c i = (c, a)"
  by (auto simp: keeps_def meta_of_type_def getDatasetMeta_def retyped_def split: option.splits if_splits)

lemma meta_of_type_fresh:
  assumes w: "wf_metas c" and k: "keeps c i = None"
    and r: "\<And>a. find_meta c (dataset_at c i) = Some a \<Longrightarrow> i < length (ch_metasets c) \<and> ch_metasets c ! i = Some a"
  obtains c' a where "meta_of_type c i = (c', a)" "wf_metas c'" "same_data c c'"
    "find_meta c' (dataset_at c i) = Some a" "\<And>d. d \<noteq> dataset_at c i \<Longrightarrow> find_meta c' d = find_meta c d"
    "length (ch_metas c) \<le> a" "\<And>b. b < length (ch_metas c) \<Longrightarrow> ch_metas c' ! b = ch_metas c ! b"
    "mt_hidden (ch_metas c' ! a) = None" "mt_controller (ch_metas c' ! a) = None"
    "length (ch_metasets c) \<le> length (ch_metasets c')"
    "\<And>p. p < length (ch_metasets c) \<Longrightarrow> p \<noteq> i \<Longrightarrow> ch_metasets c' ! p = ch_metasets c ! p"
    "length (ch_ctrls c') = length (ch_ctrls c)"
    "\<And>l. ch_ctrls c' ! l = (if discards c i = Some l then (ch_ctrls c ! l)\<lparr>ct_live := False\<rparr> else ch_ctrls c ! l)"
proof (cases "find_meta c (dataset_at c i)")
  case None
  obtain c' a where g: "getDatasetMeta c i = (c', a)" by fastforce
  note n = getDatasetMeta_new[OF w None g]
  from n(3) have "mt_type (ch_metas c' ! a) = []" by (simp add: fresh_meta_def)
  with g have "meta_of_type c i = (c', a)" by (simp add: meta_of_type_def)
  then show ?thesis
    by (rule that[OF _ getDatasetMeta_wf[OF w g] n(6,2,7)])
      (use n None in \<open>simp_all add: fresh_meta_def nth_append discards_def\<close>)
next
  case (Some b)
  with k have rt: "retyped c i b" by (auto simp: keeps_def split: if_splits)
  from r[OF Some] have p: "i < length (ch_metasets c)" "ch_metasets c ! i = Some b" by simp_all
  let ?d = "destroyDatasetMeta c i"
  have ds: "dataset_at ?d i = dataset_at c i" by (rule dataset_at_same[OF destroy_frame(1)])
  have b: "mt_dataset (ch_metas c ! b) = dataset_at c i" by (rule find_meta_wfD(2)[OF w Some])
  have wd: "wf_metas ?d" by (rule destroy_wf[OF w p])
  have none: "find_meta ?d (dataset_at ?d i) = None" by (simp add: destroy_find[OF w p] b ds)
  obtain c' a where g: "getDatasetMeta ?d i = (c', a)" by fastforce
  note n = getDatasetMeta_new[OF wd none g]
  have "meta_of_type c i = (c', a)"
    using Some rt g by (simp add: meta_of_type_def getDatasetMeta_def retyped_def)
  moreover have "ch_ctrls ?d ! l = (if discards c i = Some l then (ch_ctrls c ! l)\<lparr>ct_live := False\<rparr> else ch_ctrls c ! l)" for l
    using find_meta_wfD(4)[OF w Some] rt Some
    by (auto simp: destroy_ctrls[OF p] discards_def owns_controller_def nth_list_update split: option.split)
  ultimately show ?thesis
    using n(2,3,4,5,7) n(1,8) getDatasetMeta_wf[OF wd g] same_data_trans[OF destroy_frame(1) n(6)]
    by (intro that[of c' a])
      (simp_all add: ds destroy_frame destroy_find[OF w p] b fresh_meta_def nth_append destroy_metasets)
qed

text \<open>What one step promises: the data set has its metaset in place, a metaset of the right type
  keeps its controller and its visibility, nothing else moves.\<close>

definition stepped :: "chart \<Rightarrow> nat \<Rightarrow> chart \<Rightarrow> nat list \<Rightarrow> nat \<Rightarrow> bool" where
  "stepped c i c' ks a \<longleftrightarrow>
     wf_metas c' \<and> same_data c c' \<and> find_meta c' (dataset_at c i) = Some a \<and> in_place c' i a \<and>
     (\<forall>d. d \<noteq> dataset_at c i \<longrightarrow> find_meta c' d = find_meta c d) \<and>
     (\<forall>d b. d \<noteq> dataset_at c i \<longrightarrow> find_meta c d = Some b \<longrightarrow> ch_metas c' ! b = ch_metas c ! b) \<and>
     length (ch_metasets c) \<le> length (ch_metasets c') \<and>
     (\<forall>p < length (ch_metasets c). p \<noteq> i \<longrightarrow> ch_metasets c' ! p = ch_metasets c ! p) \<and>
     length (ch_ctrls c) \<le> length (ch_ctrls c') \<and>
     (\<forall>b. keeps c i = Some b \<longrightarrow> a = b \<and> mt_hidden (ch_metas c' ! a) = mt_hidden (ch_metas c ! a) \<and>
        (\<forall>k. mt_controller (ch_metas c ! a) = Some k \<longrightarrow> mt_controller (ch_metas c' ! a) = Some k)) \<and>
     (keeps c i = None \<longrightarrow> mt_hidden (ch_metas c' ! a) = None) \<and>
     (\<forall>l < length (ch_ctrls c). ct_live (ch_ctrls c' ! l) = (ct_live (ch_ctrls c ! l) \<and> discards c i \<noteq> Some l)) \<and>
     (\<forall>d b l. d \<noteq> dataset_at c i \<longrightarrow> find_meta c d = Some b \<longrightarrow> mt_controller (ch_metas c ! b) = Some l \<longrightarrow>
        ch_ctrls c' ! l = ch_ctrls c ! l)"

lemma other_controller:
  assumes "wf_metas c" "find_meta c d = Some a" "find_meta c e = Some b" "d \<noteq> e"
    "mt_controller (ch_metas c ! a) = Some k" "mt_controller (ch_metas c ! b) = Some l"
  shows "k \<noteq> l"
  using find_meta_wfD[OF assms(1,2)] find_meta_wfD[OF assms(1,3)] assms(4-6) by (auto simp: owns_controller_def)

lemma update_controller_step:
  assumes w: "wf_metas c" and i: "i < length (ch_datasets c)"
    and reg: "ev_registered env (dataset_type_of c i)"
    and r: "\<And>a. find_meta c (dataset_at c i) = Some a \<Longrightarrow> retyped c i a \<Longrightarrow>
      i < length (ch_metasets c) \<and> ch_metasets c ! i = Some a"
  obtains c' ks a where "update_controller env c i = (c', Inr ks)" "stepped c i c' ks a"
proof -
  have "\<exists>c1 a. meta_of_type c i = (c1, a) \<and> wf_metas c1 \<and> same_data c c1 \<and> find_meta c1 (dataset_at c i) = Some a \<and>
      (\<forall>d. d \<noteq> dataset_at c i \<longrightarrow> find_meta c1 d = find_meta c d) \<and>
      (\<forall>d b. d \<noteq> dataset_at c i \<longrightarrow> find_meta c d = Some b \<longrightarrow> b \<noteq> a \<and> ch_metas c1 ! b = ch_metas c ! b) \<and>
      length (ch_metasets c) \<le> length (ch_metasets c1) \<and>
      (\<forall>p < length (ch_metasets c). p \<noteq> i \<longrightarrow> ch_metasets c1 ! p = ch_metasets c ! p) \<and>
      length (ch_ctrls c1) = length (ch_ctrls c) \<and>
      (\<forall>b. keeps c i = Some b \<longrightarrow> a = b \<and> ch_metas c1 ! a = ch_metas c ! a) \<and>
      (keeps c i = None \<longrightarrow> mt_hidden (ch_metas c1 ! a) = None) \<and>
      (\<forall>l. ch_ctrls c1 ! l = (if discards c i = Some l then (ch_ctrls c ! l)\<lparr>ct_live := False\<rparr> else ch_ctrls c ! l))"
  proof (cases "keeps c i")
    case (Some a)
    then have f: "find_meta c (dataset_at c i) = Some a" "\<not> retyped c i a"
      by (auto simp: keeps_def split: option.splits if_splits)
    have "b \<noteq> a" if "d \<noteq> dataset_at c i" "find_meta c d = Some b" for d b
      using find_meta_wfD(2)[OF w that(2)] find_meta_wfD(2)[OF w f(1)] that(1) by auto
    with f Some w show ?thesis
      by (intro exI[of _ c] exI[of _ a]) (simp add: meta_of_type_keeps discards_def)
  next
    case None
    have r': "i < length (ch_metasets c) \<and> ch_metasets c ! i = Some a" if "find_meta c (dataset_at c i) = Some a" for a
      using None r[OF that] that by (auto simp: keeps_def split: if_splits)
    obtain c1 a where m: "meta_of_type c i = (c1, a)" "wf_metas c1" "same_data c c1"
      "find_meta c1 (dataset_at c i) = Some a" "\<And>d. d \<noteq> dataset_at c i \<Longrightarrow> find_meta c1 d = find_meta c d"
      "length (ch_metas c) \<le> a" "\<And>b. b < length (ch_metas c) \<Longrightarrow> ch_metas c1 ! b = ch_metas c ! b"
      "mt_hidden (ch_metas c1 ! a) = None" "mt_controller (ch_metas c1 ! a) = None"
      "length (ch_metasets c) \<le> length (ch_metasets c1)"
      "\<And>p. p < length (ch_metasets c) \<Longrightarrow> p \<noteq> i \<Longrightarrow> ch_metasets c1 ! p = ch_metasets c ! p"
      "length (ch_ctrls c1) = length (ch_ctrls c)"
      "\<And>l. ch_ctrls c1 ! l = (if discards c i = Some l then (ch_ctrls c ! l)\<lparr>ct_live := False\<rparr> else ch_ctrls c ! l)"
      by (rule meta_of_type_fresh[OF w None r'], assumption, rule that, assumption+)
    have "b \<noteq> a \<and> ch_metas c1 ! b = ch_metas c ! b" if "find_meta c d = Some b" for d b
      using find_meta_wfD(3)[OF w that] m(6,7) by auto
    with m None show ?thesis by (intro exI[of _ c1] exI[of _ a]) simp
  qed
  then obtain c1 a where m: "meta_of_type c i = (c1, a)" "wf_metas c1" "same_data c c1"
      "find_meta c1 (dataset_at c i) = Some a" "\<And>d. d \<noteq> dataset_at c i \<Longrightarrow> find_meta c1 d = find_meta c d"
      "\<And>d b. d \<noteq> dataset_at c i \<Longrightarrow> find_meta c d = Some b \<Longrightarrow> b \<noteq> a \<and> ch_metas c1 ! b = ch_metas c ! b"
      "length (ch_metasets c) \<le> length (ch_metasets c1)"
      "\<And>p. p < length (ch_metasets c) \<Longrightarrow> p \<noteq> i \<Longrightarrow> ch_metasets c1 ! p = ch_metasets c ! p"
      "length (ch_ctrls c1) = length (ch_ctrls c)"
      "\<And>b. keeps c i = Some b \<Longrightarrow> a = b \<and> ch_metas c1 ! a = ch_metas c ! a"
      "keeps c i = None \<Longrightarrow> mt_hidden (ch_metas c1 ! a) = None"
      "\<And>l. ch_ctrls c1 ! l = (if discards c i = Some l then (ch_ctrls c ! l)\<lparr>ct_live := False\<rparr> else ch_ctrls c ! l)"
    by (elim exE conjE) (rule that; blast)
  have i1: "i < length (ch_datasets c1)" using i m(3) by (simp add: same_data_def)
  have f1: "find_meta c1 (dataset_at c1 i) = Some a" using m(4) dataset_at_same[OF m(3)] by simp
  let ?c2 = "describe_meta env c1 i a"
  note d = describe_meta_effect[OF m(2) i1 f1, where env = env]
  have i2: "i < length (ch_datasets ?c2)" using i1 d(2) by (simp add: same_data_def)
  have f2: "find_meta ?c2 (dataset_at ?c2 i) = Some a" by (simp add: dataset_at_same[OF d(2)] d(6) f1)
  have t2: "dataset_type_of ?c2 i = dataset_type_of c1 i" "dataset_type_of c1 i = dataset_type_of c i"
    by (rule dataset_type_same[OF d(2)], rule dataset_type_same[OF m(3)])
  have o2: "ch_objs ?c2 (ch_datasets ?c2 ! i) = ch_objs c1 (ch_datasets c1 ! i)" using d(2) by (simp add: same_data_def)
  have sh: "shown (ch_metas ?c2 ! a) ds = shown (ch_metas c1 ! a) ds" for ds by (simp add: shown_def d(11))
  have pre: "ev_registered env (mt_type (ch_metas ?c2 ! a))" "mt_index (ch_metas ?c2 ! a) = i"
      "mt_type (ch_metas ?c2 ! a) = dataset_type_of ?c2 i"
      "mt_order (ch_metas ?c2 ! a) = ds_order (ch_objs ?c2 (ch_datasets ?c2 ! i))"
      "mt_visible (ch_metas ?c2 ! a) = shown (ch_metas ?c2 ! a) (ch_objs ?c2 (ch_datasets ?c2 ! i))"
    by (simp_all add: d(8-10,13) t2 reg o2 sh)
  obtain c' ks where at: "attach_controller env ?c2 i a = (c', Inr ks)" "wf_metas c'" "same_data ?c2 c'"
    "ch_metasets c' = ch_metasets ?c2" "length (ch_metas c') = length (ch_metas ?c2)"
    "length (ch_ctrls ?c2) \<le> length (ch_ctrls c')"
    "\<And>d. find_meta c' d = find_meta ?c2 d" "\<And>b. b \<noteq> a \<Longrightarrow> ch_metas c' ! b = ch_metas ?c2 ! b"
    "mt_hidden (ch_metas c' ! a) = mt_hidden (ch_metas ?c2 ! a)" "in_place c' i a"
    "\<And>k. mt_controller (ch_metas ?c2 ! a) = Some k \<Longrightarrow> mt_controller (ch_metas c' ! a) = Some k \<and> ks = []"
    "mt_controller (ch_metas ?c2 ! a) = None \<Longrightarrow> ks = [length (ch_ctrls ?c2)]"
    "\<And>l. l < length (ch_ctrls ?c2) \<Longrightarrow> ct_live (ch_ctrls c' ! l) = ct_live (ch_ctrls ?c2 ! l)"
    "\<And>l. l < length (ch_ctrls ?c2) \<Longrightarrow> mt_controller (ch_metas ?c2 ! a) \<noteq> Some l \<Longrightarrow> ch_ctrls c' ! l = ch_ctrls ?c2 ! l"
    by (rule attach_controller_effect[OF d(1) i2 f2 pre]) (rule that; assumption)
  have up: "update_controller env c i = (c', Inr ks)" by (simp add: update_controller_def m(1) at(1))
  have sd: "same_data c c'" by (rule same_data_trans[OF same_data_trans[OF m(3) d(2)] at(3)])
  have other: "ch_ctrls c' ! l = ch_ctrls c ! l"
    if n: "e \<noteq> dataset_at c i" and fe: "find_meta c e = Some b" and l: "mt_controller (ch_metas c ! b) = Some l" for e b l
  proof -
    have len: "l < length (ch_ctrls c)" using find_meta_wfD(4)[OF w fe] l by (simp add: owns_controller_def)
    have "discards c i \<noteq> Some l"
      using other_controller[OF w fe _ n l] by (auto simp: discards_def split: option.splits if_splits)
    moreover have "mt_controller (ch_metas c1 ! a) \<noteq> Some l"
      using other_controller[OF m(2) m(5)[OF n, unfolded fe] m(4) n] m(6)[OF n fe] l by auto
    ultimately show ?thesis using at(14)[of l] len by (simp add: d(4,12) m(9,12))
  qed
  have "stepped c i c' ks a"
    unfolding stepped_def
  proof (intro conjI allI impI)
    show "ct_live (ch_ctrls c' ! l) = (ct_live (ch_ctrls c ! l) \<and> discards c i \<noteq> Some l)"
      if "l < length (ch_ctrls c)" for l
      using that at(13)[of l] by (simp add: d(4) m(9,12))
    show "mt_controller (ch_metas c' ! a) = Some k"
      if "keeps c i = Some b" "mt_controller (ch_metas c ! a) = Some k" for b k
      using at(11)[of k] that(2) unfolding d(12) conjunct2[OF m(10)[OF that(1)]] by blast
    show "mt_hidden (ch_metas c' ! a) = mt_hidden (ch_metas c ! a)" if "keeps c i = Some b" for b
      unfolding at(9) d(11) conjunct2[OF m(10)[OF that]] ..
  qed (use m d at sd other in \<open>simp_all add: dataset_at_same[OF m(3)]\<close>)
  with up show ?thesis by (rule that)
qed

subsection \<open>The loop over the data sets\<close>

definition kept :: "chart \<Rightarrow> chart \<Rightarrow> nat \<Rightarrow> nat \<Rightarrow> bool" where
  "kept c0 c i a \<longleftrightarrow>
     (case keeps c0 i of
        Some b \<Rightarrow> a = b \<and> mt_hidden (ch_metas c ! a) = mt_hidden (ch_metas c0 ! a) \<and>
          (case mt_controller (ch_metas c0 ! a) of Some k \<Rightarrow> mt_controller (ch_metas c ! a) = Some k | None \<Rightarrow> True)
      | None \<Rightarrow> mt_hidden (ch_metas c ! a) = None)"

definition progress :: "chart \<Rightarrow> nat \<Rightarrow> chart \<Rightarrow> bool" where
  "progress c0 j c \<longleftrightarrow>
     wf_metas c \<and> same_data c0 c \<and>
     (\<forall>i < j. \<exists>a. find_meta c (dataset_at c0 i) = Some a \<and> in_place c i a \<and> kept c0 c i a) \<and>
     (\<forall>d. d \<notin> dataset_at c0 ` {..< j} \<longrightarrow> find_meta c d = find_meta c0 d) \<and>
     (\<forall>d a. d \<notin> dataset_at c0 ` {..< j} \<longrightarrow> find_meta c0 d = Some a \<longrightarrow> ch_metas c ! a = ch_metas c0 ! a) \<and>
     length (ch_metasets c0) \<le> length (ch_metasets c) \<and>
     (\<forall>p < length (ch_metasets c0). j \<le> p \<longrightarrow> ch_metasets c ! p = ch_metasets c0 ! p) \<and>
     length (ch_ctrls c0) \<le> length (ch_ctrls c) \<and>
     (\<forall>l < length (ch_ctrls c0). ct_live (ch_ctrls c ! l) =
        (ct_live (ch_ctrls c0 ! l) \<and> (\<forall>i < j. discards c0 i \<noteq> Some l)))"

lemma in_place_same:
  assumes "same_data c c'" "ch_metas c' ! a = ch_metas c ! a" "in_place c i a"
    "\<And>k. mt_controller (ch_metas c ! a) = Some k \<Longrightarrow> k < length (ch_ctrls c) \<Longrightarrow>
       k < length (ch_ctrls c') \<and> ch_ctrls c' ! k = ch_ctrls c ! k"
  shows "in_place c' i a"
proof -
  from assms(3) obtain k where k: "k < length (ch_ctrls c)" "mt_controller (ch_metas c ! a) = Some k"
    "ct_index (ch_ctrls c ! k) = i" by (auto simp: in_place_def)
  from assms(3) show ?thesis
    by (intro in_place_from[OF assms(1), where k = k]) (use assms(2) assms(4)[OF k(2,1)] k in \<open>simp_all add: in_place_def\<close>)
qed

lemma keeps_cong:
  assumes "same_data c0 c" "find_meta c (dataset_at c0 i) = find_meta c0 (dataset_at c0 i)"
    "\<And>a. find_meta c0 (dataset_at c0 i) = Some a \<Longrightarrow> ch_metas c ! a = ch_metas c0 ! a"
  shows "keeps c i = keeps c0 i" "discards c i = discards c0 i"
    "find_meta c0 (dataset_at c0 i) = Some a \<Longrightarrow> retyped c i a = retyped c0 i a"
  using assms(2,3) dataset_at_same[OF assms(1), of i] dataset_type_same[OF assms(1), of i]
  by (auto simp: keeps_def discards_def retyped_def split: option.split)

lemma progress_step:
  assumes p: "progress c0 j c" and j: "j < length (ch_datasets c0)" and dist: "distinct (ch_datasets c0)"
    and st: "stepped c j c' ks a"
  shows "progress c0 (Suc j) c'"
proof -
  have sd: "same_data c0 c" using p by (simp add: progress_def)
  have dj: "dataset_at c j = dataset_at c0 j" by (rule dataset_at_same[OF sd])
  have inj: "dataset_at c0 i \<noteq> dataset_at c0 j" if "i < j" for i
    using that j dist by (auto simp: dataset_at_def nth_eq_iff_index_eq)
  then have new: "dataset_at c0 j \<notin> dataset_at c0 ` {..< j}" by (metis imageE lessThan_iff)
  have cong: "keeps c j = keeps c0 j" "discards c j = discards c0 j"
    using p new keeps_cong[OF sd] by (auto simp: progress_def)
  have w: "wf_metas c" using p by (simp add: progress_def)
  show ?thesis
    unfolding progress_def
  proof (intro conjI allI impI)
    show "wf_metas c'" using st by (simp add: stepped_def)
    show "same_data c0 c'" using st by (intro same_data_trans[OF sd]) (simp add: stepped_def)
    show "\<exists>b. find_meta c' (dataset_at c0 i) = Some b \<and> in_place c' i b \<and> kept c0 c' i b" if "i < Suc j" for i
    proof (cases "i = j")
      case True
      have "kept c0 c' j a"
      proof (cases "keeps c0 j")
        case None
        with st cong(1) show ?thesis by (simp add: kept_def stepped_def)
      next
        case (Some b)
        then have "find_meta c0 (dataset_at c0 j) = Some b" by (auto simp: keeps_def split: option.splits if_splits)
        then have "ch_metas c ! b = ch_metas c0 ! b" using p new by (auto simp: progress_def)
        with st cong(1) Some show ?thesis by (auto simp: kept_def stepped_def split: option.split)
      qed
      with st True dj show ?thesis by (auto simp: stepped_def)
    next
      case False
      with that have "i < j" by simp
      then obtain b where b: "find_meta c (dataset_at c0 i) = Some b" "in_place c i b" "kept c0 c i b"
        using p by (auto simp: progress_def)
      have ne: "dataset_at c0 i \<noteq> dataset_at c j" using inj[OF \<open>i < j\<close>] dj by simp
      have m: "ch_metas c' ! b = ch_metas c ! b" and f: "find_meta c' (dataset_at c0 i) = Some b"
        using st ne b(1) by (auto simp: stepped_def)
      have "k < length (ch_ctrls c') \<and> ch_ctrls c' ! k = ch_ctrls c ! k"
        if "mt_controller (ch_metas c ! b) = Some k" "k < length (ch_ctrls c)" for k
        using st ne b(1) that by (auto simp: stepped_def)
      then have "in_place c' i b" using st by (intro in_place_same[OF _ m b(2)]) (simp_all add: stepped_def)
      moreover have "kept c0 c' i b" using b(3) m by (auto simp: kept_def split: option.splits)
      ultimately show ?thesis using f by blast
    qed
    show "find_meta c' d = find_meta c0 d" if "d \<notin> dataset_at c0 ` {..< Suc j}" for d
    proof -
      from that have "d \<noteq> dataset_at c j" "d \<notin> dataset_at c0 ` {..< j}" by (auto simp: dj)
      with st p show ?thesis by (simp add: stepped_def progress_def)
    qed
    show "ch_metas c' ! b = ch_metas c0 ! b" if "d \<notin> dataset_at c0 ` {..< Suc j}" "find_meta c0 d = Some b" for d b
    proof -
      from that have d: "d \<noteq> dataset_at c j" "d \<notin> dataset_at c0 ` {..< j}" by (auto simp: dj)
      with p that(2) have "find_meta c d = Some b" "ch_metas c ! b = ch_metas c0 ! b" by (auto simp: progress_def)
      with st d show ?thesis by (auto simp: stepped_def)
    qed
    show "length (ch_metasets c0) \<le> length (ch_metasets c')" "length (ch_ctrls c0) \<le> length (ch_ctrls c')"
      using p st by (auto simp: progress_def stepped_def)
    show "ch_metasets c' ! q = ch_metasets c0 ! q" if "q < length (ch_metasets c0)" "Suc j \<le> q" for q
      using that p st by (auto simp: progress_def stepped_def)
    show "ct_live (ch_ctrls c' ! l) = (ct_live (ch_ctrls c0 ! l) \<and> (\<forall>i < Suc j. discards c0 i \<noteq> Some l))"
      if "l < length (ch_ctrls c0)" for l
    proof -
      have "l < length (ch_ctrls c)" using p that by (auto simp: progress_def)
      with st have "ct_live (ch_ctrls c' ! l) = (ct_live (ch_ctrls c ! l) \<and> discards c j \<noteq> Some l)"
        by (simp add: stepped_def)
      also have "ct_live (ch_ctrls c ! l) = (ct_live (ch_ctrls c0 ! l) \<and> (\<forall>i < j. discards c0 i \<noteq> Some l))"
        using p that by (simp add: progress_def)
      finally show ?thesis using cong(2) by (auto simp: less_Suc_eq)
    qed
  qed
qed

lemma progress_start: "wf_metas c \<Longrightarrow> progress c 0 c"
  by (simp add: progress_def)

lemma update_controllers_progress:
  assumes "progress c0 j c" "j \<le> length (ch_datasets c0)" "distinct (ch_datasets c0)"
    and reg: "\<And>i. i < length (ch_datasets c0) \<Longrightarrow> ev_registered env (dataset_type_of c0 i)"
    and r: "\<And>i a. i < length (ch_datasets c0) \<Longrightarrow> find_meta c0 (dataset_at c0 i) = Some a \<Longrightarrow> retyped c0 i a \<Longrightarrow>
      i < length (ch_metasets c0) \<and> ch_metasets c0 ! i = Some a"
  shows "\<exists>c' news'. update_controllers env [j..<length (ch_datasets c0)] news c = (c', Inr news') \<and>
    progress c0 (length (ch_datasets c0)) c'"
  using assms(1,2)
proof (induction "length (ch_datasets c0) - j" arbitrary: j c news)
  case 0
  then show ?case by simp
next
  case (Suc n)
  then have j: "j < length (ch_datasets c0)" by simp
  have sd: "same_data c0 c" using Suc.prems by (simp add: progress_def)
  have w: "wf_metas c" using Suc.prems by (simp add: progress_def)
  have dj: "dataset_at c j = dataset_at c0 j" by (rule dataset_at_same[OF sd])
  have new: "dataset_at c0 j \<notin> dataset_at c0 ` {..< j}"
    using j assms(3) by (auto simp: dataset_at_def nth_eq_iff_index_eq)
  then have f: "find_meta c (dataset_at c0 j) = find_meta c0 (dataset_at c0 j)"
    and m: "find_meta c0 (dataset_at c0 j) = Some a \<Longrightarrow> ch_metas c ! a = ch_metas c0 ! a" for a
    using Suc.prems(1) by (auto simp: progress_def)
  have "j < length (ch_metasets c) \<and> ch_metasets c ! j = Some a"
    if "find_meta c (dataset_at c j) = Some a" "retyped c j a" for a
    using that r[OF j, of a] keeps_cong(3)[OF sd f m, of a] f dj Suc.prems(1) by (auto simp: progress_def)
  moreover have "j < length (ch_datasets c)" using j sd by (simp add: same_data_def)
  moreover have "ev_registered env (dataset_type_of c j)" using reg[OF j] dataset_type_same[OF sd] by simp
  ultimately obtain c1 ks a where u: "update_controller env c j = (c1, Inr ks)" "stepped c j c1 ks a"
    using update_controller_step[OF w] by metis
  have rem: "n = length (ch_datasets c0) - Suc j" using Suc.hyps(2) by simp
  have p1: "progress c0 (Suc j) c1" by (rule progress_step[OF Suc.prems(1) j assms(3) u(2)])
  have "[j..<length (ch_datasets c0)] = j # [Suc j..<length (ch_datasets c0)]" using j by (simp add: upt_conv_Cons)
  moreover obtain c' news' where "update_controllers env [Suc j..<length (ch_datasets c0)] (news @ ks) c1 = (c', Inr news')"
    "progress c0 (length (ch_datasets c0)) c'"
    using Suc.hyps(1)[OF rem p1, of "news @ ks"] j by auto
  ultimately show ?case using u(1) by simp
qed

subsection \<open>Removing the metasets of data sets that are gone\<close>

definition referenced :: "chart \<Rightarrow> nat \<Rightarrow> bool" where
  "referenced c a \<longleftrightarrow> mt_dataset (ch_metas c ! a) \<in> Some ` set (ch_datasets c)"

definition purged :: "chart \<Rightarrow> nat \<Rightarrow> chart \<Rightarrow> bool" where
  "purged c0 j c \<longleftrightarrow>
     wf_metas c \<and> same_data c0 c \<and> ch_metas c = ch_metas c0 \<and> length (ch_ctrls c) = length (ch_ctrls c0) \<and>
     length (ch_metasets c) = length (ch_metasets c0) \<and>
     (\<forall>p < length (ch_metasets c0). ch_metasets c ! p =
        (case ch_metasets c0 ! p of Some a \<Rightarrow> if p < j \<and> \<not> referenced c0 a then None else Some a | None \<Rightarrow> None)) \<and>
     (\<forall>p < j. \<forall>a k. ch_metasets c0 ! p = Some a \<longrightarrow> \<not> referenced c0 a \<longrightarrow> mt_controller (ch_metas c0 ! a) = Some k \<longrightarrow>
        \<not> ct_live (ch_ctrls c ! k))"

lemma remove_unreferenced_step:
  assumes p: "purged c0 j c" and j: "j < length (ch_metasets c0)"
  shows "purged c0 (Suc j) (remove_unreferenced j c)"
proof -
  have w: "wf_metas c" and lm: "length (ch_metasets c) = length (ch_metasets c0)" and m: "ch_metas c = ch_metas c0"
    and sd: "same_data c0 c" using p by (simp_all add: purged_def)
  have at: "ch_metasets c ! j = ch_metasets c0 ! j"
    using p j by (auto simp: purged_def split: option.split)
  show ?thesis
  proof (cases "ch_metasets c0 ! j")
    case None
    with p at show ?thesis by (auto simp: purged_def remove_unreferenced_def less_Suc_eq split: option.splits)
  next
    case (Some a)
    have ra: "mt_dataset (ch_metas c ! a) \<in> Some ` set (ch_datasets c) \<longleftrightarrow> referenced c0 a"
      using sd m by (simp add: referenced_def same_data_def)
    show ?thesis
    proof (cases "referenced c0 a")
      case True
      with Some at ra have "remove_unreferenced j c = c" by (simp add: remove_unreferenced_def)
      with p Some True show ?thesis by (auto simp: purged_def less_Suc_eq split: option.splits)
    next
      case False
      let ?d = "destroyDatasetMeta c j"
      have r: "remove_unreferenced j c = ?d" using False Some at ra by (simp add: remove_unreferenced_def)
      have pj: "j < length (ch_metasets c)" "ch_metasets c ! j = Some a" using j lm at Some by simp_all
      have oa: "owns_controller c a"
        using w nth_live[OF pj] by (simp add: wf_metas_def list_all_iff)
      have dead: "\<not> ct_live (ch_ctrls ?d ! k)" if "\<not> ct_live (ch_ctrls c ! k)" for k
        using that by (simp add: destroy_ctrls[OF pj] nth_update split: option.split)
      have gone: "\<not> ct_live (ch_ctrls ?d ! k)" if "mt_controller (ch_metas c0 ! a) = Some k" for k
        using that oa m by (simp add: destroy_ctrls[OF pj] owns_controller_def)
      show ?thesis
        unfolding r purged_def
      proof (intro conjI allI impI)
        show "wf_metas ?d" by (rule destroy_wf[OF w pj])
        show "same_data c0 ?d" by (rule same_data_trans[OF sd destroy_frame(1)])
        show "ch_metasets ?d ! q = (case ch_metasets c0 ! q of
            Some b \<Rightarrow> if q < Suc j \<and> \<not> referenced c0 b then None else Some b | None \<Rightarrow> None)"
          if "q < length (ch_metasets c0)" for q
        proof (cases "q = j")
          case True
          then show ?thesis using Some False pj by (simp add: destroy_metasets)
        next
          case ne: False
          then have "ch_metasets ?d ! q = ch_metasets c ! q" by (simp add: destroy_metasets)
          with p that ne show ?thesis by (auto simp: purged_def less_Suc_eq split: option.split)
        qed
        show "\<not> ct_live (ch_ctrls ?d ! k)"
          if "q < Suc j" "ch_metasets c0 ! q = Some b" "\<not> referenced c0 b" "mt_controller (ch_metas c0 ! b) = Some k" for q b k
        proof (cases "q = j")
          case True
          with that Some gone show ?thesis by simp
        next
          case False
          with that have "q < j" by simp
          with that p have "\<not> ct_live (ch_ctrls c ! k)" unfolding purged_def by blast
          then show ?thesis by (rule dead)
        qed
      qed (use p in \<open>simp_all add: purged_def destroy_frame\<close>)
    qed
  qed
qed

lemma remove_unreferenced_all:
  "purged c0 0 c \<Longrightarrow> j \<le> length (ch_metasets c0) \<Longrightarrow> purged c0 j (fold remove_unreferenced [0..<j] c)"
  by (induction j) (simp_all add: remove_unreferenced_step)

lemma removeUnreferencedMetasets_purged:
  assumes "wf_metas c"
  shows "purged c (length (ch_metasets c)) (removeUnreferencedMetasets c)"
proof -
  let ?c1 = "if length (ch_metasets c) > length (ch_datasets c) then c\<lparr>ch_stacks := False\<rparr> else c"
  have "wf_metas (c\<lparr>ch_stacks := False\<rparr>)"
  proof -
    have "owns_controller (c\<lparr>ch_stacks := False\<rparr>) = owns_controller c"
      by (intro ext) (simp add: owns_controller_def split: option.split)
    with assms show ?thesis by (simp add: wf_metas_def live_metas_def)
  qed
  with assms have "purged c 0 ?c1" by (auto simp: purged_def same_data_def split: option.split)
  from remove_unreferenced_all[OF this, of "length (ch_metasets c)"] show ?thesis
    by (cases "length (ch_metasets c) > length (ch_datasets c)") (simp_all add: removeUnreferencedMetasets_def)
qed

lemma purged_all:
  assumes w: "wf_metas c0" and p: "purged c0 (length (ch_metasets c0)) c"
  shows "a \<in> set (live_metas c) \<longleftrightarrow> a \<in> set (live_metas c0) \<and> referenced c0 a"
    and "d \<in> Some ` set (ch_datasets c0) \<Longrightarrow> find_meta c d = find_meta c0 d"
    and "d \<notin> Some ` set (ch_datasets c0) \<Longrightarrow> find_meta c d = None"
    and "i < length (ch_metasets c0) \<Longrightarrow> ch_metasets c0 ! i = Some a \<Longrightarrow> referenced c0 a \<Longrightarrow> ch_metasets c ! i = Some a"
    and "a \<in> set (live_metas c0) \<Longrightarrow> \<not> referenced c0 a \<Longrightarrow> mt_controller (ch_metas c0 ! a) = Some k \<Longrightarrow> \<not> ct_live (ch_ctrls c ! k)"
proof -
  have wc: "wf_metas c" and m: "ch_metas c = ch_metas c0" and lm: "length (ch_metasets c) = length (ch_metasets c0)"
    using p by (simp_all add: purged_def)
  have at: "ch_metasets c ! q = (case ch_metasets c0 ! q of
      Some b \<Rightarrow> if \<not> referenced c0 b then None else Some b | None \<Rightarrow> None)" if "q < length (ch_metasets c0)" for q
    using p that by (simp add: purged_def split: option.split)
  show live: "a \<in> set (live_metas c) \<longleftrightarrow> a \<in> set (live_metas c0) \<and> referenced c0 a" for a
  proof -
    have "a \<in> set (live_metas c) \<longleftrightarrow> (\<exists>q < length (ch_metasets c0). ch_metasets c ! q = Some a)"
      unfolding live_metas_iff by (auto simp: in_set_conv_nth lm)
    moreover have "a \<in> set (live_metas c0) \<longleftrightarrow> (\<exists>q < length (ch_metasets c0). ch_metasets c0 ! q = Some a)"
      unfolding live_metas_iff by (auto simp: in_set_conv_nth)
    ultimately show ?thesis using at by (auto split: option.splits if_splits)
  qed
  show "find_meta c d = find_meta c0 d" if "d \<in> Some ` set (ch_datasets c0)"
  proof -
    have "find_meta c d = Some b \<longleftrightarrow> find_meta c0 d = Some b" for b
      using that by (auto simp: find_meta_wf[OF wc] find_meta_wf[OF w] live m referenced_def)
    then show ?thesis by (cases "find_meta c d"; cases "find_meta c0 d"; metis option.distinct(1))
  qed
  show "find_meta c d = None" if "d \<notin> Some ` set (ch_datasets c0)"
    using that by (auto simp: find_meta_None live m referenced_def)
  show "ch_metasets c ! i = Some a" if "i < length (ch_metasets c0)" "ch_metasets c0 ! i = Some a" "referenced c0 a"
    using at[OF that(1)] that by simp
  show "\<not> ct_live (ch_ctrls c ! k)"
    if "a \<in> set (live_metas c0)" "\<not> referenced c0 a" "mt_controller (ch_metas c0 ! a) = Some k"
  proof -
    from that(1) obtain q where "q < length (ch_metasets c0)" "ch_metasets c0 ! q = Some a"
      unfolding live_metas_iff by (auto simp: in_set_conv_nth)
    with that p show ?thesis unfolding purged_def by blast
  qed
qed

subsection \<open>The metasets after an update\<close>

text \<open>When every data set has its metaset in place, sorting by index lines the metasets up and
  what is cut off are holes.\<close>

lemma sort_by_index:
  assumes "distinct as" "\<And>a. a \<in> set as \<longleftrightarrow> (\<exists>i < n. f i = a)" "\<And>i. i < n \<Longrightarrow> idx (f i) = i"
  shows "sort_by (\<lambda>a b. of_nat (idx a) - of_nat (idx b) :: rat) as = map f [0..<n]"
proof -
  let ?g = "\<lambda>a. of_nat (idx a) :: rat"
  have s: "sort_by (\<lambda>a b. of_nat (idx a) - of_nat (idx b) :: rat) as = sort_key ?g as"
    by (rule sort_by_key) simp
  have inj: "inj_on ?g (set as)"
    using assms(2,3) by (intro inj_onI) (metis of_nat_eq_iff)
  have l: "map ?g (sort_key ?g as) = map ?g (map f [0..<n])"
  proof (rule sorted_distinct_set_unique)
    show "distinct (map ?g (sort_key ?g as))" using assms(1) inj by (simp add: distinct_map)
    show "sorted (map ?g (map f [0..<n]))" using assms(3) by (simp add: sorted_iff_nth_mono)
    show "distinct (map ?g (map f [0..<n]))" using assms(3) by (simp add: distinct_map inj_on_def)
    have "set as = f ` {0..<n}" using assms(2) by auto
    then show "set (map ?g (sort_key ?g as)) = set (map ?g (map f [0..<n]))" by (simp add: image_image)
  qed simp
  have "set (sort_key ?g as) \<union> set (map f [0..<n]) \<subseteq> set as" using assms(2) by auto
  from map_inj_on[OF l inj_on_subset[OF inj this]] have "sort_key ?g as = map f [0..<n]" .
  with s show ?thesis by simp
qed

lemma fold_destroy_holes:
  "(\<And>i. i \<in> set is \<Longrightarrow> i < length (ch_metasets c) \<and> ch_metasets c ! i = None) \<Longrightarrow>
   fold (\<lambda>i c. destroyDatasetMeta c i) is c = c"
  by (induction "is") (simp_all add: destroy_hole)

lemma updateMetasets_lines_up:
  assumes w: "wf_metas c" and n: "n = length (ch_datasets c)"
    and f: "\<And>a. a \<in> set (live_metas c) \<longleftrightarrow> (\<exists>i < n. f i = a)" "\<And>i. i < n \<Longrightarrow> mt_index (ch_metas c ! f i) = i"
  shows "ch_metasets (updateMetasets c) = map (Some \<circ> f) [0..<n]"
    and "ch_sorted (updateMetasets c) = map Some (sort_by (compare2Level (\<lambda>a. mt_order (ch_metas c ! a))
      (\<lambda>a. of_nat (mt_index (ch_metas c ! a)))) (map f [0..<n]))"
    and "ch_metas (updateMetasets c) = ch_metas c" "ch_ctrls (updateMetasets c) = ch_ctrls c" "same_data c (updateMetasets c)"
proof -
  let ?cmp = "\<lambda>a b. of_nat (mt_index (ch_metas c ! a)) - of_nat (mt_index (ch_metas c ! b)) :: rat"
  have d: "distinct (live_metas c)" using w by (simp add: wf_metas_def)
  have s: "sort_by ?cmp (present (ch_metasets c)) = map f [0..<n]"
    using sort_by_index[OF d f] by (simp add: live_metas_def)
  then have len: "n \<le> length (ch_metasets c)"
    using length_present[of "ch_metasets c"] length_sort_by[of ?cmp "present (ch_metasets c)"] by simp
  let ?ms = "map Some (map f [0..<n]) @ replicate (length (ch_metasets c) - n) None"
  let ?c1 = "c\<lparr>ch_metasets := ?ms\<rparr>"
  have sh: "sort_holes ?cmp (ch_metasets c) = ?ms" by (simp add: sort_holes_def s Let_def)
  have fd: "fold (\<lambda>i c. destroyDatasetMeta c i) [n..<length (ch_metasets c)] ?c1 = ?c1"
    by (rule fold_destroy_holes) (auto simp: nth_append)
  let ?ms2 = "if length (ch_metasets c) > n then splice ?ms n (length (ch_metasets c) - n) [] else ?ms"
  have ms2: "?ms2 = map (Some \<circ> f) [0..<n]" using len by (simp add: splice_def)
  have u: "updateMetasets c = (let c2 = ?c1\<lparr>ch_metasets := ?ms2\<rparr>
      in c2\<lparr>ch_sorted := sort_holes
           (compare2Level (\<lambda>a. mt_order (ch_metas c2 ! a)) (\<lambda>a. of_nat (mt_index (ch_metas c2 ! a)))) (ch_metasets c2)\<rparr>)"
    unfolding updateMetasets_def Let_def sh n[symmetric] fd by simp
  show "ch_metasets (updateMetasets c) = map (Some \<circ> f) [0..<n]" unfolding u ms2 by (simp add: Let_def)
  have pr: "present (map (Some \<circ> f) [0..<n]) = map f [0..<n]" using present_Somes[of "map f [0..<n]"] by simp
  show "ch_sorted (updateMetasets c) = map Some (sort_by (compare2Level (\<lambda>a. mt_order (ch_metas c ! a))
      (\<lambda>a. of_nat (mt_index (ch_metas c ! a)))) (map f [0..<n]))"
    unfolding u ms2 by (simp add: Let_def sort_holes_def pr)
  show "ch_metas (updateMetasets c) = ch_metas c" "ch_ctrls (updateMetasets c) = ch_ctrls c" "same_data c (updateMetasets c)"
    unfolding u by (simp_all add: Let_def same_data_def)
qed

text \<open>
  C3. The metasets follow their data sets.  After \<open>buildOrUpdateControllers\<close> there is one metaset
  per data set, in their order, whatever data sets the user inserted, removed or moved: each is
  the metaset of its data set with the right index, type, order and visibility and a controller
  that knows its index; a data set whose type did not change keeps its metaset, its controller and
  what the user hid; the controllers of removed and of retyped data sets are destroyed.  The data
  sets are distinct objects, and a data set that changes its type stands at the same place as before.
\<close>

theorem controllers_follow_data_sets:
  assumes w: "wf_metas c" and dist: "distinct (ch_datasets c)"
    and reg: "\<And>i. i < length (ch_datasets c) \<Longrightarrow> ev_registered env (dataset_type_of c i)"
    and place: "\<And>i a. i < length (ch_datasets c) \<Longrightarrow> find_meta c (dataset_at c i) = Some a \<Longrightarrow> retyped c i a \<Longrightarrow>
      i < length (ch_metasets c) \<and> ch_metasets c ! i = Some a"
  shows "\<exists>c' news. buildOrUpdateControllers env c = (c', Inr news) \<and> wf_metas c' \<and> same_data c c' \<and>
    length (ch_metasets c') = length (ch_datasets c) \<and>
    (\<forall>i < length (ch_datasets c). \<exists>a. ch_metasets c' ! i = Some a \<and>
       mt_dataset (ch_metas c' ! a) = Some (ch_datasets c ! i) \<and> in_place c' i a \<and> kept c c' i a) \<and>
    (\<forall>a k. a \<in> set (live_metas c) \<longrightarrow> \<not> referenced c a \<longrightarrow> mt_controller (ch_metas c ! a) = Some k \<longrightarrow>
       \<not> ct_live (ch_ctrls c' ! k)) \<and>
    (\<forall>i k. i < length (ch_datasets c) \<longrightarrow> discards c i = Some k \<longrightarrow> \<not> ct_live (ch_ctrls c' ! k))"
proof -
  let ?c0 = "removeUnreferencedMetasets c"
  let ?n = "length (ch_datasets c)"
  note p = removeUnreferencedMetasets_purged[OF w]
  note pa = purged_all[OF w p]
  have w0: "wf_metas ?c0" and sd0: "same_data c ?c0" and m0: "ch_metas ?c0 = ch_metas c"
    and lm0: "length (ch_metasets ?c0) = length (ch_metasets c)" and lc0: "length (ch_ctrls ?c0) = length (ch_ctrls c)"
    using p by (simp_all add: purged_def)
  have n0: "length (ch_datasets ?c0) = ?n" using sd0 by (simp add: same_data_def)
  note at0 = dataset_at_same[OF sd0] and ty0 = dataset_type_same[OF sd0]
  have inds: "dataset_at c i \<in> Some ` set (ch_datasets c)" if "i < ?n" for i using that by (simp add: dataset_at_def)
  have dsat: "d \<in> Some ` set (ch_datasets c) \<longleftrightarrow> (\<exists>i < ?n. dataset_at c i = d)" for d
  proof
    assume "\<exists>i < ?n. dataset_at c i = d"
    then show "d \<in> Some ` set (ch_datasets c)" using inds by blast
  next
    assume "d \<in> Some ` set (ch_datasets c)"
    then obtain i where "i < ?n" "d = Some (ch_datasets c ! i)" by (metis imageE in_set_conv_nth)
    then show "\<exists>i < ?n. dataset_at c i = d" by (auto simp: dataset_at_def)
  qed
  have f0: "find_meta ?c0 (dataset_at c i) = find_meta c (dataset_at c i)" if "i < ?n" for i
    by (rule pa(2)[OF inds[OF that]])
  have k0: "keeps ?c0 i = keeps c i" "discards ?c0 i = discards c i" if "i < ?n" for i
    using keeps_cong(1,2)[OF sd0 f0[OF that]] m0 by simp_all
  have r0: "retyped ?c0 i a = retyped c i a" for i a by (simp add: retyped_def m0 ty0)
  have place0: "i < length (ch_metasets ?c0) \<and> ch_metasets ?c0 ! i = Some a"
    if "i < length (ch_datasets ?c0)" "find_meta ?c0 (dataset_at ?c0 i) = Some a" "retyped ?c0 i a" for i a
  proof -
    have i: "i < ?n" using that(1) n0 by simp
    have f: "find_meta c (dataset_at c i) = Some a" using that(2) at0 f0[OF i] by simp
    have q: "i < length (ch_metasets c)" "ch_metasets c ! i = Some a" using place[OF i f] that(3) r0 by simp_all
    have "referenced c a" using find_meta_wfD(2)[OF w f] inds[OF i] by (simp add: referenced_def)
    with pa(4)[OF q] q lm0 show ?thesis by simp
  qed
  have dist0: "distinct (ch_datasets ?c0)" using dist sd0 by (simp add: same_data_def)
  have reg0: "ev_registered env (dataset_type_of ?c0 i)" if "i < length (ch_datasets ?c0)" for i
    using reg that n0 ty0 by simp
  have le0: "0 \<le> length (ch_datasets ?c0)" by simp
  have loop: "\<exists>c' news'. update_controllers env [0..<length (ch_datasets ?c0)] [] ?c0 = (c', Inr news') \<and>
      progress ?c0 (length (ch_datasets ?c0)) c'"
  proof (rule update_controllers_progress[OF progress_start[OF w0] le0 dist0])
    show "ev_registered env (dataset_type_of ?c0 i)" if "i < length (ch_datasets ?c0)" for i
      using that by (rule reg0)
    show "i < length (ch_metasets ?c0) \<and> ch_metasets ?c0 ! i = Some a"
      if "i < length (ch_datasets ?c0)" "find_meta ?c0 (dataset_at ?c0 i) = Some a" "retyped ?c0 i a" for i a
      using that by (rule place0)
  qed
  obtain c1 news where u: "update_controllers env [0..<?n] [] ?c0 = (c1, Inr news)" and pr: "progress ?c0 ?n c1"
    using loop unfolding n0 by blast
  have w1: "wf_metas c1" and sd1: "same_data ?c0 c1" using pr by (simp_all add: progress_def)
  have sd: "same_data c c1" by (rule same_data_trans[OF sd0 sd1])
  define f where "f i = the (find_meta c1 (dataset_at c i))" for i
  have each: "find_meta c1 (dataset_at c i) = Some (f i) \<and> in_place c1 i (f i) \<and> kept c c1 i (f i)" if i: "i < ?n" for i
  proof -
    obtain a where "find_meta c1 (dataset_at c i) = Some a" "in_place c1 i a" "kept ?c0 c1 i a"
      using pr i unfolding progress_def at0 by blast
    moreover from this(3) have "kept c c1 i a" unfolding kept_def k0[OF i] m0 .
    ultimately show ?thesis by (simp add: f_def)
  qed
  have gone: "find_meta c1 d = None" if "d \<notin> Some ` set (ch_datasets c)" for d
  proof -
    have "d \<notin> dataset_at ?c0 ` {..< ?n}" using that dsat at0 by auto
    then have "find_meta c1 d = find_meta ?c0 d" using pr by (simp add: progress_def)
    with pa(3)[OF that] show ?thesis by simp
  qed
  have live: "a \<in> set (live_metas c1) \<longleftrightarrow> (\<exists>i < ?n. f i = a)" for a
  proof
    assume a: "a \<in> set (live_metas c1)"
    then have fa: "find_meta c1 (mt_dataset (ch_metas c1 ! a)) = Some a" by (simp add: find_meta_wf[OF w1])
    have "mt_dataset (ch_metas c1 ! a) \<in> Some ` set (ch_datasets c)"
      by (rule ccontr) (use gone fa in simp)
    with dsat obtain i where i: "i < ?n" and d: "dataset_at c i = mt_dataset (ch_metas c1 ! a)" by blast
    have "f i = a" unfolding f_def d fa by simp
    with i show "\<exists>i < ?n. f i = a" by blast
  next
    assume "\<exists>i < ?n. f i = a"
    then obtain i where i: "i < ?n" "f i = a" by blast
    show "a \<in> set (live_metas c1)" using find_meta_wfD(1)[OF w1 conjunct1[OF each[OF i(1)]]] i(2) by simp
  qed
  have idx: "mt_index (ch_metas c1 ! f i) = i" if "i < ?n" for i using each[OF that] by (simp add: in_place_def)
  have n1: "?n = length (ch_datasets c1)" using sd by (simp add: same_data_def)
  let ?c2 = "updateMetasets c1"
  note up = updateMetasets_lines_up[OF w1 n1 live idx]
  have m2: "ch_metas ?c2 = ch_metas c1" using up(3) by simp
  have "buildOrUpdateControllers env c = (?c2, Inr news)" using u n0 by (simp add: buildOrUpdateControllers_def)
  moreover have sd2: "same_data c ?c2" by (rule same_data_trans[OF sd up(5)])
  moreover have "wf_metas ?c2"
  proof -
    have "live_metas ?c2 = map f [0..<?n]"
      using present_Somes[of "map f [0..<?n]"] by (simp add: live_metas_def up(1))
    moreover from this have "set (live_metas ?c2) = set (live_metas c1)" using live by auto
    moreover have "distinct (map f [0..<?n])" using idx by (auto simp: distinct_map intro!: inj_onI) (metis idx)
    moreover have "owns_controller ?c2 = owns_controller c1" by (intro ext) (simp add: owns_controller_def up split: option.split)
    ultimately show ?thesis using w1 by (simp add: wf_metas_def list_all_iff up)
  qed
  moreover have "ch_metasets ?c2 ! i = Some (f i) \<and> mt_dataset (ch_metas ?c2 ! f i) = Some (ch_datasets c ! i) \<and>
      in_place ?c2 i (f i) \<and> kept c ?c2 i (f i)" if i: "i < ?n" for i
  proof -
    have "mt_dataset (ch_metas c1 ! f i) = dataset_at c i" using find_meta_wfD(2)[OF w1] each[OF i] by blast
    moreover have "in_place ?c2 i (f i)"
      using each[OF i] in_place_but_axes[OF _ up(5,4)] by (simp add: up(3))
    moreover have "kept c ?c2 i (f i)" using each[OF i] unfolding kept_def m2 by blast
    ultimately show ?thesis using i by (simp add: up(1,3) dataset_at_def)
  qed
  moreover have lv: "ct_live (ch_ctrls ?c2 ! k) = (ct_live (ch_ctrls ?c0 ! k) \<and> (\<forall>i < ?n. discards c i \<noteq> Some k))"
    if "k < length (ch_ctrls c)" for k
    using pr that lc0 k0 by (simp add: progress_def up(4))
  moreover have "k < length (ch_ctrls c)" if "a \<in> set (live_metas c)" "mt_controller (ch_metas c ! a) = Some k" for a k
    using w that by (auto simp: wf_metas_def list_all_iff owns_controller_def)
  moreover have "k < length (ch_ctrls c)" if "discards c i = Some k" for i k
    using find_meta_wfD(4)[OF w] that by (fastforce simp: discards_def owns_controller_def split: option.splits if_splits)
  moreover have "length (ch_metasets ?c2) = ?n" by (simp add: up(1))
  moreover note pa(5)
  ultimately show ?thesis by (intro exI[of _ ?c2] exI[of _ news]) blast
qed

text \<open>A chart that showed the data sets 5 and 6, the second hidden; now 7 and 6 are to be shown.\<close>

definition sample_meta :: "nat \<Rightarrow> nat \<Rightarrow> nat \<Rightarrow> bool option \<Rightarrow> meta_set" where
  "sample_meta d i k h =
     \<lparr>mt_type = ''line'', mt_controller = Some k, mt_hidden = h, mt_order = 0, mt_index = i, mt_dataset = Some d,
      mt_indexAxis = ''x'', mt_label = [], mt_visible = True, mt_xAxisID = None, mt_yAxisID = None, mt_rAxisID = None,
      mt_iAxisID = None, mt_vAxisID = None\<rparr>"

definition sample_env :: chart_env where
  "sample_env = \<lparr>ev_registered = (\<lambda>ty. ty = ''line''), ev_index_axis = (\<lambda>_. ''x'')\<rparr>"

definition sample_dataset :: dataset where
  "sample_dataset = \<lparr>ds_type = [], ds_order = 0, ds_hidden = False, ds_label = [], ds_indexAxis = [],
     ds_xAxisID = None, ds_yAxisID = None, ds_rAxisID = None\<rparr>"

definition sample_chart :: chart where
  "sample_chart = \<lparr>ch_type = ''line'', ch_objs = (\<lambda>_. sample_dataset), ch_datasets = [7, 6], ch_scales = [],
     ch_metas = [sample_meta 5 0 0 None, sample_meta 6 1 1 (Some True)], ch_metasets = [Some 0, Some 1], ch_sorted = [],
     ch_ctrls = [\<lparr>ct_index = 0, ct_meta = 0, ct_type = ''line'', ct_live = True\<rparr>,
                 \<lparr>ct_index = 1, ct_meta = 1, ct_type = ''line'', ct_live = True\<rparr>], ch_stacks = True\<rparr>"

lemma sample_chart_wf: "wf_metas sample_chart"
  by (simp add: wf_metas_def live_metas_def sample_chart_def sample_meta_def owns_controller_def inj_on_def)

lemma sample_chart_types: "dataset_type_of sample_chart i = ''line''"
  by (simp add: dataset_type_of_def sample_chart_def sample_dataset_def)

lemma sample_chart_retyped: "find_meta sample_chart d = Some a \<Longrightarrow> \<not> retyped sample_chart i a"
  using find_meta_wfD(1)[OF sample_chart_wf, of d a]
  by (auto simp: retyped_def sample_chart_types live_metas_def) (auto simp: sample_chart_def sample_meta_def)

theorem controllers_follow_data_sets_witness:
  "\<exists>c' news. buildOrUpdateControllers sample_env sample_chart = (c', Inr news) \<and> length (ch_metasets c') = 2 \<and>
     (\<exists>a. ch_metasets c' ! 1 = Some a \<and> mt_dataset (ch_metas c' ! a) = Some 6 \<and> kept sample_chart c' 1 a)"
proof -
  have reg: "ev_registered sample_env (dataset_type_of sample_chart i)" for i
    by (simp add: sample_chart_types sample_env_def)
  have dist: "distinct (ch_datasets sample_chart)" and n: "length (ch_datasets sample_chart) = 2"
    and d1: "ch_datasets sample_chart ! 1 = 6" by (simp_all add: sample_chart_def)
  have place: "i < length (ch_metasets sample_chart) \<and> ch_metasets sample_chart ! i = Some a"
    if "i < length (ch_datasets sample_chart)" "find_meta sample_chart (dataset_at sample_chart i) = Some a"
      "retyped sample_chart i a" for i a
    using sample_chart_retyped that by blast
  note all_of = controllers_follow_data_sets[OF sample_chart_wf dist reg place, unfolded n]
  obtain c' news where b: "buildOrUpdateControllers sample_env sample_chart = (c', Inr news)"
    and len: "length (ch_metasets c') = 2"
    and all: "\<And>i. i < 2 \<Longrightarrow> \<exists>a. ch_metasets c' ! i = Some a \<and>
       mt_dataset (ch_metas c' ! a) = Some (ch_datasets sample_chart ! i) \<and> kept sample_chart c' i a"
    by (rule revcut_rl[OF all_of]; (assumption | (elim exE conjE, rule that; blast)))
  from all[of 1] d1 b len show ?thesis by auto
qed

text \<open>
  Without the last hypothesis it fails: the update destroys the metaset at the new index of the
  retyped data set, not the metaset of that data set.  Here the two data sets changed places and
  the first one its type: the chart is left with a hole instead of a metaset.
\<close>

definition moved_chart :: chart where
  "moved_chart = sample_chart\<lparr>ch_datasets := [6, 5],
     ch_objs := (\<lambda>d. if d = 5 then sample_dataset\<lparr>ds_type := ''bar''\<rparr> else sample_dataset)\<rparr>"

lemma retyped_and_moved:
  "ch_metasets (fst (buildOrUpdateControllers (sample_env\<lparr>ev_registered := (\<lambda>_. True)\<rparr>) moved_chart)) = [Some 0, None]"
  by code_simp

end
