(* ===== verification/ChartPlatform.thy ===== *)
theory ChartPlatform
  imports ChartMath
begin

text \<open>
  The event listeners of charts (\<open>js/chart_3.9.js\<close>): the proxies \<open>DomPlatform\<close> keeps for each
  chart, the table of charts that listen to changes of the pixel ratio, and the methods of
  \<open>class Chart\<close> that bind and unbind events and follow the canvas in and out of the document.
  An observer or listener registered with the browser is a number; \<open>pw_live\<close> is what is
  registered.  Browser callbacks are operations of the model; a handler runs only while it is
  registered, so the listener table its closure captured is the chart's current one.
\<close>

section \<open>State\<close>

datatype chart_call = CallStop | CallResize

record chart_events =
  ce_proxies :: "nat option obj"
  ce_listeners :: "unit obj"
  ce_responsive :: "unit obj option"
  ce_attached :: bool
  ce_calls :: "chart_call list"

record platform_world =
  pw_charts :: "nat \<Rightarrow> chart_events"
  pw_live :: "(nat \<times> string \<times> nat) list"
  pw_drp :: "nat list"
  pw_window :: bool
  pw_next :: nat

definition set_events :: "nat \<Rightarrow> (chart_events \<Rightarrow> chart_events) \<Rightarrow> platform_world \<Rightarrow> platform_world" where
  "set_events ch f w = w\<lparr>pw_charts := (pw_charts w)(ch := f (pw_charts w ch))\<rparr>"

definition proxy_of :: "platform_world \<Rightarrow> nat \<Rightarrow> string \<Rightarrow> nat option" where
  "proxy_of w ch ty = (case obj_get (ce_proxies (pw_charts w ch)) ty of Some p \<Rightarrow> p | None \<Rightarrow> None)"

section \<open>The platform\<close>

text \<open>The table \<open>drpListeningCharts\<close> and the listener on the window.\<close>

definition listenDevicePixelRatioChanges :: "nat \<Rightarrow> platform_world \<Rightarrow> platform_world" where
  "listenDevicePixelRatioChanges ch w =
     (let w1 = (if pw_drp w = [] then w\<lparr>pw_window := True\<rparr> else w)
      in w1\<lparr>pw_drp := (if ch \<in> set (pw_drp w1) then pw_drp w1 else pw_drp w1 @ [ch])\<rparr>)"

definition unlistenDevicePixelRatioChanges :: "nat \<Rightarrow> platform_world \<Rightarrow> platform_world" where
  "unlistenDevicePixelRatioChanges ch w =
     (let w1 = w\<lparr>pw_drp := filter (\<lambda>c. c \<noteq> ch) (pw_drp w)\<rparr>
      in if pw_drp w1 = [] then w1\<lparr>pw_window := False\<rparr> else w1)"

text \<open>\<open>onWindowResize\<close>: the charts whose ratio is not the new one are resized, once per change.\<close>

definition onWindowResize :: "(nat \<Rightarrow> rat option) \<Rightarrow> rat \<Rightarrow> rat \<Rightarrow> nat list \<Rightarrow> rat \<times> nat list" where
  "onWindowResize ratio old dpr charts =
     (if dpr = old then (old, []) else (dpr, filter (\<lambda>ch. ratio ch \<noteq> Some dpr) charts))"

definition disconnect :: "nat \<Rightarrow> string \<Rightarrow> nat \<Rightarrow> platform_world \<Rightarrow> platform_world" where
  "disconnect ch ty p w = w\<lparr>pw_live := filter (\<lambda>r. r \<noteq> (ch, ty, p)) (pw_live w)\<rparr>"

definition releaseObserver :: "nat \<Rightarrow> string \<Rightarrow> nat \<Rightarrow> platform_world \<Rightarrow> platform_world" where
  "releaseObserver ch ty p w =
     (let w1 = disconnect ch ty p w
      in if ty = ''resize'' then unlistenDevicePixelRatioChanges ch w1 else w1)"

definition removeEventListener :: "nat \<Rightarrow> string \<Rightarrow> platform_world \<Rightarrow> platform_world" where
  "removeEventListener ch ty w =
     (case proxy_of w ch ty of
        None \<Rightarrow> w
      | Some p \<Rightarrow>
          (let w1 = (if ty = ''attach'' \<or> ty = ''detach'' \<or> ty = ''resize'' then releaseObserver ch ty p w
                     else disconnect ch ty p w)
           in set_events ch (\<lambda>c. c\<lparr>ce_proxies := obj_set (ce_proxies c) ty None\<rparr>) w1))"

text \<open>Registering yields a proxy, except for a resize observer of a canvas without container.\<close>

definition register_handler :: "(nat \<Rightarrow> bool) \<Rightarrow> nat \<Rightarrow> string \<Rightarrow> platform_world \<Rightarrow> platform_world \<times> nat option" where
  "register_handler container ch ty w =
     (let p = pw_next w;
          w1 = w\<lparr>pw_live := pw_live w @ [(ch, ty, p)], pw_next := Suc p\<rparr>
      in if ty = ''resize'' then
           (if container ch then (listenDevicePixelRatioChanges ch w1, Some p) else (w, None))
         else (w1, Some p))"

definition addEventListener :: "(nat \<Rightarrow> bool) \<Rightarrow> nat \<Rightarrow> string \<Rightarrow> platform_world \<Rightarrow> platform_world" where
  "addEventListener container ch ty w =
     (let (w1, p) = register_handler container ch ty (removeEventListener ch ty w)
      in set_events ch (\<lambda>c. c\<lparr>ce_proxies := obj_set (ce_proxies c) ty p\<rparr>) w1)"

section \<open>Binding the events of a chart\<close>

definition add_user :: "(nat \<Rightarrow> bool) \<Rightarrow> nat \<Rightarrow> string \<Rightarrow> platform_world \<Rightarrow> platform_world" where
  "add_user container ch ty w =
     set_events ch (\<lambda>c. c\<lparr>ce_listeners := obj_set (ce_listeners c) ty ()\<rparr>) (addEventListener container ch ty w)"

definition bindUserEvents :: "(nat \<Rightarrow> bool) \<Rightarrow> string list \<Rightarrow> nat \<Rightarrow> platform_world \<Rightarrow> platform_world" where
  "bindUserEvents container types ch w = fold (add_user container ch) types w"

definition responsive_of :: "platform_world \<Rightarrow> nat \<Rightarrow> unit obj" where
  "responsive_of w ch = (case ce_responsive (pw_charts w ch) of Some o' \<Rightarrow> o' | None \<Rightarrow> [])"

definition add_responsive :: "(nat \<Rightarrow> bool) \<Rightarrow> nat \<Rightarrow> string \<Rightarrow> platform_world \<Rightarrow> platform_world" where
  "add_responsive container ch ty w =
     (let w1 = addEventListener container ch ty w
      in set_events ch (\<lambda>c. c\<lparr>ce_responsive := Some (obj_set (responsive_of w1 ch) ty ())\<rparr>) w1)"

definition remove_responsive :: "nat \<Rightarrow> string \<Rightarrow> platform_world \<Rightarrow> platform_world" where
  "remove_responsive ch ty w =
     (if obj_has (responsive_of w ch) ty then
        (let w1 = removeEventListener ch ty w
         in set_events ch (\<lambda>c. c\<lparr>ce_responsive := Some (obj_del (responsive_of w1 ch) ty)\<rparr>) w1)
      else w)"

definition log_call :: "chart_call \<Rightarrow> nat \<Rightarrow> platform_world \<Rightarrow> platform_world" where
  "log_call x ch w = set_events ch (\<lambda>c. c\<lparr>ce_calls := ce_calls c @ [x]\<rparr>) w"

definition set_attached :: "bool \<Rightarrow> nat \<Rightarrow> platform_world \<Rightarrow> platform_world" where
  "set_attached b ch w = set_events ch (\<lambda>c. c\<lparr>ce_attached := b\<rparr>) w"

definition on_attached :: "(nat \<Rightarrow> bool) \<Rightarrow> nat \<Rightarrow> platform_world \<Rightarrow> platform_world" where
  "on_attached container ch w =
     add_responsive container ch ''detach'' (add_responsive container ch ''resize''
       (log_call CallResize ch (set_attached True ch (remove_responsive ch ''attach'' w))))"

definition on_detached :: "(nat \<Rightarrow> bool) \<Rightarrow> nat \<Rightarrow> platform_world \<Rightarrow> platform_world" where
  "on_detached container ch w =
     add_responsive container ch ''attach''
       (log_call CallResize ch (log_call CallStop ch (remove_responsive ch ''resize'' (set_attached False ch w))))"

definition bindResponsiveEvents :: "(nat \<Rightarrow> bool) \<Rightarrow> bool \<Rightarrow> nat \<Rightarrow> platform_world \<Rightarrow> platform_world" where
  "bindResponsiveEvents container isAttached ch w =
     (let w1 = set_events ch (\<lambda>c. c\<lparr>ce_responsive := Some (responsive_of w ch)\<rparr>) w
      in if isAttached then on_attached container ch w1 else on_detached container ch w1)"

record event_options =
  eo_events :: "string list"
  eo_responsive :: bool

definition bindEvents :: "(nat \<Rightarrow> bool) \<Rightarrow> bool \<Rightarrow> event_options \<Rightarrow> nat \<Rightarrow> platform_world \<Rightarrow> platform_world" where
  "bindEvents container isAttached opts ch w =
     (let w1 = bindUserEvents container (eo_events opts) ch w
      in if eo_responsive opts then bindResponsiveEvents container isAttached ch w1 else set_attached True ch w1)"

definition unbindEvents :: "nat \<Rightarrow> platform_world \<Rightarrow> platform_world" where
  "unbindEvents ch w =
     (let w1 = fold (removeEventListener ch) (obj_keys (ce_listeners (pw_charts w ch))) w;
          w2 = set_events ch (\<lambda>c. c\<lparr>ce_listeners := []\<rparr>) w1;
          w3 = fold (removeEventListener ch) (obj_keys (responsive_of w2 ch)) w2
      in set_events ch (\<lambda>c. c\<lparr>ce_responsive := None\<rparr>) w3)"

definition checkEventBindings :: "(nat \<Rightarrow> bool) \<Rightarrow> bool \<Rightarrow> event_options \<Rightarrow> nat \<Rightarrow> platform_world \<Rightarrow> platform_world" where
  "checkEventBindings container isAttached opts ch w =
     (if \<not> setsEqual (obj_keys (ce_listeners (pw_charts w ch))) (remdups (eo_events opts)) \<or>
         (ce_responsive (pw_charts w ch) \<noteq> None) \<noteq> eo_responsive opts
      then bindEvents container isAttached opts ch (unbindEvents ch w) else w)"

section \<open>Runs\<close>

text \<open>\<open>_initialize\<close> binds the events of a chart that has none yet; afterwards they are checked by
  every update, unbound when the chart is destroyed, and the observers fire.\<close>

datatype event_op =
    Init nat bool event_options | Check nat bool event_options | Unbind nat | Attached nat | Detached nat

definition registered :: "platform_world \<Rightarrow> nat \<Rightarrow> string \<Rightarrow> bool" where
  "registered w ch ty \<longleftrightarrow> (\<exists>r \<in> set (pw_live w). fst r = ch \<and> fst (snd r) = ty)"

fun event_step :: "(nat \<Rightarrow> bool) \<Rightarrow> event_op \<Rightarrow> platform_world \<Rightarrow> platform_world" where
  "event_step container (Init ch a opts) w =
     (if ce_listeners (pw_charts w ch) = [] \<and> ce_responsive (pw_charts w ch) = None
      then bindEvents container a opts ch w else w)"
| "event_step container (Check ch a opts) w = checkEventBindings container a opts ch w"
| "event_step container (Unbind ch) w = unbindEvents ch w"
| "event_step container (Attached ch) w =
     (if registered w ch ''attach'' \<and> obj_has (responsive_of w ch) ''attach'' then on_attached container ch w else w)"
| "event_step container (Detached ch) w =
     (if registered w ch ''detach'' \<and> obj_has (responsive_of w ch) ''detach'' then on_detached container ch w else w)"

definition no_events :: chart_events where
  "no_events = \<lparr>ce_proxies = [], ce_listeners = [], ce_responsive = None, ce_attached = False, ce_calls = []\<rparr>"

definition new_platform :: platform_world where
  "new_platform = \<lparr>pw_charts = (\<lambda>_. no_events), pw_live = [], pw_drp = [], pw_window = False, pw_next = 0\<rparr>"

section \<open>The invariant\<close>

text \<open>
  What is registered with the browser is what the proxies name, the table of pixel ratios holds
  the charts with a resize observer, and the window is listened to while that table is not empty.
\<close>

definition proxies_inv :: "platform_world \<Rightarrow> bool" where
  "proxies_inv w \<longleftrightarrow>
     (\<forall>ch ty p. (ch, ty, p) \<in> set (pw_live w) \<longleftrightarrow> proxy_of w ch ty = Some p) \<and>
     (\<forall>ch. ch \<in> set (pw_drp w) \<longleftrightarrow> proxy_of w ch ''resize'' \<noteq> None) \<and>
     (pw_window w \<longleftrightarrow> pw_drp w \<noteq> []) \<and>
     (\<forall>ch ty p. (ch, ty, p) \<in> set (pw_live w) \<longrightarrow> p < pw_next w)"

text \<open>Every proxy is one the chart knows of, so that it can remove it.\<close>

definition known_inv :: "platform_world \<Rightarrow> bool" where
  "known_inv w \<longleftrightarrow> (\<forall>ch ty. proxy_of w ch ty \<noteq> None \<longrightarrow>
     ty \<in> set (obj_keys (ce_listeners (pw_charts w ch))) \<union> set (obj_keys (responsive_of w ch)))"

lemma set_events_frame [simp]:
  "pw_live (set_events ch f w) = pw_live w" "pw_drp (set_events ch f w) = pw_drp w"
  "pw_window (set_events ch f w) = pw_window w" "pw_next (set_events ch f w) = pw_next w"
  "pw_charts (set_events ch f w) c = (if c = ch then f (pw_charts w ch) else pw_charts w c)"
  by (simp_all add: set_events_def)

lemma disconnect_frame [simp]:
  "pw_live (disconnect ch ty p w) = filter (\<lambda>r. r \<noteq> (ch, ty, p)) (pw_live w)"
  "pw_drp (disconnect ch ty p w) = pw_drp w" "pw_window (disconnect ch ty p w) = pw_window w"
  "pw_next (disconnect ch ty p w) = pw_next w" "pw_charts (disconnect ch ty p w) = pw_charts w"
  by (simp_all add: disconnect_def)

lemma unlisten_frame [simp]:
  "pw_live (unlistenDevicePixelRatioChanges ch w) = pw_live w" "pw_next (unlistenDevicePixelRatioChanges ch w) = pw_next w"
  "pw_charts (unlistenDevicePixelRatioChanges ch w) = pw_charts w"
  "pw_drp (unlistenDevicePixelRatioChanges ch w) = filter (\<lambda>c. c \<noteq> ch) (pw_drp w)"
  "pw_window (unlistenDevicePixelRatioChanges ch w) = (filter (\<lambda>c. c \<noteq> ch) (pw_drp w) \<noteq> [] \<and> pw_window w)"
  by (simp_all add: unlistenDevicePixelRatioChanges_def Let_def)

lemma listen_frame [simp]:
  "pw_live (listenDevicePixelRatioChanges ch w) = pw_live w" "pw_next (listenDevicePixelRatioChanges ch w) = pw_next w"
  "pw_charts (listenDevicePixelRatioChanges ch w) = pw_charts w"
  "set (pw_drp (listenDevicePixelRatioChanges ch w)) = insert ch (set (pw_drp w))"
  "pw_window (listenDevicePixelRatioChanges ch w) = (pw_drp w = [] \<or> pw_window w)"
  by (auto simp: listenDevicePixelRatioChanges_def Let_def)

lemma releaseObserver_frame [simp]:
  "pw_live (releaseObserver ch ty p w) = filter (\<lambda>r. r \<noteq> (ch, ty, p)) (pw_live w)"
  "pw_next (releaseObserver ch ty p w) = pw_next w" "pw_charts (releaseObserver ch ty p w) = pw_charts w"
  "pw_drp (releaseObserver ch ty p w) = (if ty = ''resize'' then filter (\<lambda>c. c \<noteq> ch) (pw_drp w) else pw_drp w)"
  "pw_window (releaseObserver ch ty p w) =
     (if ty = ''resize'' then filter (\<lambda>c. c \<noteq> ch) (pw_drp w) \<noteq> [] \<and> pw_window w else pw_window w)"
  by (simp_all add: releaseObserver_def Let_def)

text \<open>What removing and adding a listener do to the proxies, and what they leave alone.\<close>

lemma remove_proxy: "proxy_of (removeEventListener ch ty w) c t = (if c = ch \<and> t = ty then None else proxy_of w c t)"
  by (auto simp: removeEventListener_def proxy_of_def Let_def split: option.split)

lemma remove_frame:
  "ce_listeners (pw_charts (removeEventListener ch ty w) c) = ce_listeners (pw_charts w c)"
  "ce_responsive (pw_charts (removeEventListener ch ty w) c) = ce_responsive (pw_charts w c)"
  "ce_attached (pw_charts (removeEventListener ch ty w) c) = ce_attached (pw_charts w c)"
  by (auto simp: removeEventListener_def Let_def split: option.split)

lemma register_frame:
  "pw_charts (fst (register_handler container ch ty w)) = pw_charts w"
  "snd (register_handler container ch ty w) = (if ty = ''resize'' \<and> \<not> container ch then None else Some (pw_next w))"
  by (simp_all add: register_handler_def Let_def)

lemma add_proxy: "proxy_of (addEventListener container ch ty w) c t =
    (if c = ch \<and> t = ty then (if ty = ''resize'' \<and> \<not> container ch then None else Some (pw_next (removeEventListener ch ty w)))
     else proxy_of w c t)"
  using remove_proxy[of ch ty w c t]
  by (auto simp: addEventListener_def proxy_of_def register_frame split: prod.split)
     (metis fst_conv register_frame(1) snd_conv register_frame(2) option.distinct(1) option.inject)+

lemma add_frame:
  "ce_listeners (pw_charts (addEventListener container ch ty w) c) = ce_listeners (pw_charts w c)"
  "ce_responsive (pw_charts (addEventListener container ch ty w) c) = ce_responsive (pw_charts w c)"
  "ce_attached (pw_charts (addEventListener container ch ty w) c) = ce_attached (pw_charts w c)"
  using register_frame(1)[of container ch ty "removeEventListener ch ty w"]
  by (auto simp: addEventListener_def remove_frame split: prod.split)

lemma proxies_invI:
  assumes "\<And>ch ty p. (ch, ty, p) \<in> set (pw_live w) \<longleftrightarrow> proxy_of w ch ty = Some p"
    and "\<And>ch. ch \<in> set (pw_drp w) \<longleftrightarrow> proxy_of w ch ''resize'' \<noteq> None"
    and "pw_window w \<longleftrightarrow> pw_drp w \<noteq> []" and "\<And>ch ty p. (ch, ty, p) \<in> set (pw_live w) \<Longrightarrow> p < pw_next w"
  shows "proxies_inv w"
  using assms by (simp add: proxies_inv_def)

lemma proxies_invD:
  assumes "proxies_inv w"
  shows "(ch, ty, p) \<in> set (pw_live w) \<longleftrightarrow> proxy_of w ch ty = Some p"
    and "ch \<in> set (pw_drp w) \<longleftrightarrow> proxy_of w ch ''resize'' \<noteq> None"
    and "pw_window w \<longleftrightarrow> pw_drp w \<noteq> []" and "(ch, ty, p) \<in> set (pw_live w) \<Longrightarrow> p < pw_next w"
  using assms by (auto simp: proxies_inv_def)

lemma remove_inv:
  assumes "proxies_inv w"
  shows "proxies_inv (removeEventListener ch ty w)" and "pw_next (removeEventListener ch ty w) = pw_next w"
proof -
  note d = proxies_invD[OF assms]
  let ?w = "removeEventListener ch ty w"
  show n: "pw_next ?w = pw_next w"
    by (auto simp: removeEventListener_def Let_def split: option.split)
  show "proxies_inv ?w"
  proof (cases "proxy_of w ch ty")
    case None
    with assms show ?thesis by (simp add: removeEventListener_def)
  next
    case (Some p)
    have live: "pw_live ?w = filter (\<lambda>r. r \<noteq> (ch, ty, p)) (pw_live w)"
      using Some by (simp add: removeEventListener_def Let_def)
    have drp: "pw_drp ?w = (if ty = ''resize'' then filter (\<lambda>c. c \<noteq> ch) (pw_drp w) else pw_drp w)"
      and win: "pw_window ?w = (if ty = ''resize'' then filter (\<lambda>c. c \<noteq> ch) (pw_drp w) \<noteq> [] \<and> pw_window w else pw_window w)"
      using Some by (simp_all add: removeEventListener_def Let_def)
    show ?thesis
    proof (rule proxies_invI)
      show "(c, t, q) \<in> set (pw_live ?w) \<longleftrightarrow> proxy_of ?w c t = Some q" for c t q
        using d(1)[of c t q] Some by (auto simp: live remove_proxy)
      show "c \<in> set (pw_drp ?w) \<longleftrightarrow> proxy_of ?w c ''resize'' \<noteq> None" for c
        using d(2)[of c] by (auto simp: drp remove_proxy)
      show "pw_window ?w \<longleftrightarrow> pw_drp ?w \<noteq> []" using d(3) by (auto simp: win drp)
      show "q < pw_next ?w" if "(c, t, q) \<in> set (pw_live ?w)" for c t q
        using that d(4)[of c t q] by (simp add: live n)
    qed
  qed
qed

lemma add_inv:
  assumes "proxies_inv w"
  shows "proxies_inv (addEventListener container ch ty w)"
proof -
  let ?r = "removeEventListener ch ty w"
  let ?h = "fst (register_handler container ch ty ?r)"
  let ?w = "addEventListener container ch ty w"
  note d = proxies_invD[OF remove_inv(1)[OF assms, of ch ty]]
  let ?fails = "ty = ''resize'' \<and> \<not> container ch"
  have live: "pw_live ?w = (if ?fails then pw_live ?r else pw_live ?r @ [(ch, ty, pw_next ?r)])"
    and drp: "set (pw_drp ?w) = (if ty = ''resize'' \<and> container ch then insert ch (set (pw_drp ?r)) else set (pw_drp ?r))"
    and win: "pw_window ?w = (if ty = ''resize'' \<and> container ch then pw_drp ?r = [] \<or> pw_window ?r else pw_window ?r)"
    and nx: "pw_next ?w = (if ?fails then pw_next ?r else Suc (pw_next ?r))"
    by (auto simp: addEventListener_def register_handler_def Let_def split: prod.split)
  have px: "proxy_of ?w c t = (if c = ch \<and> t = ty then (if ?fails then None else Some (pw_next ?r)) else proxy_of ?r c t)" for c t
    by (simp add: add_proxy remove_proxy)
  have none: "proxy_of ?r ch ty = None" by (simp add: remove_proxy)
  show ?thesis
  proof (rule proxies_invI)
    show "(c, t, q) \<in> set (pw_live ?w) \<longleftrightarrow> proxy_of ?w c t = Some q" for c t q
      using d(1)[of c t q] d(1)[of ch ty q] none by (auto simp: live px)
    show "c \<in> set (pw_drp ?w) \<longleftrightarrow> proxy_of ?w c ''resize'' \<noteq> None" for c
      using d(2)[of c] none by (auto simp: drp px)
    have "pw_drp ?w \<noteq> [] \<longleftrightarrow> set (pw_drp ?w) \<noteq> {}" by simp
    then show "pw_window ?w \<longleftrightarrow> pw_drp ?w \<noteq> []" using d(3) by (auto simp: win drp simp del: set_empty)
    show "q < pw_next ?w" if "(c, t, q) \<in> set (pw_live ?w)" for c t q
      using that d(4)[of c t q] by (auto simp: live nx split: if_splits)
  qed
qed

section \<open>A service of listeners\<close>

text \<open>What the charts rely on: after a removal the listener is gone, after an addition at most that
  one is new, and both keep the service consistent.\<close>

locale listener_service =
  fixes add :: "nat \<Rightarrow> string \<Rightarrow> 'w \<Rightarrow> 'w" and remove :: "nat \<Rightarrow> string \<Rightarrow> 'w \<Rightarrow> 'w"
    and listening :: "'w \<Rightarrow> nat \<Rightarrow> string \<Rightarrow> bool" and ok :: "'w \<Rightarrow> bool"
  assumes remove_listening: "listening (remove ch ty w) c t \<longleftrightarrow> \<not> (c = ch \<and> t = ty) \<and> listening w c t"
    and add_listening: "listening (add ch ty w) c t \<Longrightarrow> (c = ch \<and> t = ty) \<or> listening w c t"
    and remove_ok: "ok w \<Longrightarrow> ok (remove ch ty w)"
    and add_ok: "ok w \<Longrightarrow> ok (add ch ty w)"
begin

lemma removes_listening:
  "listening (fold (remove ch) ts w) c t \<longleftrightarrow> \<not> (c = ch \<and> t \<in> set ts) \<and> listening w c t"
  by (induction ts arbitrary: w) (auto simp: remove_listening)

lemma removes_ok: "ok w \<Longrightarrow> ok (fold (remove ch) ts w)"
  by (induction ts arbitrary: w) (simp_all add: remove_ok)

lemma removes_all:
  "(\<And>t. listening w ch t \<Longrightarrow> t \<in> set ts) \<Longrightarrow> \<not> listening (fold (remove ch) ts w) ch t"
  by (auto simp: removes_listening)

end

definition listening :: "platform_world \<Rightarrow> nat \<Rightarrow> string \<Rightarrow> bool" where
  "listening w ch ty \<longleftrightarrow> proxy_of w ch ty \<noteq> None"

interpretation dom: listener_service "addEventListener container" removeEventListener listening proxies_inv for container
  by unfold_locales (auto simp: listening_def remove_proxy add_proxy remove_inv add_inv split: if_splits)

section \<open>Binding keeps the invariant\<close>

definition responsive_inv :: "chart_events \<Rightarrow> bool" where
  "responsive_inv c \<longleftrightarrow>
     (case ce_responsive c of
        None \<Rightarrow> True
      | Some o' \<Rightarrow> obj_has o' ''attach'' = (\<not> ce_attached c) \<and> obj_has o' ''resize'' = ce_attached c \<and>
          (ce_attached c \<longrightarrow> obj_has o' ''detach''))"

lemma responsive_inv_cong:
  "ce_responsive c' = ce_responsive c \<Longrightarrow> ce_attached c' = ce_attached c \<Longrightarrow> responsive_inv c' = responsive_inv c"
  by (simp add: responsive_inv_def split: option.split)

definition events_inv :: "platform_world \<Rightarrow> bool" where
  "events_inv w \<longleftrightarrow> proxies_inv w \<and> known_inv w \<and> (\<forall>ch. responsive_inv (pw_charts w ch))"

lemma proxies_cong:
  assumes "\<And>c t. proxy_of w' c t = proxy_of w c t" "pw_live w' = pw_live w" "pw_drp w' = pw_drp w"
    "pw_window w' = pw_window w" "pw_next w' = pw_next w"
  shows "proxies_inv w' \<longleftrightarrow> proxies_inv w"
  using assms by (simp add: proxies_inv_def)

text \<open>Operations that write other fields of a chart than its proxies.\<close>

lemma set_events_proxy: "(\<And>c. ce_proxies (f c) = ce_proxies c) \<Longrightarrow> proxy_of (set_events ch f w) c t = proxy_of w c t"
  by (simp add: proxy_of_def)

lemma set_events_inv: "(\<And>c. ce_proxies (f c) = ce_proxies c) \<Longrightarrow> proxies_inv (set_events ch f w) \<longleftrightarrow> proxies_inv w"
  by (rule proxies_cong) (simp_all add: set_events_proxy)

definition known_types :: "platform_world \<Rightarrow> nat \<Rightarrow> string set" where
  "known_types w ch = set (obj_keys (ce_listeners (pw_charts w ch))) \<union> set (obj_keys (responsive_of w ch))"

lemma known_inv_iff: "known_inv w \<longleftrightarrow> (\<forall>ch ty. listening w ch ty \<longrightarrow> ty \<in> known_types w ch)"
  by (simp add: known_inv_def known_types_def listening_def)

lemma responsive_of_cong:
  "ce_responsive (pw_charts w' ch) = ce_responsive (pw_charts w ch) \<Longrightarrow> responsive_of w' ch = responsive_of w ch"
  by (simp add: responsive_of_def)

lemma add_known: "known_types (addEventListener container ch ty w) c = known_types w c"
  and remove_known: "known_types (removeEventListener ch ty w) c = known_types w c"
  by (simp_all add: known_types_def add_frame remove_frame responsive_of_def)

text \<open>Adding and removing one event of a chart, with the table of the chart that names it.\<close>

lemma add_user_inv:
  assumes "proxies_inv w" "known_inv w"
  shows "proxies_inv (add_user container ch ty w)" "known_inv (add_user container ch ty w)"
    "ce_responsive (pw_charts (add_user container ch ty w) c) = ce_responsive (pw_charts w c)"
    "ce_attached (pw_charts (add_user container ch ty w) c) = ce_attached (pw_charts w c)"
proof -
  let ?w = "add_user container ch ty w"
  show "proxies_inv ?w" using add_inv[OF assms(1)] by (simp add: add_user_def set_events_inv)
  have l: "listening ?w c t = listening (addEventListener container ch ty w) c t" for c t
    by (simp add: listening_def add_user_def set_events_proxy)
  have r: "responsive_of ?w c = responsive_of w c" for c
    by (rule responsive_of_cong) (simp add: add_user_def add_frame)
  have k: "known_types ?w c = (if c = ch then insert ty (known_types w c) else known_types w c)" for c
    by (simp add: known_types_def r) (auto simp: add_user_def add_frame obj_keys_set)
  show "known_inv ?w"
    using assms(2) unfolding known_inv_iff l k by (auto dest: dom.add_listening)
  show "ce_responsive (pw_charts ?w c) = ce_responsive (pw_charts w c)"
    "ce_attached (pw_charts ?w c) = ce_attached (pw_charts w c)"
    by (simp_all add: add_user_def add_frame)
qed

lemma bindUserEvents_inv:
  "proxies_inv w \<Longrightarrow> known_inv w \<Longrightarrow>
     proxies_inv (bindUserEvents container ts ch w) \<and> known_inv (bindUserEvents container ts ch w) \<and>
     (\<forall>c. ce_responsive (pw_charts (bindUserEvents container ts ch w) c) = ce_responsive (pw_charts w c) \<and>
          ce_attached (pw_charts (bindUserEvents container ts ch w) c) = ce_attached (pw_charts w c))"
  unfolding bindUserEvents_def by (induction ts arbitrary: w) (simp_all add: add_user_inv)

lemma add_responsive_inv:
  assumes "proxies_inv w" "known_inv w"
  shows "proxies_inv (add_responsive container ch ty w)" "known_inv (add_responsive container ch ty w)"
    "ce_responsive (pw_charts (add_responsive container ch ty w) c) =
       (if c = ch then Some (obj_set (responsive_of w ch) ty ()) else ce_responsive (pw_charts w c))"
    "ce_attached (pw_charts (add_responsive container ch ty w) c) = ce_attached (pw_charts w c)"
proof -
  let ?w = "add_responsive container ch ty w"
  have ra: "responsive_of (addEventListener container ch ty w) c = responsive_of w c" for c
    by (rule responsive_of_cong) (simp add: add_frame)
  show "proxies_inv ?w" using add_inv[OF assms(1)] by (simp add: add_responsive_def Let_def set_events_inv)
  have l: "listening ?w c t = listening (addEventListener container ch ty w) c t" for c t
    by (simp add: listening_def add_responsive_def Let_def set_events_proxy)
  show r: "ce_responsive (pw_charts ?w c) =
      (if c = ch then Some (obj_set (responsive_of w ch) ty ()) else ce_responsive (pw_charts w c))" for c
    by (simp add: add_responsive_def Let_def add_frame ra)
  have k: "known_types ?w c = (if c = ch then insert ty (known_types w c) else known_types w c)" for c
    by (auto simp: known_types_def responsive_of_def r obj_keys_set) (auto simp: add_responsive_def Let_def add_frame)
  show "known_inv ?w" using assms(2) unfolding known_inv_iff l k by (auto dest: dom.add_listening)
  show "ce_attached (pw_charts ?w c) = ce_attached (pw_charts w c)"
    by (simp add: add_responsive_def Let_def add_frame)
qed

lemma remove_responsive_inv:
  assumes "proxies_inv w" "known_inv w"
  shows "proxies_inv (remove_responsive ch ty w)" "known_inv (remove_responsive ch ty w)"
    "ce_responsive (pw_charts (remove_responsive ch ty w) c) =
       (if c = ch \<and> obj_has (responsive_of w ch) ty then Some (obj_del (responsive_of w ch) ty) else ce_responsive (pw_charts w c))"
    "ce_attached (pw_charts (remove_responsive ch ty w) c) = ce_attached (pw_charts w c)"
proof -
  let ?w = "remove_responsive ch ty w" and ?r = "removeEventListener ch ty w"
  have ra: "responsive_of ?r c = responsive_of w c" for c by (rule responsive_of_cong) (simp add: remove_frame)
  show "proxies_inv ?w" using assms(1) remove_inv(1)[OF assms(1)]
    by (simp add: remove_responsive_def Let_def set_events_inv)
  show r: "ce_responsive (pw_charts ?w c) =
      (if c = ch \<and> obj_has (responsive_of w ch) ty then Some (obj_del (responsive_of w ch) ty) else ce_responsive (pw_charts w c))" for c
    by (simp add: remove_responsive_def Let_def remove_frame ra)
  show "ce_attached (pw_charts ?w c) = ce_attached (pw_charts w c)"
    by (simp add: remove_responsive_def Let_def remove_frame)
  show "known_inv ?w"
  proof (cases "obj_has (responsive_of w ch) ty")
    case True
    have l: "listening ?w c t \<longleftrightarrow> \<not> (c = ch \<and> t = ty) \<and> listening w c t" for c t
      using True dom.remove_listening[of ch ty w c t]
      by (simp add: listening_def remove_responsive_def Let_def set_events_proxy)
    have lis: "ce_listeners (pw_charts ?w c) = ce_listeners (pw_charts w c)" for c
      by (simp add: remove_responsive_def Let_def remove_frame)
    have rs: "responsive_of ?w c = (if c = ch then obj_del (responsive_of w ch) ty else responsive_of w c)" for c
      using True by (simp add: responsive_of_def[of ?w] r) (simp add: responsive_of_def)
    have "t \<in> known_types ?w c" if "\<not> (c = ch \<and> t = ty)" "t \<in> known_types w c" for c t
      using that by (auto simp: known_types_def rs lis obj_keys_del)
    with assms(2) show ?thesis unfolding known_inv_iff l by blast
  qed (use assms(2) in \<open>simp add: remove_responsive_def\<close>)
qed

lemma field_write_inv:
  assumes "proxies_inv w" "known_inv w"
    and "\<And>c. ce_proxies (f c) = ce_proxies c" "\<And>c. ce_listeners (f c) = ce_listeners c" "\<And>c. ce_responsive (f c) = ce_responsive c"
  shows "proxies_inv (set_events ch f w)" "known_inv (set_events ch f w)"
    "ce_responsive (pw_charts (set_events ch f w) c) = ce_responsive (pw_charts w c)"
proof -
  show "proxies_inv (set_events ch f w)" using assms by (simp add: set_events_inv)
  have r: "responsive_of (set_events ch f w) c = responsive_of w c" for c
    by (rule responsive_of_cong) (simp add: assms)
  have "known_types (set_events ch f w) c = known_types w c" for c by (simp add: known_types_def r assms)
  with assms(2) show "known_inv (set_events ch f w)"
    unfolding known_inv_iff listening_def by (simp add: set_events_proxy assms(3))
  show "ce_responsive (pw_charts (set_events ch f w) c) = ce_responsive (pw_charts w c)" by (simp add: assms)
qed

lemmas write_inv = field_write_inv[where f = "\<lambda>c. c\<lparr>ce_attached := b\<rparr>" for b, folded set_attached_def, simplified]
  field_write_inv[where f = "\<lambda>c. c\<lparr>ce_calls := ce_calls c @ [x]\<rparr>" for x, folded log_call_def, simplified]

lemma write_attached: "ce_attached (pw_charts (set_attached b ch w) c) = (if c = ch then b else ce_attached (pw_charts w c))"
  "ce_attached (pw_charts (log_call x ch w) c) = ce_attached (pw_charts w c)"
  by (simp_all add: set_attached_def log_call_def)

text \<open>The canvas enters the document, and leaves it.\<close>

lemma obj_has_set: "obj_has (obj_set o' k v) k' \<longleftrightarrow> k' = k \<or> obj_has o' k'"
  by (auto simp: obj_has_iff obj_keys_set)

lemma obj_has_del: "obj_has (obj_del o' k) k' \<longleftrightarrow> k' \<noteq> k \<and> obj_has o' k'"
  by (auto simp: obj_has_iff obj_keys_del)

lemma on_attached_inv:
  assumes "proxies_inv w" "known_inv w"
  shows "proxies_inv (on_attached container ch w)" "known_inv (on_attached container ch w)"
    "responsive_inv (pw_charts (on_attached container ch w) ch)"
    "c \<noteq> ch \<Longrightarrow> responsive_inv (pw_charts (on_attached container ch w) c) = responsive_inv (pw_charts w c)"
proof -
  define w1 where "w1 = remove_responsive ch ''attach'' w"
  define w2 where "w2 = log_call CallResize ch (set_attached True ch w1)"
  define w3 where "w3 = add_responsive container ch ''resize'' w2"
  have oa: "on_attached container ch w = add_responsive container ch ''detach'' w3"
    by (simp add: on_attached_def w1_def w2_def w3_def)
  note i1 = remove_responsive_inv[OF assms, of ch "''attach''", folded w1_def]
  note ia = write_inv(1-3)[OF i1(1,2), of True ch]
  note i2 = write_inv(4-6)[OF ia(1,2), of CallResize ch, folded w2_def]
  note i3 = add_responsive_inv[OF i2(1,2), where ch = ch and ty = "''resize''" and container = container, folded w3_def]
  note i4 = add_responsive_inv[OF i3(1,2), where ch = ch and ty = "''detach''" and container = container, folded oa]
  show "proxies_inv (on_attached container ch w)" "known_inv (on_attached container ch w)" by (fact i4)+
  have r2: "responsive_of w2 ch = responsive_of w1 ch" by (rule responsive_of_cong) (simp add: i2(3) ia(3))
  have r1: "\<not> obj_has (responsive_of w1 ch) ''attach''"
    by (auto simp: responsive_of_def i1(3) obj_has_del split: option.split)
  have att: "ce_attached (pw_charts (on_attached container ch w) c) = (if c = ch then True else ce_attached (pw_charts w c))" for c
    by (simp add: i4(4) i3(4) w2_def write_attached i1(4))
  show "responsive_inv (pw_charts (on_attached container ch w) ch)"
    using r1 by (simp add: responsive_inv_def att i4(3) i3(3) responsive_of_def[of w3] obj_has_set r2)
  show "c \<noteq> ch \<Longrightarrow> responsive_inv (pw_charts (on_attached container ch w) c) = responsive_inv (pw_charts w c)"
    by (rule responsive_inv_cong) (simp_all add: att i4(3) i3(3) i2(3) ia(3) i1(3))
qed

lemma on_detached_inv:
  assumes "proxies_inv w" "known_inv w"
  shows "proxies_inv (on_detached container ch w)" "known_inv (on_detached container ch w)"
    "responsive_inv (pw_charts (on_detached container ch w) ch)"
    "c \<noteq> ch \<Longrightarrow> responsive_inv (pw_charts (on_detached container ch w) c) = responsive_inv (pw_charts w c)"
proof -
  define w1 where "w1 = set_attached False ch w"
  define w2 where "w2 = remove_responsive ch ''resize'' w1"
  define w3 where "w3 = log_call CallResize ch (log_call CallStop ch w2)"
  have od: "on_detached container ch w = add_responsive container ch ''attach'' w3"
    by (simp add: on_detached_def w1_def w2_def w3_def)
  note i1 = write_inv(1-3)[OF assms, of False ch, folded w1_def]
  note i2 = remove_responsive_inv[OF i1(1,2), of ch "''resize''", folded w2_def]
  note ib = write_inv(4-6)[OF i2(1,2), of CallStop ch]
  note i3 = write_inv(4-6)[OF ib(1,2), of CallResize ch, folded w3_def]
  note i4 = add_responsive_inv[OF i3(1,2), where ch = ch and ty = "''attach''" and container = container, folded od]
  show "proxies_inv (on_detached container ch w)" "known_inv (on_detached container ch w)" by (fact i4)+
  have r3: "responsive_of w3 ch = responsive_of w2 ch" by (rule responsive_of_cong) (simp add: i3(3) ib(3))
  have r2: "\<not> obj_has (responsive_of w2 ch) ''resize''"
    by (auto simp: responsive_of_def i2(3) obj_has_del split: option.split)
  have att: "ce_attached (pw_charts (on_detached container ch w) c) = (if c = ch then False else ce_attached (pw_charts w c))" for c
    by (simp add: i4(4) w3_def write_attached i2(4) w1_def)
  show "responsive_inv (pw_charts (on_detached container ch w) ch)"
    using r2 by (simp add: responsive_inv_def att i4(3) obj_has_set r3)
  show "c \<noteq> ch \<Longrightarrow> responsive_inv (pw_charts (on_detached container ch w) c) = responsive_inv (pw_charts w c)"
    by (rule responsive_inv_cong) (simp_all add: att i4(3) i3(3) ib(3) i2(3) i1(3))
qed

lemma bindResponsiveEvents_inv:
  assumes "proxies_inv w" "known_inv w"
  shows "proxies_inv (bindResponsiveEvents container a ch w)" "known_inv (bindResponsiveEvents container a ch w)"
    "responsive_inv (pw_charts (bindResponsiveEvents container a ch w) ch)"
    "c \<noteq> ch \<Longrightarrow> responsive_inv (pw_charts (bindResponsiveEvents container a ch w) c) = responsive_inv (pw_charts w c)"
proof -
  define w1 where "w1 = set_events ch (\<lambda>c. c\<lparr>ce_responsive := Some (responsive_of w ch)\<rparr>) w"
  have b: "bindResponsiveEvents container a ch w = (if a then on_attached container ch w1 else on_detached container ch w1)"
    by (simp add: bindResponsiveEvents_def w1_def Let_def)
  have p1: "proxies_inv w1" using assms(1) by (simp add: w1_def set_events_inv)
  have r: "responsive_of w1 c = responsive_of w c" for c by (simp add: w1_def responsive_of_def)
  have "known_types w1 c = known_types w c" for c by (simp add: known_types_def r) (simp add: w1_def)
  then have k1: "known_inv w1"
    using assms(2) unfolding known_inv_iff listening_def by (simp add: w1_def set_events_proxy)
  note on = on_attached_inv[OF p1 k1] on_detached_inv[OF p1 k1]
  have "c \<noteq> ch \<Longrightarrow> pw_charts w1 c = pw_charts w c" by (simp add: w1_def)
  then show "c \<noteq> ch \<Longrightarrow> responsive_inv (pw_charts (bindResponsiveEvents container a ch w) c) = responsive_inv (pw_charts w c)"
    using on(4,8)[of c ch container] by (simp add: b)
  show "proxies_inv (bindResponsiveEvents container a ch w)" "known_inv (bindResponsiveEvents container a ch w)"
    "responsive_inv (pw_charts (bindResponsiveEvents container a ch w) ch)"
    using on by (simp_all add: b)
qed

lemma bindEvents_inv:
  assumes "events_inv w" "ce_responsive (pw_charts w ch) = None"
  shows "events_inv (bindEvents container a opts ch w)"
proof -
  let ?w1 = "bindUserEvents container (eo_events opts) ch w"
  have i: "proxies_inv w" "known_inv w" and r: "responsive_inv (pw_charts w c)" for c
    using assms(1) by (simp_all add: events_inv_def)
  from bindUserEvents_inv[OF i, of container "eo_events opts" ch]
  have i1: "proxies_inv ?w1" "known_inv ?w1" and f1: "ce_responsive (pw_charts ?w1 c) = ce_responsive (pw_charts w c)"
    "ce_attached (pw_charts ?w1 c) = ce_attached (pw_charts w c)" for c by simp_all
  have r1: "responsive_inv (pw_charts ?w1 c)" for c using r[of c] responsive_inv_cong[OF f1] by simp
  show ?thesis
  proof (cases "eo_responsive opts")
    case True
    then have b: "bindEvents container a opts ch w = bindResponsiveEvents container a ch ?w1" by (simp add: bindEvents_def)
    have "responsive_inv (pw_charts (bindResponsiveEvents container a ch ?w1) c)" for c
      by (cases "c = ch") (simp_all add: bindResponsiveEvents_inv(3,4)[OF i1] r1)
    then show ?thesis unfolding events_inv_def b using bindResponsiveEvents_inv(1,2)[OF i1] by blast
  next
    case False
    then have b: "bindEvents container a opts ch w = set_attached True ch ?w1" by (simp add: bindEvents_def)
    have "responsive_inv (pw_charts (set_attached True ch ?w1) c)" for c
    proof (cases "c = ch")
      case True
      then show ?thesis using write_inv(3)[OF i1, of True ch c] f1(1)[of c] assms(2) by (simp add: responsive_inv_def)
    next
      case False
      then have "pw_charts (set_attached True ch ?w1) c = pw_charts ?w1 c" by (simp add: set_attached_def)
      with r1 show ?thesis by simp
    qed
    then show ?thesis unfolding events_inv_def b using write_inv(1,2)[OF i1] by blast
  qed
qed

text \<open>Unbinding removes whatever the chart registered.\<close>

lemma removes_frame:
  "ce_listeners (pw_charts (fold (removeEventListener ch) ts w) c) = ce_listeners (pw_charts w c)"
  "ce_responsive (pw_charts (fold (removeEventListener ch) ts w) c) = ce_responsive (pw_charts w c)"
  "ce_attached (pw_charts (fold (removeEventListener ch) ts w) c) = ce_attached (pw_charts w c)"
  by (induction ts arbitrary: w) (simp_all add: remove_frame)

lemma unbindEvents_effect:
  assumes "events_inv w"
  shows "events_inv (unbindEvents ch w)" "\<not> listening (unbindEvents ch w) ch ty"
    "c \<noteq> ch \<Longrightarrow> listening (unbindEvents ch w) c ty = listening w c ty"
    "ce_listeners (pw_charts (unbindEvents ch w) ch) = []" "ce_responsive (pw_charts (unbindEvents ch w) ch) = None"
proof -
  have p: "proxies_inv w" and k: "known_inv w" and r: "responsive_inv (pw_charts w c)" for c
    using assms by (simp_all add: events_inv_def)
  define ls where "ls = obj_keys (ce_listeners (pw_charts w ch))"
  define rs where "rs = obj_keys (responsive_of w ch)"
  define w1 where "w1 = fold (removeEventListener ch) ls w"
  define w2 where "w2 = set_events ch (\<lambda>c. c\<lparr>ce_listeners := []\<rparr>) w1"
  define w3 where "w3 = fold (removeEventListener ch) rs w2"
  have rs2: "obj_keys (responsive_of w2 ch) = rs" by (simp add: rs_def responsive_of_def w2_def w1_def removes_frame)
  have u: "unbindEvents ch w = set_events ch (\<lambda>c. c\<lparr>ce_responsive := None\<rparr>) w3"
    unfolding unbindEvents_def Let_def ls_def[symmetric] w1_def[symmetric] w2_def[symmetric] rs2 w3_def[symmetric] ..
  have l2: "listening w2 c t = listening w1 c t" for c t by (simp add: listening_def w2_def set_events_proxy)
  have lu: "listening (unbindEvents ch w) c t = listening w3 c t" for c t by (simp add: listening_def u set_events_proxy)
  have l3: "listening w3 c t \<longleftrightarrow> \<not> (c = ch \<and> t \<in> set ls \<union> set rs) \<and> listening w c t" for c t
    by (auto simp: w3_def dom.removes_listening l2 w1_def)
  show nl: "\<not> listening (unbindEvents ch w) ch ty" for ty
    using k unfolding known_inv_iff by (auto simp: lu l3 known_types_def ls_def rs_def)
  show "c \<noteq> ch \<Longrightarrow> listening (unbindEvents ch w) c ty = listening w c ty" by (simp add: lu l3)
  show ln: "ce_listeners (pw_charts (unbindEvents ch w) ch) = []" and rn: "ce_responsive (pw_charts (unbindEvents ch w) ch) = None"
    by (simp_all add: u w3_def w2_def removes_frame)
  have other: "ce_listeners (pw_charts (unbindEvents ch w) c) = ce_listeners (pw_charts w c)"
    "ce_responsive (pw_charts (unbindEvents ch w) c) = ce_responsive (pw_charts w c)"
    "ce_attached (pw_charts (unbindEvents ch w) c) = ce_attached (pw_charts w c)" if "c \<noteq> ch" for c
    using that by (simp_all add: u w3_def w2_def w1_def removes_frame)
  have "proxies_inv w2" using dom.removes_ok[OF p] by (simp add: w2_def w1_def set_events_inv)
  then have "proxies_inv (unbindEvents ch w)" using dom.removes_ok by (simp add: u set_events_inv w3_def)
  moreover have "known_inv (unbindEvents ch w)"
    unfolding known_inv_iff
  proof (intro allI impI)
    fix c t assume l: "listening (unbindEvents ch w) c t"
    then have c: "c \<noteq> ch" using nl by auto
    with l have "t \<in> known_types w c" using k unfolding known_inv_iff by (simp add: lu l3)
    with c show "t \<in> known_types (unbindEvents ch w) c"
      by (simp add: known_types_def other responsive_of_cong[OF other(2)])
  qed
  moreover have "responsive_inv (pw_charts (unbindEvents ch w) c)" for c
    using r[of c] rn responsive_inv_cong[OF other(2,3)[of c]] by (cases "c = ch") (simp_all add: responsive_inv_def)
  ultimately show "events_inv (unbindEvents ch w)" by (simp add: events_inv_def)
qed

section \<open>No listener is leaked\<close>

lemma event_step_inv:
  assumes "events_inv w"
  shows "events_inv (event_step container op w)"
proof (cases op)
  case (Init ch a opts)
  then show ?thesis using assms bindEvents_inv[OF assms] by simp
next
  case (Check ch a opts)
  note u = unbindEvents_effect[OF assms]
  from Check show ?thesis using assms bindEvents_inv[OF u(1,5)] by (simp add: checkEventBindings_def)
next
  case (Unbind ch)
  then show ?thesis using unbindEvents_effect(1)[OF assms] by simp
next
  case (Attached ch)
  have i: "proxies_inv w" "known_inv w" and r: "responsive_inv (pw_charts w c)" for c
    using assms by (simp_all add: events_inv_def)
  have "responsive_inv (pw_charts (on_attached container ch w) c)" for c
    by (cases "c = ch") (simp_all add: on_attached_inv(3,4)[OF i] r)
  then have "events_inv (on_attached container ch w)" using on_attached_inv(1,2)[OF i] by (simp add: events_inv_def)
  with assms Attached show ?thesis by simp
next
  case (Detached ch)
  have i: "proxies_inv w" "known_inv w" and r: "responsive_inv (pw_charts w c)" for c
    using assms by (simp_all add: events_inv_def)
  have "responsive_inv (pw_charts (on_detached container ch w) c)" for c
    by (cases "c = ch") (simp_all add: on_detached_inv(3,4)[OF i] r)
  then have "events_inv (on_detached container ch w)" using on_detached_inv(1,2)[OF i] by (simp add: events_inv_def)
  with assms Detached show ?thesis by simp
qed

lemma new_platform_inv: "events_inv new_platform"
  by (simp add: events_inv_def proxies_inv_def known_inv_def responsive_inv_def new_platform_def no_events_def proxy_of_def)

lemma event_run_inv: "events_inv w \<Longrightarrow> events_inv (fold (event_step container) ops w)"
  by (induction ops arbitrary: w) (simp_all add: event_step_inv)

text \<open>
  C4. No listener is leaked.  After any sequence of bindings, checks, attachments, detachments and
  unbindings of any charts, every listener or observer registered with the browser is one its
  chart can name and remove, no event of a chart has two, and the window is listened to exactly
  while some chart has a resize observer.  Unbinding a chart then leaves nothing of it registered.
\<close>

theorem no_listener_leaks:
  assumes "w = fold (event_step container) ops new_platform"
  shows "(\<forall>(ch, ty, p) \<in> set (pw_live w). ty \<in> known_types w ch \<and> (\<forall>q. (ch, ty, q) \<in> set (pw_live w) \<longrightarrow> q = p)) \<and>
    (pw_window w \<longleftrightarrow> (\<exists>ch p. (ch, ''resize'', p) \<in> set (pw_live w))) \<and>
    (\<forall>r \<in> set (pw_live (unbindEvents ch w)). fst r \<noteq> ch)"
proof -
  have e: "events_inv w" unfolding assms by (rule event_run_inv[OF new_platform_inv])
  then have p: "proxies_inv w" and k: "known_inv w" by (simp_all add: events_inv_def)
  note d = proxies_invD[OF p]
  have "ty \<in> known_types w c" if "(c, ty, q) \<in> set (pw_live w)" for c ty q
    using that k unfolding known_inv_iff by (auto simp: d(1) listening_def)
  moreover have "pw_window w \<longleftrightarrow> (\<exists>c q. (c, ''resize'', q) \<in> set (pw_live w))"
  proof -
    have "pw_window w \<longleftrightarrow> (\<exists>c. c \<in> set (pw_drp w))" unfolding d(3) by (cases "pw_drp w") auto
    then show ?thesis unfolding d(1) d(2) by auto
  qed
  moreover have "fst r \<noteq> ch" if "r \<in> set (pw_live (unbindEvents ch w))" for r
  proof (cases r)
    case (fields c ty q)
    have "proxies_inv (unbindEvents ch w)" using unbindEvents_effect(1)[OF e] by (simp add: events_inv_def)
    from proxies_invD(1)[OF this, of c ty q] that fields have "listening (unbindEvents ch w) c ty" by (simp add: listening_def)
    then show ?thesis using unbindEvents_effect(2)[OF e] fields by auto
  qed
  ultimately show ?thesis by (auto simp: d(1))
qed

text \<open>A responsive chart follows its canvas: it waits for the attachment while it is detached.\<close>

lemma responsive_follows:
  assumes "w = fold (event_step container) ops new_platform" "ce_responsive (pw_charts w ch) = Some o'"
  shows "obj_has o' ''attach'' = (\<not> ce_attached (pw_charts w ch)) \<and> obj_has o' ''resize'' = ce_attached (pw_charts w ch)"
  using event_run_inv[OF new_platform_inv, of container ops] assms by (auto simp: events_inv_def responsive_inv_def split: option.splits)

definition two_charts :: "event_op list" where
  "two_charts = [Init 0 True \<lparr>eo_events = [''click''], eo_responsive = True\<rparr>,
     Init 1 False \<lparr>eo_events = [''mousemove'', ''click''], eo_responsive = True\<rparr>, Attached 1, Detached 0]"

theorem no_listener_leaks_witness:
  "list_all (\<lambda>r. fst r \<noteq> 1) (pw_live (unbindEvents 1 (fold (event_step (\<lambda>_. True)) two_charts new_platform))) \<and>
   pw_window (fold (event_step (\<lambda>_. True)) two_charts new_platform)"
proof -
  let ?w = "fold (event_step (\<lambda>_. True)) two_charts new_platform"
  have "pw_live ?w = [(0, ''click'', 0), (0, ''detach'', 2), (1, ''mousemove'', 3), (1, ''click'', 4),
      (1, ''resize'', 6), (1, ''detach'', 7), (0, ''attach'', 8)]"
    by code_simp
  then have "(1, ''resize'', 6) \<in> set (pw_live ?w)" by simp
  with no_listener_leaks[OF refl, where ops = two_charts and container = "\<lambda>_. True" and ch = 1] show ?thesis
    by (simp only: list_all_iff) blast
qed

end
