(* ===== verification/ChartControl.thy ===== *)
theory ChartControl
  imports ChartMetasets "HOL-Library.Countable"
begin

text \<open>
  What a chart does with data changes, pointer events and drawing (\<open>class Chart\<close> of
  \<open>js/chart_3.9.js\<close>): the hidden data indices that move with the data, the elements that are
  active and highlighted, and the order in which layers and data sets are drawn.  Calls to
  controllers, plugins and callbacks of the user are recorded in a log; the elements an event hits
  are found by the code of \<open>ChartInteraction\<close> and are a parameter here.
\<close>

section \<open>Hidden data indices\<close>

text \<open>\<open>_hiddenIndices\<close> is an object with numeric keys: \<open>Object.keys\<close> lists the array indices in
  ascending order, then other keys (a negative number) in the order of their insertion.\<close>

type_synonym hidden_map = "(int \<times> bool) list"

definition numeric_keys :: "hidden_map \<Rightarrow> int list" where
  "numeric_keys obj = sort (filter (\<lambda>k. 0 \<le> k) (obj_keys obj)) @ filter (\<lambda>k. k < 0) (obj_keys obj)"

definition hidden_at :: "hidden_map \<Rightarrow> int \<Rightarrow> bool" where
  "hidden_at obj k = (case obj_get obj k of Some v \<Rightarrow> v | None \<Rightarrow> False)"

definition move_key :: "int \<Rightarrow> int \<Rightarrow> int \<Rightarrow> hidden_map \<Rightarrow> hidden_map" where
  "move_key start move intKey obj =
     (if intKey \<ge> start then
        (let v = hidden_at obj intKey; obj1 = obj_del obj intKey
         in if move > 0 \<or> intKey > start then obj_set obj1 (intKey + move) v else obj1)
      else obj)"

definition moveNumericKeys :: "hidden_map \<Rightarrow> int \<Rightarrow> int \<Rightarrow> hidden_map" where
  "moveNumericKeys obj start move = fold (move_key start move) (numeric_keys obj) obj"

definition toggleDataVisibility :: "hidden_map \<Rightarrow> int \<Rightarrow> hidden_map" where
  "toggleDataVisibility obj index = obj_set obj index (\<not> hidden_at obj index)"

definition getDataVisibility :: "hidden_map \<Rightarrow> int \<Rightarrow> bool" where
  "getDataVisibility obj index = (\<not> hidden_at obj index)"

text \<open>A change of the data that a controller reported: its index, the method, start and count.\<close>

record data_change =
  dc_index :: nat
  dc_method :: string
  dc_start :: int
  dc_count :: int

definition change_set :: "data_change list \<Rightarrow> nat \<Rightarrow> (nat \<times> string \<times> int \<times> int) list" where
  "change_set changes idx =
     map (\<lambda>(i, c). (i, dc_method c, dc_start c, dc_count c)) (enumerate 0 (filter (\<lambda>c. dc_index c = idx) changes))"

definition getUniformDataChanges :: "data_change list \<Rightarrow> nat \<Rightarrow> (string \<times> int \<times> int) list option" where
  "getUniformDataChanges changes datasetCount =
     (if changes = [] then None
      else if list_all (\<lambda>i. setsEqual (change_set changes 0) (change_set changes i)) [1..<datasetCount]
      then Some (map snd (change_set changes 0)) else None)"

fun apply_change :: "string \<times> int \<times> int \<Rightarrow> hidden_map \<Rightarrow> hidden_map" where
  "apply_change (m, start, count') obj =
     moveNumericKeys obj start (if m = ''_removeElements'' then - count' else count')"

definition updateHiddenIndices :: "data_change list \<Rightarrow> nat \<Rightarrow> hidden_map \<Rightarrow> hidden_map" where
  "updateHiddenIndices changes datasetCount obj =
     (case getUniformDataChanges changes datasetCount of None \<Rightarrow> obj | Some cs \<Rightarrow> fold apply_change cs obj)"

section \<open>Active elements\<close>

record ui_event =
  ue_type :: string
  ue_id :: nat

text \<open>An active item holds its element object, here a number.  \<open>ui_elems\<close> is the element that stands at
  an index of the data of a data set (\<open>meta.data[index]\<close>); data changes move elements to other
  indices.  Indices are of data that exist.\<close>

record ui_item = active_item +
  item_element :: nat

datatype ui_call =
    HoverStyle bool ui_item | DatasetHoverStyle bool nat
  | OnHover ui_event "ui_item list" | OnClick ui_event "ui_item list" | Render

record chart_ui =
  ui_elems :: "nat \<Rightarrow> nat \<Rightarrow> nat"
  ui_active :: "ui_item list"
  ui_last :: "ui_event option"
  ui_log :: "ui_call list"

definition element_item :: "chart_ui \<Rightarrow> active_item \<Rightarrow> ui_item" where
  "element_item s x = \<lparr>datasetIndex = datasetIndex x, item_index = item_index x,
     item_element = ui_elems s (datasetIndex x) (item_index x)\<rparr>"

record ui_env =
  uv_mode :: string
  uv_controller :: "nat \<Rightarrow> bool"
  uv_find :: "ui_event \<Rightarrow> bool \<Rightarrow> active_item list"

definition isClickEvent :: "ui_event \<Rightarrow> bool" where
  "isClickEvent e \<longleftrightarrow> ue_type e = ''mouseup'' \<or> ue_type e = ''click'' \<or> ue_type e = ''contextmenu''"

definition determineLastEvent :: "ui_event \<Rightarrow> ui_event option \<Rightarrow> bool \<Rightarrow> bool \<Rightarrow> ui_event option" where
  "determineLastEvent e lastEvent inChartArea isClick =
     (if \<not> inChartArea \<or> ue_type e = ''mouseout'' then None else if isClick then lastEvent else Some e)"

definition say :: "ui_call list \<Rightarrow> chart_ui \<Rightarrow> chart_ui" where
  "say cs s = s\<lparr>ui_log := ui_log s @ cs\<rparr>"

definition updateHoverStyle :: "ui_env \<Rightarrow> ui_item list \<Rightarrow> bool \<Rightarrow> chart_ui \<Rightarrow> chart_ui" where
  "updateHoverStyle env items enabled s =
     (let s1 = (if uv_mode env = ''dataset'' then say [DatasetHoverStyle enabled (datasetIndex (hd items))] s else s)
      in say (map (HoverStyle enabled) (filter (\<lambda>x. uv_controller env (datasetIndex x)) items)) s1)"

definition same_item :: "ui_item \<Rightarrow> ui_item \<Rightarrow> bool" where
  "same_item x y \<longleftrightarrow> datasetIndex x = datasetIndex y \<and> item_index x = item_index y"

definition items_diff :: "ui_item list \<Rightarrow> ui_item list \<Rightarrow> ui_item list" where
  "items_diff a b = filter (\<lambda>x. \<not> list_ex (same_item x) b) a"

definition updateHoverStyles :: "ui_env \<Rightarrow> ui_item list \<Rightarrow> ui_item list \<Rightarrow> bool \<Rightarrow> chart_ui \<Rightarrow> chart_ui" where
  "updateHoverStyles env active lastActive replay s =
     (let deactivated = items_diff lastActive active;
          activated = (if replay then active else items_diff active lastActive);
          s1 = (if deactivated \<noteq> [] then updateHoverStyle env deactivated False s else s)
      in if activated \<noteq> [] \<and> uv_mode env \<noteq> [] then updateHoverStyle env activated True s1 else s1)"

definition getActiveElements :: "ui_env \<Rightarrow> chart_ui \<Rightarrow> ui_event \<Rightarrow> ui_item list \<Rightarrow> bool \<Rightarrow> bool \<Rightarrow> ui_item list" where
  "getActiveElements env s e lastActive inChartArea useFinalPosition =
     (if ue_type e = ''mouseout'' then [] else if \<not> inChartArea then lastActive
      else map (element_item s) (uv_find env e useFinalPosition))"

definition handleEvent :: "ui_env \<Rightarrow> ui_event \<Rightarrow> bool \<Rightarrow> bool \<Rightarrow> chart_ui \<Rightarrow> chart_ui \<times> bool" where
  "handleEvent env e replay inChartArea s =
     (let lastActive = ui_active s;
          active = getActiveElements env s e lastActive inChartArea replay;
          isClick = isClickEvent e;
          lastEvent = determineLastEvent e (ui_last s) inChartArea isClick;
          s1 = (if inChartArea then say (OnHover e active # (if isClick then [OnClick e active] else [])) (s\<lparr>ui_last := None\<rparr>)
                else s);
          changed = (\<not> elementsEqual active lastActive);
          s2 = (if changed \<or> replay then updateHoverStyles env active lastActive replay (s1\<lparr>ui_active := active\<rparr>) else s1)
      in (s2\<lparr>ui_last := lastEvent\<rparr>, changed))"

text \<open>\<open>_eventHandler\<close>: a plugin may veto the event (\<open>allow\<close>) or ask for a redraw (\<open>wants\<close>).\<close>

definition eventHandler :: "ui_env \<Rightarrow> bool \<Rightarrow> bool \<Rightarrow> ui_event \<Rightarrow> bool \<Rightarrow> bool \<Rightarrow> chart_ui \<Rightarrow> chart_ui" where
  "eventHandler env allow wants e replay inChartArea s =
     (if \<not> allow then s
      else (let (s1, changed) = handleEvent env e replay inChartArea s
            in if changed \<or> wants then say [Render] s1 else s1))"

text \<open>\<open>setActiveElements\<close>: every data set index has a metaset, because asking for it makes one.\<close>

definition setActiveElements :: "ui_env \<Rightarrow> active_item list \<Rightarrow> chart_ui \<Rightarrow> chart_ui" where
  "setActiveElements env activeElements s =
     (let active = map (element_item s) activeElements
      in if elementsEqual active (ui_active s) then s
         else updateHoverStyles env active (ui_active s) False (s\<lparr>ui_active := active, ui_last := None\<rparr>))"

text \<open>\<open>update\<close> as far as it touches the active elements: the controllers leave new elements at the
  indices (\<open>elems\<close>), then the last event is replayed, or else the active elements are styled again.\<close>

definition after_update :: "ui_env \<Rightarrow> bool \<Rightarrow> bool \<Rightarrow> bool \<Rightarrow> (nat \<Rightarrow> nat \<Rightarrow> nat) \<Rightarrow> chart_ui \<Rightarrow> chart_ui" where
  "after_update env allow wants inChartArea elems s0 =
     (let s = s0\<lparr>ui_elems := elems\<rparr>
      in say [Render]
           (case ui_last s of
              Some e \<Rightarrow> eventHandler env allow wants e True inChartArea s
            | None \<Rightarrow> if ui_active s \<noteq> [] then updateHoverStyles env (ui_active s) (ui_active s) True s else s))"

datatype ui_op =
    Event ui_event bool bool bool | SetActive "active_item list" | Update bool bool bool "nat \<Rightarrow> nat \<Rightarrow> nat"

fun ui_step :: "ui_env \<Rightarrow> ui_op \<Rightarrow> chart_ui \<Rightarrow> chart_ui" where
  "ui_step env (Event e allow wants area) s = eventHandler env allow wants e False area s"
| "ui_step env (SetActive items) s = setActiveElements env items s"
| "ui_step env (Update allow wants area elems) s = after_update env allow wants area elems s"

section \<open>Drawing\<close>

record layer =
  ly_z :: rat
  ly_idx :: nat

datatype draw_call = DrawHook string | Clear | DrawLayer nat | DrawDataset nat

definition sort_layers :: "layer list \<Rightarrow> layer list" where
  "sort_layers = sort_by (compare2Level ly_z (\<lambda>l. of_nat (ly_idx l)))"

fun draw_while :: "layer list \<Rightarrow> draw_call list \<times> layer list" where
  "draw_while [] = ([], [])"
| "draw_while (l # ls) = (if ly_z l \<le> 0 then (let (ds, rest) = draw_while ls in (DrawLayer (ly_idx l) # ds, rest)) else ([], l # ls))"

definition visible_metas :: "chart \<Rightarrow> nat list" where
  "visible_metas c = filter (\<lambda>a. mt_visible (ch_metas c ! a)) (present (ch_sorted c))"

definition draw_datasets :: "(string \<Rightarrow> nat option \<Rightarrow> bool) \<Rightarrow> chart \<Rightarrow> draw_call list" where
  "draw_datasets allow c =
     (if \<not> allow ''beforeDatasetsDraw'' None then []
      else concat (map (\<lambda>a. [DrawDataset a, DrawHook ''afterDatasetDraw''])
             (filter (\<lambda>a. allow ''beforeDatasetDraw'' (Some (mt_index (ch_metas c ! a)))) (rev (visible_metas c))))
        @ [DrawHook ''afterDatasetsDraw''])"

definition draw_chart :: "(string \<Rightarrow> nat option \<Rightarrow> bool) \<Rightarrow> rat \<Rightarrow> rat \<Rightarrow> layer list \<Rightarrow> chart \<Rightarrow> draw_call list" where
  "draw_chart allow width height layers c =
     Clear #
     (if width \<le> 0 \<or> height \<le> 0 then []
      else if \<not> allow ''beforeDraw'' None then []
      else (let (below, above) = draw_while layers
            in below @ draw_datasets allow c @ map (\<lambda>l. DrawLayer (ly_idx l)) above @ [DrawHook ''afterDraw'']))"

section \<open>Removing a datum moves the hidden indices\<close>

lemma hidden_at_set: "hidden_at (obj_set obj k v) j = (if j = k then v else hidden_at obj j)"
  and hidden_at_del: "hidden_at (obj_del obj k) j = (j \<noteq> k \<and> hidden_at obj j)"
  by (simp_all add: hidden_at_def)

lemma move_key_minus_one:
  "hidden_at (move_key start (- 1) k obj) j =
     (if start \<le> k \<and> j = k then False else if start < k \<and> j = k - 1 then hidden_at obj k else hidden_at obj j)"
  by (auto simp: move_key_def Let_def hidden_at_set hidden_at_del)

lemma move_keys_minus_one:
  assumes "sorted ks" "distinct ks"
  shows "hidden_at (fold (move_key start (- 1)) ks obj) j =
    (if j < start then hidden_at obj j
     else if j + 1 \<in> set ks then hidden_at obj (j + 1) else if j \<in> set ks then False else hidden_at obj j)"
  using assms
proof (induction ks arbitrary: obj)
  case (Cons k ks)
  let ?o = "move_key start (- 1) k obj"
  have lt: "k < x" if "x \<in> set ks" for x using Cons.prems that by (auto simp: less_le)
  have IH: "hidden_at (fold (move_key start (- 1)) ks ?o) j =
    (if j < start then hidden_at ?o j
     else if j + 1 \<in> set ks then hidden_at ?o (j + 1) else if j \<in> set ks then False else hidden_at ?o j)"
    using Cons by simp
  consider "j < start" | "start \<le> j" "j + 1 \<in> set ks" | "start \<le> j" "j + 1 \<notin> set ks" by linarith
  then show ?case
  proof cases
    case 1
    then have "\<not> (start \<le> k \<and> j = k)" "\<not> (start < k \<and> j = k - 1)" by linarith+
    then have "hidden_at ?o j = hidden_at obj j" by (simp only: move_key_minus_one if_False)
    with 1 show ?thesis using IH by simp
  next
    case 2
    with lt[of "j + 1"] have "k < j + 1" by simp
    with 2 show ?thesis using IH by (simp add: move_key_minus_one)
  next
    case 3
    then show ?thesis using IH lt[of j] by (auto simp: move_key_minus_one)
  qed
qed simp

lemma hidden_at_absent: "k \<notin> set (obj_keys obj) \<Longrightarrow> \<not> hidden_at obj k"
  by (simp add: hidden_at_def obj_get_None_iff[symmetric])

text \<open>
  Removing one datum keeps the hidden data hidden: afterwards an index before the removed one
  is hidden as it was, and any other as its successor was.
\<close>

theorem remove_moves_hidden:
  assumes "distinct (obj_keys obj)" "\<forall>k \<in> set (obj_keys obj). 0 \<le> k"
  shows "getDataVisibility (moveNumericKeys obj start (- 1)) j =
    getDataVisibility obj (if j < start then j else j + 1)"
proof -
  have k: "numeric_keys obj = sort (obj_keys obj)"
    using assms(2) by (simp add: numeric_keys_def filter_id_conv filter_empty_conv not_less)
  show ?thesis
    using assms(1) hidden_at_absent[of "j + 1" obj] hidden_at_absent[of j obj]
    by (auto simp: getDataVisibility_def moveNumericKeys_def k move_keys_minus_one)
qed

theorem remove_moves_hidden_witness:
  "\<not> getDataVisibility (moveNumericKeys [(5, True), (2, True)] 3 (- 1)) 4"
  using remove_moves_hidden[of "[(5, True), (2, True)]" 3 4]
  by (simp add: obj_keys_def getDataVisibility_def hidden_at_def)

text \<open>An insertion does not: the keys are moved in ascending order, and a key moved onto the next
  one overwrites it.  Of two hidden neighbours one is shown after an insertion before them; a
  removal of several data leaves some of their keys behind.\<close>

lemma insert_loses_hidden: "moveNumericKeys [(3, True), (4, True)] 0 1 = [(5, True)]"
  by code_simp

lemma remove_two_leaves_keys: "moveNumericKeys [(1, True)] 0 (- 2) = [(- 1, True)]"
  by code_simp

section \<open>Uniform changes\<close>

definition changes_of :: "data_change list \<Rightarrow> nat \<Rightarrow> (string \<times> int \<times> int) list" where
  "changes_of changes idx = map (\<lambda>c. (dc_method c, dc_start c, dc_count c)) (filter (\<lambda>c. dc_index c = idx) changes)"

lemma enumerate_map: "map (\<lambda>(i, c). (i, f c)) (enumerate n xs) = enumerate n (map f xs)"
  by (induction xs arbitrary: n) auto

lemma change_set_enumerate: "change_set changes idx = enumerate 0 (changes_of changes idx)"
  using enumerate_map[of "\<lambda>c. (dc_method c, dc_start c, dc_count c)" 0 "filter (\<lambda>c. dc_index c = idx) changes"]
  by (simp add: change_set_def changes_of_def)

lemma setsEqual_enumerate: "setsEqual (enumerate 0 xs) (enumerate 0 ys) \<longleftrightarrow> xs = ys"
proof
  assume e: "setsEqual (enumerate 0 xs) (enumerate 0 ys)"
  then have l: "length xs = length ys" by (simp add: setsEqual_def)
  have "xs ! i = ys ! i" if "i < length xs" for i
  proof -
    have "(i, xs ! i) \<in> set (enumerate 0 xs)" using that by (auto simp: in_set_enumerate_eq)
    with e have "(i, xs ! i) \<in> set (enumerate 0 ys)" by (auto simp: setsEqual_def)
    then show ?thesis by (simp add: in_set_enumerate_eq)
  qed
  with l show "xs = ys" by (rule nth_equalityI)
qed (simp add: setsEqual_def)

text \<open>Comparing the sets of numbered texts compares the sequences: the changes are uniform exactly
  when every data set reported the same ones in the same order.\<close>

lemma uniform_changes:
  "getUniformDataChanges changes n = Some cs \<longleftrightarrow>
     changes \<noteq> [] \<and> cs = changes_of changes 0 \<and> (\<forall>i \<in> {1..<n}. changes_of changes 0 = changes_of changes i)"
  by (auto simp: getUniformDataChanges_def change_set_enumerate setsEqual_enumerate list_all_iff)

section \<open>Highlighting follows the active elements\<close>

definition item_keys :: "ui_item list \<Rightarrow> (nat \<times> nat) set" where
  "item_keys items = set (map (\<lambda>x. (datasetIndex x, item_index x)) items)"

definition elements_of :: "ui_item list \<Rightarrow> nat set" where
  "elements_of items = set (map item_element items)"

text \<open>The element objects that are highlighted after a sequence of calls to the controllers.\<close>

fun styled :: "ui_call list \<Rightarrow> nat set \<Rightarrow> nat set" where
  "styled [] S = S"
| "styled (HoverStyle b x # cs) S = styled cs (if b then insert (item_element x) S else S - {item_element x})"
| "styled (_ # cs) S = styled cs S"

lemma styled_append [simp]: "styled (as @ bs) S = styled bs (styled as S)"
  by (induction as S rule: styled.induct) simp_all

lemma styled_items: "styled (map (HoverStyle b) xs) S = (if b then S \<union> elements_of xs else S - elements_of xs)"
  by (induction xs arbitrary: S) (auto simp: elements_of_def)

definition highlighted :: "chart_ui \<Rightarrow> nat set" where
  "highlighted s = styled (ui_log s) {}"

text \<open>Items whose element stands at their index, and a chart whose active items are such.\<close>

definition placed :: "(nat \<Rightarrow> nat \<Rightarrow> nat) \<Rightarrow> ui_item list \<Rightarrow> bool" where
  "placed elems items \<longleftrightarrow> (\<forall>x \<in> set items. item_element x = elems (datasetIndex x) (item_index x))"

definition separate :: "(nat \<Rightarrow> nat \<Rightarrow> nat) \<Rightarrow> bool" where
  "separate elems \<longleftrightarrow> inj (\<lambda>(d, i). elems d i)"

lemma elements_of_keys: "placed elems items \<Longrightarrow> elements_of items = (\<lambda>(d, i). elems d i) ` item_keys items"
  by (auto simp: placed_def elements_of_def item_keys_def image_iff)

lemma placed_diff: "placed elems a \<Longrightarrow> placed elems (items_diff a b)"
  by (auto simp: placed_def items_diff_def)

lemma placed_element_items: "placed (ui_elems s) (map (element_item s) xs)"
  by (auto simp: placed_def element_item_def)

lemma item_keys_diff: "item_keys (items_diff a b) = item_keys a - item_keys b"
  by (auto simp: item_keys_def items_diff_def list_ex_iff same_item_def)

lemma elements_of_diff:
  assumes "separate elems" "placed elems a" "placed elems b"
  shows "elements_of (items_diff a b) = elements_of a - elements_of b"
  using image_set_diff[of "\<lambda>(d, i). elems d i" "item_keys a" "item_keys b"] assms(1)
  unfolding elements_of_keys[OF placed_diff[OF assms(2)]] elements_of_keys[OF assms(2)] elements_of_keys[OF assms(3)] item_keys_diff
  by (simp add: separate_def)

lemma say_simps [simp]: "ui_active (say cs s) = ui_active s" "ui_last (say cs s) = ui_last s" "ui_elems (say cs s) = ui_elems s"
  "highlighted (say cs s) = styled cs (highlighted s)"
  by (simp_all add: say_def highlighted_def)

lemma highlighted_fields [simp]: "highlighted (s\<lparr>ui_active := a\<rparr>) = highlighted s" "highlighted (s\<lparr>ui_last := l\<rparr>) = highlighted s"
  "highlighted (s\<lparr>ui_elems := f\<rparr>) = highlighted s"
  by (simp_all add: highlighted_def)

definition hover_inv :: "chart_ui \<Rightarrow> bool" where
  "hover_inv s \<longleftrightarrow> highlighted s = elements_of (ui_active s) \<and> placed (ui_elems s) (ui_active s) \<and> separate (ui_elems s)"

lemma hover_inv_fields [simp]: "hover_inv (s\<lparr>ui_last := l\<rparr>) = hover_inv s" "hover_inv (say [Render] s) = hover_inv s"
  by (simp_all add: hover_inv_def)

lemma updateHoverStyle_effect:
  assumes "\<And>d. uv_controller env d"
  shows "highlighted (updateHoverStyle env xs b s) = (if b then highlighted s \<union> elements_of xs else highlighted s - elements_of xs)"
    "ui_active (updateHoverStyle env xs b s) = ui_active s" "ui_elems (updateHoverStyle env xs b s) = ui_elems s"
  using assms by (simp_all add: updateHoverStyle_def Let_def styled_items)

lemma updateHoverStyles_effect:
  assumes "\<And>d. uv_controller env d" "uv_mode env \<noteq> []" "highlighted s = elements_of lastActive" "ui_active s = active"
    and p: "placed (ui_elems s) active" "placed (ui_elems s) lastActive" "separate (ui_elems s)"
  shows "hover_inv (updateHoverStyles env active lastActive replay s)"
proof -
  have e: "elements_of [] = {}" by (simp add: elements_of_def)
  let ?s1 = "if items_diff lastActive active \<noteq> [] then updateHoverStyle env (items_diff lastActive active) False s else s"
  let ?act = "if replay then active else items_diff active lastActive"
  have h1: "highlighted ?s1 = elements_of lastActive - (elements_of lastActive - elements_of active)"
    using elements_of_diff[OF p(3,2,1)] e
    by (simp add: updateHoverStyle_effect[OF assms(1)] assms(3)) auto
  have k: "(elements_of lastActive \<inter> elements_of active) \<union> elements_of ?act = elements_of active"
    using elements_of_diff[OF p(3,1,2)] by auto
  have u: "updateHoverStyles env active lastActive replay s = (if ?act \<noteq> [] then updateHoverStyle env ?act True ?s1 else ?s1)"
    using assms(2) by (simp add: updateHoverStyles_def Let_def)
  have "highlighted (updateHoverStyles env active lastActive replay s) = highlighted ?s1 \<union> elements_of ?act"
    unfolding u using e by (cases "?act = []") (simp_all only: updateHoverStyle_effect[OF assms(1)] if_True if_False simp_thms Un_empty_right)
  then have "highlighted (updateHoverStyles env active lastActive replay s) = elements_of active"
    using h1 k by auto
  moreover have "ui_active (updateHoverStyles env active lastActive replay s) = ui_active s"
    "ui_elems (updateHoverStyles env active lastActive replay s) = ui_elems s"
    unfolding u by (simp_all add: updateHoverStyle_effect[OF assms(1)])
  ultimately show ?thesis using assms(4) p by (simp add: hover_inv_def)
qed

lemma handleEvent_effect:
  assumes "\<And>d. uv_controller env d" "uv_mode env \<noteq> []" "hover_inv s"
  shows "hover_inv (fst (handleEvent env e replay area s))"
proof -
  have inv: "highlighted s = elements_of (ui_active s)" "placed (ui_elems s) (ui_active s)" "separate (ui_elems s)"
    using assms(3) by (simp_all add: hover_inv_def)
  define act where "act = getActiveElements env s e (ui_active s) area replay"
  have act: "placed (ui_elems s) act"
    using inv(2) placed_element_items[of s] by (simp add: act_def getActiveElements_def) (simp add: placed_def)
  define s1 where "s1 = (if area then say (OnHover e act # (if isClickEvent e then [OnClick e act] else [])) (s\<lparr>ui_last := None\<rparr>) else s)"
  have s1: "highlighted s1 = elements_of (ui_active s)" "ui_active s1 = ui_active s" "ui_elems s1 = ui_elems s"
    using inv(1) by (simp_all add: s1_def)
  define s2 where "s2 = (if \<not> elementsEqual act (ui_active s) \<or> replay
      then updateHoverStyles env act (ui_active s) replay (s1\<lparr>ui_active := act\<rparr>) else s1)"
  have h: "fst (handleEvent env e replay area s) = s2\<lparr>ui_last := determineLastEvent e (ui_last s) area (isClickEvent e)\<rparr>"
    unfolding handleEvent_def Let_def act_def s1_def s2_def by (simp only: fst_conv)
  have "hover_inv (updateHoverStyles env act (ui_active s) replay (s1\<lparr>ui_active := act\<rparr>))"
    using s1 act inv by (intro updateHoverStyles_effect[OF assms(1,2)]) simp_all
  moreover have "hover_inv s1" using s1 inv by (simp add: hover_inv_def)
  ultimately have "hover_inv s2" by (simp add: s2_def)
  then show ?thesis by (simp add: h)
qed

lemma eventHandler_effect:
  assumes "\<And>d. uv_controller env d" "uv_mode env \<noteq> []" "hover_inv s"
  shows "hover_inv (eventHandler env allow wants e replay area s)"
  using handleEvent_effect[OF assms, of e replay area] assms(3)
  by (cases "handleEvent env e replay area s") (simp add: eventHandler_def)

text \<open>An update leaves the elements of the active items where they are.\<close>

fun keeps_active :: "ui_op \<Rightarrow> chart_ui \<Rightarrow> bool" where
  "keeps_active (Update _ _ _ elems) s = (separate elems \<and> placed elems (ui_active s))"
| "keeps_active _ s = True"

fun all_keep_active :: "ui_env \<Rightarrow> ui_op list \<Rightarrow> chart_ui \<Rightarrow> bool" where
  "all_keep_active env [] s = True"
| "all_keep_active env (p # ps) s = (keeps_active p s \<and> all_keep_active env ps (ui_step env p s))"

lemma ui_step_effect:
  assumes "\<And>d. uv_controller env d" "uv_mode env \<noteq> []" "hover_inv s" "keeps_active p s"
  shows "hover_inv (ui_step env p s)"
proof (cases p)
  case (Event e allow wants area)
  then show ?thesis using eventHandler_effect[OF assms(1-3)] by simp
next
  case (SetActive items)
  let ?act = "map (element_item s) items"
  have "hover_inv (updateHoverStyles env ?act (ui_active s) False (s\<lparr>ui_active := ?act, ui_last := None\<rparr>))"
    using assms(3) placed_element_items[of s items] by (intro updateHoverStyles_effect[OF assms(1,2)]) (simp_all add: hover_inv_def)
  then show ?thesis using SetActive assms(3) by (simp add: setActiveElements_def Let_def)
next
  case (Update allow wants area elems)
  have i: "hover_inv (s\<lparr>ui_elems := elems\<rparr>)" using assms(3,4) Update by (simp add: hover_inv_def)
  then have "hover_inv (updateHoverStyles env (ui_active s) (ui_active s) True (s\<lparr>ui_elems := elems\<rparr>))"
    by (intro updateHoverStyles_effect[OF assms(1,2)]) (simp_all add: hover_inv_def)
  then show ?thesis
    using Update i eventHandler_effect[OF assms(1,2) i] by (simp add: after_update_def Let_def split: option.split)
qed

definition start_ui :: "(nat \<Rightarrow> nat \<Rightarrow> nat) \<Rightarrow> chart_ui" where
  "start_ui elems = \<lparr>ui_elems = elems, ui_active = [], ui_last = None, ui_log = []\<rparr>"

text \<open>
  C5. Highlighting follows the active elements: after any sequence of events, of selections by the
  program and of updates, the element objects that were last told to be highlighted are exactly
  the elements of the active items, and these stand at the indices of their items.  The hover mode
  is set, the data sets have controllers, and each update leaves the elements of the items that
  are active before it at their indices, while it may move all others.
\<close>

theorem hover_follows_active:
  assumes "\<And>d. uv_controller env d" "uv_mode env \<noteq> []" "separate elems"
    and "all_keep_active env ops (start_ui elems)"
  shows "highlighted (fold (ui_step env) ops (start_ui elems)) = elements_of (ui_active (fold (ui_step env) ops (start_ui elems))) \<and>
    placed (ui_elems (fold (ui_step env) ops (start_ui elems))) (ui_active (fold (ui_step env) ops (start_ui elems)))"
proof -
  have "hover_inv s \<Longrightarrow> all_keep_active env ops s \<Longrightarrow> hover_inv (fold (ui_step env) ops s)" for s
    by (induction ops arbitrary: s) (simp_all add: ui_step_effect[OF assms(1,2)])
  moreover have "hover_inv (start_ui elems)"
    using assms(3) by (simp add: hover_inv_def start_ui_def highlighted_def elements_of_def placed_def)
  ultimately show ?thesis using assms(4) by (simp add: hover_inv_def)
qed

definition sample_ui :: ui_env where
  "sample_ui = \<lparr>uv_mode = ''nearest'', uv_controller = (\<lambda>_. True),
     uv_find = (\<lambda>e _. [\<lparr>datasetIndex = 0, item_index = ue_id e\<rparr>, \<lparr>datasetIndex = 1, item_index = ue_id e\<rparr>])\<rparr>"

definition sample_elems :: "nat \<Rightarrow> nat \<Rightarrow> nat" where
  "sample_elems d i = prod_encode (d, i)"

lemma sample_elems_separate: "separate sample_elems"
  by (auto simp: separate_def sample_elems_def inj_on_def)

theorem hover_follows_active_witness:
  "highlighted (fold (ui_step sample_ui)
      [Event \<lparr>ue_type = ''mousemove'', ue_id = 4\<rparr> True False True, Update True False True sample_elems,
       SetActive [\<lparr>datasetIndex = 1, item_index = 4\<rparr>, \<lparr>datasetIndex = 1, item_index = 2\<rparr>]] (start_ui sample_elems))
    = {sample_elems 1 4, sample_elems 1 2}"
proof -
  let ?ops = "[Event \<lparr>ue_type = ''mousemove'', ue_id = 4\<rparr> True False True, Update True False True sample_elems,
       SetActive [\<lparr>datasetIndex = 1, item_index = 4\<rparr>, \<lparr>datasetIndex = 1, item_index = 2\<rparr>]]"
  have "placed sample_elems (ui_active (ui_step sample_ui (hd ?ops) (start_ui sample_elems)))" by code_simp
  then have "all_keep_active sample_ui ?ops (start_ui sample_elems)"
    using sample_elems_separate by (simp del: ui_step.simps)
  then have "highlighted (fold (ui_step sample_ui) ?ops (start_ui sample_elems))
      = elements_of (ui_active (fold (ui_step sample_ui) ?ops (start_ui sample_elems)))"
    using hover_follows_active[of sample_ui sample_elems ?ops] sample_elems_separate by (simp add: sample_ui_def)
  also have "ui_active (fold (ui_step sample_ui) ?ops (start_ui sample_elems)) =
     [\<lparr>datasetIndex = 1, item_index = 4, item_element = sample_elems 1 4\<rparr>, \<lparr>datasetIndex = 1, item_index = 2, item_element = sample_elems 1 2\<rparr>]"
    by code_simp
  finally show ?thesis by (simp add: elements_of_def)
qed

text \<open>An update that moves an element of an active item leaves it highlighted: after a shift of the
  data the replayed event finds an item with the same indices, so nothing is deactivated, while
  the element that stood there now stands one index earlier.\<close>

lemma moved_element_stays_highlighted:
  "let ui = \<lparr>uv_mode = ''nearest'', uv_controller = (\<lambda>_. True), uv_find = (\<lambda>e _. [\<lparr>datasetIndex = 0, item_index = ue_id e\<rparr>])\<rparr>;
       s = fold (ui_step ui) [Event \<lparr>ue_type = ''mousemove'', ue_id = 2\<rparr> True False True, Update True False True (\<lambda>d i. i + 1)]
             (start_ui (\<lambda>d i. i))
   in elements_of (ui_active s) = {3} \<and> highlighted s = {2, 3}"
  by code_simp

text \<open>The event that an update replays: none after the pointer left, the last one that was no click.\<close>

lemma last_event: "ui_last (fst (handleEvent env e replay area s)) =
    (if \<not> area \<or> ue_type e = ''mouseout'' then None else if isClickEvent e then ui_last s else Some e)"
  by (simp add: handleEvent_def determineLastEvent_def Let_def)

section \<open>The order of drawing\<close>

lemma compare2Level_order:
  "0 < compare2Level l1 l2 a b \<Longrightarrow> compare2Level l1 l2 b a \<le> 0"
  "compare2Level l1 l2 a b \<le> 0 \<Longrightarrow> compare2Level l1 l2 b c \<le> 0 \<Longrightarrow> compare2Level l1 l2 a c \<le> 0"
  "compare2Level l1 l2 a b \<le> 0 \<Longrightarrow> l1 a \<le> l1 b"
  by (auto simp: compare2Level_def split: if_splits)

lemma sorted_layers: "sorted_wrt (\<lambda>a b. ly_z a \<le> ly_z b) (sort_layers ls)"
proof -
  have "sorted_wrt (\<lambda>a b. compare2Level ly_z (\<lambda>l. of_nat (ly_idx l)) a b \<le> 0) (sort_layers ls)"
    unfolding sort_layers_def by (rule sorted_sort_by) (rule compare2Level_order; assumption)+
  then show ?thesis by (rule sorted_wrt_mono_rel[rotated]) (rule compare2Level_order(3))
qed

lemma draw_while_sorted:
  "sorted_wrt (\<lambda>a b. ly_z a \<le> ly_z b) ls \<Longrightarrow>
   draw_while ls = (map (\<lambda>l. DrawLayer (ly_idx l)) (filter (\<lambda>l. ly_z l \<le> 0) ls), filter (\<lambda>l. 0 < ly_z l) ls)"
proof (induction ls)
  case (Cons l ls)
  show ?case
  proof (cases "ly_z l \<le> 0")
    case True
    with Cons show ?thesis by simp
  next
    case False
    with Cons.prems have "0 < ly_z x" if "x \<in> set (l # ls)" for x using that by force
    then have "filter (\<lambda>l. ly_z l \<le> 0) (l # ls) = []" "filter (\<lambda>l. 0 < ly_z l) (l # ls) = l # ls"
      by (auto simp: filter_empty_conv filter_id_conv not_le)
    with False show ?thesis by simp
  qed
qed simp

text \<open>
  A frame that no plugin vetoes draws every layer and every visible data set once: first the
  layers with a \<open>z\<close> of at most zero, then the data sets in descending drawing order, so that the
  first in order lies on top, then the other layers, each group by ascending \<open>z\<close>.
\<close>

theorem drawing_order:
  "0 < w \<Longrightarrow> 0 < h \<Longrightarrow> draw_chart (\<lambda>_ _. True) w h (sort_layers layers) c =
     [Clear] @ map (\<lambda>l. DrawLayer (ly_idx l)) (filter (\<lambda>l. ly_z l \<le> 0) (sort_layers layers))
     @ concat (map (\<lambda>a. [DrawDataset a, DrawHook ''afterDatasetDraw'']) (rev (visible_metas c))) @ [DrawHook ''afterDatasetsDraw'']
     @ map (\<lambda>l. DrawLayer (ly_idx l)) (filter (\<lambda>l. 0 < ly_z l) (sort_layers layers)) @ [DrawHook ''afterDraw'']
   \<and> set (sort_layers layers) = set layers \<and> length (sort_layers layers) = length layers
   \<and> sorted_wrt (\<lambda>a b. ly_z a \<le> ly_z b) (sort_layers layers)"
  using draw_while_sorted[OF sorted_layers, of layers] sorted_layers[of layers]
  by (simp add: draw_chart_def draw_datasets_def) (simp add: sort_layers_def)

theorem drawing_order_witness:
  "draw_chart (\<lambda>_ _. True) 10 10 (sort_layers [\<lparr>ly_z = 1, ly_idx = 0\<rparr>, \<lparr>ly_z = 0, ly_idx = 1\<rparr>, \<lparr>ly_z = - 1, ly_idx = 2\<rparr>])
     (sample_chart\<lparr>ch_sorted := [Some 1, Some 0]\<rparr>) =
   [Clear, DrawLayer 2, DrawLayer 1, DrawDataset 0, DrawHook ''afterDatasetDraw'', DrawDataset 1, DrawHook ''afterDatasetDraw'',
    DrawHook ''afterDatasetsDraw'', DrawLayer 0, DrawHook ''afterDraw'']"
proof -
  let ?ls = "[\<lparr>ly_z = 1, ly_idx = 0\<rparr>, \<lparr>ly_z = 0, ly_idx = 1\<rparr>, \<lparr>ly_z = - 1, ly_idx = 2\<rparr>]"
  have s: "sort_layers ?ls = [\<lparr>ly_z = - 1, ly_idx = 2\<rparr>, \<lparr>ly_z = 0, ly_idx = 1\<rparr>, \<lparr>ly_z = 1, ly_idx = 0\<rparr>]"
    by (simp add: sort_layers_def sort_by_def compare2Level_def)
  have v: "visible_metas (sample_chart\<lparr>ch_sorted := [Some 1, Some 0]\<rparr>) = [1, 0]"
    by (simp add: visible_metas_def sample_chart_def sample_meta_def)
  show ?thesis
    using drawing_order[of 10 10 ?ls "sample_chart\<lparr>ch_sorted := [Some 1, Some 0]\<rparr>"] unfolding s v by simp
qed

end
