(* ===== verification/ChartConfig.thy ===== *)
theory ChartConfig
  imports ChartCore
begin

text \<open>
  The configuration of a chart (\<open>js/chart_3.9.js\<close>, \<open>getIndexAxis\<close> to \<open>class Config\<close>): which axis a
  scale and a data set belong to, the merging of the scale options, the defaults filled in by
  \<open>initConfig\<close>, and the global cache of the scope keys.  Types, ids and axis names are strings;
  an absent or empty one is the empty string, which the code treats alike.
\<close>

section \<open>Axes\<close>

text \<open>Reading a property of an object, and the text of a value that is a string.\<close>

definition vprop :: "jsval \<Rightarrow> string \<Rightarrow> jsval" where
  "vprop v k = (case v of VObj ps \<Rightarrow> (case obj_get ps k of Some x \<Rightarrow> x | None \<Rightarrow> VUndef) | _ \<Rightarrow> VUndef)"

definition vtext :: "jsval \<Rightarrow> string" where
  "vtext v = (case v of VStr s \<Rightarrow> s | _ \<Rightarrow> [])"

definition vkeys :: "jsval \<Rightarrow> string list" where
  "vkeys v = (case v of VObj ps \<Rightarrow> obj_keys ps | _ \<Rightarrow> [])"

definition js_or :: "jsval \<Rightarrow> jsval \<Rightarrow> jsval" where
  "js_or a b = (if truthy a then a else b)"

text \<open>The first non-empty text: \<open>a || b || c\<close>.\<close>

fun first_text :: "string list \<Rightarrow> string" where
  "first_text [] = []"
| "first_text (s # ss) = (if s \<noteq> [] then s else first_text ss)"

lemma first_text_nonempty: "\<exists>s \<in> set ss. s \<noteq> [] \<Longrightarrow> first_text ss \<noteq> []"
  by (induction ss) auto

record cfg_env =
  ce_defaults :: jsval
  ce_overrides :: jsval

definition getIndexAxis :: "cfg_env \<Rightarrow> string \<Rightarrow> jsval \<Rightarrow> string" where
  "getIndexAxis env ty options =
     (let datasetDefaults = vprop (vprop (ce_defaults env) ''datasets'') ty;
          datasetOptions = vprop (vprop options ''datasets'') ty
      in first_text [vtext (vprop datasetOptions ''indexAxis''), vtext (vprop options ''indexAxis''),
                     vtext (vprop datasetDefaults ''indexAxis''), ''x''])"

definition getAxisFromDefaultScaleID :: "string \<Rightarrow> string \<Rightarrow> string" where
  "getAxisFromDefaultScaleID ident indexAxis =
     (if ident = ''_index_'' then indexAxis
      else if ident = ''_value_'' then (if indexAxis = ''x'' then ''y'' else ''x'')
      else ident)"

definition getDefaultScaleIDFromAxis :: "string \<Rightarrow> string \<Rightarrow> string" where
  "getDefaultScaleIDFromAxis axis indexAxis = (if axis = indexAxis then ''_index_'' else ''_value_'')"

definition axisFromPosition :: "string \<Rightarrow> string" where
  "axisFromPosition position =
     (if position = ''top'' \<or> position = ''bottom'' then ''x''
      else if position = ''left'' \<or> position = ''right'' then ''y'' else [])"

definition determineAxis :: "string \<Rightarrow> jsval \<Rightarrow> string" where
  "determineAxis ident scaleOptions =
     (if ident = ''x'' \<or> ident = ''y'' then ident
      else first_text [vtext (vprop scaleOptions ''axis''),
                       axisFromPosition (vtext (vprop scaleOptions ''position'')),
                       map to_lower (take 1 ident)])"

lemma axis_of_default_scale:
  "indexAxis \<in> {''x'', ''y''} \<Longrightarrow> axis \<in> {''x'', ''y''} \<Longrightarrow>
     getAxisFromDefaultScaleID (getDefaultScaleIDFromAxis axis indexAxis) indexAxis = axis"
  by (auto simp: getAxisFromDefaultScaleID_def getDefaultScaleIDFromAxis_def)

section \<open>Scale options\<close>

text \<open>
  The state of \<open>mergeScaleConfig\<close>: the first scale of each axis, the scales built so far and the
  messages to the console.
\<close>

record scale_merge =
  sm_first :: "(string \<times> string) list"
  sm_scales :: "jsval obj"
  sm_log :: "string list"

definition axis_obj :: "string \<Rightarrow> jsval" where
  "axis_obj axis = VObj [(''axis'', VStr axis)]"

definition first_id :: "scale_merge \<Rightarrow> string \<Rightarrow> string" where
  "first_id st axis = (case obj_get (sm_first st) axis of Some i \<Rightarrow> i | None \<Rightarrow> [])"

text \<open>One scale of the user's options.\<close>

definition configure_scale :: "jsval \<Rightarrow> string \<Rightarrow> scale_merge \<Rightarrow> string \<times> jsval \<Rightarrow> scale_merge" where
  "configure_scale chartScales chartIndexAxis st p =
     (let ident = fst p; scaleConf = snd p in
      if \<not> isObject scaleConf
      then st\<lparr>sm_log := sm_log st @ [''Invalid scale configuration for scale: '' @ ident]\<rparr>
      else if truthy (vprop scaleConf ''_proxy'')
      then st\<lparr>sm_log := sm_log st @ [''Ignoring resolver passed as options for scale: '' @ ident]\<rparr>
      else
        (let axis = determineAxis ident scaleConf;
             defaultId = getDefaultScaleIDFromAxis axis chartIndexAxis
         in st\<lparr>sm_first := obj_set (sm_first st) axis (first_text [first_id st axis, ident]),
               sm_scales := obj_set (sm_scales st) ident
                 (mergeIf (VObj []) (VArr [axis_obj axis, scaleConf, vprop chartScales axis, vprop chartScales defaultId]))\<rparr>))"

text \<open>The scale one default of a data set stands for, and its merging.\<close>

definition dataset_scale_id :: "scale_merge \<Rightarrow> jsval \<Rightarrow> string \<Rightarrow> string" where
  "dataset_scale_id st dataset axis = first_text [vtext (vprop dataset (axis @ ''AxisID'')), first_id st axis, axis]"

definition dataset_scale :: "jsval \<Rightarrow> jsval \<Rightarrow> string \<Rightarrow> jsval \<Rightarrow> scale_merge \<Rightarrow> string \<Rightarrow> scale_merge" where
  "dataset_scale configScales dataset indexAxis defaultScaleOptions st defaultID =
     (let axis = getAxisFromDefaultScaleID defaultID indexAxis;
          ident = dataset_scale_id st dataset axis;
          scale = js_or (vprop (VObj (sm_scales st)) ident) (VObj [])
      in st\<lparr>sm_scales := obj_set (sm_scales st) ident
              (mergeIf scale (VArr [axis_obj axis, vprop configScales ident, vprop defaultScaleOptions defaultID]))\<rparr>)"

definition dataset_type :: "string \<Rightarrow> jsval \<Rightarrow> string" where
  "dataset_type ctype dataset = first_text [vtext (vprop dataset ''type''), ctype]"

definition dataset_index_axis :: "cfg_env \<Rightarrow> string \<Rightarrow> jsval \<Rightarrow> jsval \<Rightarrow> string" where
  "dataset_index_axis env ctype options dataset =
     first_text [vtext (vprop dataset ''indexAxis''), getIndexAxis env (dataset_type ctype dataset) options]"

definition dataset_defaults :: "cfg_env \<Rightarrow> string \<Rightarrow> jsval \<Rightarrow> jsval" where
  "dataset_defaults env ctype dataset =
     vprop (vprop (ce_overrides env) (dataset_type ctype dataset)) ''scales''"

definition dataset_scales :: "cfg_env \<Rightarrow> string \<Rightarrow> jsval \<Rightarrow> scale_merge \<Rightarrow> jsval \<Rightarrow> scale_merge" where
  "dataset_scales env ctype options st dataset =
     foldl (dataset_scale (js_or (vprop options ''scales'') (VObj [])) dataset
              (dataset_index_axis env ctype options dataset) (dataset_defaults env ctype dataset))
       st (vkeys (dataset_defaults env ctype dataset))"

definition user_scales :: "cfg_env \<Rightarrow> string \<Rightarrow> jsval \<Rightarrow> scale_merge" where
  "user_scales env ctype options =
     (let configScales = js_or (vprop options ''scales'') (VObj []);
          chartScales = vprop (vprop (ce_overrides env) ctype) ''scales''
      in foldl (configure_scale chartScales (getIndexAxis env ctype options))
           \<lparr>sm_first = [], sm_scales = [], sm_log = []\<rparr>
           (case configScales of VObj ps \<Rightarrow> ps | _ \<Rightarrow> []))"

definition finish_scale :: "cfg_env \<Rightarrow> jsval \<Rightarrow> jsval" where
  "finish_scale env scale =
     mergeIf scale (VArr [vprop (vprop (ce_defaults env) ''scales'') (vtext (vprop scale ''type'')),
                          vprop (ce_defaults env) ''scale''])"

definition mergeScaleConfig :: "cfg_env \<Rightarrow> string \<Rightarrow> jsval list \<Rightarrow> jsval \<Rightarrow> jsval obj \<times> string list" where
  "mergeScaleConfig env ctype datasets options =
     (let st = foldl (dataset_scales env ctype options) (user_scales env ctype options) datasets
      in (map (\<lambda>p. (fst p, finish_scale env (snd p))) (sm_scales st), sm_log st))"

section \<open>Filling in the configuration\<close>

definition initData :: "jsval \<Rightarrow> jsval obj" where
  "initData data =
     (let d = (case js_or data (VObj []) of VObj ps \<Rightarrow> ps | _ \<Rightarrow> []);
          d = obj_set d ''datasets'' (js_or (vprop (VObj d) ''datasets'') (VArr []))
      in obj_set d ''labels'' (js_or (vprop (VObj d) ''labels'') (VArr [])))"

definition config_datasets :: "jsval obj \<Rightarrow> jsval list" where
  "config_datasets data = (case obj_get data ''datasets'' of Some (VArr ds) \<Rightarrow> ds | _ \<Rightarrow> [])"

definition initOptions :: "cfg_env \<Rightarrow> jsval obj \<Rightarrow> jsval obj" where
  "initOptions env config =
     (let options = (case js_or (vprop (VObj config) ''options'') (VObj []) of VObj ps \<Rightarrow> ps | _ \<Rightarrow> []);
          options = obj_set options ''plugins'' (valueOrDefault (vprop (VObj options) ''plugins'') (VObj []));
          data = (case obj_get config ''data'' of Some (VObj d) \<Rightarrow> d | _ \<Rightarrow> []);
          scales = fst (mergeScaleConfig env (vtext (vprop (VObj config) ''type'')) (config_datasets data) (VObj options))
      in obj_set config ''options'' (VObj (obj_set options ''scales'' (VObj scales))))"

definition initConfig :: "cfg_env \<Rightarrow> jsval \<Rightarrow> jsval obj" where
  "initConfig env config =
     (let c = (case js_or config (VObj []) of VObj ps \<Rightarrow> ps | _ \<Rightarrow> []) in
      initOptions env (obj_set c ''data'' (VObj (initData (vprop (VObj c) ''data'')))))"

section \<open>The invariant of the scales\<close>

text \<open>Every scale is an object with an axis, and well formed.\<close>

definition scale_ok :: "jsval \<Rightarrow> bool" where
  "scale_ok v \<longleftrightarrow> (\<exists>r axis. v = VObj r \<and> wf_obj r \<and> obj_get r ''axis'' = Some (VStr axis))"

lemma scale_ok_wf: "scale_ok v \<Longrightarrow> wf_val v"
  unfolding scale_ok_def by blast

definition scales_ok :: "scale_merge \<Rightarrow> bool" where
  "scales_ok st \<longleftrightarrow> distinct (obj_keys (sm_scales st)) \<and> (\<forall>k v. obj_get (sm_scales st) k = Some v \<longrightarrow> scale_ok v)"

definition wf_env :: "cfg_env \<Rightarrow> bool" where
  "wf_env env \<longleftrightarrow> wf_val (ce_defaults env) \<and> wf_val (ce_overrides env)"

lemma wf_vprop [intro]: "wf_val v \<Longrightarrow> wf_val (vprop v k)"
  by (cases v) (auto simp: vprop_def simp del: wf_val.simps(2) intro: wf_obj_get split: option.splits)

lemma wf_js_or [intro]: "wf_val a \<Longrightarrow> wf_val b \<Longrightarrow> wf_val (js_or a b)"
  by (simp add: js_or_def)

lemma wf_axis_obj [simp]: "wf_val (axis_obj a)"
  by (simp add: axis_obj_def)

lemma scale_ok_merge:
  assumes "scale_ok v" "list_all wf_val ss"
  shows "scale_ok (mergeIf v (VArr ss))"
proof -
  obtain r axis where v: "v = VObj r" "wf_obj r" "obj_get r ''axis'' = Some (VStr axis)"
    using assms(1) by (auto simp: scale_ok_def)
  obtain r' where r': "mergeIf v (VArr ss) = VObj r'" "wf_obj r'"
    using mergeIf_sources_wf[OF v(2) assms(2)] v(1) by blast
  have "path_get (mergeIf v (VArr ss)) [''axis''] = Some (VStr axis)"
    using mergeIf_sources_keep[OF _ assms(2), of v "[''axis'']" "VStr axis"] v by (simp add: leaf_def)
  with r' show ?thesis by (auto simp: scale_ok_def split: option.splits)
qed

lemma mergeIf_empty_axis: "mergeIf (VObj []) (VArr (axis_obj a # ss)) = mergeIf (axis_obj a) (VArr ss)"
  by (simp add: axis_obj_def mergeIf_Cons_obj isValidKey_def obj_has_def)

lemma scale_ok_axis_obj: "scale_ok (axis_obj a)"
  by (simp add: scale_ok_def axis_obj_def)

lemma scale_ok_new: "list_all wf_val ss \<Longrightarrow> scale_ok (mergeIf (VObj []) (VArr (axis_obj a # ss)))"
  unfolding mergeIf_empty_axis by (rule scale_ok_merge[OF scale_ok_axis_obj])

lemma scales_ok_set: "scales_ok st \<Longrightarrow> scale_ok v \<Longrightarrow> scales_ok (st\<lparr>sm_scales := obj_set (sm_scales st) k v\<rparr>)"
  by (auto simp: scales_ok_def)

lemma configure_scale_ok:
  assumes "scales_ok st" "wf_val chartScales" "wf_val (snd p)"
  shows "scales_ok (configure_scale chartScales ix st p)"
proof -
  have "scale_ok (mergeIf (VObj []) (VArr [axis_obj a, snd p, vprop chartScales b, vprop chartScales c]))" for a b c
    by (rule scale_ok_new) (use assms in auto)
  from scales_ok_set[OF assms(1) this] show ?thesis
    using assms(1) by (auto simp: configure_scale_def scales_ok_def Let_def)
qed

lemma dataset_scale_ok:
  assumes "scales_ok st" "wf_val configScales" "wf_val defs"
  shows "scales_ok (dataset_scale configScales dataset ix defs st d)"
proof -
  let ?i = "dataset_scale_id st dataset (getAxisFromDefaultScaleID d ix)"
  have w: "list_all wf_val [axis_obj a, vprop configScales i, vprop defs d]" for a i
    using assms by auto
  have "scale_ok (mergeIf (js_or (vprop (VObj (sm_scales st)) ?i) (VObj []))
      (VArr [axis_obj a, vprop configScales ?i, vprop defs d]))" for a
  proof (cases "obj_get (sm_scales st) ?i")
    case None
    then show ?thesis using w scale_ok_new by (simp add: js_or_def vprop_def)
  next
    case (Some v)
    then have "scale_ok v" using assms(1) by (auto simp: scales_ok_def)
    then have "truthy v" by (auto simp: scale_ok_def)
    with Some \<open>scale_ok v\<close> show ?thesis using scale_ok_merge[OF _ w] by (simp add: js_or_def vprop_def)
  qed
  from scales_ok_set[OF assms(1) this] show ?thesis
    by (simp add: dataset_scale_def Let_def)
qed

lemma foldl_inv:
  assumes "P a" "\<And>a x. P a \<Longrightarrow> x \<in> set xs \<Longrightarrow> P (f a x)"
  shows "P (foldl f a xs)"
  using assms by (induction xs arbitrary: a) auto

lemma wf_config_scales: "wf_val options \<Longrightarrow> wf_val (js_or (vprop options ''scales'') (VObj []))"
  by auto

lemma wf_dataset_defaults: "wf_env env \<Longrightarrow> wf_val (dataset_defaults env ctype ds)"
  by (auto simp: dataset_defaults_def wf_env_def)

lemma user_scales_ok:
  assumes "wf_env env" "wf_val options"
  shows "scales_ok (user_scales env ctype options)"
proof -
  let ?cs = "js_or (vprop options ''scales'') (VObj [])"
  have "wf_val (snd p)" if "p \<in> set (case ?cs of VObj ps \<Rightarrow> ps | _ \<Rightarrow> [])" for p
    using wf_config_scales[OF assms(2)] that by (cases ?cs) (auto simp: list_all_iff)
  moreover have "wf_val (vprop (vprop (ce_overrides env) ctype) ''scales'')"
    using assms(1) by (auto simp: wf_env_def)
  moreover have "scales_ok \<lparr>sm_first = [], sm_scales = [], sm_log = []\<rparr>"
    by (simp add: scales_ok_def)
  ultimately show ?thesis
    unfolding user_scales_def Let_def by (intro foldl_inv[where P = scales_ok] configure_scale_ok)
qed

lemma dataset_scales_ok:
  assumes "wf_env env" "wf_val options" "scales_ok st"
  shows "scales_ok (dataset_scales env ctype options st ds)"
  unfolding dataset_scales_def
  by (intro foldl_inv[where P = scales_ok] dataset_scale_ok)
     (use assms wf_config_scales wf_dataset_defaults in auto)

lemma merged_scales_ok:
  assumes "wf_env env" "wf_val options"
  shows "scales_ok (foldl (dataset_scales env ctype options) (user_scales env ctype options) datasets)"
  by (intro foldl_inv[where P = scales_ok] dataset_scales_ok user_scales_ok assms)

lemma obj_get_map_snd: "obj_get (map (\<lambda>p. (fst p, f (snd p))) ps) k = map_option f (obj_get ps k)"
  by (induction ps) auto

lemma wf_finish_sources:
  "wf_env env \<Longrightarrow> list_all wf_val [vprop (vprop (ce_defaults env) ''scales'') t, vprop (ce_defaults env) ''scale'']"
  by (auto simp: wf_env_def)

text \<open>
  C17. Every scale the merged configuration holds is an object that names its axis, whatever the
  user's options, the registered overrides and the data sets are (options that are no objects
  are reported and dropped), and no scale occurs twice.
\<close>

theorem merged_scales_have_axis:
  assumes "wf_env env" "wf_val options"
    and "obj_get (fst (mergeScaleConfig env ctype datasets options)) ident = Some v"
  shows "(\<exists>r axis. v = VObj r \<and> obj_get r ''axis'' = Some (VStr axis)) \<and>
    distinct (obj_keys (fst (mergeScaleConfig env ctype datasets options)))"
proof -
  let ?st = "foldl (dataset_scales env ctype options) (user_scales env ctype options) datasets"
  have ok: "scales_ok ?st" by (rule merged_scales_ok[OF assms(1,2)])
  obtain w where w: "obj_get (sm_scales ?st) ident = Some w" "v = finish_scale env w"
    using assms(3) by (auto simp: mergeScaleConfig_def obj_get_map_snd Let_def)
  have "scale_ok w" using ok w(1) by (auto simp: scales_ok_def)
  then have "scale_ok v"
    unfolding w(2) finish_scale_def by (rule scale_ok_merge[OF _ wf_finish_sources[OF assms(1)]])
  moreover have "obj_keys (map (\<lambda>p. (fst p, finish_scale env (snd p))) (sm_scales ?st)) = obj_keys (sm_scales ?st)"
    by (simp add: obj_keys_def)
  ultimately show ?thesis
    using ok by (auto simp: scale_ok_def scales_ok_def mergeScaleConfig_def Let_def)
qed

definition bar_env :: cfg_env where
  "bar_env = \<lparr>ce_defaults = VObj [(''datasets'', VObj []), (''scales'', VObj []), (''scale'', VObj [(''display'', VBool True)])],
     ce_overrides = VObj [(''bar'', VObj [(''scales'', VObj [
        (''_index_'', VObj [(''type'', VStr ''category'')]), (''_value_'', VObj [(''type'', VStr ''linear'')])])])]\<rparr>"

theorem merged_scales_have_axis_witness:
  "\<exists>r axis. the (obj_get (fst (mergeScaleConfig bar_env ''bar'' [VObj []] (VObj [(''scales'', VObj [(''x'', VObj [])])]))) ''x'')
     = VObj r \<and> obj_get r ''axis'' = Some (VStr axis)"
proof -
  have "wf_env bar_env" by (simp add: wf_env_def bar_env_def)
  moreover have "wf_val (VObj [(''scales'', VObj [(''x'', VObj [])])])" by simp
  moreover have "obj_get (fst (mergeScaleConfig bar_env ''bar'' [VObj []] (VObj [(''scales'', VObj [(''x'', VObj [])])]))) ''x'' \<noteq> None"
    by code_simp
  ultimately show ?thesis
    using merged_scales_have_axis[of bar_env "VObj [(''scales'', VObj [(''x'', VObj [])])]" "''bar''" "[VObj []]" "''x''"]
    by (metis option.exhaust option.sel)
qed

section \<open>User options win, data sets find their scales\<close>

definition holds_leaf :: "scale_merge \<Rightarrow> string \<Rightarrow> string list \<Rightarrow> jsval \<Rightarrow> bool" where
  "holds_leaf st ident ks v \<longleftrightarrow> (\<exists>s. obj_get (sm_scales st) ident = Some s \<and> path_get s ks = Some v)"

lemma holds_leaf_dataset:
  assumes "scales_ok st" "wf_val configScales" "wf_val defs" "leaf v" "holds_leaf st ident ks v"
  shows "holds_leaf (dataset_scale configScales dataset ix defs st d) ident ks v"
proof -
  let ?i = "dataset_scale_id st dataset (getAxisFromDefaultScaleID d ix)"
  obtain s where s: "obj_get (sm_scales st) ident = Some s" "path_get s ks = Some v"
    using assms(5) by (auto simp: holds_leaf_def)
  have ok: "scale_ok s" using assms(1) s(1) by (auto simp: scales_ok_def)
  show ?thesis
  proof (cases "?i = ident")
    case True
    have "js_or (vprop (VObj (sm_scales st)) ident) (VObj []) = s"
      using s(1) ok by (auto simp: js_or_def vprop_def scale_ok_def)
    moreover have "wf_val s" using ok by (rule scale_ok_wf)
    moreover have "list_all wf_val [axis_obj (getAxisFromDefaultScaleID d ix), vprop configScales ident, vprop defs d]"
      using assms(2,3) by auto
    ultimately have "path_get (mergeIf s (VArr [axis_obj (getAxisFromDefaultScaleID d ix), vprop configScales ident, vprop defs d])) ks = Some v"
      using mergeIf_sources_keep[OF _ _ s(2) assms(4)] by blast
    with True s(1) ok show ?thesis
      by (auto simp: holds_leaf_def dataset_scale_def Let_def js_or_def vprop_def scale_ok_def)
  next
    case False
    with s show ?thesis by (auto simp: holds_leaf_def dataset_scale_def Let_def)
  qed
qed

lemma holds_leaf_datasets:
  assumes "wf_env env" "wf_val options" "scales_ok st" "leaf v" "holds_leaf st ident ks v"
  shows "holds_leaf (dataset_scales env ctype options st ds) ident ks v"
proof -
  have "scales_ok st' \<and> holds_leaf st' ident ks v" if "st' = dataset_scales env ctype options st ds" for st'
    unfolding that dataset_scales_def
    by (intro foldl_inv[where P = "\<lambda>st. scales_ok st \<and> holds_leaf st ident ks v"])
       (use assms wf_config_scales wf_dataset_defaults dataset_scale_ok holds_leaf_dataset in auto)
  then show ?thesis by blast
qed

lemma configure_scale_other: "ident \<noteq> fst p \<Longrightarrow> holds_leaf (configure_scale cs ix st p) ident ks v = holds_leaf st ident ks v"
  by (auto simp: configure_scale_def holds_leaf_def Let_def)

lemma configure_scale_own:
  assumes "isObject conf" "\<not> truthy (vprop conf ''_proxy'')" "wf_val conf" "wf_val chartScales"
    and "path_get conf (k # ks) = Some v" "leaf v" "k \<noteq> ''axis''" "isValidKey k"
  shows "holds_leaf (configure_scale chartScales ix st (ident, conf)) ident (k # ks) v"
proof -
  obtain c where c: "conf = VObj c" using assms(1) by (cases conf) auto
  obtain w where w: "obj_get c k = Some w" "path_get w ks = Some v"
    using assms(5) c by (auto split: option.splits)
  let ?axis = "determineAxis ident conf"
  let ?rest = "[vprop chartScales ?axis, vprop chartScales (getDefaultScaleIDFromAxis ?axis ix)]"
  have wc: "wf_obj c" using assms(3) c by simp
  have wa: "wf_obj [(''axis'', VStr ?axis)]" by simp
  have "obj_get (merge_obj True [(''axis'', VStr ?axis)] c) k = Some w"
    using mergeIf_obj_adds[OF _ w(1) wc assms(8), of "[(''axis'', VStr ?axis)]"] assms(7) by simp
  then have p: "path_get (VObj (merge_obj True [(''axis'', VStr ?axis)] c)) (k # ks) = Some v"
    using w(2) by simp
  have "wf_val (VObj (merge_obj True [(''axis'', VStr ?axis)] c))" by (rule merge_wf[OF wa wc])
  moreover have "list_all wf_val ?rest" using assms(4) by auto
  ultimately have "path_get (mergeIf (VObj (merge_obj True [(''axis'', VStr ?axis)] c)) (VArr ?rest)) (k # ks) = Some v"
    using mergeIf_sources_keep[OF _ _ p assms(6)] by blast
  then have "path_get (mergeIf (VObj []) (VArr (axis_obj ?axis # conf # ?rest))) (k # ks) = Some v"
    unfolding mergeIf_empty_axis by (simp only: axis_obj_def c mergeIf_Cons_obj)
  with assms(1,2) show ?thesis by (simp add: configure_scale_def holds_leaf_def Let_def)
qed

lemma user_scales_leaf:
  assumes "wf_env env" "wf_val options" "vprop options ''scales'' = VObj scs"
    and "obj_get scs ident = Some conf" "isObject conf" "\<not> truthy (vprop conf ''_proxy'')"
    and "path_get conf (k # ks) = Some v" "leaf v" "k \<noteq> ''axis''" "isValidKey k"
  shows "holds_leaf (user_scales env ctype options) ident (k # ks) v"
proof -
  have wf: "wf_obj scs" using wf_vprop[OF assms(2), of "''scales''"] assms(3) by simp
  have cs: "js_or (vprop options ''scales'') (VObj []) = VObj scs" using assms(3) by (simp add: js_or_def)
  obtain pre post where split: "scs = pre @ (ident, conf) # post"
    using obj_get_in_set[OF assms(4)] by (meson split_list)
  have fresh: "\<forall>p \<in> set post. fst p \<noteq> ident"
    using wf split by (auto simp: obj_keys_def)
  let ?f = "configure_scale (vprop (vprop (ce_overrides env) ctype) ''scales'') (getIndexAxis env ctype options)"
  have w: "wf_val (vprop (vprop (ce_overrides env) ctype) ''scales'')" using assms(1) by (auto simp: wf_env_def)
  have "holds_leaf (?f st (ident, conf)) ident (k # ks) v" for st
    using configure_scale_own[OF assms(5,6) wf_obj_get[OF wf assms(4)] w assms(7-10)] .
  then have "holds_leaf (foldl ?f st (pre @ (ident, conf) # post)) ident (k # ks) v" for st
    unfolding foldl_append foldl.simps
    by (intro foldl_inv[where P = "\<lambda>st. holds_leaf st ident (k # ks) v"])
       (use fresh configure_scale_other in auto)
  then show ?thesis by (simp add: user_scales_def cs split Let_def)
qed

text \<open>
  C16. The user's scale options win: every setting of a scale in the options (other than the axis,
  which the code derives, and keys of the prototype), at any depth, is in the merged scale of that
  id, over what the overrides of the chart type, the data sets and the defaults say.
\<close>

theorem user_scale_options_win:
  assumes "wf_env env" "wf_val options" "vprop options ''scales'' = VObj scs"
    and "obj_get scs ident = Some conf" "isObject conf" "\<not> truthy (vprop conf ''_proxy'')"
    and "path_get conf (k # ks) = Some v" "leaf v" "k \<noteq> ''axis''" "isValidKey k"
  shows "path_get (VObj (fst (mergeScaleConfig env ctype datasets options))) (ident # k # ks) = Some v"
proof -
  let ?st = "foldl (dataset_scales env ctype options) (user_scales env ctype options) datasets"
  have "scales_ok ?st \<and> holds_leaf ?st ident (k # ks) v"
    by (intro foldl_inv[where P = "\<lambda>st. scales_ok st \<and> holds_leaf st ident (k # ks) v"])
       (use user_scales_leaf[OF assms] user_scales_ok dataset_scales_ok holds_leaf_datasets assms in auto)
  then obtain s where s: "obj_get (sm_scales ?st) ident = Some s" "path_get s (k # ks) = Some v" "wf_val s"
    unfolding holds_leaf_def scales_ok_def using scale_ok_wf by blast
  have "path_get (finish_scale env s) (k # ks) = Some v"
    unfolding finish_scale_def
    by (rule mergeIf_sources_keep[OF s(3) wf_finish_sources[OF assms(1)] s(2) assms(8)])
  with s(1) show ?thesis by (simp add: mergeScaleConfig_def obj_get_map_snd Let_def)
qed

theorem user_scale_options_win_witness:
  "path_get (VObj (fst (mergeScaleConfig bar_env ''bar'' [VObj []]
       (VObj [(''scales'', VObj [(''x'', VObj [(''type'', VStr ''time'')])])])))) [''x'', ''type''] = Some (VStr ''time'')"
  by (rule user_scale_options_win[where scs = "[(''x'', VObj [(''type'', VStr ''time'')])]" and conf = "VObj [(''type'', VStr ''time'')]"])
     (simp_all add: wf_env_def bar_env_def vprop_def leaf_def isValidKey_def)

section \<open>The cache of the scope keys\<close>

text \<open>
  The four methods of \<open>Config\<close> that name the scopes of an option; a plugin comes with its
  additional scopes.
\<close>

datatype scope_request =
    DatasetKeys string
  | DatasetAnimationKeys string string
  | DatasetElementKeys string string
  | PluginKeys string string "string list"

fun scope_cache_key :: "scope_request \<Rightarrow> string" where
  "scope_cache_key (DatasetKeys ty) = ty"
| "scope_cache_key (DatasetAnimationKeys ty transition) = ty @ ''.transition.'' @ transition"
| "scope_cache_key (DatasetElementKeys ty el) = ty @ ''-'' @ el"
| "scope_cache_key (PluginKeys ty ident extra) = ty @ ''-plugin-'' @ ident"

fun scope_key_lists :: "scope_request \<Rightarrow> string list list" where
  "scope_key_lists (DatasetKeys ty) = [[''datasets.'' @ ty, []]]"
| "scope_key_lists (DatasetAnimationKeys ty transition) =
     [[''datasets.'' @ ty @ ''.transitions.'' @ transition, ''transitions.'' @ transition],
      [''datasets.'' @ ty, []]]"
| "scope_key_lists (DatasetElementKeys ty el) =
     [[''datasets.'' @ ty @ ''.elements.'' @ el, ''datasets.'' @ ty, ''elements.'' @ el, []]]"
| "scope_key_lists (PluginKeys ty ident extra) = [(''plugins.'' @ ident) # extra]"

type_synonym key_cache = "(string \<times> string list list) list"

definition cachedKeys :: "key_cache \<Rightarrow> string \<Rightarrow> string list list \<Rightarrow> string list list \<times> key_cache" where
  "cachedKeys cache key generated =
     (case obj_get cache key of
        Some keys \<Rightarrow> (keys, cache)
      | None \<Rightarrow> (generated, obj_set cache key generated))"

fun request_all :: "key_cache \<Rightarrow> scope_request list \<Rightarrow> string list list list" where
  "request_all cache [] = []"
| "request_all cache (r # rs) =
     (let (keys, cache) = cachedKeys cache (scope_cache_key r) (scope_key_lists r)
      in keys # request_all cache rs)"

definition plain_name :: "string \<Rightarrow> bool" where
  "plain_name s \<longleftrightarrow> CHR ''-'' \<notin> set s \<and> CHR ''.'' \<notin> set s"

text \<open>
  Requests as the charts make them: chart types without dash and dot, element names without a
  dash, and one list of additional scopes per plugin.
\<close>

fun plain_request :: "(string \<Rightarrow> string list) \<Rightarrow> scope_request \<Rightarrow> bool" where
  "plain_request extras (DatasetKeys ty) = plain_name ty"
| "plain_request extras (DatasetAnimationKeys ty transition) = plain_name ty"
| "plain_request extras (DatasetElementKeys ty el) = (plain_name ty \<and> CHR ''-'' \<notin> set el)"
| "plain_request extras (PluginKeys ty ident extra) = (plain_name ty \<and> extra = extras ident)"

lemma plain_name_prefix:
  assumes "plain_name t" "plain_name t'" "c \<in> {CHR ''-'', CHR ''.''}" "c' \<in> {CHR ''-'', CHR ''.''}"
  shows "t @ c # u = t' @ c' # u' \<longleftrightarrow> t = t' \<and> c = c' \<and> u = u'"
  using assms
proof (induction t arbitrary: t')
  case Nil
  then show ?case by (cases t') (auto simp: plain_name_def)
next
  case (Cons x t)
  then show ?case by (cases t') (auto simp: plain_name_def)
qed

lemma plain_name_no_sep: "plain_name t \<Longrightarrow> c \<in> {CHR ''-'', CHR ''.''} \<Longrightarrow> t \<noteq> t' @ c # u"
  by (auto simp: plain_name_def)

lemma scope_cache_key_inj:
  assumes "plain_request extras r" "plain_request extras r'" "scope_cache_key r = scope_cache_key r'"
  shows "scope_key_lists r = scope_key_lists r'"
proof -
  have pl: "CHR ''-'' \<in> set (''plugin-'' @ i)" for i by simp
  show ?thesis
    using assms pl
    by (cases r; cases r')
       (auto simp: plain_name_prefix dest: plain_name_no_sep[THEN notE] plain_name_no_sep[THEN not_sym, THEN notE])
qed

lemma request_all_cached:
  assumes "\<forall>r \<in> set rs. plain_request extras r"
    and "\<forall>k v. obj_get cache k = Some v \<longrightarrow> (\<exists>r. plain_request extras r \<and> scope_cache_key r = k \<and> v = scope_key_lists r)"
  shows "request_all cache rs = map scope_key_lists rs"
  using assms
proof (induction rs arbitrary: cache)
  case Nil
  then show ?case by simp
next
  case (Cons r rs)
  show ?case
  proof (cases "obj_get cache (scope_cache_key r)")
    case None
    have "\<exists>q. plain_request extras q \<and> scope_cache_key q = k \<and> v = scope_key_lists q"
      if "obj_get (obj_set cache (scope_cache_key r) (scope_key_lists r)) k = Some v" for k v
      using that Cons.prems by (auto split: if_splits)
    with None Cons show ?thesis by (simp add: cachedKeys_def)
  next
    case (Some v)
    then obtain q where "plain_request extras q" "scope_cache_key q = scope_cache_key r" "v = scope_key_lists q"
      using Cons.prems(2) by blast
    then have "v = scope_key_lists r" using scope_cache_key_inj[of extras q r] Cons.prems(1) by auto
    with Some Cons show ?thesis by (simp add: cachedKeys_def)
  qed
qed

text \<open>
  The global cache of scope keys is transparent: whatever sequence of requests all charts of
  the page make, with chart types and element names as above, each gets the key lists its own
  arguments describe.
\<close>

theorem scope_cache_transparent:
  assumes "\<forall>r \<in> set rs. plain_request extras r"
  shows "request_all [] rs = map scope_key_lists rs"
  by (rule request_all_cached[OF assms]) simp

theorem scope_cache_transparent_witness:
  "request_all [] [DatasetKeys ''bar'', PluginKeys ''bar'' ''legend'' [], DatasetKeys ''bar''] =
     [[[''datasets.bar'', []]], [[''plugins.legend'']], [[''datasets.bar'', []]]]"
  by (subst scope_cache_transparent[where extras = "\<lambda>_. []"]) (simp_all add: plain_name_def)

text \<open>
  Without the condition on element names two different requests share a key: an element type
  \<open>plugin-x\<close> and the plugin \<open>x\<close>.
\<close>

lemma scope_cache_collision:
  "request_all [] [DatasetElementKeys ''bar'' ''plugin-x'', PluginKeys ''bar'' ''x'' []] =
     [scope_key_lists (DatasetElementKeys ''bar'' ''plugin-x''), scope_key_lists (DatasetElementKeys ''bar'' ''plugin-x'')]"
  by (simp add: cachedKeys_def)

text \<open>The sub-prefixes of a cached resolver leave out the hover prefixes.\<close>

fun contains :: "string \<Rightarrow> string \<Rightarrow> bool" where
  "contains [] pat = (pat = [])"
| "contains (c # cs) pat = (starts_with (c # cs) pat \<or> contains cs pat)"

definition sub_prefixes :: "string list \<Rightarrow> string list" where
  "sub_prefixes ps = filter (\<lambda>p. \<not> contains (map to_lower p) ''hover'') ps"

end
