(* ===== verification/ChartResolver.thy ===== *)
theory ChartResolver
  imports ChartCore
begin

text \<open>
  The resolution of options (\<open>js/chart_3.9.js\<close>, \<open>_createResolver\<close> to \<open>resolveKeysFromAllScopes\<close>):
  a resolver reads an option from the first of its scopes that defines it, wraps an object it
  finds into a resolver for the objects of that name in all scopes, following the fallbacks the
  scopes declare, and a resolver with a context calls options that are functions.  Objects are
  on a store, so that scopes are compared by identity as the code's sets do; user functions are
  the parameter \<open>call\<close>, or scripts that read other options.  Scopes are never null.
\<close>

section \<open>Objects on a store\<close>

datatype rval =
    RUndef | RNull | RBool bool | RNum jsnum | RStr string | RFun nat | RArr "rval list" | RRef nat

record hobj =
  ho_props :: "(string \<times> rval) list"
  ho_plain :: bool

type_synonym heap = "nat \<Rightarrow> hobj"

fun r_truthy :: "rval \<Rightarrow> bool" where
  "r_truthy RUndef = False"
| "r_truthy RNull = False"
| "r_truthy (RBool b) = b"
| "r_truthy (RNum n) = (n \<noteq> NaN \<and> n \<noteq> Fin 0)"
| "r_truthy (RStr s) = (s \<noteq> [])"
| "r_truthy _ = True"

fun read :: "heap \<Rightarrow> rval \<Rightarrow> string \<Rightarrow> rval" where
  "read h (RRef a) k = (case obj_get (ho_props (h a)) k of Some v \<Rightarrow> v | None \<Rightarrow> RUndef)"
| "read h _ k = RUndef"

fun read_path :: "heap \<Rightarrow> rval \<Rightarrow> string list \<Rightarrow> rval" where
  "read_path h v [] = v"
| "read_path h v (k # ks) = (if k = [] then v else read_path h (if r_truthy v then read h v k else v) ks)"

definition add_scope :: "rval list \<Rightarrow> rval \<Rightarrow> rval list" where
  "add_scope S v = (if v \<in> set S then S else S @ [v])"

section \<open>Reading from scopes\<close>

definition readKey :: "string \<Rightarrow> string \<Rightarrow> string" where
  "readKey pre name = (if pre \<noteq> [] then pre @ capitalize name else name)"

fun needsSubResolver :: "heap \<Rightarrow> string \<Rightarrow> rval \<Rightarrow> bool" where
  "needsSubResolver h p (RRef a) = (p \<noteq> ''adapters'' \<and> ho_plain (h a))"
| "needsSubResolver h p _ = False"

fun resolve_key :: "heap \<Rightarrow> string \<Rightarrow> rval list \<Rightarrow> rval" where
  "resolve_key h key [] = RUndef"
| "resolve_key h key (s # ss) =
     (if r_truthy s \<and> read h s key \<noteq> RUndef then read h s key else resolve_key h key ss)"

fun keys_of :: "heap \<Rightarrow> rval \<Rightarrow> string list" where
  "keys_of h (RRef a) = obj_keys (ho_props (h a))"
| "keys_of h _ = []"

definition resolveKeysFromAllScopes :: "heap \<Rightarrow> rval list \<Rightarrow> string list" where
  "resolveKeysFromAllScopes h scopes =
     foldl (\<lambda>S s. foldl (\<lambda>S k. if k \<in> set S then S else S @ [k]) S
                    (filter (\<lambda>k. \<not> starts_with k ''_'') (keys_of h s)))
       [] scopes"

section \<open>Fallbacks and sub-resolvers\<close>

definition resolveFallback :: "(nat \<Rightarrow> rval \<Rightarrow> rval \<Rightarrow> rval) \<Rightarrow> rval \<Rightarrow> rval \<Rightarrow> rval \<Rightarrow> rval" where
  "resolveFallback call fb p v = (case fb of RFun f \<Rightarrow> call f p v | _ \<Rightarrow> fb)"

definition getScope :: "heap \<Rightarrow> rval \<Rightarrow> rval \<Rightarrow> rval" where
  "getScope h key parent =
     (if key = RBool True then parent
      else (case key of RStr k \<Rightarrow> read_path h parent (splitKey k) | _ \<Rightarrow> RUndef))"

text \<open>
  \<open>addScopes\<close> returns the extended set and the next key: a fallback to follow, null to stop
  resolving, or false at the end of the scopes.
\<close>

fun addScopes :: "heap \<Rightarrow> (nat \<Rightarrow> rval \<Rightarrow> rval \<Rightarrow> rval) \<Rightarrow> rval list \<Rightarrow> rval list \<Rightarrow> rval \<Rightarrow> rval \<Rightarrow> rval \<Rightarrow> rval list \<times> rval" where
  "addScopes h call S [] key parentFallback v = (S, RBool False)"
| "addScopes h call S (parent # ps) key parentFallback v =
     (let scope = getScope h key parent in
      if r_truthy scope then
        (let S = add_scope S scope; fb = resolveFallback call (read h scope ''_fallback'') key v in
         if fb \<noteq> RUndef \<and> fb \<noteq> key \<and> fb \<noteq> parentFallback then (S, fb)
         else addScopes h call S ps key parentFallback v)
      else if scope = RBool False \<and> parentFallback \<noteq> RUndef \<and> key \<noteq> parentFallback then (S, RNull)
      else addScopes h call S ps key parentFallback v)"

text \<open>The loop over the keys may not end: then the value is \<open>None\<close>.\<close>

partial_function (option) addScopesFromKey ::
    "heap \<Rightarrow> (nat \<Rightarrow> rval \<Rightarrow> rval \<Rightarrow> rval) \<Rightarrow> rval list \<Rightarrow> rval list \<Rightarrow> rval \<Rightarrow> rval \<Rightarrow> rval \<Rightarrow> (rval list \<times> rval) option" where
  "addScopesFromKey h call S allScopes key fb item =
     (if r_truthy key
      then (let r = addScopes h call S allScopes key fb item in
            addScopesFromKey h call (fst r) allScopes (snd r) fb item)
      else Some (S, key))"

record resolver =
  rs_scopes :: "rval list"
  rs_prefixes :: "string list"
  rs_root :: "rval list"
  rs_fallback :: rval

definition createResolver :: "heap \<Rightarrow> rval list \<Rightarrow> string list \<Rightarrow> rval list \<Rightarrow> rval \<Rightarrow> resolver" where
  "createResolver h scopes pfxs rootScopes fb =
     \<lparr>rs_scopes = scopes, rs_prefixes = pfxs, rs_root = rootScopes,
      rs_fallback = (if fb = RUndef then resolve_key h ''_fallback'' scopes else fb)\<rparr>"

definition resolver_override :: "heap \<Rightarrow> resolver \<Rightarrow> rval \<Rightarrow> resolver" where
  "resolver_override h r scope =
     createResolver h (scope # rs_scopes r) (rs_prefixes r) (rs_root r) (rs_fallback r)"

text \<open>
  \<open>createSubResolver\<close>: no result when a loop does not end, \<open>Some None\<close> when the code returns
  false, or the resolver.
\<close>

definition createSubResolver ::
    "heap \<Rightarrow> (nat \<Rightarrow> rval \<Rightarrow> rval \<Rightarrow> rval) \<Rightarrow> rval list \<Rightarrow> resolver \<Rightarrow> string \<Rightarrow> rval \<Rightarrow> resolver option option" where
  "createSubResolver h call parentScopes r p v =
     (let fb = resolveFallback call (rs_fallback r) (RStr p) v;
          allScopes = parentScopes @ rs_root r
      in case addScopesFromKey h call [v] allScopes (RStr p) (if r_truthy fb then fb else RStr p) v of
           None \<Rightarrow> None
         | Some (S, key) \<Rightarrow>
             if key = RNull then Some None
             else if fb \<noteq> RUndef \<and> fb \<noteq> RStr p then
               (case addScopesFromKey h call S allScopes fb key v of
                  None \<Rightarrow> None
                | Some (S, key) \<Rightarrow>
                    if key = RNull then Some None else Some (Some (createResolver h S [[]] (rs_root r) fb)))
             else Some (Some (createResolver h S [[]] (rs_root r) fb)))"

datatype resolved = Value rval | Sub resolver

fun resolveWithPrefixes ::
    "heap \<Rightarrow> (nat \<Rightarrow> rval \<Rightarrow> rval \<Rightarrow> rval) \<Rightarrow> string \<Rightarrow> string list \<Rightarrow> rval list \<Rightarrow> resolver \<Rightarrow> resolved option" where
  "resolveWithPrefixes h call p [] scopes r = Some (Value RUndef)"
| "resolveWithPrefixes h call p (pre # pfxs) scopes r =
     (let v = resolve_key h (readKey pre p) scopes in
      if v \<noteq> RUndef then
        (if needsSubResolver h p v
         then (case createSubResolver h call scopes r p v of
                 None \<Rightarrow> None | Some None \<Rightarrow> Some (Value (RBool False)) | Some (Some s) \<Rightarrow> Some (Sub s))
         else Some (Value v))
      else resolveWithPrefixes h call p pfxs scopes r)"

definition resolver_get :: "heap \<Rightarrow> (nat \<Rightarrow> rval \<Rightarrow> rval \<Rightarrow> rval) \<Rightarrow> resolver \<Rightarrow> string \<Rightarrow> resolved option" where
  "resolver_get h call r p = resolveWithPrefixes h call p (rs_prefixes r) (rs_scopes r) r"

definition resolver_keys :: "heap \<Rightarrow> resolver \<Rightarrow> string list" where
  "resolver_keys h r = resolveKeysFromAllScopes h (rs_scopes r)"

definition resolver_has :: "heap \<Rightarrow> resolver \<Rightarrow> string \<Rightarrow> bool" where
  "resolver_has h r p \<longleftrightarrow> p \<in> set (resolver_keys h r)"

section \<open>The first scope wins\<close>

lemma resolve_key_find:
  "resolve_key h key scopes =
     (case find (\<lambda>s. r_truthy s \<and> read h s key \<noteq> RUndef) scopes of Some s \<Rightarrow> read h s key | None \<Rightarrow> RUndef)"
  by (induction scopes) auto

lemma resolve_key_filter: "resolve_key h key (filter r_truthy scopes) = resolve_key h key scopes"
  by (induction scopes) auto

lemma resolve_key_append:
  "resolve_key h key (xs @ ys) = (if resolve_key h key xs = RUndef then resolve_key h key ys else resolve_key h key xs)"
  by (induction xs) auto

lemma resolve_key_absent: "(\<And>s. s \<in> set ss \<Longrightarrow> r_truthy s \<Longrightarrow> read h s key = RUndef) \<Longrightarrow> resolve_key h key ss = RUndef"
  by (induction ss) auto

lemma resolve_key_defined_in: "resolve_key h key ss \<noteq> RUndef \<Longrightarrow> \<exists>s \<in> set ss. r_truthy s \<and> read h s key \<noteq> RUndef"
  by (induction ss) (auto split: if_splits)

lemma resolve_key_redundant: "s \<in> set xs \<Longrightarrow> resolve_key h key (xs @ [s]) = resolve_key h key xs"
proof (cases "resolve_key h key xs = RUndef")
  case True
  assume "s \<in> set xs"
  with True have "\<not> (r_truthy s \<and> read h s key \<noteq> RUndef)"
    by (induction xs) (auto split: if_splits)
  with True show ?thesis by (simp add: resolve_key_append)
qed (simp add: resolve_key_append)

lemma resolve_key_add_scope: "resolve_key h key (add_scope S v) = resolve_key h key (S @ [v])"
  by (simp add: add_scope_def resolve_key_redundant)

lemma resolve_key_add_scopes:
  "resolve_key h key (foldl add_scope S vs) = resolve_key h key (S @ vs)"
proof (induction vs arbitrary: S)
  case Nil
  then show ?case by simp
next
  case (Cons v vs)
  have "resolve_key h key (foldl add_scope (add_scope S v) vs) = resolve_key h key (add_scope S v @ vs)"
    by (rule Cons.IH)
  also have "\<dots> = resolve_key h key (S @ v # vs)"
    using resolve_key_add_scope[of h key S v] by (simp add: resolve_key_append)
  finally show ?case by simp
qed

section \<open>Sub-resolvers merge the scopes\<close>

lemma addScopes_plain:
  assumes "\<And>s. s \<in> set ps \<Longrightarrow> read h (getScope h key s) ''_fallback'' = RUndef"
  shows "addScopes h call S ps key key v = (foldl add_scope S (filter r_truthy (map (getScope h key) ps)), RBool False)"
  using assms by (induction ps arbitrary: S) (auto simp: resolveFallback_def Let_def)

lemma getScope_name: "k \<noteq> [] \<Longrightarrow> splitKey k = [k] \<Longrightarrow> r_truthy s \<Longrightarrow> getScope h (RStr k) s = read h s k"
  by (simp add: getScope_def)

lemma resolve_key_head:
  assumes "resolve_key h p scopes = v"
  shows "resolve_key h k (v # map (\<lambda>s. read h s p) (filter r_truthy scopes)) =
    resolve_key h k (map (\<lambda>s. read h s p) (filter r_truthy scopes))"
  using assms
proof (induction scopes)
  case Nil
  then show ?case by auto
next
  case (Cons s ss)
  then show ?case by (cases "read h s p") (auto split: if_splits)
qed

text \<open>
  An option object is merged from all scopes: when no object of that name declares a
  fallback, reading it through a resolver ends with a sub-resolver, and reading any option
  through that one gives the value of the first scope whose object of that name defines it, the
  root scopes last.
\<close>

theorem sub_resolver_merges:
  assumes "rs_prefixes r = [[]]" "rs_fallback r = RUndef" "\<forall>s \<in> set (rs_scopes r @ rs_root r). r_truthy s"
    and "p \<noteq> []" "splitKey p = [p]"
    and "\<forall>s \<in> set (rs_scopes r @ rs_root r). read h (read h s p) ''_fallback'' = RUndef"
    and "needsSubResolver h p (resolve_key h p (rs_scopes r))"
  shows "\<exists>sub. resolver_get h call r p = Some (Sub sub) \<and>
    (\<forall>k. resolve_key h k (rs_scopes sub) = resolve_key h k (map (\<lambda>s. read h s p) (rs_scopes r @ rs_root r)))"
proof -
  let ?all = "rs_scopes r @ rs_root r" and ?v = "resolve_key h p (rs_scopes r)"
  have gs: "getScope h (RStr p) s = read h s p" if "s \<in> set ?all" for s
    using getScope_name[OF assms(4,5)] assms(3) that by blast
  then have map_gs: "map (getScope h (RStr p)) ?all = map (\<lambda>s. read h s p) ?all"
    by (intro map_cong) auto
  have nf: "read h (getScope h (RStr p) s) ''_fallback'' = RUndef" if "s \<in> set ?all" for s
    using gs[OF that] assms(6) that by simp
  let ?S = "foldl add_scope [?v] (filter r_truthy (map (\<lambda>s. read h s p) ?all))"
  have "addScopes h call [?v] ?all (RStr p) (RStr p) ?v = (?S, RBool False)"
    using addScopes_plain[where ps = "?all", OF nf, where call = call and S = "[?v]" and v = ?v] by (simp only: map_gs)
  then have loop: "addScopesFromKey h call [?v] ?all (RStr p) (RStr p) ?v = Some (?S, RBool False)"
    using assms(4) by (subst addScopesFromKey.simps, subst addScopesFromKey.simps) simp
  let ?sub = "createResolver h ?S [[]] (rs_root r) RUndef"
  have "createSubResolver h call (rs_scopes r) r p ?v = Some (Some ?sub)"
    using assms(2) loop by (simp add: createSubResolver_def resolveFallback_def Let_def)
  moreover have "?v \<noteq> RUndef" using assms(7) by (cases ?v) auto
  ultimately have get: "resolver_get h call r p = Some (Sub ?sub)"
    using assms(1,7) by (simp add: resolver_get_def readKey_def Let_def)
  have tr: "filter r_truthy (rs_scopes r) = rs_scopes r" using assms(3) by simp
  have "resolve_key h k (rs_scopes ?sub) = resolve_key h k (map (\<lambda>s. read h s p) ?all)" for k
  proof -
    have "resolve_key h k (rs_scopes ?sub) = resolve_key h k ([?v] @ filter r_truthy (map (\<lambda>s. read h s p) ?all))"
      by (simp only: createResolver_def resolver.simps resolve_key_add_scopes)
    also have "\<dots> = resolve_key h k ([?v] @ map (\<lambda>s. read h s p) ?all)"
      by (simp only: resolve_key_append resolve_key_filter)
    also have "\<dots> = resolve_key h k ((?v # map (\<lambda>s. read h s p) (rs_scopes r)) @ map (\<lambda>s. read h s p) (rs_root r))"
      by simp
    also have "\<dots> = resolve_key h k (map (\<lambda>s. read h s p) (rs_scopes r) @ map (\<lambda>s. read h s p) (rs_root r))"
      using resolve_key_head[of h p "rs_scopes r" ?v k] tr
      by (simp only: resolve_key_append[of h k "_ # _"] resolve_key_append[of h k "map _ (rs_scopes r)"])
    finally show ?thesis by simp
  qed
  with get show ?thesis by blast
qed

definition font_heap :: heap where
  "font_heap a =
     (if a = 0 then \<lparr>ho_props = [(''font'', RRef 2)], ho_plain = True\<rparr>
      else if a = 1 then \<lparr>ho_props = [(''font'', RRef 3)], ho_plain = True\<rparr>
      else if a = 2 then \<lparr>ho_props = [(''size'', RNum (Fin 14))], ho_plain = True\<rparr>
      else \<lparr>ho_props = [(''size'', RNum (Fin 12)), (''style'', RStr ''normal'')], ho_plain = True\<rparr>)"

theorem sub_resolver_merges_witness:
  "\<exists>sub. resolver_get font_heap (\<lambda>f p v. RUndef) \<lparr>rs_scopes = [RRef 0], rs_prefixes = [[]], rs_root = [RRef 1], rs_fallback = RUndef\<rparr> ''font''
     = Some (Sub sub) \<and> resolve_key font_heap ''size'' (rs_scopes sub) = RNum (Fin 14)
       \<and> resolve_key font_heap ''style'' (rs_scopes sub) = RStr ''normal''"
proof -
  have s: "splitKey ''font'' = [''font'']" by code_simp
  let ?r = "\<lparr>rs_scopes = [RRef 0], rs_prefixes = [[]], rs_root = [RRef 1], rs_fallback = RUndef\<rparr>"
  have "\<exists>sub. resolver_get font_heap (\<lambda>f p v. RUndef) ?r ''font'' = Some (Sub sub) \<and>
      (\<forall>k. resolve_key font_heap k (rs_scopes sub) =
            resolve_key font_heap k (map (\<lambda>s. read font_heap s ''font'') (rs_scopes ?r @ rs_root ?r)))"
    by (rule sub_resolver_merges) (simp_all add: font_heap_def s)
  then obtain sub where sub: "resolver_get font_heap (\<lambda>f p v. RUndef) ?r ''font'' = Some (Sub sub)"
    "\<And>k. resolve_key font_heap k (rs_scopes sub) =
       resolve_key font_heap k (map (\<lambda>s. read font_heap s ''font'') (rs_scopes ?r @ rs_root ?r))"
    by blast
  have "map (\<lambda>s. read font_heap s ''font'') (rs_scopes ?r @ rs_root ?r) = [RRef 2, RRef 3]"
    by (simp add: font_heap_def)
  with sub(2) have "resolve_key font_heap ''size'' (rs_scopes sub) = RNum (Fin 14)"
    "resolve_key font_heap ''style'' (rs_scopes sub) = RStr ''normal''"
    by (simp_all add: font_heap_def)
  with sub(1) show ?thesis by blast
qed

section \<open>Following fallbacks\<close>

lemma addScopes_key:
  assumes "r_truthy (snd (addScopes h call S ps key pf v))"
  shows "\<exists>s \<in> set ps. r_truthy (getScope h key s) \<and>
    snd (addScopes h call S ps key pf v) = resolveFallback call (read h (getScope h key s) ''_fallback'') key v"
  using assms
proof (induction ps arbitrary: S)
  case Nil
  then show ?case by simp
next
  case (Cons s ps)
  let ?scope = "getScope h key s"
  let ?fb = "resolveFallback call (read h ?scope ''_fallback'') key v"
  show ?case
  proof (cases "r_truthy ?scope \<and> ?fb \<noteq> RUndef \<and> ?fb \<noteq> key \<and> ?fb \<noteq> pf")
    case True
    then show ?thesis by (intro bexI[of _ s]) (simp_all add: Let_def)
  next
    case False
    then obtain S' where "addScopes h call S (s # ps) key pf v = addScopes h call S' ps key pf v
        \<or> snd (addScopes h call S (s # ps) key pf v) = RNull"
      by (cases "r_truthy ?scope") (fastforce simp: Let_def)+
    with Cons.IH[of S'] Cons.prems show ?thesis by auto
  qed
qed

text \<open>
  Following fallbacks ends when they are acyclic: if every fallback that a scope declares for
  a key is ranked below the key, the scopes of a sub-resolver are computed.
\<close>

theorem fallbacks_end:
  assumes "\<And>k s fb. s \<in> set allScopes \<Longrightarrow> r_truthy (getScope h k s) \<Longrightarrow>
      fb = resolveFallback call (read h (getScope h k s) ''_fallback'') k item \<Longrightarrow> r_truthy fb \<Longrightarrow> rank fb < (rank k :: nat)"
  shows "\<exists>r. addScopesFromKey h call S allScopes key pf item = Some r"
proof (induction "rank key" arbitrary: key S rule: less_induct)
  case less
  let ?r = "addScopes h call S allScopes key pf item"
  show ?case
  proof (cases "r_truthy key \<and> r_truthy (snd ?r)")
    case True
    then obtain s where "s \<in> set allScopes" "r_truthy (getScope h key s)"
      "snd ?r = resolveFallback call (read h (getScope h key s) ''_fallback'') key item"
      using addScopes_key[of h call S allScopes key pf item] by blast
    with assms True have "rank (snd ?r) < rank key" by blast
    then obtain q where "addScopesFromKey h call (fst ?r) allScopes (snd ?r) pf item = Some q"
      using less[of "snd ?r" "fst ?r"] by blast
    with True show ?thesis by (subst addScopesFromKey.simps) (simp add: Let_def)
  next
    case False
    have stop: "\<not> r_truthy k \<Longrightarrow> addScopesFromKey h call S allScopes k pf item = Some (S, k)" for k S
      by (subst addScopesFromKey.simps) simp
    show ?thesis
    proof (cases "r_truthy key")
      case True
      with False have "\<not> r_truthy (snd ?r)" by blast
      with True show ?thesis by (subst addScopesFromKey.simps) (simp add: stop Let_def)
    qed (use stop in blast)
  qed
qed

definition fallback_heap :: heap where
  "fallback_heap a =
     (if a = 0 then \<lparr>ho_props = [(''a'', RRef 1), (''b'', RRef 2)], ho_plain = True\<rparr>
      else if a = 1 then \<lparr>ho_props = [(''_fallback'', RStr ''b'')], ho_plain = True\<rparr>
      else \<lparr>ho_props = [], ho_plain = True\<rparr>)"

lemma splitKey_letters: "splitKey ''a'' = [''a'']" "splitKey ''b'' = [''b'']"
  by code_simp+

theorem fallbacks_end_witness:
  "\<exists>r. addScopesFromKey fallback_heap (\<lambda>f p v. RUndef) [] [RRef 0] (RStr ''a'') (RStr ''a'') RUndef = Some r"
proof (rule fallbacks_end[where rank = "\<lambda>k. if k = RStr ''b'' then 0 else 1"], goal_cases)
  case (1 k s fb)
  have "read fallback_heap (getScope fallback_heap k s) ''_fallback'' \<in> {RStr ''b'', RUndef}"
    by (cases "getScope fallback_heap k s") (simp_all add: fallback_heap_def)
  with 1 have fb: "fb = RStr ''b''" by (auto simp: resolveFallback_def)
  have "k \<noteq> RStr ''b''"
  proof
    assume "k = RStr ''b''"
    then have "getScope fallback_heap k s = RRef 2"
      using 1(1) by (simp add: getScope_def splitKey_letters fallback_heap_def)
    then have "fb = RUndef" using 1(3) by (simp add: resolveFallback_def fallback_heap_def)
    with fb show False by simp
  qed
  with fb show ?case by simp
qed

text \<open>
  A cycle of two fallbacks is never left: the loop goes from one key to the other for ever.
\<close>

definition cyclic_heap :: heap where
  "cyclic_heap a =
     (if a = 0 then \<lparr>ho_props = [(''a'', RRef 1), (''b'', RRef 2)], ho_plain = True\<rparr>
      else if a = 1 then \<lparr>ho_props = [(''_fallback'', RStr ''b'')], ho_plain = True\<rparr>
      else \<lparr>ho_props = [(''_fallback'', RStr ''a'')], ho_plain = True\<rparr>)"

lemma cyclic_fallbacks_loop:
  assumes "key \<in> {RStr ''a'', RStr ''b''}"
  shows "addScopesFromKey cyclic_heap call S [RRef 0] key (RStr ''c'') item = None"
proof (rule ccontr)
  assume "\<not> ?thesis"
  then obtain r where r: "addScopesFromKey cyclic_heap call S [RRef 0] key (RStr ''c'') item = Some r" by blast
  have "h = cyclic_heap \<longrightarrow> all = [RRef 0] \<longrightarrow> pf = RStr ''c'' \<longrightarrow> k \<notin> {RStr ''a'', RStr ''b''}"
    if "addScopesFromKey h call S all k pf item = Some r" for h call S all k pf item r
    using that
  proof (induction rule: addScopesFromKey.raw_induct[rotated 1, consumes 1, case_names step])
    case (step f h call S all k pf item r)
    have keys: "snd (addScopes cyclic_heap call S [RRef 0] (RStr ''a'') (RStr ''c'') item) = RStr ''b''"
      "snd (addScopes cyclic_heap call S [RRef 0] (RStr ''b'') (RStr ''c'') item) = RStr ''a''"
      by (simp_all add: getScope_def splitKey_letters cyclic_heap_def resolveFallback_def Let_def)
    have False if eq: "h = cyclic_heap" "all = [RRef 0]" "pf = RStr ''c''" "k \<in> {RStr ''a'', RStr ''b''}"
    proof -
      have "\<exists>S' k'. f cyclic_heap call S' [RRef 0] k' (RStr ''c'') item = Some r \<and> k' \<in> {RStr ''a'', RStr ''b''}"
        using step.hyps keys eq by (auto simp only: Let_def split: if_splits) auto
      then show False using step.IH by fastforce
    qed
    then show ?case by blast
  qed
  from this[OF r] assms show False by blast
qed

section \<open>Options that are functions\<close>

text \<open>
  A scriptable option as the resolver sees it: a script that reads other options, going on with the
  value or with the exception that the reading throws, and that returns a value or throws.  The
  context has the index of the data item, if any; the proxy is the list of the options with what
  the resolver gives for them (options that are objects are the subject of the sections above,
  and there is no sub-proxy).  The state of the proxy with a context is the set \<open>_stack\<close> of the
  options whose functions run, in the order of their insertion, and the values that are cached.
\<close>

datatype read_error = Recursion "string list" | UserError nat

datatype script = Return rval | Throw read_error | Read string "read_error + rval \<Rightarrow> script"

record option_context =
  oc_index :: "nat option"
  oc_proxy :: "(string \<times> rval) list"
  oc_scriptable :: "string \<Rightarrow> bool"
  oc_indexable :: "string \<Rightarrow> bool"
  oc_script :: "nat \<Rightarrow> script"

record context_state =
  cx_stack :: "string list"
  cx_cache :: "(string \<times> rval) list"

definition resolveArray :: "option_context \<Rightarrow> string \<Rightarrow> rval \<Rightarrow> rval" where
  "resolveArray oc p v =
     (case (v, oc_index oc) of
        (RArr (x # xs), Some i) \<Rightarrow> (if oc_indexable oc p then (x # xs) ! (i mod length (x # xs)) else v)
      | _ \<Rightarrow> v)"

primrec run_script ::
    "(context_state \<Rightarrow> string \<Rightarrow> ((read_error + rval) \<times> context_state) option) \<Rightarrow> script \<Rightarrow> context_state \<Rightarrow>
     ((read_error + rval) \<times> context_state) option" where
  "run_script rd (Return v) st = Some (Inr v, st)"
| "run_script rd (Throw e) st = Some (Inl e, st)"
| "run_script rd (Read p k) st = Option.bind (rd st p) (\<lambda>(r, st'). run_script rd (k r) st')"

definition proxy_get :: "option_context \<Rightarrow> string \<Rightarrow> rval" where
  "proxy_get oc p = (case obj_get (oc_proxy oc) p of Some v \<Rightarrow> v | None \<Rightarrow> RUndef)"

definition cache_value :: "string \<Rightarrow> rval \<Rightarrow> context_state \<Rightarrow> (read_error + rval) \<times> context_state" where
  "cache_value p v st = (Inr v, st\<lparr>cx_cache := obj_set (cx_cache st) p v\<rparr>)"

text \<open>
  \<open>_cached\<close> around \<open>_resolveWithContext\<close> with \<open>_resolveScriptable\<close>: the option is put on the stack
  before its function is called and taken off after a return, not after an exception; the error
  carries the chain of its message.  The first argument bounds the depth of the calls; with more
  than the number of options it is never reached (\<open>option_read_returns\<close>).
\<close>

fun resolveWithContext :: "nat \<Rightarrow> option_context \<Rightarrow> context_state \<Rightarrow> string \<Rightarrow> ((read_error + rval) \<times> context_state) option" where
  "resolveWithContext 0 oc st p = None"
| "resolveWithContext (Suc n) oc st p =
     (case obj_get (cx_cache st) p of
        Some v \<Rightarrow> Some (Inr v, st)
      | None \<Rightarrow>
          (let v = proxy_get oc p
           in case v of
                RFun f \<Rightarrow>
                  if oc_scriptable oc p then
                    (if p \<in> set (cx_stack st) then Some (Inl (Recursion (cx_stack st @ [p])), st)
                     else
                       Option.bind (run_script (resolveWithContext n oc) (oc_script oc f) (st\<lparr>cx_stack := cx_stack st @ [p]\<rparr>))
                         (\<lambda>(r, st'). case r of
                            Inl e \<Rightarrow> Some (Inl e, st')
                          | Inr w \<Rightarrow> Some (cache_value p (resolveArray oc p w) (st'\<lparr>cx_stack := remove1 p (cx_stack st')\<rparr>))))
                  else Some (cache_value p v st)
              | _ \<Rightarrow> Some (cache_value p (resolveArray oc p v) st)))"

declare resolveWithContext.simps(2) [simp del]

lemma cache_value_parts [simp]: "fst (cache_value p v st) = Inr v" "cx_stack (snd (cache_value p v st)) = cx_stack st"
  by (simp_all add: cache_value_def)

text \<open>The four ways a reading goes.\<close>

lemma resolve_cases:
  obtains (stored) v where "resolveWithContext (Suc n) oc st p = Some (Inr v, st)"
  | (plain) v st' where "resolveWithContext (Suc n) oc st p = Some (Inr v, st')" "cx_stack st' = cx_stack st"
  | (rec) f where "proxy_get oc p = RFun f" "oc_scriptable oc p" "p \<in> set (cx_stack st)"
      "resolveWithContext (Suc n) oc st p = Some (Inl (Recursion (cx_stack st @ [p])), st)"
  | (run) f where "proxy_get oc p = RFun f" "oc_scriptable oc p" "p \<notin> set (cx_stack st)"
      "resolveWithContext (Suc n) oc st p =
         Option.bind (run_script (resolveWithContext n oc) (oc_script oc f) (st\<lparr>cx_stack := cx_stack st @ [p]\<rparr>))
           (\<lambda>(r, st'). case r of
              Inl e \<Rightarrow> Some (Inl e, st')
            | Inr w \<Rightarrow> Some (cache_value p (resolveArray oc p w) (st'\<lparr>cx_stack := remove1 p (cx_stack st')\<rparr>)))"
proof (cases "obj_get (cx_cache st) p")
  case (Some v)
  then show ?thesis using stored by (simp add: resolveWithContext.simps(2))
next
  case None
  have r: "resolveWithContext (Suc n) oc st p =
     (case proxy_get oc p of
        RFun f \<Rightarrow>
          if oc_scriptable oc p then
            (if p \<in> set (cx_stack st) then Some (Inl (Recursion (cx_stack st @ [p])), st)
             else
               Option.bind (run_script (resolveWithContext n oc) (oc_script oc f) (st\<lparr>cx_stack := cx_stack st @ [p]\<rparr>))
                 (\<lambda>(r, st'). case r of
                    Inl e \<Rightarrow> Some (Inl e, st')
                  | Inr w \<Rightarrow> Some (cache_value p (resolveArray oc p w) (st'\<lparr>cx_stack := remove1 p (cx_stack st')\<rparr>))))
          else Some (cache_value p (proxy_get oc p) st)
      | _ \<Rightarrow> Some (cache_value p (resolveArray oc p (proxy_get oc p)) st))"
    using None by (simp add: resolveWithContext.simps(2) Let_def)
  show ?thesis
  proof (cases "\<exists>f. proxy_get oc p = RFun f \<and> oc_scriptable oc p")
    case True
    then obtain f where f: "proxy_get oc p = RFun f" "oc_scriptable oc p" by blast
    show ?thesis
    proof (cases "p \<in> set (cx_stack st)")
      case True
      then show ?thesis using rec[OF f] f r by simp
    next
      case False
      then show ?thesis using run[OF f] f r by simp
    qed
  next
    case False
    then have "\<exists>v. resolveWithContext (Suc n) oc st p = Some (cache_value p v st)"
      unfolding r by (cases "proxy_get oc p") auto
    then show ?thesis using plain by (auto simp: cache_value_def)
  qed
qed

section \<open>Reading an option returns\<close>

lemma run_script_returns:
  assumes "\<And>st q. T \<subseteq> set (cx_stack st) \<Longrightarrow> \<exists>r st'. rd st q = Some (r, st') \<and> set (cx_stack st) \<subseteq> set (cx_stack st')"
  shows "T \<subseteq> set (cx_stack st) \<Longrightarrow> \<exists>r st'. run_script rd s st = Some (r, st') \<and> set (cx_stack st) \<subseteq> set (cx_stack st')"
proof (induction s arbitrary: st)
  case (Read p k)
  obtain r st' where r: "rd st p = Some (r, st')" "set (cx_stack st) \<subseteq> set (cx_stack st')" using assms[OF Read.prems] by blast
  obtain r2 st2 where "run_script rd (k r) st' = Some (r2, st2)" "set (cx_stack st') \<subseteq> set (cx_stack st2)"
    using Read.IH[OF rangeI, of st' r] Read.prems r(2) by blast
  then show ?case using r by auto
qed auto

lemma resolve_returns:
  "card (set (obj_keys (oc_proxy oc)) - set (cx_stack st)) < n \<Longrightarrow>
     \<exists>r st'. resolveWithContext n oc st p = Some (r, st') \<and> set (cx_stack st) \<subseteq> set (cx_stack st')"
proof (induction n arbitrary: st p)
  case (Suc n)
  show ?case
  proof (cases rule: resolve_cases[of n oc st p])
    case (run f)
    let ?K = "set (obj_keys (oc_proxy oc))" and ?st1 = "st\<lparr>cx_stack := cx_stack st @ [p]\<rparr>"
    have "p \<in> ?K" using run(1) obj_get_None_iff[of "oc_proxy oc" p] by (auto simp: proxy_get_def split: option.splits)
    then have less: "card (?K - set (cx_stack ?st1)) < card (?K - set (cx_stack st))"
      using run(3) by (intro psubset_card_mono) auto
    have rd: "\<exists>r st'. resolveWithContext n oc st2 q = Some (r, st') \<and> set (cx_stack st2) \<subseteq> set (cx_stack st')"
      if "set (cx_stack ?st1) \<subseteq> set (cx_stack st2)" for st2 q
    proof (rule Suc.IH)
      have "card (?K - set (cx_stack st2)) \<le> card (?K - set (cx_stack ?st1))" using that by (intro card_mono) auto
      then show "card (?K - set (cx_stack st2)) < n" using less Suc.prems by linarith
    qed
    obtain r st2 where r: "run_script (resolveWithContext n oc) (oc_script oc f) ?st1 = Some (r, st2)"
      "set (cx_stack ?st1) \<subseteq> set (cx_stack st2)"
      using run_script_returns[where T = "set (cx_stack ?st1)" and rd = "resolveWithContext n oc" and st = ?st1] rd by blast
    have "set (cx_stack st) \<subseteq> set (remove1 p (cx_stack st2))"
      using r(2) run(3) by (auto intro: in_set_remove1[THEN iffD2])
    then show ?thesis unfolding run(4) using r by (auto simp: cache_value_def split: sum.split)
  qed auto
qed simp

text \<open>
  C14. Reading an option through a context always returns, with a value or an exception: the
  functions called may read any options, catch what the readings throw and throw themselves, and
  the context may be in any state.  The depth of the calls never exceeds the number of options.
\<close>

theorem option_read_returns:
  "\<exists>r st'. resolveWithContext (Suc (length (oc_proxy oc))) oc st p = Some (r, st')"
proof -
  have "card (set (obj_keys (oc_proxy oc)) - set (cx_stack st)) \<le> length (oc_proxy oc)"
    by (rule order_trans[OF card_mono[of "set (obj_keys (oc_proxy oc))"]])
      (simp_all add: obj_keys_def order_trans[OF card_length] flip: set_map)
  then show ?thesis using resolve_returns[of oc st "Suc (length (oc_proxy oc))" p] by auto
qed

section \<open>Recursion errors\<close>

text \<open>Which options a script may read, and the chains of options that read one another.\<close>

inductive may_read :: "script \<Rightarrow> string \<Rightarrow> bool" where
  reads_first: "may_read (Read p k) p"
| reads_later: "may_read (k v) q \<Longrightarrow> may_read (Read p k) q"

definition depends :: "option_context \<Rightarrow> string \<Rightarrow> string \<Rightarrow> bool" where
  "depends oc p q \<longleftrightarrow> (\<exists>f. proxy_get oc p = RFun f \<and> oc_scriptable oc p \<and> may_read (oc_script oc f) q)"

definition chain :: "option_context \<Rightarrow> string list \<Rightarrow> bool" where
  "chain oc ps \<longleftrightarrow> (\<forall>i. Suc i < length ps \<longrightarrow> depends oc (ps ! i) (ps ! Suc i))"

lemma chain_snoc: "chain oc (ps @ [p]) \<Longrightarrow> depends oc p q \<Longrightarrow> chain oc (ps @ [p] @ [q])"
  unfolding chain_def by (auto simp: nth_append less_Suc_eq)

text \<open>Scripts that catch no exception, and whose own exceptions are not the resolver's.\<close>

primrec propagates :: "script \<Rightarrow> bool" where
  "propagates (Return v) = True"
| "propagates (Throw e) = (\<exists>n. e = UserError n)"
| "propagates (Read p k) = ((\<forall>e. k (Inl e) = Throw e) \<and> (\<forall>v. propagates (k (Inr v))))"

text \<open>What a reading gives that starts with the stack \<open>S\<close>: the same stack after a value, and only
  genuine recursion errors, whose chain begins with \<open>T\<close>.\<close>

definition genuine :: "option_context \<Rightarrow> string list \<Rightarrow> string list \<Rightarrow> bool" where
  "genuine oc T e \<longleftrightarrow> chain oc e \<and> (\<exists>pre q. e = pre @ [q] \<and> q \<in> set pre) \<and> prefix T e"

fun good_read :: "option_context \<Rightarrow> string list \<Rightarrow> string list \<Rightarrow> (read_error + rval) \<times> context_state \<Rightarrow> bool" where
  "good_read oc S T (Inr v, st') = (cx_stack st' = S)"
| "good_read oc S T (Inl (Recursion e), st') = genuine oc T e"
| "good_read oc S T (Inl (UserError n), st') = True"

lemma run_script_good:
  assumes "\<And>st q r. cx_stack st = S \<Longrightarrow> may_read s0 q \<Longrightarrow> rd st q = Some r \<Longrightarrow> good_read oc S S r"
  shows "cx_stack st = S \<Longrightarrow> propagates s \<Longrightarrow> (\<And>q. may_read s q \<Longrightarrow> may_read s0 q) \<Longrightarrow>
    run_script rd s st = Some r \<Longrightarrow> good_read oc S S r"
proof (induction s arbitrary: st r)
  case (Read p k)
  obtain x st' where x: "rd st p = Some (x, st')" "run_script rd (k x) st' = Some r"
    using Read.prems(4) by (auto split: bind_splits)
  have good: "good_read oc S S (x, st')" by (rule assms[OF Read.prems(1) Read.prems(3)[OF reads_first] x(1)])
  show ?case
  proof (cases x)
    case (Inl e)
    then have "r = (Inl e, st')" using Read.prems(2) x(2) by simp
    then show ?thesis using good Inl by simp
  next
    case (Inr v)
    then show ?thesis
      using Read.IH[OF rangeI, of st' x r] good Read.prems(2,3) x(2) reads_later[of k x] by auto
  qed
qed auto

lemma good_read_shorter: "good_read oc (S @ [p]) (S @ [p]) (Inl e, st') \<Longrightarrow> good_read oc U (S @ [p]) (Inl e, st')"
  by (cases e) auto

lemma resolve_good:
  assumes all: "\<And>f. propagates (oc_script oc f)"
  shows "cx_stack st = S \<Longrightarrow> chain oc (S @ [p]) \<Longrightarrow> resolveWithContext n oc st p = Some r \<Longrightarrow> good_read oc S (S @ [p]) r"
proof (induction n arbitrary: st S p r)
  case (Suc n)
  show ?case
  proof (cases rule: resolve_cases[of n oc st p])
    case (rec f)
    then show ?thesis using Suc.prems by (auto simp: genuine_def)
  next
    case (run f)
    obtain x st' where x: "run_script (resolveWithContext n oc) (oc_script oc f) (st\<lparr>cx_stack := cx_stack st @ [p]\<rparr>) = Some (x, st')"
      using Suc.prems(3) unfolding run(4) by (auto split: bind_splits)
    have nested: "good_read oc (S @ [p]) (S @ [p]) r'"
      if i: "cx_stack st2 = S @ [p]" "may_read (oc_script oc f) q" "resolveWithContext n oc st2 q = Some r'" for st2 q r'
    proof -
      have "chain oc ((S @ [p]) @ [q])"
        using chain_snoc[OF Suc.prems(2), of q] run(1,2) i(2) by (auto simp: depends_def)
      from Suc.IH[OF i(1) this i(3)] show ?thesis
        by (cases "(oc, S @ [p], (S @ [p]) @ [q], r')" rule: good_read.cases) (auto simp: genuine_def prefix_def)
    qed
    have good: "good_read oc (S @ [p]) (S @ [p]) (x, st')"
      using run_script_good[where ?s0.0 = "oc_script oc f" and S = "S @ [p]", OF nested _ all _ x] Suc.prems(1) by simp
    show ?thesis
    proof (cases x)
      case (Inl e)
      then show ?thesis using Suc.prems(3) x good good_read_shorter unfolding run(4) by auto
    next
      case (Inr w)
      have "remove1 p (S @ [p]) = S" using run(3) Suc.prems(1) by (simp add: remove1_append)
      then show ?thesis using Suc.prems(3) x good Inr unfolding run(4) by (auto simp: cache_value_def)
    qed
  qed (use Suc.prems in auto)
qed simp

text \<open>
  C15. A recursion error tells the truth: in a context on whose stack no exception has left
  anything, with functions that catch no exception, reading an option gives a value and leaves
  nothing on the stack, or the exception of a function, or a recursion error whose chain starts at
  the option that was read, in which each option is a function that may read the next one, and the
  last one occurs before.  So options whose functions throw nothing and do not depend on one
  another in a cycle never fail, in any number of readings.
\<close>

theorem recursion_error_genuine:
  assumes "\<And>f. propagates (oc_script oc f)" "cx_stack st = []" "resolveWithContext n oc st p = Some (r, st')"
  shows "(\<exists>v. r = Inr v \<and> cx_stack st' = []) \<or> (\<exists>m. r = Inl (UserError m)) \<or>
    (\<exists>e pre q. r = Inl (Recursion e) \<and> chain oc e \<and> hd e = p \<and> e = pre @ [q] \<and> q \<in> set pre)"
proof -
  have "chain oc ([] @ [p])" by (simp add: chain_def)
  from resolve_good[OF assms(1,2) this assms(3)] have g: "good_read oc [] [p] (r, st')" by simp
  show ?thesis
  proof (cases r)
    case (Inl e)
    show ?thesis
    proof (cases e)
      case (Recursion c)
      then obtain pre q where "chain oc c" "c = pre @ [q]" "q \<in> set pre" "prefix [p] c"
        using g Inl by (auto simp: genuine_def)
      moreover from this(4) have "hd c = p" by (auto simp: prefix_def)
      ultimately show ?thesis using Inl Recursion by blast
    qed (use Inl in blast)
  qed (use g in auto)
qed

text \<open>Two options that read one another.\<close>

definition pass_on :: "string \<Rightarrow> script" where
  "pass_on p = Read p (\<lambda>r. case r of Inl e \<Rightarrow> Throw e | Inr v \<Rightarrow> Return v)"

definition mutual_context :: option_context where
  "mutual_context = \<lparr>oc_index = None, oc_proxy = [(''a'', RFun 0), (''b'', RFun 1)], oc_scriptable = (\<lambda>_. True),
     oc_indexable = (\<lambda>_. True), oc_script = (\<lambda>f. if f = 0 then pass_on ''b'' else pass_on ''a'')\<rparr>"

theorem recursion_error_genuine_witness:
  "\<exists>e. map_option fst (resolveWithContext 3 mutual_context \<lparr>cx_stack = [], cx_cache = []\<rparr> ''a'') = Some (Inl (Recursion e)) \<and>
     chain mutual_context e \<and> hd e = ''a''"
proof -
  let ?st = "\<lparr>cx_stack = [], cx_cache = []\<rparr>"
  have r: "resolveWithContext 3 mutual_context ?st ''a'' =
      Some (Inl (Recursion [''a'', ''b'', ''a'']), \<lparr>cx_stack = [''a'', ''b''], cx_cache = []\<rparr>)" by code_simp
  have "propagates (oc_script mutual_context f)" for f by (simp add: mutual_context_def pass_on_def)
  from recursion_error_genuine[OF this _ r] show ?thesis unfolding r by auto
qed

text \<open>After an exception the option stays on the stack: read again, it reports a recursion
  although its function reads nothing.\<close>

definition failing_context :: option_context where
  "failing_context = \<lparr>oc_index = None, oc_proxy = [(''a'', RFun 0)], oc_scriptable = (\<lambda>_. True),
     oc_indexable = (\<lambda>_. True), oc_script = (\<lambda>_. Throw (UserError 7))\<rparr>"

lemma exception_leaves_stack:
  "resolveWithContext 2 failing_context \<lparr>cx_stack = [], cx_cache = []\<rparr> ''a'' =
     Some (Inl (UserError 7), \<lparr>cx_stack = [''a''], cx_cache = []\<rparr>)"
  "resolveWithContext 2 failing_context \<lparr>cx_stack = [''a''], cx_cache = []\<rparr> ''a'' =
     Some (Inl (Recursion [''a'', ''a'']), \<lparr>cx_stack = [''a''], cx_cache = []\<rparr>)"
  by code_simp+

end
