(* ===== verification/ChartScales.thy ===== *)
theory ChartScales
  imports ChartCore ChartMath
begin

text \<open>
  The scales (\<open>js/chart_3.9.js\<close>): the pixel arithmetic of \<open>class Scale\<close>, \<open>CategoryScale\<close> with its
  added labels, and \<open>LinearScaleBase\<close>/\<open>LinearScale\<close> (its ticks are in
  \<open>ChartLinearTicks\<close>).
  Measured values are exact rationals; a result the code computes as \<open>NaN\<close> or an infinity is
  \<open>None\<close>.  Text measurement and trigonometry enter as numbers.
\<close>

section \<open>Pixels\<close>

text \<open>
  The interface a scale offers to the rest of the library: values to pixels and back.
\<close>

locale value_pixels =
  fixes to_pixel :: "'v \<Rightarrow> rat"
    and of_pixel :: "rat \<Rightarrow> 'v option"
    and visible :: "'v \<Rightarrow> bool"
  assumes of_to_pixel: "visible v \<Longrightarrow> of_pixel (to_pixel v) = Some v"
begin

lemma to_pixel_inj: "visible v \<Longrightarrow> visible w \<Longrightarrow> to_pixel v = to_pixel w \<Longrightarrow> v = w"
  by (metis of_to_pixel option.inject)

lemma to_pixel_distinct:
  "distinct vs \<Longrightarrow> (\<And>v. v \<in> set vs \<Longrightarrow> visible v) \<Longrightarrow> distinct (map to_pixel vs)"
  unfolding distinct_map inj_on_def using to_pixel_inj by blast

lemma map_of_to_pixel: "(\<And>v. v \<in> set vs \<Longrightarrow> visible v) \<Longrightarrow> map (of_pixel \<circ> to_pixel) vs = map Some vs"
  by (simp add: of_to_pixel)

end

text \<open>The pixel range of a scale; the ratio is that of the device when pixels are aligned.\<close>

record axis_pixels =
  ap_start :: rat
  ap_end :: rat
  ap_reverse :: bool
  ap_align :: "rat option"

definition ap_length :: "axis_pixels \<Rightarrow> rat" where
  "ap_length ap = ap_end ap - ap_start ap"

record scale_box =
  sb_left :: rat
  sb_right :: rat
  sb_top :: rat
  sb_bottom :: rat
  sb_horizontal :: bool

definition scale_configure :: "scale_box \<Rightarrow> bool \<Rightarrow> rat option \<Rightarrow> axis_pixels" where
  "scale_configure sb reverse align =
     (if sb_horizontal sb
      then \<lparr>ap_start = sb_left sb, ap_end = sb_right sb, ap_reverse = reverse, ap_align = align\<rparr>
      else \<lparr>ap_start = sb_top sb, ap_end = sb_bottom sb, ap_reverse = \<not> reverse, ap_align = align\<rparr>)"

definition alignPixel :: "rat \<Rightarrow> rat \<Rightarrow> rat \<Rightarrow> rat" where
  "alignPixel ratio pixel width =
     (let halfWidth = (if width \<noteq> 0 then max (width / 2) (1 / 2) else 0)
      in of_int (round ((pixel - halfWidth) * ratio)) / ratio + halfWidth)"

definition getPixelForDecimal :: "axis_pixels \<Rightarrow> rat \<Rightarrow> rat" where
  "getPixelForDecimal ap d =
     (let d = (if ap_reverse ap then 1 - d else d);
          pixel = ap_start ap + d * ap_length ap
      in int16Range (case ap_align ap of Some ratio \<Rightarrow> alignPixel ratio pixel 0 | None \<Rightarrow> pixel))"

definition getDecimalForPixel :: "axis_pixels \<Rightarrow> rat \<Rightarrow> rat option" where
  "getDecimalForPixel ap pixel =
     (if ap_length ap = 0 then None
      else (let d = (pixel - ap_start ap) / ap_length ap in Some (if ap_reverse ap then 1 - d else d)))"

text \<open>A decimal whose pixel is neither clipped nor aligned comes back.\<close>

definition exact_decimal :: "axis_pixels \<Rightarrow> rat \<Rightarrow> bool" where
  "exact_decimal ap d \<longleftrightarrow> ap_length ap \<noteq> 0 \<and> ap_align ap = None \<and>
     (let p = ap_start ap + (if ap_reverse ap then 1 - d else d) * ap_length ap in -32768 \<le> p \<and> p \<le> 32767)"

interpretation decimal_px: value_pixels "getPixelForDecimal ap" "getDecimalForPixel ap" "exact_decimal ap" for ap
proof
  fix d
  assume a: "exact_decimal ap d"
  let ?e = "if ap_reverse ap then 1 - d else d"
  have "getPixelForDecimal ap d = ap_start ap + ?e * ap_length ap"
    using a by (simp add: getPixelForDecimal_def exact_decimal_def int16Range_def limitValue_id Let_def)
  with a show "getDecimalForPixel ap (getPixelForDecimal ap d) = Some d"
    by (simp add: getDecimalForPixel_def exact_decimal_def Let_def)
qed

text \<open>Inside the chart the decimals from 0 to 1 are on screen.\<close>

lemma exact_decimal_unit:
  assumes "ap_length ap \<noteq> 0" "ap_align ap = None"
    and "-32768 \<le> ap_start ap" "ap_start ap \<le> 32767" "-32768 \<le> ap_end ap" "ap_end ap \<le> 32767"
    and "0 \<le> d" "d \<le> 1"
  shows "exact_decimal ap d"
proof -
  let ?e = "if ap_reverse ap then 1 - d else d"
  have e: "0 \<le> ?e" "?e \<le> 1" using assms by auto
  have p: "ap_start ap + ?e * ap_length ap = (1 - ?e) * ap_start ap + ?e * ap_end ap"
    by (simp add: ap_length_def algebra_simps)
  have "(1 - ?e) * (-32768) + ?e * (-32768) \<le> (1 - ?e) * ap_start ap + ?e * ap_end ap"
    using e assms by (intro add_mono mult_left_mono) auto
  moreover have "(1 - ?e) * ap_start ap + ?e * ap_end ap \<le> (1 - ?e) * 32767 + ?e * 32767"
    using e assms by (intro add_mono mult_left_mono) auto
  ultimately have "-32768 \<le> ap_start ap + ?e * ap_length ap" "ap_start ap + ?e * ap_length ap \<le> 32767"
    unfolding p by (simp_all add: algebra_simps)
  with assms show ?thesis by (simp add: exact_decimal_def Let_def)
qed

section \<open>The bounds a user sets\<close>

definition scale_getMinMax :: "rat option \<Rightarrow> rat option \<Rightarrow> jsnum \<Rightarrow> jsnum \<Rightarrow> (jsnum \<times> jsnum) list \<Rightarrow> jsnum \<times> jsnum" where
  "scale_getMinMax userMin userMax startMin startMax ranges =
     (case (userMin, userMax) of
        (Some mn, Some mx) \<Rightarrow> (Fin mn, Fin mx)
      | _ \<Rightarrow>
        (let mn = (case userMin of Some m \<Rightarrow> Fin m | None \<Rightarrow> foldl (\<lambda>m r. num_min m (fst r)) startMin ranges);
             mx = (case userMax of Some m \<Rightarrow> Fin m | None \<Rightarrow> foldl (\<lambda>m r. num_max m (snd r)) startMax ranges);
             mn' = (if userMax \<noteq> None \<and> num_less mx mn then mx else mn);
             mx' = (if userMin \<noteq> None \<and> num_less mx mn' then mn' else mx);
             fin = (\<lambda>v d. if is_finite_num v then v else d)
         in (fin mn' (fin mx' mn'), fin mx' (fin mn' mx'))))"

section \<open>The category scale\<close>

record category =
  cat_labels :: "jsval list"
  cat_added :: "(nat \<times> jsval) list"

text \<open>\<open>indexOf\<close> and \<open>lastIndexOf\<close> compare by strict equality.\<close>

definition strict_index :: "jsval list \<Rightarrow> jsval \<Rightarrow> nat option" where
  "strict_index xs v = (if v = VNum NaN then None else index_of xs v)"

definition strict_last_index :: "jsval list \<Rightarrow> jsval \<Rightarrow> nat option" where
  "strict_last_index xs v = map_option (\<lambda>i. length xs - 1 - i) (strict_index (rev xs) v)"

text \<open>The index is a value of the language: a number, or the raw value when none was given.\<close>

definition addIfString :: "category \<Rightarrow> jsval \<Rightarrow> jsval \<Rightarrow> jsval \<times> category" where
  "addIfString cat raw index =
     (case raw of
        VStr _ \<Rightarrow>
          (VNum (Fin (of_nat (length (cat_labels cat)))),
           cat\<lparr>cat_labels := cat_labels cat @ [raw], cat_added := (length (cat_labels cat), raw) # cat_added cat\<rparr>)
      | _ \<Rightarrow> (if to_number raw = NaN then VNull else index, cat))"

definition findOrAddLabel :: "category \<Rightarrow> jsval \<Rightarrow> jsval \<Rightarrow> jsval \<times> category" where
  "findOrAddLabel cat raw index =
     (case strict_index (cat_labels cat) raw of
        None \<Rightarrow> addIfString cat raw index
      | Some first \<Rightarrow>
          (if strict_last_index (cat_labels cat) raw \<noteq> Some first then index else VNum (Fin (of_nat first)), cat))"

fun num_round :: "jsnum \<Rightarrow> jsnum" where
  "num_round (Fin x) = Fin (of_int (round x))"
| "num_round n = n"

definition validIndex :: "jsval \<Rightarrow> int \<Rightarrow> jsnum option" where
  "validIndex index mx =
     (if index = VNull then None
      else Some (num_max (Fin 0) (num_min (Fin (of_int mx)) (num_round (to_number index)))))"

text \<open>\<open>isFinite(index) && labels[index] === raw\<close>; an index that is no number and no text (null, a
  boolean) names no entry.\<close>

definition label_at :: "jsval list \<Rightarrow> jsval \<Rightarrow> jsval \<Rightarrow> bool" where
  "label_at labels index raw \<longleftrightarrow>
     (case index of
        VNum (Fin x) \<Rightarrow> (\<exists>i < length labels. of_nat i = x \<and> strict_eq (labels ! i) raw)
      | VStr s \<Rightarrow> (\<exists>i < length labels. show_nat i = s \<and> strict_eq (labels ! i) raw)
      | _ \<Rightarrow> False)"

definition cat_parse :: "category \<Rightarrow> jsval \<Rightarrow> jsval \<Rightarrow> jsnum option \<times> category" where
  "cat_parse cat raw index =
     (if isNullOrUndef raw then (None, cat)
      else
        (let (i, cat) =
               (if label_at (cat_labels cat) index raw then (index, cat)
                else findOrAddLabel cat raw (valueOrDefault index raw))
         in (validIndex i (int (length (cat_labels cat)) - 1), cat)))"

text \<open>\<open>init\<close> takes the added labels out again, the latest first.\<close>

definition remove_added :: "jsval list \<Rightarrow> nat \<times> jsval \<Rightarrow> jsval list" where
  "remove_added labels p =
     (if fst p < length labels \<and> strict_eq (labels ! fst p) (snd p) then splice labels (fst p) 1 [] else labels)"

definition cat_init :: "category \<Rightarrow> category" where
  "cat_init cat = cat\<lparr>cat_labels := foldl remove_added (cat_labels cat) (cat_added cat), cat_added := []\<rparr>"

definition parse_all :: "category \<Rightarrow> (jsval \<times> jsval) list \<Rightarrow> category" where
  "parse_all cat raws = foldl (\<lambda>cat p. snd (cat_parse cat (fst p) (snd p))) cat raws"

text \<open>The added labels are the tail of the labels, listed backwards.\<close>

definition added_inv :: "jsval list \<Rightarrow> category \<Rightarrow> bool" where
  "added_inv base cat \<longleftrightarrow> cat_labels cat = base @ map snd (rev (cat_added cat))
     \<and> map fst (rev (cat_added cat)) = [length base ..< length (cat_labels cat)]
     \<and> (\<forall>p \<in> set (cat_added cat). \<exists>s. snd p = VStr s)"

lemma added_inv_parse: "added_inv base cat \<Longrightarrow> added_inv base (snd (cat_parse cat raw index))"
  by (auto simp: added_inv_def cat_parse_def findOrAddLabel_def addIfString_def Let_def
      split: option.splits jsval.splits)

lemma remove_added_all:
  assumes "labels = base @ map snd (rev added)" "map fst (rev added) = [length base ..< length labels]"
    and "\<forall>p \<in> set added. \<exists>s. snd p = VStr s"
  shows "foldl remove_added labels added = base"
  using assms
proof (induction added arbitrary: labels)
  case Nil
  then show ?case by simp
next
  case (Cons p added)
  let ?L = "base @ map snd (rev added)"
  have L: "labels = ?L @ [snd p]" using Cons.prems(1) by simp
  have "map fst (rev added) @ [fst p] = [length base ..< length ?L] @ [length ?L]"
    using Cons.prems(2) unfolding L by simp
  then have p: "fst p = length ?L" and idx: "map fst (rev added) = [length base ..< length ?L]"
    by (simp_all only: append1_eq_conv)
  have "strict_eq (snd p) (snd p)" using Cons.prems(3) by (auto simp: strict_eq_def)
  then have "remove_added labels p = ?L"
    using p by (simp add: remove_added_def L splice_def nth_append)
  with Cons.IH[OF refl idx] Cons.prems(3) show ?case by simp
qed

text \<open>
  C19. The category scale leaves the labels of the chart as it found them: whatever values are
  parsed (adding the strings that are no labels yet), initialising the scale again takes
  exactly the added labels out.
\<close>

theorem category_labels_restored:
  "cat_labels (cat_init (parse_all \<lparr>cat_labels = labels, cat_added = []\<rparr> raws)) = labels"
proof -
  have "added_inv labels (parse_all cat raws)" if "added_inv labels cat" for cat
    using that unfolding parse_all_def by (induction raws arbitrary: cat) (simp_all add: added_inv_parse)
  from this[of "\<lparr>cat_labels = labels, cat_added = []\<rparr>"]
  have inv: "added_inv labels (parse_all \<lparr>cat_labels = labels, cat_added = []\<rparr> raws)"
    by (simp add: added_inv_def)
  let ?cat = "parse_all \<lparr>cat_labels = labels, cat_added = []\<rparr> raws"
  have "foldl remove_added (cat_labels ?cat) (cat_added ?cat) = labels"
    using inv unfolding added_inv_def by (intro remove_added_all) blast+
  then show ?thesis by (simp add: cat_init_def)
qed

text \<open>Ticks and pixels of a category scale between two label indices.\<close>

record value_range =
  vr_start :: rat
  vr_range :: rat

definition cat_buildTicks :: "nat \<Rightarrow> nat \<Rightarrow> bool \<Rightarrow> nat \<Rightarrow> int list \<times> value_range" where
  "cat_buildTicks mn mx offset labelCount =
     (let n = (if mn = 0 \<and> mx + 1 = labelCount then labelCount else min labelCount (mx + 1) - mn)
      in ([int mn .. int mx],
          \<lparr>vr_start = of_nat mn - (if offset then 1 / 2 else 0),
           vr_range = max (of_nat n - (if offset then 0 else 1)) 1\<rparr>))"

definition cat_getPixelForValue :: "axis_pixels \<Rightarrow> value_range \<Rightarrow> int \<Rightarrow> rat" where
  "cat_getPixelForValue ap vr v = getPixelForDecimal ap ((of_int v - vr_start vr) / vr_range vr)"

definition cat_getValueForPixel :: "axis_pixels \<Rightarrow> value_range \<Rightarrow> rat \<Rightarrow> int option" where
  "cat_getValueForPixel ap vr pixel =
     map_option (\<lambda>d. round (vr_start vr + d * vr_range vr)) (getDecimalForPixel ap pixel)"

definition linear_getPixelForValue :: "axis_pixels \<Rightarrow> value_range \<Rightarrow> rat \<Rightarrow> rat" where
  "linear_getPixelForValue ap vr v = getPixelForDecimal ap ((v - vr_start vr) / vr_range vr)"

definition linear_getValueForPixel :: "axis_pixels \<Rightarrow> value_range \<Rightarrow> rat \<Rightarrow> rat option" where
  "linear_getValueForPixel ap vr pixel = map_option (\<lambda>d. vr_start vr + d * vr_range vr) (getDecimalForPixel ap pixel)"

definition on_screen :: "axis_pixels \<Rightarrow> value_range \<Rightarrow> rat \<Rightarrow> bool" where
  "on_screen ap vr v \<longleftrightarrow> vr_range vr \<noteq> 0 \<and> exact_decimal ap ((v - vr_start vr) / vr_range vr)"

interpretation linear_px: value_pixels "linear_getPixelForValue ap vr" "linear_getValueForPixel ap vr" "on_screen ap vr" for ap vr
  by unfold_locales (auto simp: linear_getPixelForValue_def linear_getValueForPixel_def on_screen_def decimal_px.of_to_pixel)

interpretation cat_px: value_pixels "cat_getPixelForValue ap vr" "cat_getValueForPixel ap vr" "\<lambda>v. on_screen ap vr (of_int v)" for ap vr
  by unfold_locales (auto simp: cat_getPixelForValue_def cat_getValueForPixel_def on_screen_def decimal_px.of_to_pixel)

lemma cat_on_screen:
  assumes "mn \<le> mx" "mx < labelCount" "snd (cat_buildTicks mn mx offset labelCount) = vr" "v \<in> {int mn .. int mx}"
    and "ap_length ap \<noteq> 0" "ap_align ap = None"
    and "-32768 \<le> ap_start ap" "ap_start ap \<le> 32767" "-32768 \<le> ap_end ap" "ap_end ap \<le> 32767"
  shows "on_screen ap vr (of_int v)"
proof -
  let ?s = "if offset then 1 / 2 else 0 :: rat"
  have n: "(if mn = 0 \<and> mx + 1 = labelCount then labelCount else min labelCount (mx + 1) - mn) = mx + 1 - mn"
    using assms(1,2) by (auto simp: min_def)
  have vr: "vr = \<lparr>vr_start = of_nat mn - ?s, vr_range = max (of_nat (mx + 1 - mn) - (if offset then 0 else 1)) 1\<rparr>"
    using assms(3)[symmetric] unfolding cat_buildTicks_def Let_def n by (simp only: snd_conv)
  have "of_nat (mx + 1 - mn) = (of_nat mx + 1 - of_nat mn :: rat)"
    using assms(1) by (simp only: of_nat_diff of_nat_add of_nat_1 trans_le_add1)
  with vr have r: "vr_start vr = of_nat mn - ?s"
    "vr_range vr = max (of_nat mx + 1 - of_nat mn - (if offset then 0 else 1)) 1"
    by (simp_all only: value_range.simps)
  have v: "of_nat mn \<le> (of_int v :: rat)" "(of_int v :: rat) \<le> of_nat mx"
    using assms(4) of_int_le_iff[of "int mn" v, where ?'a = rat] of_int_le_iff[of v "int mx", where ?'a = rat] by simp_all
  have "0 < vr_range vr" "0 \<le> of_int v - vr_start vr" "of_int v - vr_start vr \<le> vr_range vr"
    using r v by (auto simp: max_def)
  then have "vr_range vr \<noteq> 0" "0 \<le> (of_int v - vr_start vr) / vr_range vr" "(of_int v - vr_start vr) / vr_range vr \<le> 1"
    by simp_all
  with exact_decimal_unit[OF assms(5-10)] show ?thesis by (simp add: on_screen_def)
qed

text \<open>
  C20. On a category scale every label between the first and the last has its own pixel, and the
  pixel leads back to the label, with and without an offset, in both directions of the axis
  (without alignment to device pixels, inside the 16-bit range of the canvas).
\<close>

theorem category_pixel_roundtrip:
  assumes "mn \<le> mx" "mx < labelCount" "snd (cat_buildTicks mn mx offset labelCount) = vr"
    and "ap_length ap \<noteq> 0" "ap_align ap = None"
    and "-32768 \<le> ap_start ap" "ap_start ap \<le> 32767" "-32768 \<le> ap_end ap" "ap_end ap \<le> 32767"
  shows "map (cat_getValueForPixel ap vr \<circ> cat_getPixelForValue ap vr) [int mn .. int mx] = map Some [int mn .. int mx]
    \<and> distinct (map (cat_getPixelForValue ap vr) [int mn .. int mx])"
proof -
  have v: "on_screen ap vr (of_int v)" if "v \<in> set [int mn .. int mx]" for v
    using cat_on_screen[OF assms(1-3) _ assms(4-9)] that by simp
  show ?thesis
    using cat_px.map_of_to_pixel[of "[int mn .. int mx]" ap vr, OF v]
      cat_px.to_pixel_distinct[of "[int mn .. int mx]" ap vr, OF _ v] by simp
qed

theorem category_pixel_roundtrip_witness:
  "map (cat_getValueForPixel \<lparr>ap_start = 10, ap_end = 110, ap_reverse = True, ap_align = None\<rparr>
          \<lparr>vr_start = 1 / 2, vr_range = 3\<rparr> \<circ>
        cat_getPixelForValue \<lparr>ap_start = 10, ap_end = 110, ap_reverse = True, ap_align = None\<rparr>
          \<lparr>vr_start = 1 / 2, vr_range = 3\<rparr>) [1 .. 3] = map Some [1 .. 3]"
  using category_pixel_roundtrip[of 1 3 5 True "\<lparr>vr_start = 1 / 2, vr_range = 3\<rparr>"
      "\<lparr>ap_start = 10, ap_end = 110, ap_reverse = True, ap_align = None\<rparr>"]
  by (simp add: cat_buildTicks_def ap_length_def)

section \<open>The linear scale\<close>

text \<open>Parsing a datum: no value for null and for numbers that are not finite.\<close>

definition linear_parse :: "jsval \<Rightarrow> jsnum option" where
  "linear_parse raw =
     (if isNullOrUndef raw then None
      else (case raw of
              VNum n \<Rightarrow> (if is_finite_num n then Some n else None)
            | _ \<Rightarrow> Some (to_number raw)))"

text \<open>The data limits: user bounds are kept, an empty range is widened.\<close>

definition max_safe :: rat where
  "max_safe = 9007199254740991"

definition handleTickRangeOptions :: "bool \<Rightarrow> bool \<Rightarrow> bool \<Rightarrow> rat \<Rightarrow> rat \<Rightarrow> rat \<times> rat" where
  "handleTickRangeOptions beginAtZero minDefined maxDefined mn mx =
     (let setMin = (\<lambda>m v. if minDefined then m else v);
          setMax = (\<lambda>m v. if maxDefined then m else v);
          (mn, mx) =
            (if beginAtZero then
               (if sign mn < 0 \<and> sign mx < 0 then (mn, setMax mx 0)
                else if sign mn > 0 \<and> sign mx > 0 then (setMin mn 0, mx)
                else (mn, mx))
             else (mn, mx))
      in if mn = mx then
           (let offset = (if mx \<ge> max_safe \<or> mn \<le> - max_safe then \<bar>mx * (5 / 100)\<bar> else 1);
                mx' = setMax mx (mx + offset);
                mn' = (if beginAtZero then mn else setMin mn (mn - offset))
            in (mn', mx'))
         else (mn, mx))"

definition linear_determineDataLimits :: "bool \<Rightarrow> bool \<Rightarrow> bool \<Rightarrow> jsnum \<times> jsnum \<Rightarrow> rat \<times> rat" where
  "linear_determineDataLimits beginAtZero minDefined maxDefined r =
     handleTickRangeOptions beginAtZero minDefined maxDefined
       (case fst r of Fin m \<Rightarrow> m | _ \<Rightarrow> 0) (case snd r of Fin m \<Rightarrow> m | _ \<Rightarrow> 1)"

text \<open>
  C21. The limits of a linear scale.  From a smallest and a largest value, either of them replaced
  by the bound the user set, the limits computed contain both, leave every bound the user set
  where it is, and are different: except exactly when the two values are equal, the user set the
  maximum, and the minimum cannot give way either, because the user set it too or because the
  scale begins at zero and the maximum is not positive.
\<close>

theorem linear_range_proper:
  assumes "mn \<le> mx" "handleTickRangeOptions beginAtZero minDefined maxDefined mn mx = (lo, hi)"
  shows "lo \<le> mn \<and> mx \<le> hi \<and> (minDefined \<longrightarrow> lo = mn) \<and> (maxDefined \<longrightarrow> hi = mx) \<and>
    (lo = hi \<longleftrightarrow> mn = mx \<and> maxDefined \<and> (minDefined \<or> beginAtZero \<and> mx \<le> 0))"
  using assms
  by (cases beginAtZero; cases minDefined; cases maxDefined)
     (auto simp: handleTickRangeOptions_def sign_def max_safe_def Let_def split: if_splits)

theorem linear_range_proper_witness:
  "\<exists>lo hi. handleTickRangeOptions True False False 5 5 = (lo, hi) \<and> lo \<le> 5 \<and> 5 \<le> hi \<and> lo \<noteq> hi"
  using linear_range_proper[of 5 5 True False False]
  by (cases "handleTickRangeOptions True False False 5 5") auto

text \<open>With a maximum of zero set by the user, zero data and a scale from zero the range is empty.\<close>

lemma linear_range_empty: "handleTickRangeOptions True False True 0 0 = (0, 0)"
  by (simp add: handleTickRangeOptions_def sign_def max_safe_def Let_def)

definition getTickLimit :: "rat option \<Rightarrow> nat option \<Rightarrow> nat \<Rightarrow> rat \<Rightarrow> rat \<Rightarrow> int" where
  "getTickLimit stepSize maxTicksLimit computed mn mx =
     (case stepSize of
        Some step \<Rightarrow>
          (let n = \<lceil>mx / step\<rceil> - \<lfloor>mn / step\<rfloor> + 1; n = (if n > 1000 then 1000 else n)
           in case maxTicksLimit of Some l \<Rightarrow> (if l \<noteq> 0 then min (int l) n else n) | None \<Rightarrow> n)
      | None \<Rightarrow>
          (let l = (case maxTicksLimit of Some l \<Rightarrow> (if l \<noteq> 0 then l else 11) | None \<Rightarrow> 11)
           in min (int l) (int computed)))"

definition linear_configure :: "bool \<Rightarrow> nat \<Rightarrow> rat \<Rightarrow> rat \<Rightarrow> value_range" where
  "linear_configure offset tickCount mn mx =
     (let d = (if offset \<and> tickCount \<noteq> 0 then (mx - mn) / of_nat (max (tickCount - 1) 1) / 2 else 0)
      in \<lparr>vr_start = mn - d, vr_range = (mx + d) - (mn - d)\<rparr>)"

end
