(* ===== verification/ChartLinearTicks.thy ===== *)
theory ChartLinearTicks
  imports ChartScales
begin

text \<open>
  The generator of nice ticks of the linear scales (\<open>js/chart_3.9.js\<close>, \<open>niceNum\<close>,
  \<open>generateTicks$1\<close>, \<open>relativeLabelSize\<close>, \<open>LinearScaleBase.buildTicks\<close>).  The rotation of the labels enters as the ratio the code
  computes with sine or cosine, the width of a label as the number of its characters.
\<close>

section \<open>Powers of ten\<close>

definition pow10 :: "int \<Rightarrow> rat" where
  "pow10 k = (if k \<ge> 0 then 10 ^ nat k else 1 / 10 ^ nat (- k))"

text \<open>\<open>Math.floor(Math.log10(x))\<close> of a positive number, computed exactly.\<close>

function log_up :: "rat \<Rightarrow> nat" where
  "log_up x = (if x < 10 then 0 else Suc (log_up (x / 10)))"
  by pat_completeness auto
termination
proof (relation "measure (\<lambda>x. nat \<lfloor>x\<rfloor>)")
  fix x :: rat
  assume "\<not> x < 10"
  then have "x / 10 \<le> x - 9" "10 \<le> x" by simp_all
  then have "\<lfloor>x / 10\<rfloor> \<le> \<lfloor>x - 9\<rfloor>" and "10 \<le> \<lfloor>x\<rfloor>"
    by (blast intro: floor_mono, simp add: le_floor_iff)
  moreover have "\<lfloor>x - 9\<rfloor> = \<lfloor>x\<rfloor> - 9" using floor_diff_of_int[of x 9] by simp
  ultimately show "(x / 10, x) \<in> measure (\<lambda>x. nat \<lfloor>x\<rfloor>)" by simp
qed simp

function log_down :: "rat \<Rightarrow> nat" where
  "log_down x = (if x \<le> 0 \<or> x \<ge> 1 then 0 else Suc (log_down (x * 10)))"
  by pat_completeness auto
termination
proof (relation "measure (\<lambda>x. nat \<lceil>1 / x\<rceil>)")
  fix x :: rat
  assume "\<not> (x \<le> 0 \<or> x \<ge> 1)"
  then have x: "0 < x" "x < 1" by auto
  have "1 < 1 / x" using x by simp
  then have one: "1 < \<lceil>1 / x\<rceil>" by (simp add: less_ceiling_iff)
  have "1 / x \<le> of_int \<lceil>1 / x\<rceil>" by (rule le_of_int_ceiling)
  moreover have "(2 :: rat) \<le> of_int \<lceil>1 / x\<rceil>" using one by linarith
  moreover have "1 / (x * 10) = (1 / x) / 10" by simp
  ultimately have "1 / (x * 10) \<le> of_int (\<lceil>1 / x\<rceil> - 1)" unfolding of_int_diff by linarith
  then have "\<lceil>1 / (x * 10)\<rceil> \<le> \<lceil>1 / x\<rceil> - 1" by (simp only: ceiling_le_iff)
  with one x show "(x * 10, x) \<in> measure (\<lambda>x. nat \<lceil>1 / x\<rceil>)" by simp
qed simp

declare log_up.simps [simp del] log_down.simps [simp del]

definition floor_log10 :: "rat \<Rightarrow> int" where
  "floor_log10 x = (if x \<ge> 1 then int (log_up x) else - int (log_down x))"

lemma log_up_bounds: "1 \<le> x \<Longrightarrow> 10 ^ log_up x \<le> x \<and> x < 10 ^ Suc (log_up x)"
proof (induction x rule: log_up.induct)
  case (1 x)
  then show ?case by (cases "x < 10") (simp_all add: log_up.simps[of x] field_simps)
qed

lemma log_down_bounds: "0 < x \<Longrightarrow> x < 10 \<Longrightarrow> 1 \<le> x * 10 ^ log_down x \<and> x * 10 ^ log_down x < 10"
proof (induction x rule: log_down.induct)
  case (1 x)
  then show ?case by (cases "x \<ge> 1") (simp_all add: log_down.simps[of x] field_simps)
qed

lemma pow10_pos [simp]: "0 < pow10 k"
  by (simp add: pow10_def)

lemma pow10_neg: "pow10 (- int n) = 1 / 10 ^ n"
  by (cases "n = 0") (simp_all add: pow10_def)

lemma floor_log10_bounds: "0 < x \<Longrightarrow> pow10 (floor_log10 x) \<le> x \<and> x < 10 * pow10 (floor_log10 x)"
proof (cases "x \<ge> 1")
  case True
  then show ?thesis using log_up_bounds[of x] by (simp add: floor_log10_def pow10_def)
next
  case False
  assume "0 < x"
  with False log_down_bounds[of x] show ?thesis
    by (simp add: floor_log10_def pow10_neg field_simps)
qed

section \<open>Nice numbers\<close>

definition round_range :: "rat \<Rightarrow> rat" where
  "round_range rg =
     (let roundedRange = of_int (round rg) in if almostEquals rg roundedRange (rg / 1000) then roundedRange else rg)"

definition nice_multiple :: "rat \<Rightarrow> rat" where
  "nice_multiple rg =
     (let niceRange = pow10 (floor_log10 rg);
          fraction = rg / niceRange;
          niceFraction = (if fraction \<le> 1 then 1 else if fraction \<le> 2 then 2 else if fraction \<le> 5 then 5 else 10)
      in niceFraction * niceRange)"

definition niceNum :: "rat \<Rightarrow> rat option" where
  "niceNum rg = (if rg \<le> 0 then None else Some (nice_multiple (round_range rg)))"

definition nice :: "rat \<Rightarrow> bool" where
  "nice s \<longleftrightarrow> (\<exists>k. s = pow10 k \<or> s = 2 * pow10 k \<or> s = 5 * pow10 k)"

lemma pow10_step: "10 * pow10 k = pow10 (k + 1)"
proof -
  consider "k \<ge> 0" | "k = -1" | "k < -1" by linarith
  then show ?thesis
  proof cases
    case 1
    then have "nat (k + 1) = Suc (nat k)" by simp
    with 1 show ?thesis by (simp add: pow10_def)
  next
    case 3
    then have "nat (- k) = Suc (nat (- (k + 1)))" by simp
    with 3 show ?thesis by (simp add: pow10_def)
  qed (simp add: pow10_def)
qed

lemma niceNum_nice:
  assumes "niceNum r = Some s"
  shows "0 < r \<and> nice s \<and> 0 < s \<and> r * (999 / 1000) \<le> s \<and> s \<le> 10 * (r * (1001 / 1000))"
proof -
  have r: "0 < r" and s': "s = nice_multiple (round_range r)"
    using assms by (simp_all add: niceNum_def split: if_splits)
  define q where "q = round_range r"
  let ?p = "pow10 (floor_log10 q)"
  have "\<bar>r - q\<bar> < r / 1000" using r by (simp add: q_def round_range_def almostEquals_def Let_def)
  then have q: "r * (999 / 1000) \<le> q" "q \<le> r * (1001 / 1000)" by linarith+
  then have "0 < q" using r by linarith
  from floor_log10_bounds[OF this] have b: "?p \<le> q" "q < 10 * ?p" by auto
  have s: "s = (if q / ?p \<le> 1 then 1 else if q / ?p \<le> 2 then 2 else if q / ?p \<le> 5 then 5 else 10) * ?p"
    unfolding s' q_def[symmetric] nice_multiple_def Let_def ..
  have "nice s" unfolding nice_def s using pow10_step[of "floor_log10 q"] by auto
  moreover have "0 < s" using s by simp
  moreover have "q \<le> s" using s b by (auto simp: divide_le_eq)
  moreover have "s \<le> 10 * ?p" using s by auto
  ultimately show ?thesis using r q b by auto
qed

section \<open>The generator\<close>

record tick_gen =
  tg_bounds_ticks :: bool
  tg_step :: "rat option"
  tg_min :: "rat option"
  tg_max :: "rat option"
  tg_precision :: "nat option"
  tg_count :: "nat option"
  tg_maxTicks :: nat
  tg_maxDigits :: nat
  tg_includeBounds :: bool
  tg_ratio :: rat
  tg_chars :: "rat \<Rightarrow> nat"

definition relativeLabelSize :: "tick_gen \<Rightarrow> rat \<Rightarrow> rat \<Rightarrow> rat" where
  "relativeLabelSize g v minSpacing =
     min (minSpacing / tg_ratio g) (3 / 4 * minSpacing * of_nat (tg_chars g v))"

definition decimals_of :: "rat \<Rightarrow> nat option" where
  "decimals_of x = (case decimalPlaces (Fin x) of Some (Some r) \<Rightarrow> Some r | _ \<Rightarrow> None)"

text \<open>The spacing: nice for the limit of ticks, enlarged once, cut to the precision.\<close>

definition step_unit :: "tick_gen \<Rightarrow> rat" where
  "step_unit g = (case tg_step g of Some st \<Rightarrow> if st = 0 then 1 else st | None \<Rightarrow> 1)"

definition choose_spacing :: "tick_gen \<Rightarrow> rat \<Rightarrow> rat \<Rightarrow> rat option" where
  "choose_spacing g rmin rmax =
     (let unit = step_unit g;
          maxSpaces = of_nat (tg_maxTicks g) - 1
      in map_option (\<lambda>m. m * unit) (niceNum ((rmax - rmin) / maxSpaces / unit)))"

definition enlarge_spacing :: "tick_gen \<Rightarrow> rat \<Rightarrow> rat \<Rightarrow> rat \<Rightarrow> rat option" where
  "enlarge_spacing g rmin rmax spacing =
     (let unit = step_unit g;
          maxSpaces = of_nat (tg_maxTicks g) - 1;
          numSpaces = of_int (\<lceil>rmax / spacing\<rceil> - \<lfloor>rmin / spacing\<rfloor>)
      in case (if numSpaces > maxSpaces
               then map_option (\<lambda>m. m * unit) (niceNum (numSpaces * spacing / maxSpaces / unit))
               else Some spacing) of
           None \<Rightarrow> None
         | Some spacing \<Rightarrow>
             Some (case tg_precision g of
                     None \<Rightarrow> spacing
                   | Some p \<Rightarrow> of_int \<lceil>spacing * 10 ^ p\<rceil> / 10 ^ p))"

text \<open>The number of spaces, the final spacing and the two ends.\<close>

definition choose_spaces :: "tick_gen \<Rightarrow> rat \<Rightarrow> rat \<Rightarrow> rat \<Rightarrow> (int \<times> rat \<times> rat \<times> rat) option" where
  "choose_spaces g rmin rmax spacing =
     (let niceMin = (if tg_bounds_ticks g then of_int \<lfloor>rmin / spacing\<rfloor> * spacing else rmin);
          niceMax = (if tg_bounds_ticks g then of_int \<lceil>rmax / spacing\<rceil> * spacing else rmax);
          stepped = (case (tg_min g, tg_max g, tg_step g) of
                       (Some mn, Some mx, Some st) \<Rightarrow> st \<noteq> 0 \<and> almostWhole ((mx - mn) / st) (spacing / 1000)
                     | _ \<Rightarrow> False)
      in if stepped then
           (let mn = the (tg_min g); mx = the (tg_max g);
                numSpaces = round (min ((mx - mn) / spacing) (of_nat (tg_maxTicks g)))
            in if numSpaces = 0 then None else Some (numSpaces, (mx - mn) / of_int numSpaces, mn, mx))
         else case tg_count g of
           Some c \<Rightarrow>
             (let niceMin = (case tg_min g of Some m \<Rightarrow> m | None \<Rightarrow> niceMin);
                  niceMax = (case tg_max g of Some m \<Rightarrow> m | None \<Rightarrow> niceMax);
                  numSpaces = int c - 1
              in if numSpaces = 0 then None
                 else Some (numSpaces, (niceMax - niceMin) / of_int numSpaces, niceMin, niceMax))
         | None \<Rightarrow>
             (let n = (niceMax - niceMin) / spacing
              in Some (if almostEquals n (of_int (round n)) (spacing / 1000) then round n else \<lceil>n\<rceil>,
                       spacing, niceMin, niceMax)))"

text \<open>The tick values from the first index on, and what a fixed end of the scale changes.\<close>

definition tick_values :: "tick_gen \<Rightarrow> rat \<Rightarrow> int \<Rightarrow> rat \<Rightarrow> rat \<Rightarrow> rat \<Rightarrow> rat \<Rightarrow> rat list" where
  "tick_values g minSpacing numSpaces spacing niceMin niceMax factor =
     (let tv = (\<lambda>j :: int. of_int (round ((niceMin + of_int j * spacing) * factor)) / factor);
          (start, j) =
            (case tg_min g of
               None \<Rightarrow> ([], 0)
             | Some mn \<Rightarrow>
                 if tg_includeBounds g \<and> niceMin \<noteq> mn then
                   (let j = (if niceMin < mn then 1 else 0)
                    in ([mn], if almostEquals (tv j) mn (relativeLabelSize g mn minSpacing) then j + 1 else j))
                 else ([], if niceMin < mn then 1 else 0));
          ticks = start @ map tv [j .. numSpaces - 1]
      in case tg_max g of
           Some mx \<Rightarrow>
             (if tg_includeBounds g \<and> niceMax \<noteq> mx then
                (if ticks \<noteq> [] \<and> almostEquals (last ticks) mx (relativeLabelSize g mx minSpacing)
                 then butlast ticks @ [mx] else ticks @ [mx])
              else if niceMax = mx then ticks @ [niceMax] else ticks)
         | None \<Rightarrow> ticks @ [niceMax])"

definition generateTicks :: "tick_gen \<Rightarrow> rat \<Rightarrow> rat \<Rightarrow> rat list option" where
  "generateTicks g rmin rmax =
     (case choose_spacing g rmin rmax of
        None \<Rightarrow> None
      | Some spacing \<Rightarrow>
          if spacing < 1 / 10 ^ 14 \<and> tg_min g = None \<and> tg_max g = None then Some [rmin, rmax]
          else (case enlarge_spacing g rmin rmax spacing of
            None \<Rightarrow> None
          | Some spacing \<Rightarrow>
              (case choose_spaces g rmin rmax spacing of
                 None \<Rightarrow> None
               | Some (numSpaces, spacing, niceMin, niceMax) \<Rightarrow>
                   (case (decimals_of spacing, decimals_of niceMin) of
                      (Some d1, Some d2) \<Rightarrow>
                        (let factor = 10 ^ (case tg_precision g of Some p \<Rightarrow> p | None \<Rightarrow> max d1 d2);
                             niceMin = of_int (round (niceMin * factor)) / factor;
                             niceMax = of_int (round (niceMax * factor)) / factor
                         in Some (tick_values g ((rmax - rmin) / (of_nat (tg_maxDigits g) + 1))
                                    numSpaces spacing niceMin niceMax factor))
                    | _ \<Rightarrow> None))))"

section \<open>What the generator promises\<close>

lemma nice_decimal: "nice s \<Longrightarrow> \<exists>n. s * 10 ^ n \<in> \<int>"
proof -
  assume "nice s"
  then obtain f k where s: "s = of_int f * pow10 k"
    unfolding nice_def by (metis mult_1 of_int_1 of_int_numeral)
  have "pow10 k * 10 ^ nat (- k) \<in> \<int>"
    by (cases "k \<ge> 0") (simp_all add: pow10_def)
  then have "of_int f * (pow10 k * 10 ^ nat (- k)) \<in> \<int>" by (rule Ints_mult[OF Ints_of_int])
  then show ?thesis by (auto simp: s mult.assoc)
qed

lemma decimals_of_Some:
  assumes "x * 10 ^ n \<in> \<int>"
  shows "\<exists>r. decimals_of x = Some r \<and> x * 10 ^ r \<in> \<int>"
  using decimal_loop_enough[of x 0 n] assms by (auto simp: decimals_of_def decimalPlaces_def)

lemma Ints_more_decimals: "(x :: rat) * 10 ^ m \<in> \<int> \<Longrightarrow> m \<le> n \<Longrightarrow> x * 10 ^ n \<in> \<int>"
proof -
  assume a: "x * 10 ^ m \<in> \<int>" and "m \<le> n"
  then have eq: "x * 10 ^ n = (x * 10 ^ m) * 10 ^ (n - m)" by (simp add: mult.assoc flip: power_add)
  have "(10 :: rat) ^ (n - m) \<in> \<int>" by simp
  from Ints_mult[OF a this] show ?thesis by (simp only: eq)
qed

lemma round_Ints_div: "(x :: rat) * f \<in> \<int> \<Longrightarrow> f \<noteq> 0 \<Longrightarrow> of_int (round (x * f)) / f = x"
  using whole_iff[of "x * f"] by simp

definition automatic :: "tick_gen \<Rightarrow> bool" where
  "automatic g \<longleftrightarrow> tg_bounds_ticks g \<and> tg_step g = None \<and> tg_min g = None \<and> tg_max g = None
     \<and> tg_precision g = None \<and> tg_count g = None \<and> 2 \<le> tg_maxTicks g"

lemma automatic_spacing:
  assumes "automatic g" "rmin < rmax"
  obtains s s' where "choose_spacing g rmin rmax = Some s" "enlarge_spacing g rmin rmax s = Some s'"
    "nice s'" "0 < s'" "(rmax - rmin) / (of_nat (tg_maxTicks g) - 1) * (999 / 1000) \<le> s"
proof -
  let ?m = "of_nat (tg_maxTicks g) - 1 :: rat"
  have "(of_nat 2 :: rat) \<le> of_nat (tg_maxTicks g)" using assms(1) unfolding of_nat_le_iff by (simp add: automatic_def)
  then have m: "0 < ?m" by simp
  then have r: "0 < (rmax - rmin) / ?m" using assms(2) by simp
  then obtain s where s: "niceNum ((rmax - rmin) / ?m) = Some s" by (auto simp: niceNum_def not_le)
  have n: "nice s" "0 < s" "(rmax - rmin) / ?m * (999 / 1000) \<le> s" using niceNum_nice[OF s] by auto
  have c: "choose_spacing g rmin rmax = Some s"
    using assms(1) s by (simp add: choose_spacing_def step_unit_def automatic_def)
  let ?n = "of_int (\<lceil>rmax / s\<rceil> - \<lfloor>rmin / s\<rfloor>) :: rat"
  show ?thesis
  proof (cases "?n > ?m")
    case True
    then have "0 < ?n * s / ?m" using m n(2) by (intro divide_pos_pos mult_pos_pos) auto
    then obtain s' where s': "niceNum (?n * s / ?m) = Some s'" by (auto simp: niceNum_def not_le)
    then have "enlarge_spacing g rmin rmax s = Some s'"
      using True assms(1) unfolding enlarge_spacing_def step_unit_def Let_def automatic_def by simp
    with that[OF c] niceNum_nice[OF s'] n show ?thesis by blast
  next
    case False
    then have "enlarge_spacing g rmin rmax s = Some s"
      using assms(1) unfolding enlarge_spacing_def step_unit_def Let_def automatic_def by simp
    with that[OF c] n show ?thesis by blast
  qed
qed

text \<open>
  The ends on multiples of the spacing: what the rest of the generator computes is exact, for
  all numbers involved have finitely many decimals.
\<close>

lemma spaces_on_grid:
  assumes "automatic g" "0 < s" "rmin < rmax"
  defines "a \<equiv> \<lfloor>rmin / s\<rfloor>" and "b \<equiv> \<lceil>rmax / s\<rceil>"
  shows "choose_spaces g rmin rmax s = Some (b - a, s, of_int a * s, of_int b * s)" and "a < b"
proof -
  have "(of_int b * s - of_int a * s) / s = of_int (b - a)"
    using assms(2) by (simp add: diff_divide_distrib)
  moreover have "almostEquals (of_int k) (of_int (round (of_int k :: rat))) (s / 1000)" for k
    using assms(2) by (simp add: almostEquals_def)
  from this[of "b - a"]
  have "almostEquals (of_int (b - a)) (of_int (round (of_int (b - a) :: rat))) (s / 1000)" .
  ultimately show "choose_spaces g rmin rmax s = Some (b - a, s, of_int a * s, of_int b * s)"
    using assms(1) unfolding choose_spaces_def automatic_def a_def[symmetric] b_def[symmetric] Let_def
    by (simp only: if_True if_False option.case prod.case round_of_int simp_thms)
  have "of_int a \<le> rmin / s" "rmax / s \<le> of_int b" by (simp_all add: a_def b_def)
  moreover have "rmin / s < rmax / s" using assms(2,3) by (simp add: divide_strict_right_mono)
  ultimately show "a < b" by linarith
qed

lemma map_upto_grid:
  assumes "a < b"
  shows "map (\<lambda>j. of_int a * s + of_int j * s) [0 .. b - a - 1] @ [of_int b * s] =
    map (\<lambda>i. of_int i * s :: rat) [a .. b]"
proof -
  have "map (\<lambda>i. of_int i * s) [a .. b - 1] = map (\<lambda>j. of_int (a + j) * s) [0 .. b - a - 1]"
  proof -
    have "[a .. b - 1] = map (\<lambda>j. a + j) [0 .. b - a - 1]"
      by (rule nth_equalityI) (auto simp: nth_upto)
    then show ?thesis by (simp add: comp_def)
  qed
  moreover have "[a .. b] = [a .. b - 1] @ [b]" using upto_rec2[of a b] assms by simp
  ultimately show ?thesis by (simp add: algebra_simps)
qed

text \<open>
  C18. Automatic ticks are nice, evenly spaced and cover the data: for bounds on the ticks and no
  user settings, the ticks are the consecutive multiples of one spacing of the form
  1, 2 or 5 times a power of ten, the first is at most the smallest value and less than a
  spacing below it, the last is at least the largest value and less than a spacing above it; and
  every number the generator computes on the way exists (no division by zero, no endless search
  for decimals).
\<close>

theorem automatic_ticks:
  assumes "automatic g" "rmin < rmax" "1 / 10 ^ 13 \<le> (rmax - rmin) / (of_nat (tg_maxTicks g) - 1)"
  shows "\<exists>s a b. nice s \<and> 0 < s \<and> a < b \<and> generateTicks g rmin rmax = Some (map (\<lambda>i. of_int i * s) [a .. b]) \<and>
    of_int a * s \<le> rmin \<and> rmin < of_int a * s + s \<and> rmax \<le> of_int b * s \<and> of_int b * s - s < rmax"
proof -
  obtain s0 s where s: "choose_spacing g rmin rmax = Some s0" "enlarge_spacing g rmin rmax s0 = Some s"
    "nice s" "0 < s" "(rmax - rmin) / (of_nat (tg_maxTicks g) - 1) * (999 / 1000) \<le> s0"
    using automatic_spacing[OF assms(1,2)] .
  have "1 / 10 ^ 13 * (999 / 1000) \<le> (rmax - rmin) / (of_nat (tg_maxTicks g) - 1) * (999 / 1000)"
    by (rule mult_right_mono[OF assms(3)]) simp
  from order_trans[OF this s(5)] have small: "\<not> s0 < 1 / 10 ^ 14" by simp
  let ?a = "\<lfloor>rmin / s\<rfloor>" and ?b = "\<lceil>rmax / s\<rceil>"
  note spaces = spaces_on_grid[OF assms(1) s(4) assms(2)]
  obtain n where n: "s * 10 ^ n \<in> \<int>" using nice_decimal[OF s(3)] by blast
  then obtain d1 where d1: "decimals_of s = Some d1" "s * 10 ^ d1 \<in> \<int>" using decimals_of_Some by blast
  have whole: "of_int i * s * 10 ^ m \<in> \<int>" if "s * 10 ^ m \<in> \<int>" for i m
    using Ints_mult[OF Ints_of_int that, of i] by (simp only: mult.assoc)
  obtain d2 where d2: "decimals_of (of_int ?a * s) = Some d2" using decimals_of_Some[OF whole[OF n]] by blast
  let ?f = "10 ^ max d1 d2 :: rat"
  have sf: "s * ?f \<in> \<int>" by (rule Ints_more_decimals[OF d1(2)]) simp
  have exact: "of_int (round (of_int i * s * ?f)) / ?f = of_int i * s" for i
    by (rule round_Ints_div[OF whole[OF sf]]) simp
  have tick: "of_int (round ((of_int ?a * s + of_int j * s) * ?f)) / ?f = of_int ?a * s + of_int j * s" for j
    using exact[of "?a + j"] by (simp only: of_int_add distrib_right)
  have "generateTicks g rmin rmax = Some (map (\<lambda>j. of_int ?a * s + of_int j * s) [0 .. ?b - ?a - 1] @ [of_int ?b * s])"
    using assms(1) small unfolding generateTicks_def
    by (simp add: s(1,2) spaces(1) d1(1) d2 tick_values_def exact tick automatic_def Let_def)
  then have g: "generateTicks g rmin rmax = Some (map (\<lambda>i. of_int i * s) [?a .. ?b])"
    unfolding map_upto_grid[OF spaces(2)] .
  have "of_int ?a \<le> rmin / s" "rmin / s < of_int ?a + 1" "rmax / s \<le> of_int ?b" "of_int ?b - 1 < rmax / s"
    by linarith+
  then have "of_int ?a * s \<le> rmin" "rmin < (of_int ?a + 1) * s" "rmax \<le> of_int ?b * s" "(of_int ?b - 1) * s < rmax"
    by (simp_all only: pos_le_divide_eq[OF s(4)] pos_divide_le_eq[OF s(4)] pos_less_divide_eq[OF s(4)] pos_divide_less_eq[OF s(4)])
  then have "of_int ?a * s \<le> rmin" "rmin < of_int ?a * s + s" "rmax \<le> of_int ?b * s" "of_int ?b * s - s < rmax"
    by (simp_all only: distrib_right left_diff_distrib mult_1)
  with g spaces(2) s(3,4) show ?thesis by blast
qed

definition plain_gen :: tick_gen where
  "plain_gen = \<lparr>tg_bounds_ticks = True, tg_step = None, tg_min = None, tg_max = None, tg_precision = None,
     tg_count = None, tg_maxTicks = 11, tg_maxDigits = 5, tg_includeBounds = True, tg_ratio = 1, tg_chars = (\<lambda>_. 1)\<rparr>"

theorem automatic_ticks_witness:
  "\<exists>s a b. nice s \<and> a < b \<and> generateTicks plain_gen (-3) 97 = Some (map (\<lambda>i. of_int i * s) [a .. b])"
  using automatic_ticks[of plain_gen "-3" 97] by (auto simp: automatic_def plain_gen_def)

section \<open>Building the ticks of a linear scale\<close>

definition setMinAndMax :: "rat list \<Rightarrow> rat \<times> rat \<Rightarrow> rat \<times> rat" where
  "setMinAndMax vs target = foldl (\<lambda>(mn, mx) v. (min mn v, max mx v)) target vs"

record linear_ticks =
  lt_ticks :: "rat list"
  lt_min :: rat
  lt_max :: rat
  lt_start :: rat
  lt_end :: rat

definition linear_buildTicks :: "tick_gen \<Rightarrow> bool \<Rightarrow> rat \<times> rat \<Rightarrow> rat \<times> rat \<Rightarrow> linear_ticks option" where
  "linear_buildTicks g reverse dataRange limits =
     (case generateTicks (g\<lparr>tg_maxTicks := max 2 (tg_maxTicks g)\<rparr>) (fst dataRange) (snd dataRange) of
        None \<Rightarrow> None
      | Some ticks \<Rightarrow>
          (let (mn, mx) = (if tg_bounds_ticks g then setMinAndMax ticks limits else limits)
           in Some \<lparr>lt_ticks = (if reverse then rev ticks else ticks), lt_min = mn, lt_max = mx,
                    lt_start = (if reverse then mx else mn), lt_end = (if reverse then mn else mx)\<rparr>))"

end
