(* ===== verification/ChartTime.thy ===== *)
theory ChartTime
  imports ChartScales
begin

text \<open>
  The time scales (\<open>js/chart_3.9.js\<close>, \<open>INTERVALS\<close> to \<open>class TimeSeriesScale\<close>): the choice of the
  unit, the generation of ticks, the limits and offsets, the table of a time series and the pixels.
  The date adapter is installed by the page and is a parameter (\<open>date_adapter\<close>); what a theorem
  needs of it is a named condition.  Times are rationals, in milliseconds; labels and data are
  parsed already where an operation only passes their timestamps on.
\<close>

section \<open>Units\<close>

datatype time_unit = Millisecond | Second | Minute | Hour | Day | Week | Month | Quarter | Year

definition UNITS :: "time_unit list" where
  "UNITS = [Millisecond, Second, Minute, Hour, Day, Week, Month, Quarter, Year]"

fun unit_size :: "time_unit \<Rightarrow> rat" where
  "unit_size Millisecond = 1"
| "unit_size Second = 1000"
| "unit_size Minute = 60000"
| "unit_size Hour = 3600000"
| "unit_size Day = 86400000"
| "unit_size Week = 604800000"
| "unit_size Month = 2628000000"
| "unit_size Quarter = 7884000000"
| "unit_size Year = 31540000000"

fun unit_steps :: "time_unit \<Rightarrow> rat option" where
  "unit_steps Millisecond = Some 1000"
| "unit_steps Second = Some 60"
| "unit_steps Minute = Some 60"
| "unit_steps Hour = Some 24"
| "unit_steps Day = Some 30"
| "unit_steps Week = Some 4"
| "unit_steps Month = Some 12"
| "unit_steps Quarter = Some 4"
| "unit_steps Year = None"

fun unit_common :: "time_unit \<Rightarrow> bool" where
  "unit_common Week = False"
| "unit_common Quarter = False"
| "unit_common _ = True"

definition units_from :: "time_unit \<Rightarrow> time_unit list" where
  "units_from u = dropWhile (\<lambda>v. v \<noteq> u) UNITS"

definition fits_capacity :: "rat \<Rightarrow> rat \<Rightarrow> nat \<Rightarrow> time_unit \<Rightarrow> bool" where
  "fits_capacity mn mx capacity u \<longleftrightarrow>
     \<lceil>(mx - mn) / ((case unit_steps u of Some s \<Rightarrow> s | None \<Rightarrow> max_safe) * unit_size u)\<rceil> \<le> int capacity"

fun auto_unit :: "rat \<Rightarrow> rat \<Rightarrow> nat \<Rightarrow> time_unit list \<Rightarrow> time_unit" where
  "auto_unit mn mx capacity (u # v # us) =
     (if unit_common u \<and> fits_capacity mn mx capacity u then u else auto_unit mn mx capacity (v # us))"
| "auto_unit mn mx capacity _ = Year"

definition determineUnitForAutoTicks :: "time_unit \<Rightarrow> rat \<Rightarrow> rat \<Rightarrow> nat \<Rightarrow> time_unit" where
  "determineUnitForAutoTicks minUnit mn mx capacity = auto_unit mn mx capacity (units_from minUnit)"

record date_adapter =
  ad_startOf :: "rat \<Rightarrow> time_unit \<Rightarrow> rat"
  ad_isoWeek :: "rat \<Rightarrow> rat option \<Rightarrow> rat"
  ad_add :: "rat \<Rightarrow> rat \<Rightarrow> time_unit \<Rightarrow> rat"
  ad_diff :: "rat \<Rightarrow> rat \<Rightarrow> time_unit \<Rightarrow> rat"
  ad_parse :: "jsval \<Rightarrow> string option \<Rightarrow> rat option"

definition determineUnitForFormatting :: "date_adapter \<Rightarrow> rat \<Rightarrow> time_unit \<Rightarrow> rat \<Rightarrow> rat \<Rightarrow> time_unit" where
  "determineUnitForFormatting ad numTicks minUnit mn mx =
     (case find (\<lambda>u. unit_common u \<and> ad_diff ad mx mn u \<ge> numTicks - 1) (rev (units_from minUnit)) of
        Some u \<Rightarrow> u
      | None \<Rightarrow> minUnit)"

definition determineMajorUnit :: "time_unit \<Rightarrow> time_unit option" where
  "determineMajorUnit u = find unit_common (tl (units_from u))"

section \<open>Parsing\<close>

text \<open>A weekday is \<open>false\<close> (\<open>None\<close>), \<open>true\<close> (\<open>Some None\<close>) or a number.\<close>

datatype time_parser = NoParser | ParserFun "jsval \<Rightarrow> jsval" | ParserFormat string

record parse_opts =
  po_parser :: time_parser
  po_round :: "time_unit option"
  po_isoWeekday :: "rat option option"

definition time_round :: "date_adapter \<Rightarrow> parse_opts \<Rightarrow> rat \<Rightarrow> rat" where
  "time_round ad po t =
     (case po_round po of
        None \<Rightarrow> t
      | Some u \<Rightarrow>
          (case (u, po_isoWeekday po) of
             (Week, Some day) \<Rightarrow> ad_isoWeek ad t day
           | _ \<Rightarrow> ad_startOf ad t u))"

definition time_parse :: "date_adapter \<Rightarrow> parse_opts \<Rightarrow> jsval \<Rightarrow> rat option" where
  "time_parse ad po input =
     (if isNullOrUndef input then None
      else (let v = (case po_parser po of ParserFun f \<Rightarrow> f input | _ \<Rightarrow> input);
                t = (case v of
                       VNum (Fin t) \<Rightarrow> Some t
                     | _ \<Rightarrow> ad_parse ad v (case po_parser po of ParserFormat s \<Rightarrow> Some s | _ \<Rightarrow> None))
            in map_option (time_round ad po) t))"

section \<open>Ticks\<close>

text \<open>Ticks are collected as the keys of an object; with timestamps the tick is the next of them.\<close>

definition addTick :: "rat list \<Rightarrow> rat \<Rightarrow> rat list option \<Rightarrow> rat list" where
  "addTick ticks time timestamps =
     (case timestamps of
        None \<Rightarrow> set_add ticks time
      | Some ts \<Rightarrow>
          if ts = [] then ticks
          else (let (lo, hi) = lookup ts time
                in set_add ticks (if ts ! nat lo \<ge> time then ts ! nat lo else ts ! nat hi)))"

record time_gen =
  tg_min :: rat
  tg_max :: rat
  tg_unit :: "time_unit option"
  tg_minUnit :: time_unit
  tg_capacity :: nat
  tg_stepSize :: rat
  tg_isoWeekday :: "rat option option"
  tg_bounds_ticks :: bool
  tg_timestamps :: "rat list option"

partial_function (option) gen_loop ::
  "date_adapter \<Rightarrow> rat \<Rightarrow> time_unit \<Rightarrow> rat \<Rightarrow> rat list option \<Rightarrow> rat \<Rightarrow> rat list \<Rightarrow> nat \<Rightarrow> (rat \<times> rat list \<times> nat) option" where
  "gen_loop ad stepSize minor mx timestamps time ticks cnt =
     (if time < mx
      then gen_loop ad stepSize minor mx timestamps (ad_add ad time stepSize minor) (addTick ticks time timestamps) (Suc cnt)
      else Some (time, ticks, cnt))"

definition gen_minor :: "time_gen \<Rightarrow> time_unit" where
  "gen_minor g = (case tg_unit g of Some u \<Rightarrow> u
     | None \<Rightarrow> determineUnitForAutoTicks (tg_minUnit g) (tg_min g) (tg_max g) (tg_capacity g))"

definition gen_first :: "date_adapter \<Rightarrow> time_gen \<Rightarrow> rat" where
  "gen_first ad g =
     (case (gen_minor g, tg_isoWeekday g) of
        (Week, Some day) \<Rightarrow> ad_startOf ad (ad_isoWeek ad (tg_min g) day) Day
      | _ \<Rightarrow> ad_startOf ad (tg_min g) (gen_minor g))"

definition time_generate :: "date_adapter \<Rightarrow> time_gen \<Rightarrow> (js_error + rat list) option" where
  "time_generate ad g =
     (let minor = gen_minor g; first = gen_first ad g
      in if ad_diff ad (tg_max g) (tg_min g) minor > 100000 * tg_stepSize g
         then Some (Inl (ErrorMsg ''too far apart''))
         else map_option (\<lambda>(time, ticks, cnt).
                Inr (sort (if time = tg_max g \<or> tg_bounds_ticks g \<or> cnt = 1
                           then addTick ticks time (tg_timestamps g) else ticks)))
              (gen_loop ad (tg_stepSize g) minor (tg_max g) (tg_timestamps g) first [] 0))"

record time_tick =
  tt_value :: rat
  tt_major :: bool

partial_function (option) major_loop ::
  "date_adapter \<Rightarrow> time_unit \<Rightarrow> rat \<Rightarrow> (rat \<times> nat) list \<Rightarrow> rat \<Rightarrow> time_tick list \<Rightarrow> time_tick list option" where
  "major_loop ad majorUnit lst index major ticks =
     (if major \<le> lst
      then major_loop ad majorUnit lst index (ad_add ad major 1 majorUnit)
             (case obj_get index major of Some i \<Rightarrow> ticks[i := (ticks ! i)\<lparr>tt_major := True\<rparr>] | None \<Rightarrow> ticks)
      else Some ticks)"

definition setMajorTicks :: "date_adapter \<Rightarrow> time_tick list \<Rightarrow> (rat \<times> nat) list \<Rightarrow> time_unit \<Rightarrow> time_tick list option" where
  "setMajorTicks ad ticks index majorUnit =
     major_loop ad majorUnit (tt_value (last ticks)) index (ad_startOf ad (tt_value (hd ticks)) majorUnit) ticks"

definition ticksFromTimestamps :: "date_adapter \<Rightarrow> rat list \<Rightarrow> time_unit option \<Rightarrow> time_tick list option" where
  "ticksFromTimestamps ad vals majorUnit =
     (let ticks = map (\<lambda>v. \<lparr>tt_value = v, tt_major = False\<rparr>) vals;
          index = fold (\<lambda>(i, v) m. obj_set m v i) (enumerate 0 vals) []
      in case majorUnit of
           Some u \<Rightarrow> if vals = [] then Some ticks else setMajorTicks ad ticks index u
         | None \<Rightarrow> Some ticks)"

section \<open>Limits and offsets\<close>

definition apply_bounds :: "bool \<Rightarrow> bool \<Rightarrow> jsnum \<times> jsnum \<Rightarrow> jsnum \<times> jsnum \<Rightarrow> jsnum \<times> jsnum" where
  "apply_bounds minDefined maxDefined bounds r =
     (if \<not> minDefined \<and> fst bounds \<noteq> NaN then num_min (fst r) (fst bounds) else fst r,
      if \<not> maxDefined \<and> snd bounds \<noteq> NaN then num_max (snd r) (snd bounds) else snd r)"

definition label_bounds :: "rat list \<Rightarrow> jsnum \<times> jsnum" where
  "label_bounds ts = (if ts = [] then (PInf, NInf) else (Fin (hd ts), Fin (last ts)))"

definition time_determineDataLimits ::
  "bool \<Rightarrow> bool \<Rightarrow> bool \<Rightarrow> jsnum \<times> jsnum \<Rightarrow> rat list \<Rightarrow> jsnum \<times> jsnum \<Rightarrow> rat \<Rightarrow> rat \<Rightarrow> rat \<times> rat" where
  "time_determineDataLimits labels_only minDefined maxDefined user labels data defaultMin defaultMax =
     (let r = (if \<not> minDefined \<or> \<not> maxDefined then
                 (let r1 = apply_bounds minDefined maxDefined (label_bounds labels) user
                  in if labels_only then r1 else apply_bounds minDefined maxDefined data r1)
               else user);
          mn = (case fst r of Fin m \<Rightarrow> m | _ \<Rightarrow> defaultMin);
          mx = (case snd r of Fin m \<Rightarrow> m | _ \<Rightarrow> defaultMax)
      in (min mn (mx - 1), max (mn + 1) mx))"

definition time_getDecimalForValue :: "rat \<times> rat \<Rightarrow> rat \<Rightarrow> rat" where
  "time_getDecimalForValue r v = (v - fst r) / (snd r - fst r)"

record time_offsets =
  of_start :: rat
  of_end :: rat
  of_factor :: rat

definition initOffsets :: "(rat \<Rightarrow> rat) \<Rightarrow> bool \<Rightarrow> rat list \<Rightarrow> time_offsets" where
  "initOffsets decimal offset timestamps =
     (let n = length timestamps;
          start = (if offset \<and> n \<noteq> 0 then
                     (if n = 1 then 1 - decimal (timestamps ! 0)
                      else (decimal (timestamps ! 1) - decimal (timestamps ! 0)) / 2) else 0);
          stop = (if offset \<and> n \<noteq> 0 then
                    (if n = 1 then decimal (timestamps ! (n - 1))
                     else (decimal (timestamps ! (n - 1)) - decimal (timestamps ! (n - 2))) / 2) else 0);
          limit = (if n < 3 then 1 / 2 else 1 / 4);
          s = limitValue start 0 limit; e = limitValue stop 0 limit
      in \<lparr>of_start = s, of_end = e, of_factor = 1 / (s + 1 + e)\<rparr>)"

definition time_getPixelForValue :: "axis_pixels \<Rightarrow> time_offsets \<Rightarrow> (rat \<Rightarrow> rat) \<Rightarrow> rat \<Rightarrow> rat" where
  "time_getPixelForValue ap off decimal v = getPixelForDecimal ap ((of_start off + decimal v) * of_factor off)"

definition time_getValueForPixel :: "axis_pixels \<Rightarrow> time_offsets \<Rightarrow> (rat \<Rightarrow> rat) \<Rightarrow> rat \<Rightarrow> rat option" where
  "time_getValueForPixel ap off undecimal pixel =
     map_option (\<lambda>d. undecimal (d / of_factor off - of_end off)) (getDecimalForPixel ap pixel)"

definition time_undecimal :: "rat \<times> rat \<Rightarrow> rat \<Rightarrow> rat" where
  "time_undecimal r pos = fst r + pos * (snd r - fst r)"

text \<open>The number of labels that fit, from the length of the axis and of a label along it.\<close>

definition getLabelCapacity :: "rat \<Rightarrow> rat \<Rightarrow> nat" where
  "getLabelCapacity len labelSize = (let c = \<lfloor>len / labelSize\<rfloor> - 1 in if c > 0 then nat c else 1)"

section \<open>Timestamps of the scale\<close>

record time_cache =
  tc_data :: "rat list"
  tc_labels :: "rat list"
  tc_all :: "rat list"

definition time_normalize :: "rat list \<Rightarrow> rat list" where
  "time_normalize vs = arrayUnique (sort vs)"

definition getDataTimestamps :: "bool \<Rightarrow> rat list list \<Rightarrow> time_cache \<Rightarrow> time_cache \<times> rat list" where
  "getDataTimestamps normalized parsed c =
     (if tc_data c \<noteq> [] then (c, tc_data c)
      else (let ts = (if normalized \<and> parsed \<noteq> [] then hd parsed else time_normalize (concat parsed))
            in (c\<lparr>tc_data := ts\<rparr>, ts)))"

definition getLabelTimestamps :: "bool \<Rightarrow> rat list \<Rightarrow> time_cache \<Rightarrow> time_cache \<times> rat list" where
  "getLabelTimestamps normalized parsed c =
     (if tc_labels c \<noteq> [] then (c, tc_labels c)
      else (let ts = (if normalized then parsed else time_normalize parsed) in (c\<lparr>tc_labels := ts\<rparr>, ts)))"

definition getTimestampsForTable :: "bool \<Rightarrow> rat list list \<Rightarrow> rat list \<Rightarrow> time_cache \<Rightarrow> time_cache \<times> rat list" where
  "getTimestampsForTable normalized parsed labels c =
     (if tc_all c \<noteq> [] then (c, tc_all c)
      else (let (c1, data) = getDataTimestamps normalized parsed c;
                (c2, label) = getLabelTimestamps normalized labels c1;
                ts = (if data \<noteq> [] \<and> label \<noteq> [] then time_normalize (data @ label) else if data \<noteq> [] then data else label)
            in (c2\<lparr>tc_all := ts\<rparr>, ts)))"

text \<open>
  \<open>buildTicks\<close> from the timestamps of the labels: \<open>_filterBetween\<close> returns the cached array itself
  when it removes nothing, and a reversed scale then reverses the cache.
\<close>

definition user_or :: "rat option \<Rightarrow> rat \<Rightarrow> rat" where
  "user_or user d = (case user of Some m \<Rightarrow> if m \<noteq> 0 then m else d | None \<Rightarrow> d)"

definition tick_range :: "bool \<Rightarrow> rat option \<Rightarrow> rat option \<Rightarrow> rat list \<Rightarrow> rat \<times> rat \<Rightarrow> rat \<times> rat" where
  "tick_range bounds_ticks userMin userMax timestamps r =
     (if bounds_ticks \<and> timestamps \<noteq> [] then (user_or userMin (hd timestamps), user_or userMax (last timestamps)) else r)"

definition filtered_ticks :: "bool \<Rightarrow> bool \<Rightarrow> rat list \<Rightarrow> rat \<times> rat \<Rightarrow> time_cache \<Rightarrow> time_cache \<times> rat list" where
  "filtered_ticks from_labels reverse timestamps r c =
     (let ticks = filterBetween timestamps (fst r) (snd r)
      in if reverse then (if from_labels \<and> length ticks = length timestamps then c\<lparr>tc_labels := rev ticks\<rparr> else c, rev ticks)
         else (c, ticks))"

record build_opts =
  bo_gen :: time_gen
  bo_labels :: "rat list option"
  bo_userMin :: "rat option"
  bo_userMax :: "rat option"
  bo_autoSkip :: bool
  bo_capacity :: "rat \<Rightarrow> nat"
  bo_major :: bool
  bo_offset :: bool
  bo_reverse :: bool
  bo_normalized :: bool

record built_ticks =
  bt_range :: "rat \<times> rat"
  bt_unit :: time_unit
  bt_majorUnit :: "time_unit option"
  bt_offsets :: time_offsets
  bt_ticks :: "time_tick list"

definition tick_unit :: "date_adapter \<Rightarrow> build_opts \<Rightarrow> rat \<times> rat \<Rightarrow> nat \<Rightarrow> time_unit" where
  "tick_unit ad bo r numTicks =
     (case tg_unit (bo_gen bo) of
        Some u \<Rightarrow> u
      | None \<Rightarrow> if bo_autoSkip bo then determineUnitForAutoTicks (tg_minUnit (bo_gen bo)) (fst r) (snd r) (bo_capacity bo (fst r))
                else determineUnitForFormatting ad (of_nat numTicks) (tg_minUnit (bo_gen bo)) (fst r) (snd r))"

text \<open>With \<open>bo_labels\<close> the ticks are the labels, otherwise they are generated.\<close>

definition time_buildTicks :: "date_adapter \<Rightarrow> build_opts \<Rightarrow> time_cache \<Rightarrow> (js_error + time_cache \<times> built_ticks) option" where
  "time_buildTicks ad bo c =
     (case (case bo_labels bo of
              Some labels \<Rightarrow> Some (Inr (getLabelTimestamps (bo_normalized bo) labels c))
            | None \<Rightarrow> map_option (map_sum id (Pair c)) (time_generate ad (bo_gen bo))) of
        None \<Rightarrow> None
      | Some (Inl e) \<Rightarrow> Some (Inl e)
      | Some (Inr (c1, timestamps)) \<Rightarrow>
          (let r = tick_range (tg_bounds_ticks (bo_gen bo)) (bo_userMin bo) (bo_userMax bo) timestamps
                     (tg_min (bo_gen bo), tg_max (bo_gen bo));
               unit = tick_unit ad bo r (length (filterBetween timestamps (fst r) (snd r)));
               major = (if \<not> bo_major bo \<or> unit = Year then None else determineMajorUnit unit);
               (c2, ticks) = filtered_ticks (bo_labels bo \<noteq> None) (bo_reverse bo) timestamps r c1
           in map_option (\<lambda>tt. Inr (c2, \<lparr>bt_range = r, bt_unit = unit, bt_majorUnit = major,
                  bt_offsets = initOffsets (time_getDecimalForValue r) (bo_offset bo) timestamps, bt_ticks = tt\<rparr>))
                (ticksFromTimestamps ad ticks major)))"

section \<open>The table of a time series\<close>

record table_point =
  tp_time :: rat
  tp_pos :: rat

definition interp_by :: "('p \<Rightarrow> rat) \<Rightarrow> ('p \<Rightarrow> rat) \<Rightarrow> 'p list \<Rightarrow> rat \<Rightarrow> rat" where
  "interp_by src tgt table v =
     (let (lo, hi) = (if v \<ge> src (table ! 0) \<and> v \<le> src (table ! (length table - 1))
                      then lookupByKey src table v False else (0, int (length table) - 1));
          prevSource = src (table ! nat lo); nextSource = src (table ! nat hi);
          prevTarget = tgt (table ! nat lo); nextTarget = tgt (table ! nat hi);
          span = nextSource - prevSource
      in if span \<noteq> 0 then prevTarget + (nextTarget - prevTarget) * (v - prevSource) / span else prevTarget)"

definition interpolate :: "table_point list \<Rightarrow> rat \<Rightarrow> bool \<Rightarrow> rat" where
  "interpolate table v reverse = (if reverse then interp_by tp_pos tp_time table v else interp_by tp_time tp_pos table v)"

definition buildLookupTable :: "rat \<Rightarrow> rat \<Rightarrow> rat list \<Rightarrow> table_point list" where
  "buildLookupTable mn mx timestamps =
     (let items = filter (\<lambda>t. t \<ge> mn \<and> t \<le> mx) timestamps; n = length items
      in if n < 2 then [\<lparr>tp_time = mn, tp_pos = 0\<rparr>, \<lparr>tp_time = mx, tp_pos = 1\<rparr>]
         else map (\<lambda>i. \<lparr>tp_time = items ! i, tp_pos = of_nat i / of_nat (n - 1)\<rparr>)
                (filter (\<lambda>i. i = 0 \<or> i = n - 1 \<or> of_int (round ((items ! (i + 1) + items ! (i - 1)) / 2)) \<noteq> items ! i) [0..<n]))"

record series_table =
  st_table :: "table_point list"
  st_minPos :: rat
  st_range :: rat

definition series_initOffsets :: "rat \<Rightarrow> rat \<Rightarrow> rat list \<Rightarrow> series_table" where
  "series_initOffsets mn mx timestamps =
     (let table = buildLookupTable mn mx timestamps; minPos = interpolate table mn False
      in \<lparr>st_table = table, st_minPos = minPos, st_range = interpolate table mx False - minPos\<rparr>)"

definition series_getDecimalForValue :: "series_table \<Rightarrow> rat \<Rightarrow> rat" where
  "series_getDecimalForValue s v = (interpolate (st_table s) v False - st_minPos s) / st_range s"

definition series_undecimal :: "series_table \<Rightarrow> rat \<Rightarrow> rat" where
  "series_undecimal s d = interpolate (st_table s) (d * st_range s + st_minPos s) True"

section \<open>The choice of the unit\<close>

lemma auto_unit_find:
  "us \<noteq> [] \<Longrightarrow> auto_unit mn mx capacity us =
     (case find (\<lambda>u. unit_common u \<and> fits_capacity mn mx capacity u) (butlast us) of Some u \<Rightarrow> u | None \<Rightarrow> Year)"
  by (induction mn mx capacity us rule: auto_unit.induct) auto

lemma units_from_simps [simp]:
  "units_from Millisecond = UNITS" "units_from Year = [Year]" "units_from u \<noteq> []" "u \<in> set (units_from u)"
  by (auto simp: units_from_def UNITS_def) (cases u; simp)+

text \<open>
  The unit of automatic ticks is the finest common unit, from the smallest allowed one on, of which
  the range holds no more than the labels that fit; years, when there is none.
\<close>

lemma auto_unit_finest:
  assumes "determineUnitForAutoTicks minUnit mn mx capacity = u"
  shows "u = Year \<or> u \<in> set (units_from minUnit) \<and> unit_common u \<and> fits_capacity mn mx capacity u"
    and "\<And>v. v \<in> set (takeWhile (\<lambda>v. v \<noteq> u) (butlast (units_from minUnit))) \<Longrightarrow> unit_common v \<Longrightarrow> \<not> fits_capacity mn mx capacity v"
proof -
  let ?P = "\<lambda>u. unit_common u \<and> fits_capacity mn mx capacity u"
  have u: "u = (case find ?P (butlast (units_from minUnit)) of Some u \<Rightarrow> u | None \<Rightarrow> Year)"
    using assms by (simp add: determineUnitForAutoTicks_def auto_unit_find)
  show "u = Year \<or> u \<in> set (units_from minUnit) \<and> unit_common u \<and> fits_capacity mn mx capacity u"
  proof (cases "find ?P (butlast (units_from minUnit))")
    case None
    with u show ?thesis by simp
  next
    case (Some w)
    then obtain i where "i < length (butlast (units_from minUnit))" "butlast (units_from minUnit) ! i = w" "?P w"
      by (auto simp: find_Some_iff)
    then have "w \<in> set (butlast (units_from minUnit))" "?P w" by (metis nth_mem, simp)
    with u Some show ?thesis by (simp add: in_set_butlastD)
  qed
  show "\<not> fits_capacity mn mx capacity v"
    if v: "v \<in> set (takeWhile (\<lambda>v. v \<noteq> u) (butlast (units_from minUnit)))" and c: "unit_common v" for v
  proof (cases "find ?P (butlast (units_from minUnit))")
    case None
    with c set_takeWhileD[OF v] show ?thesis by (auto simp: find_None_iff)
  next
    case (Some w)
    with u have "find ?P (butlast (units_from minUnit)) = Some u" by simp
    then obtain i where i: "i < length (butlast (units_from minUnit))" "butlast (units_from minUnit) ! i = u"
      "\<forall>j < i. \<not> ?P (butlast (units_from minUnit) ! j)" by (auto simp: find_Some_iff)
    have "\<exists>j < i. butlast (units_from minUnit) ! j = v"
    proof -
      obtain j where j: "j < length (takeWhile (\<lambda>v. v \<noteq> u) (butlast (units_from minUnit)))"
        "takeWhile (\<lambda>v. v \<noteq> u) (butlast (units_from minUnit)) ! j = v" using v by (auto simp: in_set_conv_nth)
      have "j < i"
      proof (rule ccontr)
        assume "\<not> j < i"
        with j(1) have "i < length (takeWhile (\<lambda>v. v \<noteq> u) (butlast (units_from minUnit)))" by simp
        then have "takeWhile (\<lambda>v. v \<noteq> u) (butlast (units_from minUnit)) ! i \<noteq> u" using nth_mem set_takeWhileD by fast
        with i(2) \<open>i < length (takeWhile _ _)\<close> show False by (simp add: takeWhile_nth)
      qed
      moreover have "butlast (units_from minUnit) ! j = v" using takeWhile_nth[OF j(1)] j(2) by simp
      ultimately show ?thesis by blast
    qed
    with i(3) c show ?thesis by auto
  qed
qed

section \<open>The generation of ticks\<close>

text \<open>What the code relies on: a step forward moves by a millisecond at least, and the start of a
  unit is not after the time.\<close>

definition adapter_steps :: "date_adapter \<Rightarrow> rat \<Rightarrow> time_unit \<Rightarrow> bool" where
  "adapter_steps ad n u \<longleftrightarrow> (\<forall>t. t + 1 \<le> ad_add ad t n u)"


definition step_times :: "date_adapter \<Rightarrow> rat \<Rightarrow> time_unit \<Rightarrow> rat \<Rightarrow> nat \<Rightarrow> rat" where
  "step_times ad n u t i = ((\<lambda>t. ad_add ad t n u) ^^ i) t"

lemma step_times_simps [simp]: "step_times ad n u t 0 = t" "step_times ad n u t (Suc i) = ad_add ad (step_times ad n u t i) n u"
  by (simp_all add: step_times_def)

lemma step_times_shift: "step_times ad n u (ad_add ad t n u) i = step_times ad n u t (Suc i)"
  by (induction i) simp_all


lemma steps_decrease:
  assumes "adapter_steps ad n u" "t < mx"
  shows "nat \<lceil>mx - ad_add ad t n u\<rceil> < nat \<lceil>mx - t\<rceil>"
proof -
  have "t + 1 \<le> ad_add ad t n u" using assms(1) by (simp add: adapter_steps_def)
  then have "\<lceil>mx - ad_add ad t n u\<rceil> \<le> \<lceil>mx - t - 1\<rceil>" by (intro ceiling_mono) linarith
  then have "\<lceil>mx - ad_add ad t n u\<rceil> \<le> \<lceil>mx - t\<rceil> - 1" by simp
  moreover have "0 < \<lceil>mx - t\<rceil>" using assms(2) by simp
  ultimately show ?thesis by linarith
qed










definition fixed_adapter :: date_adapter where
  "fixed_adapter = \<lparr>ad_startOf = (\<lambda>t u. of_int \<lfloor>t / unit_size u\<rfloor> * unit_size u),
     ad_isoWeek = (\<lambda>t _. of_int \<lfloor>t / unit_size Week\<rfloor> * unit_size Week),
     ad_add = (\<lambda>t n u. t + n * unit_size u), ad_diff = (\<lambda>a b u. of_int \<lfloor>(a - b) / unit_size u\<rfloor>),
     ad_parse = (\<lambda>_ _. None)\<rparr>"





text \<open>With a step of zero over a range inside one unit the loop never ends.\<close>

lemma zero_step_loops: "t < mx \<Longrightarrow> gen_loop fixed_adapter 0 u mx ts t ticks cnt = None"
proof (rule ccontr)
  assume t: "t < mx" and "gen_loop fixed_adapter 0 u mx ts t ticks cnt \<noteq> None"
  then obtain r where r: "gen_loop fixed_adapter 0 u mx ts t ticks cnt = Some r" by auto
  have "ad = fixed_adapter \<longrightarrow> n = 0 \<longrightarrow> mx' \<le> t'" if "gen_loop ad n u' mx' ts' t' ticks' cnt' = Some r" for ad n u' mx' ts' t' ticks' cnt' r
    using that
  proof (induction rule: gen_loop.raw_induct[rotated 1, consumes 1, case_names step])
    case (step gl ad n u' mx' ts' t' ticks' cnt' r)
    show ?case
    proof (cases "t' < mx'")
      case True
      with step.hyps have "gl ad n u' mx' ts' (ad_add ad t' n u') (addTick ticks' t' ts') (Suc cnt') = Some r" by simp
      from step.IH[OF this] show ?thesis by (auto simp: fixed_adapter_def)
    qed simp
  qed
  from this[OF r] t show False by simp
qed

text \<open>Major ticks: the loop over the steps of the major unit ends and marks the ticks it meets.\<close>

definition mark_major :: "(rat \<times> nat) list \<Rightarrow> rat \<Rightarrow> time_tick list \<Rightarrow> time_tick list" where
  "mark_major index t ticks = (case obj_get index t of Some i \<Rightarrow> ticks[i := (ticks ! i)\<lparr>tt_major := True\<rparr>] | None \<Rightarrow> ticks)"

lemma major_loop_steps:
  assumes "adapter_steps ad 1 u"
  shows "\<exists>k. major_loop ad u lst index t ticks = Some (fold (\<lambda>i. mark_major index (step_times ad 1 u t i)) [0..<k] ticks) \<and>
    lst < step_times ad 1 u t k \<and> (\<forall>i < k. step_times ad 1 u t i \<le> lst)"
proof (induction "nat \<lceil>lst + 1 - t\<rceil>" arbitrary: t ticks rule: less_induct)
  case less
  show ?case
  proof (cases "t \<le> lst")
    case False
    then show ?thesis by (intro exI[of _ 0]) (simp add: major_loop.simps)
  next
    case True
    let ?t = "ad_add ad t 1 u"
    from True have "t < lst + 1" by simp
    from less[OF steps_decrease[OF assms this], of "mark_major index t ticks"] obtain k where
      k: "major_loop ad u lst index ?t (mark_major index t ticks) =
         Some (fold (\<lambda>i. mark_major index (step_times ad 1 u ?t i)) [0..<k] (mark_major index t ticks))"
      "lst < step_times ad 1 u ?t k" "\<forall>i < k. step_times ad 1 u ?t i \<le> lst" by blast
    have "fold (\<lambda>i. mark_major index (step_times ad 1 u t i)) [0..<Suc k] ticks =
        fold (\<lambda>i. mark_major index (step_times ad 1 u ?t i)) [0..<k] (mark_major index t ticks)"
      unfolding upt_conv_Cons[OF zero_less_Suc] map_Suc_upt[symmetric]
      by (simp add: fold_map o_def step_times_shift)
    moreover have "\<forall>i < Suc k. step_times ad 1 u t i \<le> lst"
      using k(3) True by (auto simp: step_times_shift less_Suc_eq_0_disj)
    ultimately show ?thesis
      using k True by (intro exI[of _ "Suc k"])
        (simp add: major_loop.simps[of ad u lst index t] mark_major_def[symmetric] step_times_shift del: upt_Suc)
  qed
qed

lemma mark_major_values: "map tt_value (mark_major index t ticks) = map tt_value ticks"
  by (auto simp: mark_major_def map_update list_update_same_conv nth_update split: option.split)
     (metis list_update_beyond list_update_id map_update nth_map not_le)

section \<open>Limits, offsets and pixels\<close>

text \<open>The limits of a time scale are at least a millisecond apart, whatever the data and the user say.\<close>

lemma time_limits_apart:
  "fst (time_determineDataLimits lo mnd mxd user labels data dmin dmax) + 1
     \<le> snd (time_determineDataLimits lo mnd mxd user labels data dmin dmax)"
  by (simp add: time_determineDataLimits_def Let_def min_def max_def)

lemma initOffsets_range:
  assumes "initOffsets decimal offset timestamps = off"
  shows "0 \<le> of_start off" "of_start off \<le> 1 / 2" "0 \<le> of_end off" "of_end off \<le> 1 / 2"
    "of_factor off * (of_start off + 1 + of_end off) = 1" "0 < of_factor off"
    "0 \<le> d \<Longrightarrow> d \<le> 1 \<Longrightarrow> 0 \<le> (of_start off + d) * of_factor off \<and> (of_start off + d) * of_factor off \<le> 1"
proof -
  have l: "0 \<le> limitValue x 0 l \<and> limitValue x 0 l \<le> 1 / 2" if "l \<le> 1 / 2" "0 \<le> l" for x l :: rat
    using that by (simp add: limitValue_def min_def max_def)
  obtain x y l where off: "off = \<lparr>of_start = limitValue x 0 l, of_end = limitValue y 0 l, of_factor = 1 / (limitValue x 0 l + 1 + limitValue y 0 l)\<rparr>"
    and lim: "l = (if length timestamps < 3 then 1 / 2 else 1 / 4)"
    using assms unfolding initOffsets_def Let_def by blast
  have b: "0 \<le> limitValue z 0 l \<and> limitValue z 0 l \<le> 1 / 2" for z by (rule l) (simp_all add: lim)
  show s: "0 \<le> of_start off" "of_start off \<le> 1 / 2" "0 \<le> of_end off" "of_end off \<le> 1 / 2"
    using b[of x] b[of y] by (simp_all add: off)
  have f: "of_factor off = 1 / (of_start off + 1 + of_end off)" by (simp add: off)
  have pos: "0 < of_start off + 1 + of_end off" using s by linarith
  then show e: "of_factor off * (of_start off + 1 + of_end off) = 1" and "0 < of_factor off" unfolding f by simp_all
  then show "0 \<le> (of_start off + d) * of_factor off \<and> (of_start off + d) * of_factor off \<le> 1" if "0 \<le> d" "d \<le> 1"
  proof -
    have "(of_start off + d) * of_factor off \<le> (of_start off + 1 + of_end off) * of_factor off"
      using that s \<open>0 < of_factor off\<close> by (intro mult_right_mono) auto
    with e that s \<open>0 < of_factor off\<close> show ?thesis by (simp add: mult.commute)
  qed
qed

text \<open>
  The pixel of a value and back: \<open>getPixelForValue\<close> shifts by the offset at the start, but
  \<open>getValueForPixel\<close> takes off the one at the end, so the value comes back moved by their
  difference times the range, and exactly only when they are equal.
\<close>

lemma time_pixel_shift:
  assumes "exact_decimal ap ((of_start off + decimal v) * of_factor off)" "of_factor off \<noteq> 0"
  shows "time_getValueForPixel ap off undecimal (time_getPixelForValue ap off decimal v) =
    Some (undecimal (decimal v + (of_start off - of_end off)))"
proof -
  have "(of_start off + decimal v) * of_factor off / of_factor off - of_end off = decimal v + (of_start off - of_end off)"
    using assms(2) by simp
  then show ?thesis
    unfolding time_getValueForPixel_def time_getPixelForValue_def decimal_px.of_to_pixel[OF assms(1)] by (simp only: option.map)
qed

definition time_visible :: "axis_pixels \<Rightarrow> time_offsets \<Rightarrow> rat \<times> rat \<Rightarrow> rat \<Rightarrow> bool" where
  "time_visible ap off r v \<longleftrightarrow> fst r \<noteq> snd r \<and> of_start off = of_end off \<and> of_factor off \<noteq> 0 \<and>
     exact_decimal ap ((of_start off + time_getDecimalForValue r v) * of_factor off)"

interpretation time_px: value_pixels "time_getPixelForValue ap off (time_getDecimalForValue r)"
  "time_getValueForPixel ap off (time_undecimal r)" "time_visible ap off r" for ap off r
proof (unfold_locales)
  fix v
  assume "time_visible ap off r v"
  then have v: "fst r \<noteq> snd r" "of_start off = of_end off" "of_factor off \<noteq> 0"
    "exact_decimal ap ((of_start off + time_getDecimalForValue r v) * of_factor off)"
    unfolding time_visible_def by blast+
  have "time_undecimal r (time_getDecimalForValue r v) = v"
    using v(1) by (simp add: time_undecimal_def time_getDecimalForValue_def)
  then show "time_getValueForPixel ap off (time_undecimal r) (time_getPixelForValue ap off (time_getDecimalForValue r) v) = Some v"
    unfolding time_pixel_shift[where decimal = "time_getDecimalForValue r", OF v(4) v(3)] by (simp add: v(2))
qed

lemma time_value_moves:
  "time_getValueForPixel \<lparr>ap_start = 0, ap_end = 100, ap_reverse = False, ap_align = None\<rparr>
     \<lparr>of_start = 1 / 4, of_end = 0, of_factor = 4 / 5\<rparr> (time_undecimal (0, 100))
     (time_getPixelForValue \<lparr>ap_start = 0, ap_end = 100, ap_reverse = False, ap_align = None\<rparr>
       \<lparr>of_start = 1 / 4, of_end = 0, of_factor = 4 / 5\<rparr> (time_getDecimalForValue (0, 100)) 50) = Some 75"
  by (subst time_pixel_shift)
    (simp_all add: exact_decimal_def ap_length_def time_getDecimalForValue_def time_undecimal_def Let_def)

section \<open>The table of a time series\<close>

definition in_segment :: "rat list \<Rightarrow> rat \<Rightarrow> nat \<Rightarrow> bool" where
  "in_segment t v i \<longleftrightarrow> Suc i < length t \<and> t ! i \<le> v \<and> v \<le> t ! Suc i \<and> (i = 0 \<or> t ! i < v)"

lemma lookup_segment:
  assumes "sorted t" "in_segment t v i"
  shows "lookup t v = (int i, int i + 1)"
proof -
  obtain lo hi where lh: "lookup t v = (lo, hi)" by fastforce
  have i: "Suc i < length t" "t ! i \<le> v" "v \<le> t ! Suc i" "i = 0 \<or> t ! i < v" using assms(2) by (auto simp: in_segment_def)
  have lk: "lookup_cmp (length t) (\<lambda>i. t ! nat i < v) = (lo, hi)" using lh by (simp add: lookup_def)
  have n: "1 < length t" "0 < length t" using i(1) by auto
  note br = plain_probe.bracket[OF lk n(1)]
  have "lo = int i"
  proof (rule linorder_cases[of lo "int i"])
    assume less: "lo < int i"
    have "\<not> t ! nat (int i) < v" by (rule plain_probe.above[OF assms(1) lk n(2)]) (use less br i in linarith)+
    with i(4) less br(1) show ?thesis by simp
  next
    assume more: "int i < lo"
    have "t ! nat (int (Suc i)) < v" by (rule plain_probe.below[OF assms(1) lk n(2)]) (use more in linarith)+
    moreover have "nat (int (Suc i)) = Suc i" by (rule nat_int)
    ultimately show ?thesis using i(3) by (simp only: not_less[symmetric]) blast
  qed simp
  with br lh show ?thesis by simp
qed

lemma segment_exists:
  assumes "1 < length t" "t ! 0 \<le> v" "v \<le> t ! (length t - 1)"
  shows "\<exists>i. in_segment t v i"
proof -
  let ?P = "\<lambda>j. j = length t - 1 \<or> v \<le> t ! Suc j"
  define i where "i = (LEAST j. v \<le> t ! Suc j)"
  have ex: "v \<le> t ! Suc (length t - 2)" using assms(1,3) by (simp add: numeral_2_eq_2 Suc_diff_Suc)
  have i: "v \<le> t ! Suc i" "i \<le> length t - 2"
    unfolding i_def by (rule LeastI[of "\<lambda>j. v \<le> t ! Suc j", OF ex], rule Least_le[of "\<lambda>j. v \<le> t ! Suc j", OF ex])
  have "t ! i < v" if "i \<noteq> 0"
  proof -
    from that obtain j where j: "i = Suc j" by (cases i) auto
    then have "\<not> v \<le> t ! Suc j" using not_less_Least[of j "\<lambda>j. v \<le> t ! Suc j"] by (simp add: i_def[symmetric])
    with j show ?thesis by simp
  qed
  moreover from this assms(2) have "t ! i \<le> v" by (cases "i = 0") auto
  ultimately show ?thesis using i assms(1) by (intro exI[of _ i]) (auto simp: in_segment_def)
qed

lemma interp_segment:
  assumes "sorted (map src table)" "in_segment (map src table) v i"
  shows "interp_by src tgt table v =
    (if src (table ! Suc i) = src (table ! i) then tgt (table ! i)
     else tgt (table ! i) + (tgt (table ! Suc i) - tgt (table ! i)) * (v - src (table ! i)) / (src (table ! Suc i) - src (table ! i)))"
proof -
  have l: "Suc i < length table" using assms(2) by (simp add: in_segment_def)
  then have i: "Suc i < length table" "src (table ! i) \<le> v" "v \<le> src (table ! Suc i)"
    using assms(2) unfolding in_segment_def length_map nth_map[OF l] nth_map[OF Suc_lessD[OF l]] by blast+
  have mono: "src (table ! j) \<le> src (table ! k)" if "j \<le> k" "k < length table" for j k
    using sorted_nth_mono[OF assms(1) that(1)] that(2) nth_map[OF that(2), of src]
      nth_map[OF le_less_trans[OF that], of src] by (simp del: nth_map)
  have "src (table ! 0) \<le> src (table ! i)" by (rule mono) (use i(1) in linarith)+
  moreover have "src (table ! Suc i) \<le> src (table ! (length table - 1))" by (rule mono) (use i(1) in linarith)+
  ultimately have rng: "src (table ! 0) \<le> v" "v \<le> src (table ! (length table - 1))" using i by linarith+
  have n: "nat (int i + 1) = Suc i" by simp
  show ?thesis
    unfolding interp_by_def Let_def lookupByKey_map(1) lookup_segment[OF assms]
    using rng by (simp add: n)
qed

text \<open>A strictly increasing table is inverted by exchanging its two columns, within it and beyond its ends.\<close>

lemma between_linear:
  fixes a b c d v :: rat
  assumes "a < b" "c < d"
  shows "c \<le> c + (d - c) * (v - a) / (b - a) \<longleftrightarrow> a \<le> v" "c < c + (d - c) * (v - a) / (b - a) \<longleftrightarrow> a < v"
    "c + (d - c) * (v - a) / (b - a) \<le> d \<longleftrightarrow> v \<le> b"
    "a + (b - a) * (c + (d - c) * (v - a) / (b - a) - c) / (d - c) = v"
proof -
  define k where "k = (v - a) / (b - a)"
  have v: "v = a + k * (b - a)" using assms by (simp add: k_def)
  have e: "(d - c) * (v - a) / (b - a) = k * (d - c)" by (simp add: k_def)
  have p: "0 < b - a" "0 < d - c" using assms by simp_all
  show "c \<le> c + (d - c) * (v - a) / (b - a) \<longleftrightarrow> a \<le> v" unfolding e unfolding v
    using p by (simp add: zero_le_mult_iff)
  show "c < c + (d - c) * (v - a) / (b - a) \<longleftrightarrow> a < v" unfolding e unfolding v
    using p by (simp add: zero_less_mult_iff)
  have "c + k * (d - c) \<le> d \<longleftrightarrow> k * (d - c) \<le> 1 * (d - c)" by (simp add: algebra_simps)
  also have "\<dots> \<longleftrightarrow> k \<le> 1" using p(2) by (simp only: mult_le_cancel_right_pos)
  also have "\<dots> \<longleftrightarrow> k * (b - a) \<le> 1 * (b - a)" using p(1) by (simp only: mult_le_cancel_right_pos)
  also have "\<dots> \<longleftrightarrow> a + k * (b - a) \<le> b" by (simp add: algebra_simps)
  finally show "c + (d - c) * (v - a) / (b - a) \<le> d \<longleftrightarrow> v \<le> b" unfolding e unfolding v .
  show "a + (b - a) * (c + (d - c) * (v - a) / (b - a) - c) / (d - c) = v"
    unfolding e unfolding v using p by simp
qed

definition rising :: "('p \<Rightarrow> rat) \<Rightarrow> 'p list \<Rightarrow> bool" where
  "rising f table \<longleftrightarrow> sorted_wrt (<) (map f table)"

lemma risingD: "rising f table \<Longrightarrow> i < j \<Longrightarrow> j < length table \<Longrightarrow> f (table ! i) < f (table ! j)"
  by (simp add: rising_def sorted_wrt_iff_nth_less)

lemma rising_sorted: "rising f table \<Longrightarrow> sorted (map f table)"
  by (simp add: rising_def strict_sorted_iff)

lemma interp_within:
  assumes "rising src table" "1 < length table" "src (table ! 0) \<le> v" "v \<le> src (table ! (length table - 1))"
  obtains i where "in_segment (map src table) v i" "Suc i < length table"
    "interp_by src tgt table v = tgt (table ! i) + (tgt (table ! Suc i) - tgt (table ! i)) * (v - src (table ! i)) / (src (table ! Suc i) - src (table ! i))"
proof -
  have n: "0 < length table" "length table - 1 < length table" using assms(2) by linarith+
  have "\<exists>i. in_segment (map src table) v i"
    by (rule segment_exists) (use assms(2-4) nth_map[OF n(1), of src] nth_map[OF n(2), of src] in simp_all)
  then obtain i where i: "in_segment (map src table) v i" ..
  then have l: "Suc i < length table" by (simp add: in_segment_def)
  have "src (table ! Suc i) \<noteq> src (table ! i)" using risingD[OF assms(1) lessI l] by simp
  with interp_segment[OF rising_sorted[OF assms(1)] i, of tgt] have
    "interp_by src tgt table v = tgt (table ! i) + (tgt (table ! Suc i) - tgt (table ! i)) * (v - src (table ! i)) / (src (table ! Suc i) - src (table ! i))"
    by simp
  with i l show thesis by (rule that)
qed

lemma interp_outside:
  assumes "rising src table" "1 < length table" "\<not> (src (table ! 0) \<le> v \<and> v \<le> src (table ! (length table - 1)))"
  shows "interp_by src tgt table v = tgt (table ! 0) + (tgt (table ! (length table - 1)) - tgt (table ! 0)) * (v - src (table ! 0)) /
    (src (table ! (length table - 1)) - src (table ! 0))"
proof -
  have "src (table ! 0) < src (table ! (length table - 1))"
    by (rule risingD[OF assms(1)]) (use assms(2) in linarith)+
  moreover have "nat (int (length table) - 1) = length table - 1" using assms(2) by linarith
  ultimately show ?thesis unfolding interp_by_def Let_def if_not_P[OF assms(3)] by simp
qed

lemma interp_inverse:
  assumes "rising src table" "rising tgt table" "1 < length table"
  shows "interp_by tgt src table (interp_by src tgt table v) = v"
proof (cases "src (table ! 0) \<le> v \<and> v \<le> src (table ! (length table - 1))")
  case True
  obtain i where i: "in_segment (map src table) v i" "Suc i < length table"
    and e: "interp_by src tgt table v = tgt (table ! i) + (tgt (table ! Suc i) - tgt (table ! i)) * (v - src (table ! i)) / (src (table ! Suc i) - src (table ! i))"
    using interp_within[OF assms(1,3) conjunct1[OF True] conjunct2[OF True]] .
  have a: "src (table ! i) < src (table ! Suc i)" and c: "tgt (table ! i) < tgt (table ! Suc i)"
    using risingD[OF assms(1) lessI i(2)] risingD[OF assms(2) lessI i(2)] .
  have s: "in_segment (map tgt table) (interp_by src tgt table v) i"
    using i(1) unfolding in_segment_def length_map nth_map[OF i(2)] nth_map[OF Suc_lessD[OF i(2)]] e between_linear(1-3)[OF a c] .
  show ?thesis
    unfolding interp_segment[OF rising_sorted[OF assms(2)] s] unfolding e using c
    by (simp only: between_linear(4)[OF a c] if_False less_imp_neq[symmetric])
next
  case False
  let ?n = "length table - 1"
  have n: "0 < ?n" "?n < length table" using assms(3) by linarith+
  note a = risingD[OF assms(1) n] and c = risingD[OF assms(2) n]
  note e = interp_outside[OF assms(1,3) False, of tgt]
  have "\<not> (tgt (table ! 0) \<le> interp_by src tgt table v \<and> interp_by src tgt table v \<le> tgt (table ! ?n))"
    unfolding e between_linear(1,3)[OF a c] by (rule False)
  note interp_outside[OF assms(2,3) this, of src]
  then show ?thesis unfolding e between_linear(4)[OF a c] .
qed

lemma lookup_table_rising:
  assumes "sorted_wrt (<) timestamps" "mn < mx"
  shows "rising tp_time (buildLookupTable mn mx timestamps)" "rising tp_pos (buildLookupTable mn mx timestamps)"
    "1 < length (buildLookupTable mn mx timestamps)"
proof -
  define items where "items = filter (\<lambda>t. t \<ge> mn \<and> t \<le> mx) timestamps"
  define keep where "keep i \<longleftrightarrow> i = 0 \<or> i = length items - 1 \<or> of_int (round ((items ! (i + 1) + items ! (i - 1)) / 2)) \<noteq> items ! i" for i
  define point where "point i = \<lparr>tp_time = items ! i, tp_pos = of_nat i / of_nat (length items - 1)\<rparr>" for i
  have t: "buildLookupTable mn mx timestamps = (if length items < 2 then [\<lparr>tp_time = mn, tp_pos = 0\<rparr>, \<lparr>tp_time = mx, tp_pos = 1\<rparr>]
      else map point (filter keep [0..<length items]))"
    unfolding buildLookupTable_def Let_def items_def[symmetric] keep_def point_def ..
  have strict: "sorted_wrt (<) items" unfolding items_def by (rule sorted_wrt_filter[OF assms(1)])
  have idx: "sorted_wrt (<) (filter keep [0..<length items])" by (rule sorted_wrt_filter[OF sorted_wrt_upt])
  have "sorted_wrt (\<lambda>i j. tp_time (point i) < tp_time (point j)) (filter keep [0..<length items])"
    by (rule sorted_wrt_mono_rel[OF _ idx]) (simp add: point_def sorted_wrt_nth_less[OF strict])
  then show "rising tp_time (buildLookupTable mn mx timestamps)"
    using assms(2) by (simp add: t rising_def sorted_wrt_map)
  have "sorted_wrt (\<lambda>i j. tp_pos (point i) < tp_pos (point j)) (filter keep [0..<length items])"
    by (rule sorted_wrt_mono_rel[OF _ idx]) (simp add: point_def divide_strict_right_mono)
  then show "rising tp_pos (buildLookupTable mn mx timestamps)"
    by (simp add: t rising_def sorted_wrt_map)
  show "1 < length (buildLookupTable mn mx timestamps)"
  proof (cases "length items < 2")
    case False
    then have "{0, length items - 1} \<subseteq> set (filter keep [0..<length items])" by (auto simp: keep_def)
    from card_mono[OF _ this] have "card {0, length items - 1} \<le> card (set (filter keep [0..<length items]))" by simp
    also have "\<dots> \<le> length (filter keep [0..<length items])" by (rule card_length)
    finally show ?thesis using False by (simp add: t)
  qed (simp add: t)
qed

lemma time_normalize_strict: "sorted_wrt (<) (time_normalize vs)"
  by (simp add: time_normalize_def strict_sorted_iff arrayUnique_sorted)

text \<open>
  C23. On a time series axis, whatever the timestamps of the data are, a time becomes a decimal and
  the decimal the time again, within the table and beyond its ends; the lower limit is at 0
  and the upper one at 1.
\<close>

theorem timeseries_roundtrip:
  assumes "mn < mx" "s = series_initOffsets mn mx (time_normalize timestamps)"
  shows "series_undecimal s (series_getDecimalForValue s v) = v \<and>
    series_getDecimalForValue s mn = 0 \<and> series_getDecimalForValue s mx = 1"
proof -
  let ?t = "buildLookupTable mn mx (time_normalize timestamps)"
  note r = lookup_table_rising[OF time_normalize_strict assms(1), of timestamps]
  have inv: "interpolate ?t (interpolate ?t w False) True = w" for w
    by (simp add: interpolate_def interp_inverse[OF r])
  have ne: "interpolate ?t mx False - interpolate ?t mn False \<noteq> 0"
    using inv[of mx] inv[of mn] assms(1) by auto
  show ?thesis
    unfolding assms(2) series_initOffsets_def series_undecimal_def series_getDecimalForValue_def Let_def
    using ne inv[of v] by simp
qed

theorem timeseries_roundtrip_witness:
  "series_undecimal (series_initOffsets 0 100 (time_normalize [70, 10, 20, 10])) (series_getDecimalForValue
     (series_initOffsets 0 100 (time_normalize [70, 10, 20, 10])) 35) = 35"
  using timeseries_roundtrip[OF _ refl, of 0 100 "[70, 10, 20, 10]" 35] by simp

text \<open>
  A reversed axis whose ticks are its labels reverses the cached labels when all of them are in
  range; the ticks built next from the cache are in the wrong order, or lost.
\<close>

lemma reverse_spoils_cache:
  "filtered_ticks True True [1, 2, 3] (1, 3) \<lparr>tc_data = [], tc_labels = [1, 2, 3], tc_all = []\<rparr> =
     (\<lparr>tc_data = [], tc_labels = [3, 2, 1], tc_all = []\<rparr>, [3, 2, 1])"
  "filtered_ticks True True [3, 2, 1] (1, 3) \<lparr>tc_data = [], tc_labels = [3, 2, 1], tc_all = []\<rparr> =
     (\<lparr>tc_data = [], tc_labels = [1, 2, 3], tc_all = []\<rparr>, [1, 2, 3])"
  by code_simp+

text \<open>When no tick is out of range and nothing is reversed the labels are the ticks.\<close>

lemma mark_major_fold_values: "map tt_value (fold (\<lambda>i. mark_major index (f i)) is ticks) = map tt_value ticks"
  by (induction "is" arbitrary: ticks) (simp_all add: mark_major_values)

text \<open>Whatever the major unit is, each timestamp becomes one tick, in order; the marking ends.\<close>

lemma ticksFromTimestamps_values:
  assumes "\<And>u. majorUnit = Some u \<Longrightarrow> adapter_steps ad 1 u"
  shows "\<exists>ticks. ticksFromTimestamps ad vals majorUnit = Some ticks \<and> map tt_value ticks = vals"
proof (cases majorUnit)
  case None
  then show ?thesis by (simp add: ticksFromTimestamps_def o_def)
next
  case (Some u)
  let ?ticks = "map (\<lambda>v. \<lparr>tt_value = v, tt_major = False\<rparr>) vals"
  let ?index = "fold (\<lambda>(i, v) m. obj_set m v i) (enumerate 0 vals) []"
  obtain k where "major_loop ad u (tt_value (last ?ticks)) ?index (ad_startOf ad (tt_value (hd ?ticks)) u) ?ticks =
      Some (fold (\<lambda>i. mark_major ?index (step_times ad 1 u (ad_startOf ad (tt_value (hd ?ticks)) u) i)) [0..<k] ?ticks)"
    using major_loop_steps[OF assms[OF Some]] by blast
  moreover have "map tt_value ?ticks = vals" by (simp add: o_def)
  ultimately show ?thesis using Some
    unfolding ticksFromTimestamps_def setMajorTicks_def Let_def Some option.case
    by (cases "vals = []") (simp_all add: mark_major_fold_values del: map_map)
qed

end
