(* ===== verification/ChartDecimation.thy ===== *)
theory ChartDecimation
  imports ChartMath ChartCore
begin

text \<open>
  The decimation plugin (\<open>js/chart_3.9.js\<close>, \<open>lttbDecimation\<close> to \<open>plugin_decimation\<close>): the two
  algorithms that thin out the points of a line to the width of the chart, the visible window, and
  the exchange of the \<open>data\<close> of a data set for the decimated points and back.
\<close>

section \<open>Largest triangle three buckets\<close>

record data_point =
  dp_x :: rat
  dp_y :: rat

text \<open>The bounds of bucket \<open>i\<close>, counted from the start of the window.\<close>

definition bucket_width :: "nat \<Rightarrow> nat \<Rightarrow> rat" where
  "bucket_width cnt samples = (of_nat cnt - 2) / (of_nat samples - 2)"

definition bucket_start :: "nat \<Rightarrow> nat \<Rightarrow> nat \<Rightarrow> nat \<Rightarrow> nat" where
  "bucket_start start cnt samples i = nat \<lfloor>of_nat i * bucket_width cnt samples\<rfloor> + 1 + start"

definition bucket_stop :: "nat \<Rightarrow> nat \<Rightarrow> nat \<Rightarrow> nat \<Rightarrow> nat" where
  "bucket_stop start cnt samples i = min (nat \<lfloor>of_nat (i + 1) * bucket_width cnt samples\<rfloor> + 1) cnt + start"

definition average :: "('p \<Rightarrow> rat) \<Rightarrow> 'p list \<Rightarrow> nat \<Rightarrow> nat \<Rightarrow> rat" where
  "average f data lo hi = fold (\<lambda>j s. s + f (data ! j)) [lo..<hi] 0 / (of_nat hi - of_nat lo)"

definition triangle_area :: "data_point \<Rightarrow> rat \<Rightarrow> rat \<Rightarrow> data_point \<Rightarrow> rat" where
  "triangle_area a avgX avgY p =
     1 / 2 * \<bar>(dp_x a - avgX) * (dp_y p - dp_y a) - (dp_x a - dp_x p) * (avgY - dp_y a)\<bar>"

definition largest_step :: "(nat \<Rightarrow> rat) \<Rightarrow> nat \<Rightarrow> rat \<times> nat option \<Rightarrow> rat \<times> nat option" where
  "largest_step area j st = (if area j > fst st then (area j, Some j) else st)"

text \<open>One bucket: the state is the list so far, the last chosen index and \<open>nextA\<close>.  A bucket without
  a point before any has been chosen makes the run undefined (\<open>None\<close>; the code would go on with
  \<open>undefined\<close> as a point); \<open>lttb_selects\<close> shows that it does not happen.\<close>

definition largest_of :: "data_point list \<Rightarrow> nat \<Rightarrow> nat \<Rightarrow> nat \<Rightarrow> nat \<Rightarrow> nat \<Rightarrow> nat option \<Rightarrow> nat option" where
  "largest_of data start cnt samples i a nextA =
     (let avgStart = bucket_start start cnt samples (i + 1); avgStop = bucket_stop start cnt samples (i + 1);
          avgX = average dp_x data avgStart avgStop; avgY = average dp_y data avgStart avgStop
      in snd (fold (largest_step (\<lambda>j. triangle_area (data ! a) avgX avgY (data ! j)))
            [bucket_start start cnt samples i..<bucket_stop start cnt samples i] (-1, nextA)))"

definition lttb_bucket ::
  "data_point list \<Rightarrow> nat \<Rightarrow> nat \<Rightarrow> nat \<Rightarrow> nat \<Rightarrow> (data_point list \<times> nat \<times> nat option) option
     \<Rightarrow> (data_point list \<times> nat \<times> nat option) option" where
  "lttb_bucket data start cnt samples i st =
     (case st of
        None \<Rightarrow> None
      | Some (decimated, a, nextA) \<Rightarrow>
          (case largest_of data start cnt samples i a nextA of
             None \<Rightarrow> None
           | Some j \<Rightarrow> Some (decimated @ [data ! j], j, Some j)))"

definition lttbDecimation :: "data_point list \<Rightarrow> nat \<Rightarrow> nat \<Rightarrow> nat \<Rightarrow> data_point list option" where
  "lttbDecimation data start cnt samples =
     (if samples \<ge> cnt then Some (slice data start (start + cnt))
      else map_option (\<lambda>(decimated, _). decimated @ [data ! (start + cnt - 1)])
             (fold (lttb_bucket data start cnt samples) [0..<samples - 2] (Some ([data ! start], start, None))))"

section \<open>Minimum and maximum of each pixel\<close>

record column_state =
  cs_out :: "data_point list"
  cs_avgX :: rat
  cs_countX :: rat
  cs_prevX :: "int option"
  cs_startIndex :: "nat option"
  cs_minIndex :: "nat option"
  cs_maxIndex :: "nat option"
  cs_minY :: rat
  cs_maxY :: rat

definition flush_column :: "data_point list \<Rightarrow> nat \<Rightarrow> column_state \<Rightarrow> data_point list" where
  "flush_column data i cs =
     (let lastIndex = i - 1;
          put = (\<lambda>j. if Some j \<noteq> cs_startIndex cs \<and> j \<noteq> lastIndex then [(data ! j)\<lparr>dp_x := cs_avgX cs\<rparr>] else []);
          inner = (case (cs_minIndex cs, cs_maxIndex cs) of
                     (Some a, Some b) \<Rightarrow> put (min a b) @ put (max a b)
                   | _ \<Rightarrow> [])
      in inner @ (if 0 < i \<and> Some lastIndex \<noteq> cs_startIndex cs then [data ! lastIndex] else []))"

definition pixel_of :: "data_point list \<Rightarrow> nat \<Rightarrow> nat \<Rightarrow> rat \<Rightarrow> rat \<Rightarrow> int" where
  "pixel_of data start cnt width x =
     (let xMin = dp_x (data ! start); dx = dp_x (data ! (start + cnt - 1)) - xMin
      in to_int32 ((x - xMin) / dx * width))"

definition pixel_column :: "data_point list \<Rightarrow> nat \<Rightarrow> nat \<Rightarrow> rat \<Rightarrow> nat \<Rightarrow> int" where
  "pixel_column data start cnt width i = pixel_of data start cnt width (dp_x (data ! i))"

definition minmax_step :: "data_point list \<Rightarrow> nat \<Rightarrow> nat \<Rightarrow> rat \<Rightarrow> nat \<Rightarrow> column_state \<Rightarrow> column_state" where
  "minmax_step data start cnt width i cs =
     (let point = data ! i; y = dp_y point; truncX = pixel_column data start cnt width i
      in if cs_prevX cs = Some truncX then
           (let cs1 = (if y < cs_minY cs then cs\<lparr>cs_minY := y, cs_minIndex := Some i\<rparr>
                       else if y > cs_maxY cs then cs\<lparr>cs_maxY := y, cs_maxIndex := Some i\<rparr> else cs)
            in cs1\<lparr>cs_avgX := (cs_countX cs * cs_avgX cs + dp_x point) / (cs_countX cs + 1), cs_countX := cs_countX cs + 1\<rparr>)
         else cs\<lparr>cs_out := cs_out cs @ flush_column data i cs @ [point], cs_prevX := Some truncX, cs_countX := 0,
                cs_minY := y, cs_maxY := y, cs_minIndex := Some i, cs_maxIndex := Some i, cs_startIndex := Some i\<rparr>)"

definition first_column :: column_state where
  "first_column = \<lparr>cs_out = [], cs_avgX = 0, cs_countX = 0, cs_prevX = None, cs_startIndex = None,
     cs_minIndex = None, cs_maxIndex = None, cs_minY = 0, cs_maxY = 0\<rparr>"

definition minMaxDecimation :: "data_point list \<Rightarrow> nat \<Rightarrow> nat \<Rightarrow> rat \<Rightarrow> data_point list" where
  "minMaxDecimation data start cnt width =
     cs_out (fold (minmax_step data start cnt width) [start..<start + cnt] first_column)"

section \<open>The visible window\<close>

definition simplified_window :: "data_point list \<Rightarrow> rat option \<Rightarrow> rat option \<Rightarrow> int \<times> int" where
  "simplified_window points mn mx =
     (let pointCount = int (length points);
          start = (case mn of Some m \<Rightarrow> limitIndex (fst (lookupByKey dp_x points m False)) 0 (pointCount - 1) | None \<Rightarrow> 0);
          cnt = (case mx of Some m \<Rightarrow> limitIndex (snd (lookupByKey dp_x points m False) + 1) start pointCount - start
                          | None \<Rightarrow> pointCount - start)
      in (start, cnt))"

section \<open>The plugin\<close>

text \<open>
  The property \<open>data\<close> of a data set is a value, writable or not, or the accessor pair of the plugin;
  \<open>_data\<close> and \<open>_decimated\<close> may be absent.  \<open>Object.defineProperty\<close> with a value alone turns an
  accessor into a property that is not writable.
\<close>

datatype data_prop = PlainData "data_point list" bool | Accessor

record dec_dataset =
  dd_prop :: data_prop
  dd_data :: "data_point list option"
  dd_decimated :: "data_point list option"

definition read_data :: "dec_dataset \<Rightarrow> data_point list option" where
  "read_data ds = (case dd_prop ds of PlainData d _ \<Rightarrow> Some d | Accessor \<Rightarrow> dd_decimated ds)"

definition write_data :: "data_point list \<Rightarrow> dec_dataset \<Rightarrow> dec_dataset" where
  "write_data d ds =
     (case dd_prop ds of
        PlainData _ w \<Rightarrow> if w then ds\<lparr>dd_prop := PlainData d True\<rparr> else ds
      | Accessor \<Rightarrow> ds\<lparr>dd_data := Some d\<rparr>)"

definition define_value :: "data_point list \<Rightarrow> data_prop \<Rightarrow> data_prop" where
  "define_value d p = PlainData d (case p of PlainData _ w \<Rightarrow> w | Accessor \<Rightarrow> False)"

definition cleanDecimatedDataset :: "dec_dataset \<Rightarrow> dec_dataset" where
  "cleanDecimatedDataset ds =
     (case dd_decimated ds of
        Some _ \<Rightarrow> \<lparr>dd_prop = define_value (case dd_data ds of Some d \<Rightarrow> d | None \<Rightarrow> []) (dd_prop ds), dd_data = None, dd_decimated = None\<rparr>
      | None \<Rightarrow> ds)"

definition cleanDecimatedData :: "dec_dataset list \<Rightarrow> dec_dataset list" where
  "cleanDecimatedData = map cleanDecimatedDataset"

text \<open>What the plugin reads of the chart for one data set, and its options.\<close>

record dec_env =
  dv_vertical :: bool
  dv_supported :: bool
  dv_numeric :: bool
  dv_min :: "rat option"
  dv_max :: "rat option"

record dec_opts =
  do_enabled :: bool
  do_parsing :: bool
  do_algorithm :: string
  do_samples :: "nat option"
  do_threshold :: "nat option"
  do_width :: nat

definition or_else :: "nat option \<Rightarrow> nat \<Rightarrow> nat" where
  "or_else v d = (case v of Some n \<Rightarrow> if n \<noteq> 0 then n else d | None \<Rightarrow> d)"

definition install_accessor :: "data_point list \<Rightarrow> dec_dataset \<Rightarrow> dec_dataset" where
  "install_accessor data ds = (if dd_data ds = None then ds\<lparr>dd_data := Some data, dd_prop := Accessor\<rparr> else ds)"

definition run_algorithm :: "dec_opts \<Rightarrow> data_point list \<Rightarrow> nat \<Rightarrow> nat \<Rightarrow> js_error + data_point list" where
  "run_algorithm opts data start cnt =
     (if do_algorithm opts = ''lttb'' then
        (case lttbDecimation data start cnt (or_else (do_samples opts) (do_width opts)) of
           Some d \<Rightarrow> Inr d | None \<Rightarrow> Inl TypeError)
      else if do_algorithm opts = ''min-max'' then Inr (minMaxDecimation data start cnt (of_nat (do_width opts)))
      else Inl (ErrorMsg ''Unsupported decimation algorithm''))"

definition decimate_dataset :: "dec_opts \<Rightarrow> dec_env \<Rightarrow> dec_dataset \<Rightarrow> dec_dataset \<times> js_error option" where
  "decimate_dataset opts env ds =
     (if dv_vertical env \<or> \<not> dv_supported env \<or> \<not> dv_numeric env \<or> do_parsing opts then (ds, None)
      else (case (case dd_data ds of Some d \<Rightarrow> Some d | None \<Rightarrow> read_data ds) of
              None \<Rightarrow> (ds, Some TypeError)
            | Some data \<Rightarrow>
                (let (start, cnt) = simplified_window data (dv_min env) (dv_max env)
                 in if cnt \<le> int (or_else (do_threshold opts) (4 * do_width opts)) then (cleanDecimatedDataset ds, None)
                    else (let ds1 = install_accessor data ds
                          in case run_algorithm opts data (nat start) (nat cnt) of
                               Inl e \<Rightarrow> (ds1, Some e)
                             | Inr d \<Rightarrow> (ds1\<lparr>dd_decimated := Some d\<rparr>, None)))))"

fun decimate_from :: "dec_opts \<Rightarrow> (nat \<Rightarrow> dec_env) \<Rightarrow> nat \<Rightarrow> dec_dataset list \<Rightarrow> dec_dataset list \<times> js_error option" where
  "decimate_from opts env i [] = ([], None)"
| "decimate_from opts env i (ds # dss) =
     (case decimate_dataset opts (env i) ds of
        (ds', Some e) \<Rightarrow> (ds' # dss, Some e)
      | (ds', None) \<Rightarrow> (let (dss', e) = decimate_from opts env (Suc i) dss in (ds' # dss', e)))"

definition beforeElementsUpdate :: "dec_opts \<Rightarrow> (nat \<Rightarrow> dec_env) \<Rightarrow> dec_dataset list \<Rightarrow> dec_dataset list \<times> js_error option" where
  "beforeElementsUpdate opts env dss =
     (if \<not> do_enabled opts then (cleanDecimatedData dss, None) else decimate_from opts env 0 dss)"

section \<open>The selection of the largest triangles\<close>

lemma triangle_area_nonneg: "0 \<le> triangle_area a avgX avgY p"
  by (simp add: triangle_area_def)

lemma largest_fold:
  assumes "\<And>j. 0 \<le> area j" "lo < hi"
  shows "\<exists>j. fold (largest_step area) [lo..<hi] (-1, nextA) = (area j, Some j) \<and> lo \<le> j \<and> j < hi \<and>
    (\<forall>k. lo \<le> k \<longrightarrow> k < hi \<longrightarrow> area k \<le> area j)"
proof -
  have "\<exists>j. fold (largest_step area) [lo..<lo + Suc n] (-1, nextA) = (area j, Some j) \<and> lo \<le> j \<and> j < lo + Suc n \<and>
      (\<forall>k. lo \<le> k \<longrightarrow> k < lo + Suc n \<longrightarrow> area k \<le> area j)" for n
  proof (induction n)
    case 0
    have "-1 < area lo" using assms(1)[of lo] by linarith
    then show ?case by (intro exI[of _ lo]) (auto simp: largest_step_def le_less_Suc_eq)
  next
    case (Suc n)
    then obtain j where j: "fold (largest_step area) [lo..<lo + Suc n] (-1, nextA) = (area j, Some j)" "lo \<le> j" "j < lo + Suc n"
      "\<forall>k. lo \<le> k \<longrightarrow> k < lo + Suc n \<longrightarrow> area k \<le> area j" by blast
    let ?m = "lo + Suc n"
    have f: "fold (largest_step area) [lo..<lo + Suc (Suc n)] (-1, nextA) = largest_step area ?m (area j, Some j)"
      using j(1) by simp
    show ?case
    proof (cases "area j < area ?m")
      case True
      have "\<forall>k. lo \<le> k \<longrightarrow> k < lo + Suc (Suc n) \<longrightarrow> area k \<le> area ?m"
      proof (intro allI impI)
        fix k assume "lo \<le> k" "k < lo + Suc (Suc n)"
        then show "area k \<le> area ?m" using j(4) True by (cases "k = ?m") (auto intro: order_trans less_imp_le)
      qed
      moreover have "largest_step area ?m (area j, Some j) = (area ?m, Some ?m)" using True by (simp add: largest_step_def)
      ultimately show ?thesis unfolding f by (intro exI[of _ ?m]) simp
    next
      case False
      have "\<forall>k. lo \<le> k \<longrightarrow> k < lo + Suc (Suc n) \<longrightarrow> area k \<le> area j"
      proof (intro allI impI)
        fix k assume "lo \<le> k" "k < lo + Suc (Suc n)"
        then show "area k \<le> area j" using j(4) False by (cases "k = ?m") auto
      qed
      moreover have "largest_step area ?m (area j, Some j) = (area j, Some j)" using False by (simp add: largest_step_def)
      ultimately show ?thesis unfolding f using j(2,3) by (intro exI[of _ j]) simp
    qed
  qed
  from this[of "hi - Suc lo"] assms(2) show ?thesis by (simp only: Suc_diff_Suc add_Suc_right[symmetric]) simp
qed

text \<open>The buckets follow each other without a gap, each has a point, the last ends before the last point.\<close>

lemma bucket_bounds:
  assumes "samples < cnt" "i < samples - 2"
  shows "bucket_start start cnt samples i < bucket_stop start cnt samples i"
    "bucket_stop start cnt samples i = bucket_start start cnt samples (i + 1)"
    "bucket_stop start cnt samples i < start + cnt" "bucket_start start cnt samples 0 = start + 1"
proof -
  let ?w = "bucket_width cnt samples"
  have s: "(0 :: rat) < of_nat samples - 2" and c: "of_nat samples - 2 \<le> (of_nat cnt - 2 :: rat)"
    using assms of_nat_less_iff[of 2 samples, where 'a = rat] of_nat_le_iff[of samples cnt, where 'a = rat] by simp_all
  then have w: "1 \<le> ?w" by (simp add: bucket_width_def)
  have "of_nat (i + 1) * ?w = of_nat i * ?w + ?w" by (simp add: algebra_simps)
  moreover have "0 \<le> of_nat i * ?w" using w by simp
  ultimately have step: "\<lfloor>of_nat i * ?w\<rfloor> + 1 \<le> \<lfloor>of_nat (i + 1) * ?w\<rfloor>" "0 \<le> \<lfloor>of_nat i * ?w\<rfloor>"
    using w by linarith+
  have "of_nat (i + 1) \<le> (of_nat samples - 2 :: rat)"
    using assms(2) by linarith
  then have "of_nat (i + 1) * ?w \<le> (of_nat samples - 2) * ?w" using w by (intro mult_right_mono) auto
  also have "\<dots> = of_nat cnt - 2" using s by (simp add: bucket_width_def)
  finally have "\<lfloor>of_nat (i + 1) * ?w\<rfloor> \<le> int cnt - 2" by linarith
  then have top: "nat \<lfloor>of_nat (i + 1) * ?w\<rfloor> + 2 \<le> cnt" using assms by linarith
  moreover have "nat \<lfloor>of_nat i * ?w\<rfloor> < nat \<lfloor>of_nat (i + 1) * ?w\<rfloor>" using step by linarith
  ultimately show "bucket_start start cnt samples i < bucket_stop start cnt samples i"
    "bucket_stop start cnt samples i = bucket_start start cnt samples (i + 1)"
    "bucket_stop start cnt samples i < start + cnt"
    unfolding bucket_start_def bucket_stop_def by linarith+
  show "bucket_start start cnt samples 0 = start + 1" by (simp add: bucket_start_def)
qed

definition bucket_area :: "data_point list \<Rightarrow> nat \<Rightarrow> nat \<Rightarrow> nat \<Rightarrow> nat \<Rightarrow> nat \<Rightarrow> nat \<Rightarrow> rat" where
  "bucket_area data start cnt samples i a j =
     triangle_area (data ! a) (average dp_x data (bucket_start start cnt samples (i + 1)) (bucket_stop start cnt samples (i + 1)))
       (average dp_y data (bucket_start start cnt samples (i + 1)) (bucket_stop start cnt samples (i + 1))) (data ! j)"

text \<open>The point chosen in a bucket spans the largest triangle with the point chosen before it and
  the mean of the next bucket.\<close>

definition largest_in_bucket :: "data_point list \<Rightarrow> nat \<Rightarrow> nat \<Rightarrow> nat \<Rightarrow> nat list \<Rightarrow> nat \<Rightarrow> bool" where
  "largest_in_bucket data start cnt samples idx i \<longleftrightarrow>
     bucket_start start cnt samples i \<le> idx ! (i + 1) \<and> idx ! (i + 1) < bucket_stop start cnt samples i \<and>
     (\<forall>j. bucket_start start cnt samples i \<le> j \<longrightarrow> j < bucket_stop start cnt samples i \<longrightarrow>
        bucket_area data start cnt samples i (idx ! i) j \<le> bucket_area data start cnt samples i (idx ! i) (idx ! (i + 1)))"

lemma largest_of_bucket:
  assumes "samples < cnt" "i < samples - 2"
  obtains j where "largest_of data start cnt samples i a nextA = Some j"
    "bucket_start start cnt samples i \<le> j" "j < bucket_stop start cnt samples i"
    "\<And>k. bucket_start start cnt samples i \<le> k \<Longrightarrow> k < bucket_stop start cnt samples i \<Longrightarrow>
       bucket_area data start cnt samples i a k \<le> bucket_area data start cnt samples i a j"
proof -
  have nonneg: "0 \<le> bucket_area data start cnt samples i a j" for j by (simp add: bucket_area_def triangle_area_nonneg)
  obtain j where j: "fold (largest_step (bucket_area data start cnt samples i a))
      [bucket_start start cnt samples i..<bucket_stop start cnt samples i] (-1, nextA) =
      (bucket_area data start cnt samples i a j, Some j)"
    "bucket_start start cnt samples i \<le> j" "j < bucket_stop start cnt samples i"
    "\<And>k. bucket_start start cnt samples i \<le> k \<Longrightarrow> k < bucket_stop start cnt samples i \<Longrightarrow>
       bucket_area data start cnt samples i a k \<le> bucket_area data start cnt samples i a j"
    using largest_fold[where area = "bucket_area data start cnt samples i a" and nextA = nextA, OF nonneg bucket_bounds(1)[OF assms, where start = start]] by blast
  have "largest_of data start cnt samples i a nextA = Some j"
    using j(1) by (simp add: largest_of_def Let_def bucket_area_def[abs_def])
  with j(2-4) show thesis using that by blast
qed

lemma lttb_run:
  assumes "samples < cnt" "k \<le> samples - 2"
  shows "\<exists>idx nextA. fold (lttb_bucket data start cnt samples) [0..<k] (Some ([data ! start], start, None)) =
      Some (map ((!) data) idx, idx ! k, nextA) \<and> length idx = k + 1 \<and> idx ! 0 = start \<and>
      (\<forall>i < k. largest_in_bucket data start cnt samples idx i)"
  using assms(2)
proof (induction k)
  case 0
  show ?case by (intro exI[of _ "[start]"] exI[of _ None]) simp
next
  case (Suc k)
  then obtain idx nextA where idx: "fold (lttb_bucket data start cnt samples) [0..<k] (Some ([data ! start], start, None)) =
      Some (map ((!) data) idx, idx ! k, nextA)" "length idx = k + 1" "idx ! 0 = start"
      "\<forall>i < k. largest_in_bucket data start cnt samples idx i" by auto
  have k: "k < samples - 2" using Suc.prems by simp
  obtain j where j: "largest_of data start cnt samples k (idx ! k) nextA = Some j"
    "bucket_start start cnt samples k \<le> j" "j < bucket_stop start cnt samples k"
    "\<And>l. bucket_start start cnt samples k \<le> l \<Longrightarrow> l < bucket_stop start cnt samples k \<Longrightarrow>
       bucket_area data start cnt samples k (idx ! k) l \<le> bucket_area data start cnt samples k (idx ! k) j"
    by (rule largest_of_bucket[OF assms(1) k, of data start "idx ! k" nextA]) blast
  have n: "(idx @ [j]) ! i = idx ! i" if "i \<le> k" for i using that idx(2) by (simp add: nth_append)
  have m: "(idx @ [j]) ! (k + 1) = j" using idx(2) by (simp add: nth_append)
  have "largest_in_bucket data start cnt samples (idx @ [j]) i" if "i < Suc k" for i
  proof (cases "i = k")
    case True
    with j(2-4) n[of k] m show ?thesis by (simp add: largest_in_bucket_def)
  next
    case False
    with that have i: "i < k" "i \<le> k" "i + 1 \<le> k" by auto
    from idx(4) i(1) have "largest_in_bucket data start cnt samples idx i" by blast
    then show ?thesis unfolding largest_in_bucket_def n[OF i(2)] n[OF i(3)] .
  qed
  moreover have "fold (lttb_bucket data start cnt samples) [0..<Suc k] (Some ([data ! start], start, None)) =
      Some (map ((!) data) (idx @ [j]), (idx @ [j]) ! Suc k, Some j)"
    using idx(1,2) j(1) by (simp add: lttb_bucket_def nth_append)
  moreover have "(idx @ [j]) ! 0 = start" using n[of 0] idx(3) by simp
  ultimately show ?case using idx(2) by (intro exI[of _ "idx @ [j]"] exI[of _ "Some j"]) simp
qed

text \<open>
  C25. Largest triangle three buckets returns exactly as many points as were asked for: the first
  and the last of the window and, in between, one point of each bucket in the order of the data, the
  one whose triangle with the point chosen before and the mean of the next bucket is largest.
\<close>

theorem lttb_selects:
  assumes "samples < cnt" "2 \<le> samples" "start + cnt \<le> length data"
  shows "\<exists>idx. lttbDecimation data start cnt samples = Some (map ((!) data) idx) \<and> length idx = samples \<and>
    sorted_wrt (<) idx \<and> idx ! 0 = start \<and> idx ! (samples - 1) = start + cnt - 1 \<and>
    (\<forall>i < samples - 2. largest_in_bucket data start cnt samples idx i)"
proof -
  let ?n = "samples - 2" and ?e = "start + cnt - 1"
  obtain idx nextA where idx: "fold (lttb_bucket data start cnt samples) [0..<?n] (Some ([data ! start], start, None)) =
      Some (map ((!) data) idx, idx ! ?n, nextA)" "length idx = ?n + 1" "idx ! 0 = start"
      "\<forall>i < ?n. largest_in_bucket data start cnt samples idx i"
    using lttb_run[OF assms(1) order_refl] by blast
  let ?idx = "idx @ [?e]"
  have n: "?idx ! i = idx ! i" if "i \<le> ?n" for i using that idx(2) by (simp add: nth_append)
  have big: "largest_in_bucket data start cnt samples ?idx i" if "i < ?n" for i
    using idx(4) that n[of i] n[of "i + 1"] by (simp add: largest_in_bucket_def)
  have "?idx ! i < ?idx ! Suc i" if "Suc i < length ?idx" for i
  proof -
    have upper: "?idx ! i < (if i = 0 then start + 1 else bucket_start start cnt samples i)"
      if "i \<le> ?n" for i
    proof (cases i)
      case 0
      then show ?thesis using n[of 0] idx(3) by simp
    next
      case (Suc k)
      with that big[of k] bucket_bounds(2)[OF assms(1), of k start] show ?thesis by (simp add: largest_in_bucket_def)
    qed
    consider "i < ?n" | "i = ?n" using \<open>Suc i < length ?idx\<close> idx(2) by fastforce
    then show ?thesis
    proof cases
      case 1
      have "bucket_start start cnt samples i \<le> ?idx ! Suc i" using big[OF 1] by (simp add: largest_in_bucket_def)
      moreover have "?idx ! i < bucket_start start cnt samples i"
        using upper[of i] 1 by (cases "i = 0") (simp_all add: bucket_start_def)
      ultimately show ?thesis by linarith
    next
      case 2
      have "?idx ! Suc i = ?e" using 2 idx(2) by (simp add: nth_append)
      moreover have "?idx ! ?n < ?e"
      proof (cases ?n)
        case 0
        then show ?thesis using n[of 0] idx(3) assms by simp
      next
        case (Suc k)
        then have "bucket_stop start cnt samples k < start + cnt" by (intro bucket_bounds(3)[OF assms(1)]) simp
        moreover have "?idx ! ?n < bucket_stop start cnt samples k"
          using big[of k] Suc by (simp add: largest_in_bucket_def)
        ultimately show ?thesis by linarith
      qed
      ultimately show ?thesis using 2 by simp
    qed
  qed
  then have "sorted_wrt (<) ?idx" by (simp add: sorted_wrt_iff_nth_Suc_transp)
  moreover have "lttbDecimation data start cnt samples = Some (map ((!) data) ?idx)"
    using assms(1) idx(1) by (simp add: lttbDecimation_def)
  moreover have l: "samples - 1 = length idx" using idx(2) assms(2) by simp
  have "?idx ! (samples - 1) = ?e" unfolding l by (rule nth_append_length)
  moreover have "length ?idx = samples" "?idx ! 0 = start" using idx(2,3) assms(2) n[of 0] by simp_all
  ultimately show ?thesis using big by (intro exI[of _ ?idx]) blast
qed

definition zigzag :: "data_point list" where
  "zigzag = map (\<lambda>(x, y). \<lparr>dp_x = x, dp_y = y\<rparr>) [(0, 0), (1, 5), (2, 1), (3, 1), (4, 9), (5, 2), (6, 3)]"

theorem lttb_selects_witness:
  "lttbDecimation zigzag 1 6 4 = Some (map ((!) zigzag) [1, 3, 4, 6]) \<and>
   (\<exists>idx. lttbDecimation zigzag 1 6 4 = Some (map ((!) zigzag) idx) \<and> length idx = 4 \<and> idx ! 0 = 1 \<and> idx ! 3 = 6)"
proof -
  have "lttbDecimation zigzag 1 6 4 = Some (map ((!) zigzag) [1, 3, 4, 6])" by code_simp
  moreover have "\<exists>idx. lttbDecimation zigzag 1 6 4 = Some (map ((!) zigzag) idx) \<and> length idx = 4 \<and> idx ! 0 = 1 \<and> idx ! 3 = 6"
    using lttb_selects[of 4 6 1 zigzag] by (simp add: zigzag_def) blast
  ultimately show ?thesis ..
qed

text \<open>With two samples or fewer the ends of the window remain, whatever was asked for.\<close>

lemma lttb_total:
  assumes "0 < cnt"
  shows "\<exists>d. lttbDecimation data start cnt samples = Some d"
proof (cases "samples < cnt")
  case True
  then obtain idx nextA where "fold (lttb_bucket data start cnt samples) [0..<samples - 2] (Some ([data ! start], start, None)) =
      Some (map ((!) data) idx, idx ! (samples - 2), nextA)" using lttb_run[OF True order_refl] by blast
  then show ?thesis using True by (simp add: lttbDecimation_def)
qed (simp add: lttbDecimation_def)

section \<open>The visible window\<close>

lemma limitIndex_between: "mn \<le> mx \<Longrightarrow> mn \<le> limitIndex v mn mx" "mn \<le> mx \<Longrightarrow> limitIndex v mn mx \<le> mx"
  by (simp_all add: limitIndex_def)

text \<open>
  The window the plugin decimates lies inside the data, and over data in the order of x, no two
  at the same place, it has every point within the bounds of the user.
\<close>

theorem simplified_window_visible:
  assumes "sorted_wrt (<) (map dp_x points)" "simplified_window points mn mx = (start, cnt)"
  shows "0 \<le> start \<and> 0 \<le> cnt \<and> start + cnt \<le> int (length points) \<and>
    (\<forall>i < length points. (\<forall>m. mn = Some m \<longrightarrow> m \<le> dp_x (points ! i)) \<and> (\<forall>m. mx = Some m \<longrightarrow> dp_x (points ! i) \<le> m) \<longrightarrow>
       start \<le> int i \<and> int i < start + cnt)"
proof -
  let ?xs = "map dp_x points" and ?n = "int (length points)"
  have sorted: "sorted ?xs" using assms(1) by (simp add: strict_sorted_iff)
  have lk: "lookup ?xs m = lookup_cmp (length ?xs) (\<lambda>i. ?xs ! nat i < m)" for m by (simp add: lookup_def)
  have start: "start = (case mn of Some m \<Rightarrow> limitIndex (fst (lookup ?xs m)) 0 (?n - 1) | None \<Rightarrow> 0)"
    and stop: "start + cnt = (case mx of Some m \<Rightarrow> limitIndex (snd (lookup ?xs m) + 1) start ?n | None \<Rightarrow> ?n)"
    using assms(2) unfolding simplified_window_def lookupByKey_map(1) Let_def by (cases mx; auto)+
  have s: "0 \<le> start" "start \<le> ?n"
    unfolding start limitIndex_def by (auto split: option.split)
  have "start \<le> start + cnt" "start + cnt \<le> ?n"
    unfolding stop using limitIndex_between[OF s(2)] s(2) by (simp_all split: option.split)
  moreover have "start \<le> int i" if i: "i < length points" "\<forall>m. mn = Some m \<longrightarrow> m \<le> dp_x (points ! i)" for i
  proof (cases mn)
    case (Some m)
    have "\<not> int i < fst (lookup ?xs m)"
    proof
      assume less: "int i < fst (lookup ?xs m)"
      obtain lo hi where lh: "lookup ?xs m = (lo, hi)" by fastforce
      have "?xs ! nat (int i) < m"
        by (rule plain_probe.below[OF sorted lh[unfolded lk]]) (use less lh i(1) in auto)
      with i Some show False by simp
    qed
    then show ?thesis using i(1) unfolding start Some by (simp add: limitIndex_def)
  qed (simp add: start)
  moreover have "int i < start + cnt" if i: "i < length points" "\<forall>m. mx = Some m \<longrightarrow> dp_x (points ! i) \<le> m" for i
  proof (cases mx)
    case (Some m)
    obtain lo hi where lh: "lookup ?xs m = (lo, hi)" by fastforce
    have "int i \<le> hi"
    proof (rule ccontr)
      assume more: "\<not> int i \<le> hi"
      have ne: "?xs \<noteq> []" using i(1) by auto
      note r = lookup_nonempty_range[OF lh ne]
      have "\<not> ?xs ! nat hi < m"
        by (rule plain_probe.above[OF sorted lh[unfolded lk]]) (use more i(1) r in auto)
      moreover have "?xs ! nat hi < ?xs ! i"
        by (rule sorted_wrt_nth_less[OF assms(1)]) (use more i(1) r in auto)
      ultimately show False using i Some by simp
    qed
    then show ?thesis using i(1) lh unfolding stop Some by (simp add: limitIndex_def)
  qed (use i(1) stop in simp)
  ultimately show ?thesis using s by auto
qed

theorem simplified_window_visible_witness:
  "simplified_window zigzag (Some 2) (Some 4) = (1, 4) \<and> (\<forall>i < 7. 2 \<le> dp_x (zigzag ! i) \<and> dp_x (zigzag ! i) \<le> 4 \<longrightarrow> 1 \<le> int i \<and> int i < 5)"
proof -
  have w: "simplified_window zigzag (Some 2) (Some 4) = (1, 4)" by code_simp
  have s: "sorted_wrt (<) (map dp_x zigzag)" by (simp add: zigzag_def)
  show ?thesis using simplified_window_visible[OF s w] w by (simp add: zigzag_def)
qed

section \<open>The plugin restores the data\<close>

definition original :: "dec_dataset \<Rightarrow> data_point list option" where
  "original ds = (case dd_data ds of Some d \<Rightarrow> Some d | None \<Rightarrow> read_data ds)"

definition dec_ok :: "dec_dataset \<Rightarrow> bool" where
  "dec_ok ds \<longleftrightarrow> (dd_prop ds = Accessor \<longleftrightarrow> dd_data ds \<noteq> None) \<and> (dd_data ds \<noteq> None \<longleftrightarrow> dd_decimated ds \<noteq> None)"

definition known_algorithm :: "dec_opts \<Rightarrow> bool" where
  "known_algorithm opts \<longleftrightarrow> do_algorithm opts = ''lttb'' \<or> do_algorithm opts = ''min-max''"

lemma clean_ok:
  "dec_ok ds \<Longrightarrow> dec_ok (cleanDecimatedDataset ds)"
  "dec_ok ds \<Longrightarrow> original (cleanDecimatedDataset ds) = original ds"
  "dec_ok ds \<Longrightarrow> dd_data (cleanDecimatedDataset ds) = None"
  "dec_ok ds \<Longrightarrow> read_data (cleanDecimatedDataset ds) = original ds"
  "dec_ok ds \<Longrightarrow> dd_decimated (cleanDecimatedDataset ds) = None"
  "dec_ok ds \<Longrightarrow> dd_prop (cleanDecimatedDataset ds) \<noteq> Accessor"
  by (auto simp: dec_ok_def cleanDecimatedDataset_def original_def read_data_def define_value_def split: option.splits data_prop.splits)

lemma window_inside:
  assumes "simplified_window points mn mx = (start, cnt)"
  shows "0 \<le> start" "0 \<le> cnt"
proof -
  have "(0 :: int) \<le> limitIndex v 0 (int (length points) - 1)" "limitIndex v 0 (int (length points) - 1) \<le> int (length points)" for v
    by (auto simp: limitIndex_def)
  then show "0 \<le> start" "0 \<le> cnt" using assms
    by (auto simp: simplified_window_def Let_def limitIndex_def split: option.splits)
qed

lemma install_ok:
  assumes "dec_ok ds" "original ds = Some data"
  shows "dec_ok ((install_accessor data ds)\<lparr>dd_decimated := Some d\<rparr>)"
    "original ((install_accessor data ds)\<lparr>dd_decimated := Some d\<rparr>) = Some data"
  using assms by (cases "dd_data ds"; simp add: install_accessor_def dec_ok_def original_def)+

lemma run_algorithm_known:
  assumes "known_algorithm opts" "0 < cnt"
  shows "\<exists>d. run_algorithm opts data start cnt = Inr d"
proof -
  obtain d where "lttbDecimation data start cnt (or_else (do_samples opts) (do_width opts)) = Some d"
    using lttb_total[OF assms(2)] by blast
  with assms(1) show ?thesis by (auto simp: run_algorithm_def known_algorithm_def)
qed

lemma decimate_dataset_ok:
  assumes "dec_ok ds" "known_algorithm opts" "decimate_dataset opts env ds = (ds', e)"
  shows "dec_ok ds' \<and> original ds' = original ds \<and> e = None"
proof (cases "dv_vertical env \<or> \<not> dv_supported env \<or> \<not> dv_numeric env \<or> do_parsing opts")
  case True
  with assms show ?thesis by (auto simp: decimate_dataset_def)
next
  case False
  obtain data where data: "original ds = Some data"
    using assms(1) by (cases "dd_prop ds"; cases "dd_data ds") (auto simp: original_def dec_ok_def read_data_def)
  obtain start cnt where w: "simplified_window data (dv_min env) (dv_max env) = (start, cnt)" by fastforce
  show ?thesis
  proof (cases "cnt \<le> int (or_else (do_threshold opts) (4 * do_width opts))")
    case True
    with False assms w data have "ds' = cleanDecimatedDataset ds" "e = None"
      unfolding decimate_dataset_def original_def[symmetric] by (simp_all add: original_def[symmetric])
    with clean_ok assms(1) show ?thesis by simp
  next
    case many: False
    then have "0 < nat cnt" by linarith
    from run_algorithm_known[OF assms(2) this] obtain d where "run_algorithm opts data (nat start) (nat cnt) = Inr d" ..
    with False many assms(3) w data have "ds' = (install_accessor data ds)\<lparr>dd_decimated := Some d\<rparr>" "e = None"
      unfolding decimate_dataset_def original_def[symmetric] by simp_all
    with install_ok[OF assms(1) data] data show ?thesis by simp
  qed
qed

lemma decimate_from_ok:
  assumes "list_all dec_ok dss" "known_algorithm opts"
  shows "list_all dec_ok (fst (decimate_from opts env i dss)) \<and> map original (fst (decimate_from opts env i dss)) = map original dss"
  using assms(1)
proof (induction dss arbitrary: i)
  case (Cons ds dss)
  obtain ds' e where d: "decimate_dataset opts (env i) ds = (ds', e)" by fastforce
  moreover have "dec_ok ds' \<and> original ds' = original ds \<and> e = None"
    by (rule decimate_dataset_ok[OF _ assms(2) d]) (use Cons.prems in simp)
  moreover obtain dss' e' where "decimate_from opts env (Suc i) dss = (dss', e')" by fastforce
  ultimately show ?case using Cons.IH[of "Suc i"] Cons.prems by simp
qed simp

lemma beforeElementsUpdate_ok:
  assumes "list_all dec_ok dss" "known_algorithm opts"
  shows "list_all dec_ok (fst (beforeElementsUpdate opts env dss))" "map original (fst (beforeElementsUpdate opts env dss)) = map original dss"
  using decimate_from_ok[OF assms, of env 0] assms(1)
  by (auto simp: beforeElementsUpdate_def cleanDecimatedData_def list_all_iff clean_ok)

definition plain_data :: "dec_dataset \<Rightarrow> bool" where
  "plain_data ds \<longleftrightarrow> dd_prop ds \<noteq> Accessor \<and> dd_data ds = None \<and> dd_decimated ds = None"

text \<open>
  C26. Whatever updates a chart has gone through, with whatever options and bounds, destroying it
  gives each data set the data back that it had, and takes the traces of the plugin away, as long
  as the algorithms asked for exist and the page assigns no new data between the updates.
\<close>

theorem decimation_restores:
  assumes "list_all plain_data dss" "list_all (known_algorithm \<circ> fst) updates"
    "after = fold (\<lambda>(opts, env) dss. fst (beforeElementsUpdate opts env dss)) updates dss"
  shows "map read_data (cleanDecimatedData after) = map read_data dss \<and> list_all plain_data (cleanDecimatedData after)"
proof -
  have after: "list_all dec_ok after \<and> map original after = map original dss"
    unfolding assms(3) using assms(2)
  proof (induction updates rule: rev_induct)
    case Nil
    have "list_all dec_ok dss" using assms(1) by (auto simp: list_all_iff dec_ok_def plain_data_def)
    then show ?case by simp
  next
    case (snoc u updates)
    then show ?case using beforeElementsUpdate_ok by (auto simp: split_beta)
  qed
  have "map read_data (cleanDecimatedData after) = map original after"
    using conjunct1[OF after] by (induction after) (simp_all add: cleanDecimatedData_def clean_ok)
  also have "\<dots> = map original dss" by (rule conjunct2[OF after])
  also have "\<dots> = map read_data dss" using assms(1) by (auto simp: list_all_iff plain_data_def original_def)
  finally have "map read_data (cleanDecimatedData after) = map read_data dss" .
  moreover have "list_all plain_data (cleanDecimatedData after)"
    using conjunct1[OF after] by (auto simp: cleanDecimatedData_def list_all_iff clean_ok plain_data_def)
  ultimately show ?thesis ..
qed

definition sample_opts :: dec_opts where
  "sample_opts = \<lparr>do_enabled = True, do_parsing = False, do_algorithm = ''lttb'', do_samples = Some 3, do_threshold = Some 4, do_width = 100\<rparr>"

definition sample_env :: dec_env where
  "sample_env = \<lparr>dv_vertical = False, dv_supported = True, dv_numeric = True, dv_min = None, dv_max = None\<rparr>"

definition sample_dataset :: dec_dataset where
  "sample_dataset = \<lparr>dd_prop = PlainData zigzag True, dd_data = None, dd_decimated = None\<rparr>"

theorem decimation_restores_witness:
  "map read_data (fst (beforeElementsUpdate sample_opts (\<lambda>_. sample_env) [sample_dataset])) = [Some (map ((!) zigzag) [0, 4, 6])] \<and>
   map read_data (cleanDecimatedData (fst (beforeElementsUpdate sample_opts (\<lambda>_. sample_env) [sample_dataset]))) = [Some zigzag]"
proof -
  have "map read_data (fst (beforeElementsUpdate sample_opts (\<lambda>_. sample_env) [sample_dataset])) = [Some (map ((!) zigzag) [0, 4, 6])]"
    by code_simp
  note e = this
  have "list_all plain_data [sample_dataset]" "list_all (known_algorithm \<circ> fst) [(sample_opts, \<lambda>_ :: nat. sample_env)]"
    by (simp_all add: plain_data_def sample_dataset_def known_algorithm_def sample_opts_def)
  moreover have "read_data sample_dataset = Some zigzag" by code_simp
  ultimately have "map read_data (cleanDecimatedData (fst (beforeElementsUpdate sample_opts (\<lambda>_. sample_env) [sample_dataset]))) = [Some zigzag]"
    using decimation_restores[of "[sample_dataset]" "[(sample_opts, \<lambda>_. sample_env)]", OF _ _ refl] by simp
  with e show ?thesis by blast
qed

text \<open>
  Two flaws of the restoration.  The restored property is not writable, so new data given to the
  data set are lost; and after an unknown algorithm the accessor stays and reads nothing.
\<close>

lemma restored_is_read_only:
  "write_data [] (cleanDecimatedDataset (fst (decimate_dataset sample_opts sample_env sample_dataset))) =
     \<lparr>dd_prop = PlainData zigzag False, dd_data = None, dd_decimated = None\<rparr>"
  by code_simp

lemma unknown_algorithm_loses_data:
  "read_data (cleanDecimatedDataset (fst (decimate_dataset (sample_opts\<lparr>do_algorithm := ''none''\<rparr>) sample_env sample_dataset))) = None"
  by code_simp

section \<open>No peak is lost\<close>

definition in_window :: "nat \<Rightarrow> nat \<Rightarrow> nat \<Rightarrow> bool" where
  "in_window start cnt i \<longleftrightarrow> start \<le> i \<and> i < start + cnt"

definition pixel_plot :: "data_point list \<Rightarrow> nat \<Rightarrow> nat \<Rightarrow> nat \<Rightarrow> bool" where
  "pixel_plot data start cnt W \<longleftrightarrow> sorted_wrt (<) (map dp_x data) \<and> 0 < cnt \<and> start + cnt \<le> length data \<and> 0 < W \<and> W < 2147483648"

lemma plot_less: "pixel_plot data start cnt W \<Longrightarrow> i < j \<Longrightarrow> j < start + cnt \<Longrightarrow> dp_x (data ! i) < dp_x (data ! j)"
  by (auto simp: pixel_plot_def sorted_wrt_iff_nth_less)

lemma plot_le: "pixel_plot data start cnt W \<Longrightarrow> i \<le> j \<Longrightarrow> j < start + cnt \<Longrightarrow> dp_x (data ! i) \<le> dp_x (data ! j)"
  using plot_less[of data start cnt W i j] by (cases "i = j") auto

text \<open>The columns of the points go up from 0, and the last point alone is in the last column.\<close>

lemma pixel_of_floor:
  assumes plot: "pixel_plot data start cnt W" and x: "dp_x (data ! start) \<le> x" "x \<le> dp_x (data ! (start + cnt - 1))"
  defines "r \<equiv> (x - dp_x (data ! start)) / (dp_x (data ! (start + cnt - 1)) - dp_x (data ! start))"
  shows "pixel_of data start cnt (of_nat W) x = \<lfloor>r * of_nat W\<rfloor>" "0 \<le> r" "r \<le> 1"
proof -
  show r: "0 \<le> r" "r \<le> 1" using x by (auto simp: r_def divide_le_eq)
  have W: "0 \<le> r * of_nat W" "r * of_nat W \<le> of_nat W"
    using r mult_right_mono[OF r(2), of "of_nat W"] by simp_all
  then have "\<lfloor>r * of_nat W\<rfloor> \<le> int W" "0 \<le> \<lfloor>r * of_nat W\<rfloor>" by linarith+
  then show "pixel_of data start cnt (of_nat W) x = \<lfloor>r * of_nat W\<rfloor>"
    unfolding pixel_of_def Let_def r_def[symmetric] to_int32_def trunc_int_nonneg[OF W(1)]
    by (intro wrap32_id) (use plot[unfolded pixel_plot_def] in linarith)+
qed

lemma window_between:
  assumes plot: "pixel_plot data start cnt W" and i: "in_window start cnt i"
  shows "dp_x (data ! start) \<le> dp_x (data ! i)" "dp_x (data ! i) \<le> dp_x (data ! (start + cnt - 1))"
proof -
  have "start + cnt - 1 < start + cnt" using plot by (simp add: pixel_plot_def)
  then show "dp_x (data ! start) \<le> dp_x (data ! i)" "dp_x (data ! i) \<le> dp_x (data ! (start + cnt - 1))"
    using plot_le[OF plot, of start i] plot_le[OF plot, of i "start + cnt - 1"] i by (auto simp: in_window_def)
qed

lemma pixel_column_floor:
  assumes plot: "pixel_plot data start cnt W" and i: "in_window start cnt i"
  defines "r \<equiv> (dp_x (data ! i) - dp_x (data ! start)) / (dp_x (data ! (start + cnt - 1)) - dp_x (data ! start))"
  shows "pixel_column data start cnt (of_nat W) i = \<lfloor>r * of_nat W\<rfloor>" "0 \<le> r" "r \<le> 1" "i < start + cnt - 1 \<Longrightarrow> r < 1"
proof -
  note x = window_between[OF plot i]
  show "pixel_column data start cnt (of_nat W) i = \<lfloor>r * of_nat W\<rfloor>" "0 \<le> r" "r \<le> 1"
    using pixel_of_floor[OF plot x] by (simp_all add: pixel_column_def r_def)
  show "r < 1" if "i < start + cnt - 1"
  proof -
    have "start + cnt - 1 < start + cnt" using plot by (simp add: pixel_plot_def)
    from plot_less[OF plot that this] x show ?thesis by (simp add: r_def divide_less_eq)
  qed
qed

text \<open>Between two points of one column everything is in that column.\<close>

lemma pixel_of_between:
  assumes plot: "pixel_plot data start cnt W" and w: "in_window start cnt i" "in_window start cnt j"
    and same: "pixel_column data start cnt (of_nat W) i = pixel_column data start cnt (of_nat W) j"
    and x: "dp_x (data ! i) \<le> x" "x \<le> dp_x (data ! j)"
  shows "pixel_of data start cnt (of_nat W) x = pixel_of data start cnt (of_nat W) (dp_x (data ! i))"
proof -
  let ?r = "\<lambda>x. (x - dp_x (data ! start)) / (dp_x (data ! (start + cnt - 1)) - dp_x (data ! start))"
  note i = window_between[OF plot w(1)] and j = window_between[OF plot w(2)]
  have xs: "dp_x (data ! start) \<le> x" "x \<le> dp_x (data ! (start + cnt - 1))" using i j x by linarith+
  have d: "0 \<le> dp_x (data ! (start + cnt - 1)) - dp_x (data ! start)" using i by linarith
  have "\<lfloor>?r (dp_x (data ! i)) * of_nat W\<rfloor> \<le> \<lfloor>?r x * of_nat W\<rfloor>" "\<lfloor>?r x * of_nat W\<rfloor> \<le> \<lfloor>?r (dp_x (data ! j)) * of_nat W\<rfloor>"
    using x d by (intro floor_mono mult_right_mono divide_right_mono; simp)+
  then show ?thesis
    using same unfolding pixel_column_def pixel_of_floor(1)[OF plot i] pixel_of_floor(1)[OF plot j] pixel_of_floor(1)[OF plot xs] by linarith
qed

lemma pixel_columns:
  assumes plot: "pixel_plot data start cnt W"
  shows "in_window start cnt i \<Longrightarrow> 0 \<le> pixel_column data start cnt (of_nat W) i \<and> pixel_column data start cnt (of_nat W) i \<le> int W"
    "in_window start cnt j \<Longrightarrow> start \<le> i \<Longrightarrow> i \<le> j \<Longrightarrow> pixel_column data start cnt (of_nat W) i \<le> pixel_column data start cnt (of_nat W) j"
    "start \<le> i \<Longrightarrow> i < start + cnt - 1 \<Longrightarrow> pixel_column data start cnt (of_nat W) i < pixel_column data start cnt (of_nat W) (start + cnt - 1)"
proof -
  let ?x = "\<lambda>i. dp_x (data ! i)" and ?e = "start + cnt - 1"
  define r where "r i = (?x i - ?x start) / (?x ?e - ?x start)" for i
  note f = pixel_column_floor[OF plot, folded r_def]
  have W: "(0 :: rat) \<le> of_nat W" by simp
  show "0 \<le> pixel_column data start cnt (of_nat W) i \<and> pixel_column data start cnt (of_nat W) i \<le> int W"
    if i: "in_window start cnt i" for i
  proof -
    have "r i * of_nat W \<le> of_nat W" "0 \<le> r i * of_nat W"
      using mult_right_mono[OF f(3)[OF i] W] f(2)[OF i] by simp_all
    then have "0 \<le> \<lfloor>r i * of_nat W\<rfloor>" "\<lfloor>r i * of_nat W\<rfloor> \<le> int W" by linarith+
    then show ?thesis unfolding f(1)[OF i] ..
  qed
  show "pixel_column data start cnt (of_nat W) i \<le> pixel_column data start cnt (of_nat W) j"
    if j: "in_window start cnt j" and ij: "start \<le> i" "i \<le> j" for i j
  proof -
    have i: "in_window start cnt i" using j ij by (simp add: in_window_def)
    have "?x i \<le> ?x j" using plot_le[OF plot ij(2)] j by (simp add: in_window_def)
    moreover have "?x start \<le> ?x ?e" by (rule plot_le[OF plot]) (use plot[unfolded pixel_plot_def] in linarith)+
    ultimately have "r i \<le> r j" by (auto simp: r_def intro!: divide_right_mono)
    then show ?thesis unfolding f(1)[OF i] f(1)[OF j] by (intro floor_mono mult_right_mono W)
  qed
  show "pixel_column data start cnt (of_nat W) i < pixel_column data start cnt (of_nat W) ?e"
    if i: "start \<le> i" "i < ?e" for i
  proof -
    have w: "in_window start cnt i" "in_window start cnt ?e" using i by (auto simp: in_window_def)
    have "0 < (of_nat W :: rat)" using plot by (simp add: pixel_plot_def)
    from mult_strict_right_mono[OF f(4)[OF w(1) i(2)] this] have "r i * of_nat W < of_nat W" by simp
    then have "\<lfloor>r i * of_nat W\<rfloor> < int W" by linarith
    moreover have "?x start < ?x ?e" by (rule plot_less[OF plot]) (use i in linarith)+
    then have "r ?e = 1" by (simp add: r_def)
    ultimately show ?thesis unfolding f(1)[OF w(1)] f(1)[OF w(2)] by simp
  qed
qed

text \<open>In the column of the point there is a point at least as low and one at least as high; \<open>col\<close>
  gives the column of a position.\<close>

definition reached :: "(rat \<Rightarrow> int) \<Rightarrow> data_point list \<Rightarrow> data_point list \<Rightarrow> nat \<Rightarrow> bool" where
  "reached col data out i \<longleftrightarrow>
     (\<exists>p \<in> set out. col (dp_x p) = col (dp_x (data ! i)) \<and> dp_y p \<le> dp_y (data ! i)) \<and>
     (\<exists>p \<in> set out. col (dp_x p) = col (dp_x (data ! i)) \<and> dp_y (data ! i) \<le> dp_y p)"

lemma reached_mono: "reached col data out i \<Longrightarrow> set out \<subseteq> set out' \<Longrightarrow> reached col data out' i"
  by (auto simp: reached_def)

text \<open>The column being read, from index \<open>s\<close> to before \<open>k\<close>.\<close>

definition column_of :: "data_point list \<Rightarrow> (nat \<Rightarrow> int) \<Rightarrow> nat \<Rightarrow> nat \<Rightarrow> column_state \<Rightarrow> bool" where
  "column_of data c k s cs \<longleftrightarrow> s < k \<and> cs_startIndex cs = Some s \<and> cs_prevX cs = Some (c s) \<and> (\<forall>i. s \<le> i \<and> i < k \<longrightarrow> c i = c s) \<and>
     (\<exists>a. cs_minIndex cs = Some a \<and> s \<le> a \<and> a < k \<and> cs_minY cs = dp_y (data ! a) \<and> (\<forall>i. s \<le> i \<and> i < k \<longrightarrow> dp_y (data ! a) \<le> dp_y (data ! i))) \<and>
     (\<exists>b. cs_maxIndex cs = Some b \<and> s \<le> b \<and> b < k \<and> cs_maxY cs = dp_y (data ! b) \<and> (\<forall>i. s \<le> i \<and> i < k \<longrightarrow> dp_y (data ! i) \<le> dp_y (data ! b))) \<and>
     cs_countX cs = of_nat (k - 1 - s) \<and> (s < k - 1 \<longrightarrow> dp_x (data ! s) \<le> cs_avgX cs \<and> cs_avgX cs \<le> dp_x (data ! (k - 1)))"

definition thinned :: "(rat \<Rightarrow> int) \<Rightarrow> data_point list \<Rightarrow> (nat \<Rightarrow> int) \<Rightarrow> nat \<Rightarrow> nat \<Rightarrow> column_state \<Rightarrow> bool" where
  "thinned col data c start s cs \<longleftrightarrow> start \<le> s \<and> cs_out cs \<noteq> [] \<and> last (cs_out cs) = data ! s \<and> data ! start \<in> set (cs_out cs) \<and>
     sorted (map dp_x (cs_out cs)) \<and> int (length (cs_out cs)) + 2 \<le> 4 * (c s + 1) \<and> (\<forall>i. start \<le> i \<and> i < s \<longrightarrow> reached col data (cs_out cs) i)"

lemma column_ofD:
  assumes "column_of data c k s cs"
  shows "\<exists>a. cs_minIndex cs = Some a \<and> s \<le> a \<and> a < k \<and> cs_minY cs = dp_y (data ! a) \<and> (\<forall>i. s \<le> i \<and> i < k \<longrightarrow> dp_y (data ! a) \<le> dp_y (data ! i))"
    "\<exists>b. cs_maxIndex cs = Some b \<and> s \<le> b \<and> b < k \<and> cs_maxY cs = dp_y (data ! b) \<and> (\<forall>i. s \<le> i \<and> i < k \<longrightarrow> dp_y (data ! i) \<le> dp_y (data ! b))"
    "s < k" "cs_prevX cs = Some (c s)"
  using assms unfolding column_of_def by - (elim conjE, assumption)+

lemma flush_elements:
  assumes col: "column_of data c k s cs" and mono: "\<forall>i j. s \<le> i \<and> i \<le> j \<and> j < k \<longrightarrow> dp_x (data ! i) \<le> dp_x (data ! j)"
  shows "length (flush_column data k cs) \<le> 3" "sorted (map dp_x (flush_column data k cs))"
    "\<And>p. p \<in> set (flush_column data k cs) \<Longrightarrow> dp_x (data ! s) \<le> dp_x p \<and> dp_x p \<le> dp_x (data ! (k - 1))"
    "\<And>i. (\<And>x. dp_x (data ! s) \<le> x \<Longrightarrow> x \<le> dp_x (data ! (k - 1)) \<Longrightarrow> col x = col (dp_x (data ! s))) \<Longrightarrow>
       s \<le> i \<Longrightarrow> i < k \<Longrightarrow> reached col data (data ! s # flush_column data k cs) i"
proof -
  obtain a b where a: "cs_minIndex cs = Some a" "s \<le> a" "a < k" "\<And>i. s \<le> i \<Longrightarrow> i < k \<Longrightarrow> dp_y (data ! a) \<le> dp_y (data ! i)"
    and b: "cs_maxIndex cs = Some b" "s \<le> b" "b < k" "\<And>i. s \<le> i \<Longrightarrow> i < k \<Longrightarrow> dp_y (data ! i) \<le> dp_y (data ! b)"
    and st: "s < k" "cs_startIndex cs = Some s"
    and avg: "s < k - 1 \<Longrightarrow> dp_x (data ! s) \<le> cs_avgX cs \<and> cs_avgX cs \<le> dp_x (data ! (k - 1))"
    using col unfolding column_of_def by blast
  define put where "put j = (if j \<noteq> s \<and> j \<noteq> k - 1 then [(data ! j)\<lparr>dp_x := cs_avgX cs\<rparr>] else [])" for j
  define tail where "tail = (if k - 1 \<noteq> s then [data ! (k - 1)] else [])"
  have f: "flush_column data k cs = put (min a b) @ put (max a b) @ tail"
    using a(1) b(1) st by (simp add: flush_column_def Let_def put_def tail_def eq_commute[of s])
  have "s \<le> k - 1" "k - 1 < k" using st by linarith+
  with mono have ends: "dp_x (data ! s) \<le> dp_x (data ! (k - 1))" by blast
  have put_avg: "p \<in> set (put j) \<Longrightarrow> dp_x p = cs_avgX cs \<and> s < k - 1" if "s \<le> j" "j < k" for p j
    using that by (auto simp: put_def split: if_splits)
  have mm: "s \<le> min a b" "min a b < k" "s \<le> max a b" "max a b < k" using a b by auto
  show "length (flush_column data k cs) \<le> 3" unfolding f by (simp add: put_def tail_def)
  show within: "dp_x (data ! s) \<le> dp_x p \<and> dp_x p \<le> dp_x (data ! (k - 1))" if p: "p \<in> set (flush_column data k cs)" for p
  proof -
    from p consider "p \<in> set (put (min a b))" | "p \<in> set (put (max a b))" | "p = data ! (k - 1)"
      unfolding f by (auto simp: tail_def split: if_splits)
    then show ?thesis using put_avg[OF mm(1,2)] put_avg[OF mm(3,4)] avg ends by cases auto
  qed
  have "sorted (map dp_x (put (min a b) @ put (max a b)))" by (simp add: put_def)
  moreover have "dp_x p \<le> dp_x (data ! (k - 1))" if "p \<in> set (put (min a b) @ put (max a b))" for p
    using within[of p] that unfolding f set_append by blast
  ultimately show "sorted (map dp_x (flush_column data k cs))"
    unfolding f append_assoc[symmetric] map_append[of _ _ tail] sorted_append[of "map dp_x (put (min a b) @ put (max a b))"]
    by (auto simp: tail_def)
  have hit: "\<exists>p \<in> set (data ! s # flush_column data k cs). dp_y p = dp_y (data ! j)" if "j = a \<or> j = b" for j
  proof -
    have "j = min a b \<or> j = max a b" using that by (auto simp: min_def max_def)
    then have sub: "set (put j) \<subseteq> set (flush_column data k cs)" "set tail \<subseteq> set (flush_column data k cs)" unfolding f by auto
    consider "j = s" | "j \<noteq> s" "j = k - 1" | "j \<noteq> s" "j \<noteq> k - 1" by blast
    then show ?thesis
    proof cases
      case 2
      then have "data ! j \<in> set tail" by (simp add: tail_def)
      with sub(2) show ?thesis by auto
    next
      case 3
      then have "(data ! j)\<lparr>dp_x := cs_avgX cs\<rparr> \<in> set (put j)" by (simp add: put_def)
      with sub(1) show ?thesis by (intro bexI[of _ "(data ! j)\<lparr>dp_x := cs_avgX cs\<rparr>"]) auto
    qed simp
  qed
  show "reached col data (data ! s # flush_column data k cs) i"
    if same: "\<And>x. dp_x (data ! s) \<le> x \<Longrightarrow> x \<le> dp_x (data ! (k - 1)) \<Longrightarrow> col x = col (dp_x (data ! s))"
      and i: "s \<le> i" "i < k" for i
  proof -
    have inside: "dp_x (data ! s) \<le> dp_x p \<and> dp_x p \<le> dp_x (data ! (k - 1))"
      if "p \<in> set (data ! s # flush_column data k cs)" for p
      using that within ends by auto
    have "dp_x (data ! s) \<le> dp_x (data ! i)" "dp_x (data ! i) \<le> dp_x (data ! (k - 1))" using mono i st(1) by auto
    then have ci: "col (dp_x (data ! i)) = col (dp_x (data ! s))" by (rule same)
    obtain p q where pq: "p \<in> set (data ! s # flush_column data k cs)" "dp_y p = dp_y (data ! a)"
      "q \<in> set (data ! s # flush_column data k cs)" "dp_y q = dp_y (data ! b)" using hit by blast
    have "col (dp_x p) = col (dp_x (data ! s))" "col (dp_x q) = col (dp_x (data ! s))"
      using inside[OF pq(1)] inside[OF pq(3)] same by blast+
    then show ?thesis unfolding reached_def using pq a(4)[OF i] b(4)[OF i] ci by (intro conjI bexI[of _ p] bexI[of _ q]) simp_all
  qed
qed

text \<open>Reading on in the same column, and starting a new one.\<close>

lemma column_goes_on:
  assumes col: "column_of data c k s cs" and c: "c k = c s" "pixel_column data start cnt width k = c k"
    and mono: "dp_x (data ! s) \<le> dp_x (data ! k)" "dp_x (data ! (k - 1)) \<le> dp_x (data ! k)"
  shows "column_of data c (Suc k) s (minmax_step data start cnt width k cs)" "cs_out (minmax_step data start cnt width k cs) = cs_out cs"
proof -
  obtain a where a': "cs_minIndex cs = Some a \<and> s \<le> a \<and> a < k \<and> cs_minY cs = dp_y (data ! a) \<and>
      (\<forall>i. s \<le> i \<and> i < k \<longrightarrow> dp_y (data ! a) \<le> dp_y (data ! i))" using column_ofD(1)[OF col] ..
  obtain b where b': "cs_maxIndex cs = Some b \<and> s \<le> b \<and> b < k \<and> cs_maxY cs = dp_y (data ! b) \<and>
      (\<forall>i. s \<le> i \<and> i < k \<longrightarrow> dp_y (data ! i) \<le> dp_y (data ! b))" using column_ofD(2)[OF col] ..
  have a: "cs_minIndex cs = Some a" "s \<le> a" "a < k" "cs_minY cs = dp_y (data ! a)"
    "\<And>i. s \<le> i \<Longrightarrow> i < k \<Longrightarrow> dp_y (data ! a) \<le> dp_y (data ! i)" using a' by blast+
  have b: "cs_maxIndex cs = Some b" "s \<le> b" "b < k" "cs_maxY cs = dp_y (data ! b)"
    "\<And>i. s \<le> i \<Longrightarrow> i < k \<Longrightarrow> dp_y (data ! i) \<le> dp_y (data ! b)" using b' by blast+
  have st: "s < k" "cs_startIndex cs = Some s" "cs_prevX cs = Some (c s)" "\<And>i. s \<le> i \<Longrightarrow> i < k \<Longrightarrow> c i = c s"
    and avg: "cs_countX cs = of_nat (k - 1 - s)" "s < k - 1 \<Longrightarrow> dp_x (data ! s) \<le> cs_avgX cs \<and> cs_avgX cs \<le> dp_x (data ! (k - 1))"
    using col unfolding column_of_def by blast+
  define cs1 where "cs1 = (if dp_y (data ! k) < cs_minY cs then cs\<lparr>cs_minY := dp_y (data ! k), cs_minIndex := Some k\<rparr>
     else if dp_y (data ! k) > cs_maxY cs then cs\<lparr>cs_maxY := dp_y (data ! k), cs_maxIndex := Some k\<rparr> else cs)"
  define avgX where "avgX = (cs_countX cs * cs_avgX cs + dp_x (data ! k)) / (cs_countX cs + 1)"
  have step: "minmax_step data start cnt width k cs = cs1\<lparr>cs_avgX := avgX, cs_countX := cs_countX cs + 1\<rparr>"
    using st(3) c by (simp add: minmax_step_def Let_def cs1_def avgX_def)
  have same: "cs_startIndex cs1 = Some s" "cs_prevX cs1 = Some (c s)" "cs_out cs1 = cs_out cs"
    using st(2,3) by (simp_all add: cs1_def)
  show "cs_out (minmax_step data start cnt width k cs) = cs_out cs" by (simp add: step same)
  have n: "0 \<le> cs_countX cs" by (simp add: avg(1))
  have "dp_x (data ! s) * (cs_countX cs + 1) \<le> cs_countX cs * cs_avgX cs + dp_x (data ! k)
      \<and> cs_countX cs * cs_avgX cs + dp_x (data ! k) \<le> dp_x (data ! k) * (cs_countX cs + 1)"
  proof (cases "s < k - 1")
    case True
    have "cs_countX cs * dp_x (data ! s) \<le> cs_countX cs * cs_avgX cs" "cs_countX cs * cs_avgX cs \<le> cs_countX cs * dp_x (data ! k)"
      using avg(2)[OF True] mono(2) n by (auto intro!: mult_left_mono)
    with mono(1) show ?thesis by (simp add: algebra_simps)
  next
    case False
    then have "cs_countX cs = 0" by (simp add: avg(1))
    with mono(1) show ?thesis by simp
  qed
  then have avg': "dp_x (data ! s) \<le> avgX" "avgX \<le> dp_x (data ! k)"
    using n unfolding avgX_def by (simp_all add: le_divide_eq divide_le_eq)
  have cnt': "cs_countX cs + 1 = of_nat (Suc k - 1 - s)" using avg(1) st(1) by simp
  have all: "(\<And>i. s \<le> i \<Longrightarrow> i < k \<Longrightarrow> P i) \<Longrightarrow> P k \<Longrightarrow> \<forall>i. s \<le> i \<and> i < Suc k \<longrightarrow> P i" for P
    by (auto simp: less_Suc_eq)
  have mins: "\<exists>a. cs_minIndex cs1 = Some a \<and> s \<le> a \<and> a < Suc k \<and> cs_minY cs1 = dp_y (data ! a) \<and> (\<forall>i. s \<le> i \<and> i < Suc k \<longrightarrow> dp_y (data ! a) \<le> dp_y (data ! i))"
  proof (cases "dp_y (data ! k) < dp_y (data ! a)")
    case True
    have "\<forall>i. s \<le> i \<and> i < Suc k \<longrightarrow> dp_y (data ! k) \<le> dp_y (data ! i)"
      by (rule all) (use a(5) True in \<open>auto intro: order_trans less_imp_le\<close>)
    with True a(4) st(1) show ?thesis by (intro exI[of _ k]) (simp add: cs1_def)
  next
    case False
    have "\<forall>i. s \<le> i \<and> i < Suc k \<longrightarrow> dp_y (data ! a) \<le> dp_y (data ! i)"
      by (rule all) (use a(5) False in auto)
    with False a(1-4) show ?thesis by (intro exI[of _ a]) (simp add: cs1_def)
  qed
  have maxs: "\<exists>b. cs_maxIndex cs1 = Some b \<and> s \<le> b \<and> b < Suc k \<and> cs_maxY cs1 = dp_y (data ! b) \<and> (\<forall>i. s \<le> i \<and> i < Suc k \<longrightarrow> dp_y (data ! i) \<le> dp_y (data ! b))"
  proof (cases "dp_y (data ! b) < dp_y (data ! k)")
    case True
    then have "\<not> dp_y (data ! k) < dp_y (data ! a)" using a(5)[OF b(2,3)] by linarith
    moreover have "\<forall>i. s \<le> i \<and> i < Suc k \<longrightarrow> dp_y (data ! i) \<le> dp_y (data ! k)"
      by (rule all) (use b(5) True in \<open>auto intro: order_trans less_imp_le\<close>)
    ultimately show ?thesis using True a(4) b(4) st(1) by (intro exI[of _ k]) (simp add: cs1_def)
  next
    case False
    have "\<forall>i. s \<le> i \<and> i < Suc k \<longrightarrow> dp_y (data ! i) \<le> dp_y (data ! b)"
      by (rule all) (use b(5) False in auto)
    with False b(1-4) show ?thesis by (intro exI[of _ b]) (simp add: cs1_def)
  qed
  have cols: "\<forall>i. s \<le> i \<and> i < Suc k \<longrightarrow> c i = c s" by (rule all[where P = "\<lambda>i. c i = c s", OF st(4) c(1)])
  let ?cs = "minmax_step data start cnt width k cs"
  have fields: "cs_startIndex ?cs = Some s" "cs_prevX ?cs = Some (c s)" "cs_minIndex ?cs = cs_minIndex cs1" "cs_minY ?cs = cs_minY cs1"
    "cs_maxIndex ?cs = cs_maxIndex cs1" "cs_maxY ?cs = cs_maxY cs1" "cs_avgX ?cs = avgX" "cs_countX ?cs = cs_countX cs + 1"
    by (simp_all add: step same)
  show "column_of data c (Suc k) s (minmax_step data start cnt width k cs)"
    unfolding column_of_def fields
    by (intro conjI impI less_SucI[OF st(1)] refl mins maxs cols cnt' avg'(1)) (use avg'(2) in simp)
qed

lemma new_column:
  assumes "cs_prevX cs \<noteq> Some (pixel_column data start cnt width k)" "c k = pixel_column data start cnt width k"
  shows "column_of data c (Suc k) k (minmax_step data start cnt width k cs)"
    "cs_out (minmax_step data start cnt width k cs) = cs_out cs @ flush_column data k cs @ [data ! k]"
proof -
  have step: "minmax_step data start cnt width k cs = cs\<lparr>cs_out := cs_out cs @ flush_column data k cs @ [data ! k], cs_prevX := Some (c k),
      cs_countX := 0, cs_minY := dp_y (data ! k), cs_maxY := dp_y (data ! k), cs_minIndex := Some k, cs_maxIndex := Some k, cs_startIndex := Some k\<rparr>"
    using assms by (simp add: minmax_step_def Let_def)
  show "column_of data c (Suc k) k (minmax_step data start cnt width k cs)"
    by (auto simp: step column_of_def less_Suc_eq_le)
  show "cs_out (minmax_step data start cnt width k cs) = cs_out cs @ flush_column data k cs @ [data ! k]"
    by (simp add: step)
qed

lemma thinned_new_column:
  assumes thin: "thinned col data c start s cs" and col: "column_of data c k s cs"
    and same: "\<And>x. dp_x (data ! s) \<le> x \<Longrightarrow> x \<le> dp_x (data ! (k - 1)) \<Longrightarrow> col x = col (dp_x (data ! s))"
    and mono: "\<And>i j. start \<le> i \<Longrightarrow> i \<le> j \<Longrightarrow> j \<le> k \<Longrightarrow> dp_x (data ! i) \<le> dp_x (data ! j)"
    and up: "c s < c k" and out: "cs_out cs' = cs_out cs @ flush_column data k cs @ [data ! k]"
  shows "thinned col data c start k cs'"
proof -
  have s: "s < k" "start \<le> s" using column_ofD(3)[OF col] thin by (simp_all add: thinned_def)
  have mono': "\<forall>i j. s \<le> i \<and> i \<le> j \<and> j < k \<longrightarrow> dp_x (data ! i) \<le> dp_x (data ! j)"
    using mono s by simp
  note f = flush_elements(1-3)[OF col mono'] flush_elements(4)[OF col mono', where col = col]
  have o: "cs_out cs \<noteq> []" "last (cs_out cs) = data ! s" "data ! start \<in> set (cs_out cs)" "sorted (map dp_x (cs_out cs))"
    "int (length (cs_out cs)) + 2 \<le> 4 * (c s + 1)" "\<And>i. start \<le> i \<Longrightarrow> i < s \<Longrightarrow> reached col data (cs_out cs) i"
    using thin by (auto simp: thinned_def)
  have le_s: "dp_x p \<le> dp_x (data ! s)" if "p \<in> set (cs_out cs)" for p
  proof -
    obtain ys where ys: "cs_out cs = ys @ [data ! s]" using o(1,2) append_butlast_last_id by metis
    have "sorted (map dp_x ys @ [dp_x (data ! s)])" using o(4) unfolding ys by simp
    then have "\<forall>q \<in> set ys. dp_x q \<le> dp_x (data ! s)" by (simp add: sorted_append)
    with that show ?thesis unfolding ys by auto
  qed
  have ends: "dp_x (data ! s) \<le> dp_x (data ! (k - 1))" "dp_x (data ! (k - 1)) \<le> dp_x (data ! k)"
    using mono[of s "k - 1"] mono[of "k - 1" k] s by linarith+
  have flush_le: "dp_x (data ! s) \<le> dp_x p" "dp_x p \<le> dp_x (data ! k)" if "p \<in> set (flush_column data k cs)" for p
    using f(3)[OF that] ends by auto
  have "sorted (map dp_x (flush_column data k cs @ [data ! k]))"
    using f(2) flush_le(2) by (auto simp: sorted_append)
  moreover have "dp_x p \<le> dp_x q" if "p \<in> set (cs_out cs)" "q \<in> set (flush_column data k cs @ [data ! k])" for p q
    using le_s[OF that(1)] that(2) flush_le(1)[of q] ends by auto
  ultimately have "sorted (map dp_x (cs_out cs'))"
    unfolding out map_append[of _ "cs_out cs"] sorted_append[of "map dp_x (cs_out cs)"] using o(4) by auto
  moreover have "reached col data (cs_out cs') i" if i: "start \<le> i" "i < k" for i
  proof (cases "i < s")
    case True
    show ?thesis by (rule reached_mono[OF o(6)[OF i(1) True]]) (auto simp: out)
  next
    case False
    have "data ! s \<in> set (cs_out cs)" using o(1,2) last_in_set by metis
    with False i show ?thesis by (intro reached_mono[OF f(4)[OF same]]) (auto simp: out)
  qed
  moreover have "int (length (cs_out cs')) + 2 \<le> 4 * (c k + 1)"
    using o(5) f(1) up unfolding out by simp
  ultimately show ?thesis using o(3) s out by (simp add: thinned_def)
qed

lemma first_column_thinned:
  assumes mono: "\<And>i j. i \<le> j \<Longrightarrow> j \<le> start \<Longrightarrow> dp_x (data ! i) \<le> dp_x (data ! j)" and "0 \<le> c start"
    "cs_out cs = flush_column data start first_column @ [data ! start]"
  shows "thinned col data c start start cs"
proof -
  have "flush_column data start first_column = (if 0 < start then [data ! (start - 1)] else [])"
    by (simp add: flush_column_def first_column_def)
  with assms mono[of "start - 1" start] show ?thesis by (auto simp: thinned_def)
qed

lemma minmax_run:
  assumes plot: "pixel_plot data start cnt W" and n: "n < cnt"
  defines "c \<equiv> pixel_column data start cnt (of_nat W)" and "col \<equiv> pixel_of data start cnt (of_nat W)"
  shows "\<exists>s. column_of data c (Suc (start + n)) s (fold (minmax_step data start cnt (of_nat W)) [start..<Suc (start + n)] first_column) \<and>
    thinned col data c start s (fold (minmax_step data start cnt (of_nat W)) [start..<Suc (start + n)] first_column)"
  using n
proof (induction n)
  case 0
  have w: "in_window start cnt start" using 0 by (simp add: in_window_def)
  have c: "c start = pixel_column data start cnt (of_nat W) start" by (simp add: c_def)
  have "cs_prevX first_column \<noteq> Some (pixel_column data start cnt (of_nat W) start)" by (simp add: first_column_def)
  note new = new_column[where c = c, OF this c]
  have "thinned col data c start start (minmax_step data start cnt (of_nat W) start first_column)"
  proof (rule first_column_thinned)
    show "0 \<le> c start" using pixel_columns(1)[OF plot w] by (simp add: c_def)
    show "cs_out (minmax_step data start cnt (of_nat W) start first_column) = flush_column data start first_column @ [data ! start]"
      by (simp add: new(2)) (simp add: first_column_def)
    show "dp_x (data ! i) \<le> dp_x (data ! j)" if "i \<le> j" "j \<le> start" for i j
      by (rule plot_le[OF plot that(1)]) (use that 0 in linarith)
  qed
  with new(1) show ?case by auto
next
  case (Suc n)
  let ?k = "start + Suc n"
  define cs where "cs = fold (minmax_step data start cnt (of_nat W)) [start..<Suc (start + n)] first_column"
  obtain s where s: "column_of data c ?k s cs" "thinned col data c start s cs"
    using Suc.IH Suc.prems unfolding cs_def[symmetric] by auto
  have st: "s < ?k" "start \<le> s" "cs_prevX cs = Some (c s)" using column_ofD(3,4)[OF s(1)] s(2) by (simp_all add: thinned_def)
  have next': "fold (minmax_step data start cnt (of_nat W)) [start..<Suc ?k] first_column = minmax_step data start cnt (of_nat W) ?k cs"
    by (simp add: cs_def)
  have mono: "dp_x (data ! i) \<le> dp_x (data ! j)" if "i \<le> j" "j \<le> ?k" for i j
    by (rule plot_le[OF plot that(1)]) (use that Suc.prems in linarith)
  have ck: "c ?k = pixel_column data start cnt (of_nat W) ?k" by (simp add: c_def)
  show ?case
  proof (cases "c ?k = c s")
    case True
    note go = column_goes_on[OF s(1) True ck[symmetric] mono mono]
    have "thinned col data c start s (minmax_step data start cnt (of_nat W) ?k cs)"
      using s(2) go(2) st(1) by (simp add: thinned_def)
    with go(1) st(1) show ?thesis unfolding next' by (intro exI[of _ s]) simp
  next
    case False
    have "in_window start cnt ?k" using Suc.prems by (simp add: in_window_def)
    from pixel_columns(2)[OF plot this st(2)] st(1) False have up: "c s < c ?k" by (simp add: c_def)
    have "cs_prevX cs \<noteq> Some (pixel_column data start cnt (of_nat W) ?k)" using False st(3) by (simp add: c_def)
    note new = new_column[where c = c, OF this ck]
    have same: "col x = col (dp_x (data ! s))" if "dp_x (data ! s) \<le> x" "x \<le> dp_x (data ! (?k - 1))" for x
    proof -
      have "\<forall>i. s \<le> i \<and> i < ?k \<longrightarrow> c i = c s" using s(1) unfolding column_of_def by - (elim conjE, assumption)
      moreover have "s \<le> ?k - 1" "?k - 1 < ?k" using st(1) by linarith+
      ultimately have sk: "c (?k - 1) = c s" by blast
      have w: "in_window start cnt s" "in_window start cnt (?k - 1)"
        using st(1,2) Suc.prems by (simp_all add: in_window_def)
      show ?thesis
        unfolding col_def
        by (rule pixel_of_between[OF plot w sk[symmetric, unfolded c_def] that])
    qed
    have "thinned col data c start ?k (minmax_step data start cnt (of_nat W) ?k cs)"
      by (rule thinned_new_column[OF s(2,1) same _ up new(2)]) (assumption | rule mono)+
    with new(1) show ?thesis unfolding next' by (intro exI[of _ ?k]) simp
  qed
qed

text \<open>
  C24. The minimum and maximum decimation of a window keeps every peak of every pixel: for each point
  of the window it has, in the pixel column of that point, one point at least as low and one at
  least as high.  It keeps the first and the last point, its points are in the order of x, and on a
  width of \<open>W\<close> pixels there are at most \<open>4 W + 2\<close> of them.  The points of the window have ascending x.
\<close>

theorem minmax_keeps_peaks:
  assumes "pixel_plot data start cnt W" "out = minMaxDecimation data start cnt (of_nat W)"
  shows "(\<forall>i. in_window start cnt i \<longrightarrow> reached (pixel_of data start cnt (of_nat W)) data out i) \<and> data ! start \<in> set out \<and> last out = data ! (start + cnt - 1) \<and>
    sorted (map dp_x out) \<and> length out \<le> 4 * W + 2"
proof -
  let ?c = "pixel_column data start cnt (of_nat W)" and ?e = "start + cnt - 1"
  define col where "col = pixel_of data start cnt (of_nat W)"
  have n: "cnt - 1 < cnt" "Suc (start + (cnt - 1)) = start + cnt" using assms(1) by (auto simp: pixel_plot_def)
  define cs where "cs = fold (minmax_step data start cnt (of_nat W)) [start..<start + cnt] first_column"
  obtain s where s: "column_of data ?c (start + cnt) s cs" "thinned col data ?c start s cs"
    using minmax_run[OF assms(1) n(1)] unfolding n(2) cs_def[symmetric] col_def by blast
  have st: "start \<le> s" "s < start + cnt" "?c ?e = ?c s" "data ! s = last (cs_out cs)" "cs_out cs \<noteq> []"
  proof -
    show "start \<le> s" "data ! s = last (cs_out cs)" "cs_out cs \<noteq> []" using s(2) by (simp_all add: thinned_def)
    show lt: "s < start + cnt" using s(1) unfolding column_of_def by blast
    have "\<forall>i. s \<le> i \<and> i < start + cnt \<longrightarrow> ?c i = ?c s" using s(1) unfolding column_of_def by blast
    moreover have "s \<le> ?e" "?e < start + cnt" using lt by linarith+
    ultimately show "?c ?e = ?c s" by blast
  qed
  have e: "s = ?e"
  proof (rule ccontr)
    assume "s \<noteq> ?e"
    with st have "?c s < ?c ?e" by (intro pixel_columns(3)[OF assms(1)]) auto
    with st(3) show False by simp
  qed
  have out: "out = cs_out cs" by (simp add: assms(2) minMaxDecimation_def cs_def)
  have "reached col data out i" if i: "in_window start cnt i" for i
  proof (cases "i < s")
    case True
    with i s(2) show ?thesis by (simp add: thinned_def out in_window_def)
  next
    case False
    with e i have "i = s" by (auto simp: in_window_def)
    moreover have "data ! s \<in> set out" using st(4,5) by (simp add: out)
    ultimately show ?thesis by (auto simp: reached_def)
  qed
  moreover have "in_window start cnt s" using st by (simp add: in_window_def)
  from pixel_columns(1)[OF assms(1) this] have "length out \<le> 4 * W + 2"
    using s(2) by (simp add: thinned_def out)
  ultimately show ?thesis using s(2) e unfolding col_def[symmetric] by (simp add: thinned_def out)
qed

theorem minmax_keeps_peaks_witness:
  "minMaxDecimation zigzag 0 7 1 = [zigzag ! 0, \<lparr>dp_x = 3, dp_y = 9\<rparr>, zigzag ! 5, zigzag ! 6] \<and>
   list_all (reached (pixel_of zigzag 0 7 1) zigzag (minMaxDecimation zigzag 0 7 1)) [0..<7]"
proof -
  have e: "minMaxDecimation zigzag 0 7 1 = [zigzag ! 0, \<lparr>dp_x = 3, dp_y = 9\<rparr>, zigzag ! 5, zigzag ! 6]" by code_simp
  have "pixel_plot zigzag 0 7 1" by (simp add: pixel_plot_def zigzag_def)
  from minmax_keeps_peaks[OF this refl] have "list_all (reached (pixel_of zigzag 0 7 1) zigzag (minMaxDecimation zigzag 0 7 1)) [0..<7]"
    by (auto simp: list_all_iff in_window_def)
  with e show ?thesis by blast
qed

end
