(* ===== verification/ChartLegend.thy ===== *)
theory ChartLegend
  imports ChartMath ChartOptions
begin

text \<open>
  The legend plugin (\<open>js/chart_3.9.js\<close>, \<open>getBoxSize\<close> to \<open>plugin_legend\<close>): the hit boxes of the
  items, fitted in rows or columns and adjusted to the place of the legend, the item under a
  position, and the calls of the handlers.  Widths of texts are measured by the canvas and come in
  as arguments; drawing is not modelled.
\<close>

section \<open>Fitting\<close>

record label_opts =
  lo_boxWidth :: "rat option"
  lo_boxHeight :: "rat option"
  lo_usePointStyle :: bool
  lo_pointStyleWidth :: "rat option"

definition getBoxSize :: "label_opts \<Rightarrow> rat \<Rightarrow> rat \<times> rat \<times> rat" where
  "getBoxSize lo fontSize =
     (let boxHeight = (case lo_boxHeight lo of Some h \<Rightarrow> h | None \<Rightarrow> fontSize);
          boxWidth = (case lo_boxWidth lo of Some w \<Rightarrow> w | None \<Rightarrow> fontSize);
          height = (if lo_usePointStyle lo then min boxHeight fontSize else boxHeight);
          width = (if lo_usePointStyle lo then
                     (case lo_pointStyleWidth lo of Some w \<Rightarrow> if w \<noteq> 0 then w else min boxWidth fontSize | None \<Rightarrow> min boxWidth fontSize)
                   else boxWidth)
      in (width, height, max fontSize height))"

definition item_width :: "rat \<Rightarrow> rat \<Rightarrow> rat \<Rightarrow> rat" where
  "item_width boxWidth fontSize textWidth = boxWidth + fontSize / 2 + textWidth"

record hitbox =
  hb_left :: rat
  hb_top :: rat
  hb_line :: int
  hb_width :: rat
  hb_height :: rat

record row_state =
  fr_boxes :: "hitbox list"
  fr_widths :: "rat list"
  fr_total :: rat
  fr_row :: int
  fr_top :: rat

definition fit_row :: "rat \<Rightarrow> rat \<Rightarrow> rat \<Rightarrow> nat \<times> rat \<Rightarrow> row_state \<Rightarrow> row_state" where
  "fit_row maxWidth padding itemHeight iw st =
     (let (i, itemWidth) = iw; lineHeight = itemHeight + padding;
          st1 = (if i = 0 \<or> last (fr_widths st) + itemWidth + 2 * padding > maxWidth
                 then st\<lparr>fr_total := fr_total st + lineHeight,
                         fr_widths := (if i > 0 then fr_widths st @ [0] else (fr_widths st)[length (fr_widths st) - 1 := 0]),
                         fr_top := fr_top st + lineHeight, fr_row := fr_row st + 1\<rparr>
                 else st)
      in st1\<lparr>fr_boxes := fr_boxes st1 @ [\<lparr>hb_left = 0, hb_top = fr_top st1, hb_line = fr_row st1, hb_width = itemWidth, hb_height = itemHeight\<rparr>],
             fr_widths := butlast (fr_widths st1) @ [last (fr_widths st1) + (itemWidth + padding)]\<rparr>)"

definition fitRows :: "rat \<Rightarrow> rat \<Rightarrow> rat \<Rightarrow> rat \<Rightarrow> rat list \<Rightarrow> row_state" where
  "fitRows maxWidth padding titleHeight itemHeight ws =
     fold (fit_row maxWidth padding itemHeight) (enumerate 0 ws)
       \<lparr>fr_boxes = [], fr_widths = [0], fr_total = titleHeight, fr_row = -1, fr_top = - (itemHeight + padding)\<rparr>"

record col_state =
  fc_boxes :: "hitbox list"
  fc_sizes :: "(rat \<times> rat) list"
  fc_total :: rat
  fc_width :: rat
  fc_height :: rat
  fc_left :: rat
  fc_col :: int

definition fit_col :: "rat \<Rightarrow> rat \<Rightarrow> rat \<Rightarrow> nat \<times> rat \<Rightarrow> col_state \<Rightarrow> col_state" where
  "fit_col heightLimit padding itemHeight iw st =
     (let (i, itemWidth) = iw;
          st1 = (if i > 0 \<and> fc_height st + itemHeight + 2 * padding > heightLimit
                 then st\<lparr>fc_total := fc_total st + (fc_width st + padding), fc_sizes := fc_sizes st @ [(fc_width st, fc_height st)],
                         fc_left := fc_left st + (fc_width st + padding), fc_col := fc_col st + 1, fc_width := 0, fc_height := 0\<rparr>
                 else st)
      in st1\<lparr>fc_boxes := fc_boxes st1 @ [\<lparr>hb_left = fc_left st1, hb_top = fc_height st1, hb_line = fc_col st1, hb_width = itemWidth, hb_height = itemHeight\<rparr>],
             fc_width := max (fc_width st1) itemWidth, fc_height := fc_height st1 + (itemHeight + padding)\<rparr>)"

definition fitCols :: "rat \<Rightarrow> rat \<Rightarrow> rat \<Rightarrow> rat \<Rightarrow> rat list \<Rightarrow> col_state" where
  "fitCols maxHeight padding titleHeight itemHeight ws =
     (let st = fold (fit_col (maxHeight - titleHeight) padding itemHeight) (enumerate 0 ws)
                 \<lparr>fc_boxes = [], fc_sizes = [], fc_total = padding, fc_width = 0, fc_height = 0, fc_left = 0, fc_col = 0\<rparr>
      in st\<lparr>fc_total := fc_total st + fc_width st, fc_sizes := fc_sizes st @ [(fc_width st, fc_height st)]\<rparr>)"

text \<open>The legend: the options the code reads and the place the layout gave it.\<close>

record legend =
  lg_display :: bool
  lg_horizontal :: bool
  lg_align :: string
  lg_rtl :: bool
  lg_padding :: rat
  lg_titleHeight :: rat
  lg_itemHeight :: rat
  lg_maxWidth :: rat
  lg_maxHeight :: rat
  lg_left :: rat
  lg_top :: rat
  lg_right :: rat
  lg_bottom :: rat
  lg_width :: rat

text \<open>The size of the legend; the options \<open>maxWidth\<close> and \<open>maxHeight\<close> limit it.\<close>

definition legend_fit :: "legend \<Rightarrow> rat option \<Rightarrow> rat option \<Rightarrow> rat list \<Rightarrow> rat \<times> rat" where
  "legend_fit lg optWidth optHeight ws =
     (if \<not> lg_display lg then (0, 0)
      else (let limit = (\<lambda>opt mx. case opt of Some m \<Rightarrow> if m \<noteq> 0 then m else mx | None \<Rightarrow> mx);
                (w, h) = (if lg_horizontal lg
                          then (lg_maxWidth lg, fr_total (fitRows (lg_maxWidth lg) (lg_padding lg) (lg_titleHeight lg) (lg_itemHeight lg) ws) + 10)
                          else (fc_total (fitCols (lg_maxHeight lg) (lg_padding lg) (lg_titleHeight lg) (lg_itemHeight lg) ws) + 10, lg_maxHeight lg))
            in (min w (limit optWidth (lg_maxWidth lg)), min h (limit optHeight (lg_maxHeight lg)))))"

section \<open>Adjusting to the place of the legend\<close>

definition row_left :: "legend \<Rightarrow> rat list \<Rightarrow> int \<Rightarrow> rat" where
  "row_left lg lineWidths row = alignStartEnd (lg_align lg) (lg_left lg + lg_padding lg) (lg_right lg - lineWidths ! nat row)"

definition col_top :: "legend \<Rightarrow> (rat \<times> rat) list \<Rightarrow> int \<Rightarrow> rat" where
  "col_top lg sizes col =
     alignStartEnd (lg_align lg) (lg_top lg + lg_titleHeight lg + lg_padding lg) (lg_bottom lg - snd (sizes ! nat col))"

definition place_left :: "adapter \<Rightarrow> rat \<Rightarrow> hitbox \<Rightarrow> hitbox" where
  "place_left a left b = b\<lparr>hb_left := adapter_leftForLtr a (adapter_x a left) (hb_width b)\<rparr>"

definition adjust_row :: "legend \<Rightarrow> adapter \<Rightarrow> rat list \<Rightarrow> hitbox \<Rightarrow> int \<times> rat \<times> hitbox list \<Rightarrow> int \<times> rat \<times> hitbox list" where
  "adjust_row lg a lineWidths b st =
     (let (row, left, out) = st;
          left1 = (if row \<noteq> hb_line b then row_left lg lineWidths (hb_line b) else left);
          b1 = place_left a left1 (b\<lparr>hb_top := hb_top b + (lg_top lg + lg_titleHeight lg + lg_padding lg)\<rparr>)
      in (hb_line b, left1 + (hb_width b + lg_padding lg), out @ [b1]))"

definition adjust_col :: "legend \<Rightarrow> adapter \<Rightarrow> (rat \<times> rat) list \<Rightarrow> hitbox \<Rightarrow> int \<times> rat \<times> hitbox list \<Rightarrow> int \<times> rat \<times> hitbox list" where
  "adjust_col lg a sizes b st =
     (let (col, top, out) = st;
          top1 = (if hb_line b \<noteq> col then col_top lg sizes (hb_line b) else top);
          b1 = place_left a (hb_left b + (lg_left lg + lg_padding lg)) (b\<lparr>hb_top := top1\<rparr>)
      in (hb_line b, top1 + (hb_height b + lg_padding lg), out @ [b1]))"

definition adjustHitBoxes :: "legend \<Rightarrow> rat list \<Rightarrow> (rat \<times> rat) list \<Rightarrow> hitbox list \<Rightarrow> hitbox list" where
  "adjustHitBoxes lg lineWidths sizes boxes =
     (if \<not> lg_display lg then boxes
      else (let a = getRtlAdapter (lg_rtl lg) (lg_left lg) (lg_width lg)
            in if lg_horizontal lg then snd (snd (fold (adjust_row lg a lineWidths) boxes (0, row_left lg lineWidths 0, [])))
               else snd (snd (fold (adjust_col lg a sizes) boxes (0, col_top lg sizes 0, [])))))"

text \<open>An update fits the boxes and, after the layout, adjusts them.\<close>

definition legend_boxes :: "legend \<Rightarrow> rat list \<Rightarrow> hitbox list" where
  "legend_boxes lg ws =
     (if \<not> lg_display lg then []
      else if lg_horizontal lg then
        (let st = fitRows (lg_maxWidth lg) (lg_padding lg) (lg_titleHeight lg) (lg_itemHeight lg) ws
         in adjustHitBoxes lg (fr_widths st) [] (fr_boxes st))
      else
        (let st = fitCols (lg_maxHeight lg) (lg_padding lg) (lg_titleHeight lg) (lg_itemHeight lg) ws
         in adjustHitBoxes lg [] (fc_sizes st) (fc_boxes st)))"

definition in_box :: "hitbox \<Rightarrow> rat \<Rightarrow> rat \<Rightarrow> bool" where
  "in_box b x y \<longleftrightarrow> isBetween x (hb_left b) (hb_left b + hb_width b) \<and> isBetween y (hb_top b) (hb_top b + hb_height b)"

fun first_box :: "hitbox list \<Rightarrow> rat \<Rightarrow> rat \<Rightarrow> nat \<Rightarrow> nat option" where
  "first_box [] x y i = None"
| "first_box (b # bs) x y i = (if in_box b x y then Some i else first_box bs x y (Suc i))"

definition getLegendItemAt :: "legend \<Rightarrow> hitbox list \<Rightarrow> rat \<Rightarrow> rat \<Rightarrow> nat option" where
  "getLegendItemAt lg boxes x y =
     (if isBetween x (lg_left lg) (lg_right lg) \<and> isBetween y (lg_top lg) (lg_bottom lg) then first_box boxes x y 0 else None)"

section \<open>Events\<close>

record legend_item =
  li_datasetIndex :: "nat option"
  li_index :: "nat option"
  li_text :: string

datatype legend_call = LeaveItem legend_item | HoverItem legend_item | ClickItem legend_item

record legend_handlers =
  lh_hover :: bool
  lh_leave :: bool
  lh_click :: bool

definition isListened :: "string \<Rightarrow> legend_handlers \<Rightarrow> bool" where
  "isListened type h \<longleftrightarrow>
     (type = ''mousemove'' \<or> type = ''mouseout'') \<and> (lh_hover h \<or> lh_leave h) \<or> lh_click h \<and> (type = ''click'' \<or> type = ''mouseup'')"

definition itemsEqual :: "legend_item option \<Rightarrow> legend_item option \<Rightarrow> bool" where
  "itemsEqual a b =
     (case (a, b) of (Some p, Some q) \<Rightarrow> li_datasetIndex p = li_datasetIndex q \<and> li_index p = li_index q | _ \<Rightarrow> False)"

record legend_state =
  ls_hovered :: "legend_item option"
  ls_calls :: "legend_call list"

definition call_if :: "bool \<Rightarrow> (legend_item \<Rightarrow> legend_call) \<Rightarrow> legend_item option \<Rightarrow> legend_call list" where
  "call_if listened c item = (case item of Some i \<Rightarrow> if listened then [c i] else [] | None \<Rightarrow> [])"

definition legend_handleEvent :: "legend_handlers \<Rightarrow> string \<times> legend_item option \<Rightarrow> legend_state \<Rightarrow> legend_state" where
  "legend_handleEvent h ev st =
     (let (type, hoveredItem) = ev in
      if \<not> isListened type h then st
      else if type = ''mousemove'' \<or> type = ''mouseout'' then
        (let previous = ls_hovered st; sameItem = itemsEqual previous hoveredItem
         in st\<lparr>ls_hovered := hoveredItem,
               ls_calls := ls_calls st @ (if sameItem then [] else call_if (lh_leave h) LeaveItem previous @ call_if (lh_hover h) HoverItem hoveredItem)\<rparr>)
      else st\<lparr>ls_calls := ls_calls st @ call_if (lh_click h) ClickItem hoveredItem\<rparr>)"

text \<open>The items of the legend, from the user's generator.\<close>

definition buildLabels :: "legend_item list option \<Rightarrow> (legend_item \<Rightarrow> bool) option \<Rightarrow> (legend_item \<Rightarrow> legend_item \<Rightarrow> rat) option \<Rightarrow> bool \<Rightarrow> legend_item list" where
  "buildLabels generated keep cmp reverse =
     (let items = (case generated of Some is \<Rightarrow> is | None \<Rightarrow> []);
          kept = (case keep of Some f \<Rightarrow> filter f items | None \<Rightarrow> items);
          ordered = (case cmp of Some c \<Rightarrow> sort_by c kept | None \<Rightarrow> kept)
      in if reverse then rev ordered else ordered)"

section \<open>Hit boxes do not meet\<close>

definition gap :: "rat \<Rightarrow> rat \<Rightarrow> rat \<Rightarrow> rat \<Rightarrow> rat \<Rightarrow> bool" where
  "gap p s n s' n' \<longleftrightarrow> s + n + p \<le> s' \<or> s' + n' + p \<le> s"

definition boxes_apart :: "rat \<Rightarrow> hitbox \<Rightarrow> hitbox \<Rightarrow> bool" where
  "boxes_apart p b c \<longleftrightarrow> gap p (hb_left b) (hb_width b) (hb_left c) (hb_width c) \<or> gap p (hb_top b) (hb_height b) (hb_top c) (hb_height c)"

text \<open>Whatever the direction of the text, the boxes are apart as they are from left to right.\<close>

lemma place_left_gap:
  "gap p (hb_left (place_left a l b)) (hb_width b) (hb_left (place_left a m c)) (hb_width c) \<longleftrightarrow> gap p l (hb_width b) m (hb_width c)"
  by (cases a) (auto simp: place_left_def gap_def)

lemma place_left_fields [simp]:
  "hb_top (place_left a l b) = hb_top b" "hb_line (place_left a l b) = hb_line b"
  "hb_width (place_left a l b) = hb_width b" "hb_height (place_left a l b) = hb_height b"
  by (simp_all add: place_left_def)

lemma boxes_apart_left: "l + hb_width b + p \<le> m \<Longrightarrow> boxes_apart p (place_left a l b) (place_left a m c)"
  by (simp add: boxes_apart_def place_left_gap) (simp add: gap_def)

lemma boxes_apart_top: "hb_top b + hb_height b + p \<le> hb_top c \<Longrightarrow> boxes_apart p b c"
  by (simp add: boxes_apart_def gap_def)

definition rows_of :: "rat \<Rightarrow> rat \<Rightarrow> hitbox list \<Rightarrow> bool" where
  "rows_of padding itemHeight boxes \<longleftrightarrow>
     (\<forall>b \<in> set boxes. hb_top b = of_int (hb_line b) * (itemHeight + padding) \<and> hb_height b = itemHeight) \<and>
     sorted_wrt (\<lambda>b c. hb_line b \<le> hb_line c) boxes"

lemma fitRows_rows:
  "rows_of padding itemHeight (fr_boxes (fitRows maxWidth padding titleHeight itemHeight ws))"
  "map hb_width (fr_boxes (fitRows maxWidth padding titleHeight itemHeight ws)) = ws"
proof -
  have "rows_of padding itemHeight (fr_boxes st) \<and> (\<forall>b \<in> set (fr_boxes st). hb_line b \<le> fr_row st) \<and>
      fr_top st = of_int (fr_row st) * (itemHeight + padding) \<and> map hb_width (fr_boxes st) = ws"
    if "st = fold (fit_row maxWidth padding itemHeight) (enumerate 0 ws)
       \<lparr>fr_boxes = [], fr_widths = [0], fr_total = titleHeight, fr_row = -1, fr_top = - (itemHeight + padding)\<rparr>" for st
    unfolding that
  proof (induction ws rule: rev_induct)
    case Nil
    show ?case by (simp add: rows_of_def)
  next
    case (snoc w ws)
    then show ?case
      by (auto simp: enumerate_append_eq fit_row_def Let_def rows_of_def sorted_wrt_append algebra_simps)
  qed
  then show "rows_of padding itemHeight (fr_boxes (fitRows maxWidth padding titleHeight itemHeight ws))"
    "map hb_width (fr_boxes (fitRows maxWidth padding titleHeight itemHeight ws)) = ws"
    by (auto simp: fitRows_def)
qed

text \<open>The boxes of a row, placed from its left end; \<open>left\<close> is where the next one of the row goes.\<close>

lemma adjust_rows_apart:
  assumes "rows_of (lg_padding lg) h boxes" "\<forall>b \<in> set boxes. 0 \<le> hb_width b" and pos: "0 \<le> h" "0 \<le> lg_padding lg"
  shows "sorted_wrt (boxes_apart (lg_padding lg)) (snd (snd (fold (adjust_row lg a lineWidths) boxes (row, left, [])))) \<and>
    map hb_width (snd (snd (fold (adjust_row lg a lineWidths) boxes (row, left, [])))) = map hb_width boxes"
proof -
  let ?p = "lg_padding lg" and ?T = "lg_top lg + lg_titleHeight lg + lg_padding lg"
  have "\<exists>row' left' out. fold (adjust_row lg a lineWidths) boxes (row, left, []) = (row', left', out) \<and>
      (boxes \<noteq> [] \<longrightarrow> row' = hb_line (last boxes)) \<and> sorted_wrt (boxes_apart ?p) out \<and> map hb_width out = map hb_width boxes \<and>
      (\<forall>c \<in> set out. hb_height c = h \<and> hb_top c = of_int (hb_line c) * (h + ?p) + ?T \<and> hb_line c \<le> row' \<and>
         (hb_line c = row' \<longrightarrow> (\<exists>l b. c = place_left a l b \<and> l + hb_width b + ?p \<le> left')))"
    using assms(1,2)
  proof (induction boxes rule: rev_induct)
    case Nil
    then show ?case by simp
  next
    case (snoc b boxes)
    have rows: "rows_of ?p h boxes" "\<forall>b \<in> set boxes. 0 \<le> hb_width b" "0 \<le> hb_width b"
      and b: "hb_top b = of_int (hb_line b) * (h + ?p)" "hb_height b = h" "\<forall>c \<in> set boxes. hb_line c \<le> hb_line b"
      using snoc.prems by (auto simp: rows_of_def sorted_wrt_append)
    obtain row' left' out where f: "fold (adjust_row lg a lineWidths) boxes (row, left, []) = (row', left', out)"
      "boxes \<noteq> [] \<longrightarrow> row' = hb_line (last boxes)" "sorted_wrt (boxes_apart ?p) out" "map hb_width out = map hb_width boxes"
      "\<forall>c \<in> set out. hb_height c = h \<and> hb_top c = of_int (hb_line c) * (h + ?p) + ?T \<and> hb_line c \<le> row' \<and>
         (hb_line c = row' \<longrightarrow> (\<exists>l b. c = place_left a l b \<and> l + hb_width b + ?p \<le> left'))"
      using snoc.IH[OF rows(1,2)] by blast
    define left1 where "left1 = (if row' \<noteq> hb_line b then row_left lg lineWidths (hb_line b) else left')"
    define b0 where "b0 = b\<lparr>hb_top := hb_top b + ?T\<rparr>"
    have step: "fold (adjust_row lg a lineWidths) (boxes @ [b]) (row, left, []) =
        (hb_line b, left1 + (hb_width b + ?p), out @ [place_left a left1 b0])"
      by (simp add: f(1) adjust_row_def Let_def left1_def b0_def)
    have up: "row' \<le> hb_line b" if "out \<noteq> []"
      using that f(2,4) b(3) by (cases "boxes = []") auto
    have b0: "hb_width b0 = hb_width b" "hb_line b0 = hb_line b" "hb_height b0 = h" "hb_top b0 = of_int (hb_line b) * (h + ?p) + ?T"
      using b by (simp_all add: b0_def)
    have apart: "boxes_apart ?p c (place_left a left1 b0)" if c: "c \<in> set out" for c
    proof (cases "hb_line c < hb_line b")
      case True
      have "(of_int (hb_line c) + 1) * (h + ?p) \<le> of_int (hb_line b) * (h + ?p)"
        by (rule mult_right_mono) (use True pos in linarith)+
      moreover have "hb_top c = of_int (hb_line c) * (h + ?p) + ?T" "hb_height c = h" using f(5) c by blast+
      ultimately show ?thesis using b0 by (intro boxes_apart_top) (simp add: algebra_simps)
    next
      case False
      have "out \<noteq> []" using c by auto
      from up[OF this] False f(5) c have line: "row' = hb_line b" "hb_line c = row'" by force+
      then obtain l d where "c = place_left a l d" "l + hb_width d + ?p \<le> left'" using f(5) c by blast
      then show ?thesis using line by (auto simp: left1_def intro: boxes_apart_left)
    qed
    let ?new = "place_left a left1 b0"
    have "hb_height c = h \<and> hb_top c = of_int (hb_line c) * (h + ?p) + ?T \<and> hb_line c \<le> hb_line b \<and>
        (hb_line c = hb_line b \<longrightarrow> (\<exists>l d. c = place_left a l d \<and> l + hb_width d + ?p \<le> left1 + (hb_width b + ?p)))"
      if c: "c \<in> set (out @ [?new])" for c
    proof (cases "c = ?new")
      case True
      then show ?thesis using b0 by (auto intro!: exI[of _ left1] exI[of _ b0])
    next
      case False
      with c have c: "c \<in> set out" by simp
      then have ne: "out \<noteq> []" by auto
      have old: "hb_height c = h" "hb_top c = of_int (hb_line c) * (h + ?p) + ?T" "hb_line c \<le> row'"
        "hb_line c = row' \<longrightarrow> (\<exists>l d. c = place_left a l d \<and> l + hb_width d + ?p \<le> left')" using f(5) c by blast+
      have "\<exists>l d. c = place_left a l d \<and> l + hb_width d + ?p \<le> left1 + (hb_width b + ?p)" if same: "hb_line c = hb_line b"
      proof -
        have line: "row' = hb_line b" using same old(3) up[OF ne] by simp
        then obtain l d where "c = place_left a l d" "l + hb_width d + ?p \<le> left'" using old(4) same by auto
        moreover have "left1 = left'" using line by (simp add: left1_def)
        ultimately show ?thesis using rows(3) pos by (intro exI[of _ l] exI[of _ d]) simp
      qed
      with old up[OF ne] show ?thesis by simp
    qed
    moreover have "sorted_wrt (boxes_apart ?p) (out @ [?new])" using f(3) apart by (simp add: sorted_wrt_append)
    moreover have "map hb_width (out @ [?new]) = map hb_width (boxes @ [b])" using f(4) b0 by simp
    ultimately show ?case unfolding step
      by (intro exI[of _ "hb_line b"] exI[of _ "left1 + (hb_width b + ?p)"] exI[of _ "out @ [?new]"]) simp
  qed
  then show ?thesis by auto
qed

text \<open>Columns: the boxes of the finished columns end before the current one begins.\<close>

definition cols_of :: "rat \<Rightarrow> hitbox list \<Rightarrow> bool" where
  "cols_of padding boxes \<longleftrightarrow>
     sorted_wrt (\<lambda>b c. hb_line b \<le> hb_line c \<and> (hb_line b < hb_line c \<longrightarrow> hb_left b + hb_width b + padding \<le> hb_left c)) boxes"

lemma fitCols_cols:
  assumes "\<forall>w \<in> set ws. 0 \<le> w" "0 \<le> padding"
  shows "cols_of padding (fc_boxes (fitCols maxHeight padding titleHeight itemHeight ws))"
    "map hb_width (fc_boxes (fitCols maxHeight padding titleHeight itemHeight ws)) = ws"
    "\<forall>b \<in> set (fc_boxes (fitCols maxHeight padding titleHeight itemHeight ws)). hb_height b = itemHeight"
proof -
  have "cols_of padding (fc_boxes st) \<and> map hb_width (fc_boxes st) = ws \<and> 0 \<le> fc_width st \<and>
      (\<forall>b \<in> set (fc_boxes st). hb_height b = itemHeight \<and> hb_line b \<le> fc_col st \<and>
         hb_left b + hb_width b \<le> fc_left st + fc_width st \<and> (hb_line b < fc_col st \<longrightarrow> hb_left b + hb_width b + padding \<le> fc_left st))"
    if "st = fold (fit_col (maxHeight - titleHeight) padding itemHeight) (enumerate 0 ws)
       \<lparr>fc_boxes = [], fc_sizes = [], fc_total = padding, fc_width = 0, fc_height = 0, fc_left = 0, fc_col = 0\<rparr>" for st
    unfolding that using assms(1)
  proof (induction ws rule: rev_induct)
    case Nil
    show ?case by (simp add: cols_of_def)
  next
    case (snoc w ws)
    define st where "st = fold (fit_col (maxHeight - titleHeight) padding itemHeight) (enumerate 0 ws)
       \<lparr>fc_boxes = [], fc_sizes = [], fc_total = padding, fc_width = 0, fc_height = 0, fc_left = 0, fc_col = 0\<rparr>"
    have w: "0 \<le> w" using snoc.prems by simp
    have st: "cols_of padding (fc_boxes st)" "map hb_width (fc_boxes st) = ws" "0 \<le> fc_width st"
      "\<And>b. b \<in> set (fc_boxes st) \<Longrightarrow> hb_height b = itemHeight \<and> hb_line b \<le> fc_col st \<and>
         hb_left b + hb_width b \<le> fc_left st + fc_width st \<and> (hb_line b < fc_col st \<longrightarrow> hb_left b + hb_width b + padding \<le> fc_left st)"
      using snoc.IH snoc.prems unfolding st_def[symmetric] by auto
    obtain more where step: "fold (fit_col (maxHeight - titleHeight) padding itemHeight) (enumerate 0 (ws @ [w]))
        \<lparr>fc_boxes = [], fc_sizes = [], fc_total = padding, fc_width = 0, fc_height = 0, fc_left = 0, fc_col = 0\<rparr> =
        (if more then st\<lparr>fc_total := fc_total st + (fc_width st + padding), fc_sizes := fc_sizes st @ [(fc_width st, fc_height st)],
              fc_left := fc_left st + (fc_width st + padding), fc_col := fc_col st + 1,
              fc_boxes := fc_boxes st @ [\<lparr>hb_left = fc_left st + (fc_width st + padding), hb_top = 0, hb_line = fc_col st + 1, hb_width = w, hb_height = itemHeight\<rparr>],
              fc_width := max 0 w, fc_height := 0 + (itemHeight + padding)\<rparr>
         else st\<lparr>fc_boxes := fc_boxes st @ [\<lparr>hb_left = fc_left st, hb_top = fc_height st, hb_line = fc_col st, hb_width = w, hb_height = itemHeight\<rparr>],
              fc_width := max (fc_width st) w, fc_height := fc_height st + (itemHeight + padding)\<rparr>)"
    proof
      show "fold (fit_col (maxHeight - titleHeight) padding itemHeight) (enumerate 0 (ws @ [w]))
        \<lparr>fc_boxes = [], fc_sizes = [], fc_total = padding, fc_width = 0, fc_height = 0, fc_left = 0, fc_col = 0\<rparr> =
        (if length ws > 0 \<and> fc_height st + itemHeight + 2 * padding > maxHeight - titleHeight
         then st\<lparr>fc_total := fc_total st + (fc_width st + padding), fc_sizes := fc_sizes st @ [(fc_width st, fc_height st)],
              fc_left := fc_left st + (fc_width st + padding), fc_col := fc_col st + 1,
              fc_boxes := fc_boxes st @ [\<lparr>hb_left = fc_left st + (fc_width st + padding), hb_top = 0, hb_line = fc_col st + 1, hb_width = w, hb_height = itemHeight\<rparr>],
              fc_width := max 0 w, fc_height := 0 + (itemHeight + padding)\<rparr>
         else st\<lparr>fc_boxes := fc_boxes st @ [\<lparr>hb_left = fc_left st, hb_top = fc_height st, hb_line = fc_col st, hb_width = w, hb_height = itemHeight\<rparr>],
              fc_width := max (fc_width st) w, fc_height := fc_height st + (itemHeight + padding)\<rparr>)"
        by (simp add: enumerate_append_eq fit_col_def Let_def st_def[symmetric])
    qed
    show ?case
    proof (cases more)
      case True
      have "hb_left b + hb_width b + padding \<le> fc_left st + (fc_width st + padding) \<and> hb_line b \<le> fc_col st \<and> hb_height b = itemHeight"
        if "b \<in> set (fc_boxes st)" for b using st(4)[OF that] by auto
      then show ?thesis using st(1,2) w assms(2) unfolding step if_P[OF True]
        by (fastforce simp: cols_of_def sorted_wrt_append)
    next
      case False
      have "hb_left b + hb_width b \<le> fc_left st + max (fc_width st) w" if "b \<in> set (fc_boxes st)" for b
        using st(4)[OF that] by auto
      then show ?thesis using st w unfolding step if_not_P[OF False]
        by (fastforce simp: cols_of_def sorted_wrt_append)
    qed
  qed
  then show "cols_of padding (fc_boxes (fitCols maxHeight padding titleHeight itemHeight ws))"
    "map hb_width (fc_boxes (fitCols maxHeight padding titleHeight itemHeight ws)) = ws"
    "\<forall>b \<in> set (fc_boxes (fitCols maxHeight padding titleHeight itemHeight ws)). hb_height b = itemHeight"
    by (auto simp: fitCols_def Let_def)
qed

lemma adjust_cols_apart:
  assumes "cols_of (lg_padding lg) boxes" "\<forall>b \<in> set boxes. hb_height b = h" and pos: "0 \<le> h" "0 \<le> lg_padding lg"
  shows "sorted_wrt (boxes_apart (lg_padding lg)) (snd (snd (fold (adjust_col lg a sizes) boxes (col, y0, [])))) \<and>
    map hb_width (snd (snd (fold (adjust_col lg a sizes) boxes (col, y0, [])))) = map hb_width boxes"
proof -
  let ?p = "lg_padding lg" and ?L = "lg_left lg + lg_padding lg"
  have "\<exists>col' top' out. fold (adjust_col lg a sizes) boxes (col, y0, []) = (col', top', out) \<and>
      (boxes \<noteq> [] \<longrightarrow> col' = hb_line (last boxes)) \<and> sorted_wrt (boxes_apart ?p) out \<and> map hb_width out = map hb_width boxes \<and>
      (\<forall>c \<in> set out. (\<exists>b0 \<in> set boxes. \<exists>t. c = place_left a (hb_left b0 + ?L) (b0\<lparr>hb_top := t\<rparr>)) \<and>
         (hb_line c = col' \<longrightarrow> hb_top c + hb_height c + ?p \<le> top'))"
    using assms(1,2)
  proof (induction boxes rule: rev_induct)
    case Nil
    then show ?case by simp
  next
    case (snoc b boxes)
    have cols: "cols_of ?p boxes" "\<forall>b \<in> set boxes. hb_height b = h"
      and b: "hb_height b = h" "\<forall>c \<in> set boxes. hb_line c \<le> hb_line b"
        "\<forall>c \<in> set boxes. hb_line c < hb_line b \<longrightarrow> hb_left c + hb_width c + ?p \<le> hb_left b"
      using snoc.prems by (auto simp: cols_of_def sorted_wrt_append)
    obtain col' top' out where f: "fold (adjust_col lg a sizes) boxes (col, y0, []) = (col', top', out)"
      "boxes \<noteq> [] \<longrightarrow> col' = hb_line (last boxes)" "sorted_wrt (boxes_apart ?p) out" "map hb_width out = map hb_width boxes"
      "\<forall>c \<in> set out. (\<exists>b0 \<in> set boxes. \<exists>t. c = place_left a (hb_left b0 + ?L) (b0\<lparr>hb_top := t\<rparr>)) \<and>
         (hb_line c = col' \<longrightarrow> hb_top c + hb_height c + ?p \<le> top')"
      using snoc.IH[OF cols] by blast
    define top1 where "top1 = (if hb_line b \<noteq> col' then col_top lg sizes (hb_line b) else top')"
    let ?new = "place_left a (hb_left b + ?L) (b\<lparr>hb_top := top1\<rparr>)"
    have step: "fold (adjust_col lg a sizes) (boxes @ [b]) (col, y0, []) = (hb_line b, top1 + (hb_height b + ?p), out @ [?new])"
      by (simp add: f(1) adjust_col_def Let_def top1_def)
    have up: "col' \<le> hb_line b" if "out \<noteq> []"
      using that f(2,4) b(2) by (cases "boxes = []") auto
    have line: "hb_line c \<le> hb_line b" if "c \<in> set out" for c
      using f(5) that b(2) by fastforce
    have apart: "boxes_apart ?p c ?new" if c: "c \<in> set out" for c
    proof -
      obtain b0 t where c0: "b0 \<in> set boxes" "c = place_left a (hb_left b0 + ?L) (b0\<lparr>hb_top := t\<rparr>)" using f(5) c by blast
      show ?thesis
      proof (cases "hb_line c < hb_line b")
        case True
        with c0 b(3) have "hb_left b0 + hb_width b0 + ?p \<le> hb_left b" by auto
        then show ?thesis unfolding c0(2) by (intro boxes_apart_left) simp
      next
        case False
        have "out \<noteq> []" using c by auto
        have "hb_line (last boxes) \<in> hb_line ` set boxes" using c0(1) by (cases boxes rule: rev_cases) auto
        have same: "hb_line c = hb_line b" using False line[OF c] by simp
        have "col' = hb_line b"
        proof -
          have "\<forall>d \<in> set boxes. hb_line d \<le> col'"
            using f(2) cols(1) c0(1) by (cases boxes rule: rev_cases) (auto simp: cols_of_def sorted_wrt_append)
          with c0 same up[OF \<open>out \<noteq> []\<close>] show ?thesis by fastforce
        qed
        with f(5) c same have "hb_top c + hb_height c + ?p \<le> top1" by (simp add: top1_def)
        then show ?thesis by (intro boxes_apart_top) simp
      qed
    qed
    have "(\<exists>b0 \<in> set (boxes @ [b]). \<exists>t. c = place_left a (hb_left b0 + ?L) (b0\<lparr>hb_top := t\<rparr>)) \<and>
        (hb_line c = hb_line b \<longrightarrow> hb_top c + hb_height c + ?p \<le> top1 + (hb_height b + ?p))" if c: "c \<in> set (out @ [?new])" for c
    proof (cases "c = ?new")
      case True
      then show ?thesis by auto
    next
      case False
      with c have c: "c \<in> set out" by simp
      obtain b0 t where c0: "b0 \<in> set boxes" "c = place_left a (hb_left b0 + ?L) (b0\<lparr>hb_top := t\<rparr>)" using f(5) c by blast
      have "hb_top c + hb_height c + ?p \<le> top1 + (hb_height b + ?p)" if same: "hb_line c = hb_line b"
      proof -
        have "out \<noteq> []" using c by auto
        have "\<forall>d \<in> set boxes. hb_line d \<le> col'"
          using f(2) cols(1) c0(1) by (cases boxes rule: rev_cases) (auto simp: cols_of_def sorted_wrt_append)
        with c0 same up[OF \<open>out \<noteq> []\<close>] have "col' = hb_line b" by fastforce
        with f(5) c same have "hb_top c + hb_height c + ?p \<le> top1" by (simp add: top1_def)
        then show ?thesis using b(1) pos by simp
      qed
      with c0 show ?thesis by auto
    qed
    moreover have "sorted_wrt (boxes_apart ?p) (out @ [?new])" using f(3) apart by (simp add: sorted_wrt_append)
    moreover have "map hb_width (out @ [?new]) = map hb_width (boxes @ [b])" using f(4) by simp
    ultimately show ?case unfolding step
      by (intro exI[of _ "hb_line b"] exI[of _ "top1 + (hb_height b + ?p)"] exI[of _ "out @ [?new]"]) simp
  qed
  then show ?thesis by auto
qed

lemma legend_boxes_apart:
  assumes "\<forall>w \<in> set ws. 0 \<le> w" "0 \<le> lg_itemHeight lg" "0 \<le> lg_padding lg" "lg_display lg"
  shows "sorted_wrt (boxes_apart (lg_padding lg)) (legend_boxes lg ws)" "map hb_width (legend_boxes lg ws) = ws"
proof -
  let ?rows = "fitRows (lg_maxWidth lg) (lg_padding lg) (lg_titleHeight lg) (lg_itemHeight lg) ws"
  let ?cols = "fitCols (lg_maxHeight lg) (lg_padding lg) (lg_titleHeight lg) (lg_itemHeight lg) ws"
  let ?a = "getRtlAdapter (lg_rtl lg) (lg_left lg) (lg_width lg)"
  have "\<forall>b \<in> set (fr_boxes ?rows). 0 \<le> hb_width b"
    using assms(1) fitRows_rows(2)[of "lg_maxWidth lg" "lg_padding lg" "lg_titleHeight lg" "lg_itemHeight lg" ws]
    by (metis image_eqI list.set_map)
  note rows = adjust_rows_apart[OF fitRows_rows(1) this assms(2,3)]
  note cols = adjust_cols_apart[OF fitCols_cols(1)[OF assms(1,3)] fitCols_cols(3)[OF assms(1,3)] assms(2,3)]
  have b: "legend_boxes lg ws = (if lg_horizontal lg then snd (snd (fold (adjust_row lg ?a (fr_widths ?rows)) (fr_boxes ?rows) (0, row_left lg (fr_widths ?rows) 0, [])))
     else snd (snd (fold (adjust_col lg ?a (fc_sizes ?cols)) (fc_boxes ?cols) (0, col_top lg (fc_sizes ?cols) 0, []))))"
    using assms(4) by (simp add: legend_boxes_def adjustHitBoxes_def Let_def)
  show "sorted_wrt (boxes_apart (lg_padding lg)) (legend_boxes lg ws)" "map hb_width (legend_boxes lg ws) = ws"
    unfolding b using rows cols fitRows_rows(2) fitCols_cols(2)[OF assms(1,3)] by simp_all
qed

section \<open>Each item can be hit\<close>

lemma first_box_Some:
  assumes "i < length bs" "in_box (bs ! i) x y" "\<And>k. k < i \<Longrightarrow> \<not> in_box (bs ! k) x y"
  shows "first_box bs x y n = Some (n + i)"
  using assms
proof (induction bs arbitrary: i n)
  case (Cons b bs)
  show ?case
  proof (cases i)
    case 0
    with Cons.prems show ?thesis by simp
  next
    case (Suc j)
    have "\<not> in_box b x y" using Cons.prems(3)[of 0] Suc by simp
    moreover have "first_box bs x y (Suc n) = Some (Suc n + j)"
    proof (rule Cons.IH)
      show "j < length bs" "in_box (bs ! j) x y" using Cons.prems(1,2) Suc by simp_all
      show "\<not> in_box (bs ! k) x y" if "k < j" for k using Cons.prems(3)[of "Suc k"] Suc that by simp
    qed
    ultimately show ?thesis using Suc by simp
  qed
qed simp

definition inside_box :: "hitbox \<Rightarrow> rat \<Rightarrow> rat \<Rightarrow> bool" where
  "inside_box b x y \<longleftrightarrow> hb_left b \<le> x \<and> x \<le> hb_left b + hb_width b \<and> hb_top b \<le> y \<and> y \<le> hb_top b + hb_height b"

lemma apart_not_both:
  assumes "boxes_apart p b c" "inside_box c x y" "1 / 1000000 < p" "0 \<le> hb_width b" "0 \<le> hb_height b"
  shows "\<not> in_box b x y"
  using assms by (auto simp: boxes_apart_def gap_def inside_box_def in_box_def isBetween_def min_def max_def)

lemma adjust_heights:
  "map hb_height (snd (snd (fold (adjust_row lg a lineWidths) boxes (row, left, out)))) = map hb_height out @ map hb_height boxes"
  "map hb_height (snd (snd (fold (adjust_col lg a sizes) boxes (row, left, out)))) = map hb_height out @ map hb_height boxes"
  by (induction boxes arbitrary: row left out) (simp_all add: adjust_row_def adjust_col_def Let_def)

lemma legend_boxes_height:
  assumes "\<forall>w \<in> set ws. 0 \<le> w" "0 \<le> lg_padding lg" "b \<in> set (legend_boxes lg ws)"
  shows "hb_height b = lg_itemHeight lg"
proof -
  let ?rows = "fr_boxes (fitRows (lg_maxWidth lg) (lg_padding lg) (lg_titleHeight lg) (lg_itemHeight lg) ws)"
  let ?cols = "fc_boxes (fitCols (lg_maxHeight lg) (lg_padding lg) (lg_titleHeight lg) (lg_itemHeight lg) ws)"
  have h: "map hb_height (legend_boxes lg ws) =
      (if \<not> lg_display lg then [] else if lg_horizontal lg then map hb_height ?rows else map hb_height ?cols)"
    by (simp add: legend_boxes_def adjustHitBoxes_def Let_def adjust_heights)
  have "hb_height b \<in> set (map hb_height (legend_boxes lg ws))" using assms(3) by simp
  then have "hb_height b \<in> hb_height ` set ?rows \<union> hb_height ` set ?cols"
    unfolding h by (auto split: if_splits)
  then show ?thesis
    using fitCols_cols(3)[OF assms(1,2), of "lg_maxHeight lg" "lg_titleHeight lg" "lg_itemHeight lg"]
      fitRows_rows(1)[of "lg_padding lg" "lg_itemHeight lg" "lg_maxWidth lg" "lg_titleHeight lg" ws]
    by (auto simp: rows_of_def)
qed

text \<open>
  C27. Every item of a displayed legend can be reached: at each position of its hit box, in rows
  or columns, aligned and directed as it may be, the legend finds this item and no other, when the
  position is on the legend at all and the padding between the boxes exceeds the tolerance.
\<close>

theorem legend_items_hit:
  assumes "lg_display lg" "\<forall>w \<in> set ws. 0 \<le> w" "0 \<le> lg_itemHeight lg" "1 / 1000000 < lg_padding lg" "i < length ws"
    and at: "inside_box (legend_boxes lg ws ! i) x y" "isBetween x (lg_left lg) (lg_right lg)" "isBetween y (lg_top lg) (lg_bottom lg)"
  shows "getLegendItemAt lg (legend_boxes lg ws) x y = Some i"
proof -
  let ?bs = "legend_boxes lg ws"
  have pad: "0 \<le> lg_padding lg" using assms(4) by linarith
  note apart = legend_boxes_apart[OF assms(2,3) pad assms(1)]
  have len: "i < length ?bs" using assms(5) apart(2) by (metis length_map)
  have width: "hb_width (?bs ! k) = ws ! k" if "k < length ?bs" for k using apart(2) that by (metis nth_map)
  have size: "0 \<le> hb_width (?bs ! k)" "0 \<le> hb_height (?bs ! k)" if "k < length ?bs" for k
  proof -
    have "k < length ws" using that apart(2) by (metis length_map)
    then show "0 \<le> hb_width (?bs ! k)" using width[OF that] assms(2) by simp
    show "0 \<le> hb_height (?bs ! k)" using legend_boxes_height[OF assms(2) pad nth_mem[OF that]] assms(3) by simp
  qed
  have "in_box (?bs ! i) x y"
    using at(1) size[OF len] by (auto simp: inside_box_def in_box_def isBetween_def)
  moreover have "\<not> in_box (?bs ! k) x y" if "k < i" for k
    by (rule apart_not_both[OF sorted_wrt_nth_less[OF apart(1) that len] at(1) assms(4)])
      (use size[of k] that len in auto)
  ultimately show ?thesis
    using first_box_Some[OF len, of x y 0] at(2,3) by (simp add: getLegendItemAt_def)
qed

definition sample_legend :: legend where
  "sample_legend = \<lparr>lg_display = True, lg_horizontal = True, lg_align = ''center'', lg_rtl = True, lg_padding = 10, lg_titleHeight = 0,
     lg_itemHeight = 12, lg_maxWidth = 200, lg_maxHeight = 100, lg_left = 0, lg_top = 0, lg_right = 200, lg_bottom = 100, lg_width = 200\<rparr>"

theorem legend_items_hit_witness:
  "map hb_left (legend_boxes sample_legend [60, 80, 100]) = [115, 25, 50] \<and> map hb_line (legend_boxes sample_legend [60, 80, 100]) = [0, 0, 1] \<and>
   getLegendItemAt sample_legend (legend_boxes sample_legend [60, 80, 100]) 50 40 = Some 2"
proof -
  have e: "map hb_left (legend_boxes sample_legend [60, 80, 100]) = [115, 25, 50]"
    "map hb_line (legend_boxes sample_legend [60, 80, 100]) = [0, 0, 1]" by code_simp+
  have "inside_box (legend_boxes sample_legend [60, 80, 100] ! 2) 50 40" by code_simp
  then have "getLegendItemAt sample_legend (legend_boxes sample_legend [60, 80, 100]) 50 40 = Some 2"
    by (intro legend_items_hit) (simp_all add: sample_legend_def isBetween_def)
  with e show ?thesis by blast
qed

section \<open>Hovering\<close>

text \<open>The item the handlers were told of last: entered and not left, by its indices; a call that
  enters while another item is entered, or leaves one that is not, is out of order (\<open>None\<close>).\<close>

type_synonym item_key = "nat option \<times> nat option"

definition item_key :: "legend_item \<Rightarrow> item_key" where
  "item_key i = (li_datasetIndex i, li_index i)"

fun told :: "legend_call list \<Rightarrow> item_key option \<Rightarrow> item_key option option" where
  "told [] cur = Some cur"
| "told (HoverItem i # cs) cur = (if cur = None then told cs (Some (item_key i)) else None)"
| "told (LeaveItem i # cs) cur = (if cur = Some (item_key i) then told cs None else None)"
| "told (ClickItem i # cs) cur = told cs cur"

lemma told_append: "told (cs @ ds) cur = (case told cs cur of Some c \<Rightarrow> told ds c | None \<Rightarrow> None)"
  by (induction cs cur rule: told.induct) auto

lemma itemsEqual_iff: "itemsEqual a b \<longleftrightarrow> a \<noteq> None \<and> map_option item_key a = map_option item_key b"
  by (auto simp: itemsEqual_def item_key_def split: option.split)

lemma told_step:
  assumes "lh_hover h" "lh_leave h" "told (ls_calls st) None = Some (map_option item_key (ls_hovered st))"
  shows "told (ls_calls (legend_handleEvent h (type, item) st)) None = Some (map_option item_key (ls_hovered (legend_handleEvent h (type, item) st)))"
proof -
  consider (hover) "type = ''mousemove'' \<or> type = ''mouseout''" | (other) "type \<noteq> ''mousemove''" "type \<noteq> ''mouseout''" by blast
  then show ?thesis
  proof cases
    case hover
    then have "isListened type h" using assms(1) by (auto simp: isListened_def)
    with hover have st: "legend_handleEvent h (type, item) st = st\<lparr>ls_hovered := item,
        ls_calls := ls_calls st @ (if itemsEqual (ls_hovered st) item then [] else call_if True LeaveItem (ls_hovered st) @ call_if True HoverItem item)\<rparr>"
      using assms(1,2) by (simp add: legend_handleEvent_def Let_def)
    show ?thesis using assms(3) unfolding st
      by (cases "ls_hovered st"; cases item) (simp_all add: told_append call_if_def itemsEqual_iff)
  next
    case other
    show ?thesis using other assms(3)
      by (cases item) (simp_all add: legend_handleEvent_def Let_def told_append call_if_def)
  qed
qed

text \<open>
  Whatever happens over a legend that listens to hovering and leaving, an item is entered only
  when none is and left only when it was the one entered, and the item entered at any moment is the
  hovered one.
\<close>

theorem hovering_balanced:
  assumes "lh_hover h" "lh_leave h"
  shows "told (ls_calls (fold (legend_handleEvent h) events \<lparr>ls_hovered = None, ls_calls = []\<rparr>)) None =
    Some (map_option item_key (ls_hovered (fold (legend_handleEvent h) events \<lparr>ls_hovered = None, ls_calls = []\<rparr>)))"
proof (induction events rule: rev_induct)
  case (snoc ev events)
  obtain type item where "ev = (type, item)" by fastforce
  with told_step[OF assms snoc, of type item] show ?case by (simp only: fold_append o_apply fold_simps id_apply)
qed simp

definition item_a :: legend_item where "item_a = \<lparr>li_datasetIndex = Some 0, li_index = None, li_text = ''a''\<rparr>"

definition item_b :: legend_item where "item_b = \<lparr>li_datasetIndex = Some 1, li_index = None, li_text = ''b''\<rparr>"

theorem hovering_balanced_witness:
  "let h = \<lparr>lh_hover = True, lh_leave = True, lh_click = True\<rparr>;
       st = fold (legend_handleEvent h) [(''mousemove'', Some item_a), (''mousemove'', Some item_b), (''click'', Some item_b)]
              \<lparr>ls_hovered = None, ls_calls = []\<rparr>
   in ls_calls st = [HoverItem item_a, LeaveItem item_a, HoverItem item_b, ClickItem item_b] \<and> told (ls_calls st) None = Some (Some (Some 1, None))"
proof -
  let ?h = "\<lparr>lh_hover = True, lh_leave = True, lh_click = True\<rparr>"
  let ?events = "[(''mousemove'', Some item_a), (''mousemove'', Some item_b), (''click'', Some item_b)]"
  let ?st = "fold (legend_handleEvent ?h) ?events \<lparr>ls_hovered = None, ls_calls = []\<rparr>"
  have "ls_calls ?st = [HoverItem item_a, LeaveItem item_a, HoverItem item_b, ClickItem item_b]" by code_simp
  moreover have "map_option item_key (ls_hovered ?st) = Some (Some 1, None)" by code_simp
  ultimately show ?thesis using hovering_balanced[of ?h ?events] by (simp add: Let_def)
qed

end
