(* ===== verification/AjaxBasic.thy ===== *)
theory AjaxBasic
  imports JsPrelude
begin

text \<open>
  The ajax helpers of the pages, \<open>js/ajaxbasic.js\<close>: reading tags of an XML reply, the two
  request functions with their ready-state handlers, and the serialisation of a form.  The
  document tree and the request object are the platform's; a reply is a tree of elements and
  texts, a request is the record of what was set on it before \<open>send\<close>.
\<close>

section \<open>Reading an XML reply\<close>

datatype xml_node = XElem string "xml_node list" | XText string

text \<open>\<open>getElementsByTagName\<close>: the elements of that name, in document order.\<close>

fun elements_named :: "string \<Rightarrow> xml_node \<Rightarrow> xml_node list" where
  "elements_named tag (XText _) = []"
| "elements_named tag (XElem n cs) =
     (if tag = n \<or> tag = ''*'' then [XElem n cs] else []) @ concat (map (elements_named tag) cs)"

fun first_child :: "xml_node \<Rightarrow> xml_node option" where
  "first_child (XElem _ (c # _)) = Some c"
| "first_child _ = None"

text \<open>\<open>nodeValue\<close> is the text of a text node and null on an element.\<close>

fun node_value :: "xml_node \<Rightarrow> jsval" where
  "node_value (XText s) = VStr s"
| "node_value (XElem _ _) = VNull"

text \<open>
  A missing document or an element without a child makes the property access throw; both
  functions catch it, with different results.
\<close>

definition tag_data :: "string \<Rightarrow> xml_node option \<Rightarrow> string \<Rightarrow> jsval" where
  "tag_data caught doc tag =
     (case doc of
        None \<Rightarrow> VStr caught
      | Some d \<Rightarrow>
          (case elements_named tag d of
             [] \<Rightarrow> VStr []
           | e # _ \<Rightarrow> (case first_child e of None \<Rightarrow> VStr caught | Some c \<Rightarrow> node_value c)))"

definition getDataFromTag :: "xml_node option \<Rightarrow> string \<Rightarrow> jsval" where
  "getDataFromTag doc tag = tag_data [] doc tag"

definition getDataFromTagWithDefault :: "xml_node option \<Rightarrow> string \<Rightarrow> jsval" where
  "getDataFromTagWithDefault doc tag = tag_data ''-'' doc tag"

definition hasError :: "xml_node option \<Rightarrow> int" where
  "hasError doc =
     (case doc of None \<Rightarrow> 0 | Some d \<Rightarrow> (if elements_named ''Error'' d \<noteq> [] then 1 else 0))"

text \<open>
  \<open>showError\<close> alerts error by error; an error element without a child makes it throw (the flag)
  after the alerts before it.  A null in the concatenation reads as text.
\<close>

definition value_text :: "jsval \<Rightarrow> string" where
  "value_text v = (case v of VStr s \<Rightarrow> s | _ \<Rightarrow> ''null'')"

fun alert_errors :: "xml_node list \<Rightarrow> string list \<times> bool" where
  "alert_errors [] = ([], False)"
| "alert_errors (e # es) =
     (case first_child e of
        None \<Rightarrow> ([], True)
      | Some c \<Rightarrow> (let (alerts, threw) = alert_errors es
                  in ((''Error: '' @ value_text (node_value c)) # alerts, threw)))"

definition showError :: "xml_node option \<Rightarrow> string list \<times> bool" where
  "showError doc = (case doc of None \<Rightarrow> ([], True) | Some d \<Rightarrow> alert_errors (elements_named ''Error'' d))"

lemma elements_named_tag:
  "e \<in> set (elements_named tag d) \<Longrightarrow> tag \<noteq> ''*'' \<Longrightarrow> \<exists>cs. e = XElem tag cs"
  by (induction tag d rule: elements_named.induct) (auto split: if_splits)

lemma alert_errors_all:
  "(\<And>e. e \<in> set es \<Longrightarrow> first_child e \<noteq> None) \<Longrightarrow>
     alert_errors es = (map (\<lambda>e. ''Error: '' @ value_text (node_value (the (first_child e)))) es, False)"
proof (induction es)
  case Nil
  then show ?case by simp
next
  case (Cons e es)
  then obtain c where "first_child e = Some c" by fastforce
  with Cons show ?case by simp
qed

text \<open>
  The error report of a reply is complete: when no error element is empty, there is one
  alert per error element in document order and nothing is thrown, and there is an alert exactly
  when \<open>hasError\<close> says so.
\<close>

theorem showError_reports:
  assumes "\<And>e. e \<in> set (elements_named ''Error'' d) \<Longrightarrow> first_child e \<noteq> None"
  shows "showError (Some d) =
      (map (\<lambda>e. ''Error: '' @ value_text (node_value (the (first_child e)))) (elements_named ''Error'' d), False)
    \<and> (hasError (Some d) = 1 \<longleftrightarrow> fst (showError (Some d)) \<noteq> [])"
  using alert_errors_all[OF assms] by (auto simp: showError_def hasError_def)

theorem showError_reports_witness:
  "showError (Some (XElem ''r'' [XElem ''Error'' [XText ''disk''], XElem ''a'' [XElem ''Error'' [XText ''net'']]])) =
     ([''Error: disk'', ''Error: net''], False)"
proof -
  let ?d = "XElem ''r'' [XElem ''Error'' [XText ''disk''], XElem ''a'' [XElem ''Error'' [XText ''net'']]]"
  have "first_child e \<noteq> None" if "e \<in> set (elements_named ''Error'' ?d)" for e
    using that by auto
  from showError_reports[of ?d, OF this] show ?thesis
    by (simp add: value_text_def)
qed

text \<open>
  The variant with a default returns it for an empty tag only: for a tag that is missing it
  returns the empty text like the plain function.
\<close>

lemma tag_defaults:
  "getDataFromTagWithDefault (Some (XElem ''r'' [])) ''a'' = VStr []"
  "getDataFromTagWithDefault (Some (XElem ''r'' [XElem ''a'' []])) ''a'' = VStr ''-''"
  "getDataFromTag (Some (XElem ''r'' [XElem ''a'' []])) ''a'' = VStr []"
  by (simp_all add: getDataFromTagWithDefault_def getDataFromTag_def tag_data_def)

section \<open>Requests\<close>

record xhr_env =
  has_activex :: bool
  has_xhr :: bool
  clock :: nat

record xhr_request =
  rq_method :: string
  rq_url :: string
  rq_async :: bool
  rq_headers :: "(string \<times> string) list"
  rq_body :: "string option"
  rq_handled :: bool

record xhr_outcome =
  xo_alerts :: "string list"
  xo_code :: int
  xo_sent :: "xhr_request option"

definition xhr_available :: "xhr_env \<Rightarrow> bool" where
  "xhr_available env \<longleftrightarrow> has_activex env \<or> has_xhr env"

definition no_xhr :: xhr_outcome where
  "no_xhr = \<lparr>xo_alerts = [''Your browser does not support XMLHttp''], xo_code = -1, xo_sent = None\<rparr>"

definition with_time :: "xhr_env \<Rightarrow> string \<Rightarrow> string" where
  "with_time env s = s @ ''&T='' @ show_nat (clock env)"

text \<open>The argument \<open>unique\<close> is absent (undefined) or a boolean.\<close>

definition XHRGet :: "xhr_env \<Rightarrow> bool \<Rightarrow> string \<Rightarrow> bool \<Rightarrow> bool option \<Rightarrow> xhr_outcome" where
  "XHRGet env handle url async unique =
     (if \<not> xhr_available env then no_xhr
      else \<lparr>xo_alerts = [], xo_code = 0,
            xo_sent = Some \<lparr>rq_method = ''GET'',
              rq_url = (if unique = None \<or> unique = Some True then with_time env url else url),
              rq_async = async, rq_headers = [], rq_body = None, rq_handled = handle\<rparr>\<rparr>)"

definition XHRPost :: "xhr_env \<Rightarrow> bool \<Rightarrow> string \<Rightarrow> string \<Rightarrow> bool \<Rightarrow> xhr_outcome" where
  "XHRPost env handle url param async =
     (if \<not> xhr_available env then no_xhr
      else \<lparr>xo_alerts = [], xo_code = 0,
            xo_sent = Some \<lparr>rq_method = ''POST'', rq_url = url, rq_async = async,
              rq_headers = [(''Content-type'', ''application/x-www-form-urlencoded'')],
              rq_body = Some (with_time env param), rq_handled = handle\<rparr>\<rparr>)"

text \<open>
  The ready-state handlers of the two functions are the same test; a run of a request is the
  sequence of its ready-state changes, each with the status and the document of that moment.
\<close>

definition XHRGetHandle :: "nat \<Rightarrow> nat \<Rightarrow> 'd \<Rightarrow> 'd option" where
  "XHRGetHandle readyState status doc = (if readyState = 4 \<and> status = 200 then Some doc else None)"

definition XHRPostHandle :: "nat \<Rightarrow> nat \<Rightarrow> 'd \<Rightarrow> 'd option" where
  "XHRPostHandle readyState status doc = (if readyState = 4 \<and> status = 200 then Some doc else None)"

definition handled_documents :: "bool \<Rightarrow> (nat \<times> nat \<times> 'd) list \<Rightarrow> 'd list" where
  "handled_documents handle changes =
     (if handle then List.map_filter (\<lambda>(r, s, d). XHRGetHandle r s d) changes else [])"

lemma handled_once:
  assumes "\<forall>c \<in> set early. fst c \<noteq> 4"
  shows "handled_documents True (early @ [(4, status, doc)]) = (if status = 200 then [doc] else [])"
proof -
  have "List.map_filter (\<lambda>(r, s, d). XHRGetHandle r s d) early = []"
    using assms by (induction early) (auto simp: map_filter_simps XHRGetHandle_def)
  then show ?thesis
    unfolding handled_documents_def List.map_filter_def by (simp add: XHRGetHandle_def)
qed

section \<open>Serialising a form\<close>

record form_field =
  ff_id :: string
  ff_value :: string

definition included :: "form_field \<Rightarrow> bool" where
  "included e \<longleftrightarrow> ff_id e \<noteq> [] \<and> ff_value e \<noteq> []"

fun serialize_loop :: "nat \<Rightarrow> string \<Rightarrow> form_field list \<Rightarrow> string" where
  "serialize_loop i str [] = str"
| "serialize_loop i str (e # es) =
     serialize_loop (Suc i)
       (if included e then (if i \<noteq> 0 then str @ ''&'' else str) @ ff_id e @ ''='' @ ff_value e else str) es"

definition serializeFormElement :: "form_field list \<Rightarrow> string" where
  "serializeFormElement es = serialize_loop 0 [] es"

text \<open>What a receiver reads: the pairs between the ampersands, empty pieces left out.\<close>

definition parse_pair :: "string \<Rightarrow> string \<times> string" where
  "parse_pair w = (takeWhile (\<lambda>c. c \<noteq> CHR ''='') w, tl (dropWhile (\<lambda>c. c \<noteq> CHR ''='') w))"

definition parse_query :: "string \<Rightarrow> (string \<times> string) list" where
  "parse_query s = map parse_pair (filter (\<lambda>w. w \<noteq> []) (split_char CHR ''&'' s))"

lemma parse_pair_field: "CHR ''='' \<notin> set k \<Longrightarrow> parse_pair (k @ ''='' @ v) = (k, v)"
  by (induction k) (auto simp: parse_pair_def)

lemma split_char_snoc:
  "split_char c (s @ c # t) = split_char c s @ split_char c t"
proof (induction s)
  case Nil
  then show ?case by simp
next
  case (Cons x xs)
  obtain w ws where "split_char c xs = w # ws"
    using split_char_nonempty by (meson neq_Nil_conv)
  with Cons show ?case by auto
qed

definition plain_field :: "form_field \<Rightarrow> bool" where
  "plain_field e \<longleftrightarrow> CHR ''&'' \<notin> set (ff_id e) \<and> CHR ''='' \<notin> set (ff_id e) \<and> CHR ''&'' \<notin> set (ff_value e)"

lemma parse_query_field:
  assumes "included e" "plain_field e"
  shows "parse_query (ff_id e @ ''='' @ ff_value e) = [(ff_id e, ff_value e)]"
    and "parse_query (s @ ''&'' @ ff_id e @ ''='' @ ff_value e) = parse_query s @ [(ff_id e, ff_value e)]"
proof -
  let ?w = "ff_id e @ ''='' @ ff_value e"
  have "CHR ''&'' \<notin> set ?w" using assms by (simp add: plain_field_def)
  then have w: "split_char CHR ''&'' ?w = [?w]" by (rule split_char_word)
  have p: "parse_pair ?w = (ff_id e, ff_value e)"
    using assms by (intro parse_pair_field) (simp add: plain_field_def)
  show "parse_query ?w = [(ff_id e, ff_value e)]"
    using p by (simp add: parse_query_def w del: append_Cons)
  have "split_char CHR ''&'' (s @ ''&'' @ ?w) = split_char CHR ''&'' s @ [?w]"
    using split_char_snoc[of "CHR ''&''" s ?w] w by simp
  then show "parse_query (s @ ''&'' @ ?w) = parse_query s @ [(ff_id e, ff_value e)]"
    using p by (simp add: parse_query_def del: append_Cons)
qed

lemma parse_serialize_loop:
  assumes "\<forall>e \<in> set es. plain_field e" and "i = 0 \<Longrightarrow> str = []"
  shows "parse_query (serialize_loop i str es) =
    parse_query str @ map (\<lambda>e. (ff_id e, ff_value e)) (filter included es)"
  using assms
proof (induction es arbitrary: i str)
  case Nil
  then show ?case by simp
next
  case (Cons e es)
  have pe: "plain_field e" using Cons.prems by simp
  have nil: "parse_query [] = []" by (simp add: parse_query_def)
  let ?s = "if included e then (if i \<noteq> 0 then str @ ''&'' else str) @ ff_id e @ ''='' @ ff_value e else str"
  have "parse_query ?s = parse_query str @ (if included e then [(ff_id e, ff_value e)] else [])"
    using parse_query_field[OF _ pe] Cons.prems(2) nil by (cases "i = 0") auto
  with Cons.IH[of "Suc i" ?s] Cons.prems show ?case
    by simp
qed

text \<open>
  Serialising a form loses no field and invents none: whatever fields are skipped for want
  of an id or a value, and wherever they stand, a receiver that ignores empty pieces reads the
  ids and values of the other fields, in their order (for ids and values without the two
  separator characters, which the function does not escape).
\<close>

theorem serialize_fields:
  assumes "\<forall>e \<in> set es. plain_field e"
  shows "parse_query (serializeFormElement es) = map (\<lambda>e. (ff_id e, ff_value e)) (filter included es)"
  using parse_serialize_loop[OF assms, of 0 "[]"]
  by (simp add: serializeFormElement_def parse_query_def)

theorem serialize_fields_witness:
  "parse_query (serializeFormElement
     [\<lparr>ff_id = ''a'', ff_value = []\<rparr>, \<lparr>ff_id = ''b'', ff_value = ''1=2''\<rparr>, \<lparr>ff_id = ''c'', ff_value = ''3''\<rparr>]) =
   [(''b'', ''1=2''), (''c'', ''3'')]"
  by (subst serialize_fields) (simp_all add: plain_field_def included_def)

text \<open>
  A skipped first field leaves the separator in front: the text then begins with an ampersand.
\<close>

lemma serialize_leading_separator:
  "serializeFormElement [\<lparr>ff_id = [], ff_value = ''x''\<rparr>, \<lparr>ff_id = ''b'', ff_value = ''1''\<rparr>] = ''&b=1''"
  by (simp add: serializeFormElement_def included_def)

end
