(* ===== verification/AjaxUpload.thy ===== *)
theory AjaxUpload
  imports JsPrelude
begin

text \<open>
  The upload helper of the pages, \<open>js/ajaxfileupload.js\<close>: the hidden frame and form it builds,
  the life of an upload from the submission to its single completion (by the load of the frame
  or by the timer), the counter of running requests, and the decoding of the reply.  The
  callbacks of the caller are given by whether they are set and whether they throw; what the
  frame shows when it loads is an input.
\<close>

section \<open>The frame and the form\<close>

definition createUploadIframe :: "bool \<Rightarrow> string \<Rightarrow> jsval \<Rightarrow> string" where
  "createUploadIframe activex ident uri =
     (let frameId = ''jUploadFrame'' @ ident in
      ''<iframe id=\"'' @ frameId @ ''\" name=\"'' @ frameId
        @ ''\" style=\"position:absolute; top:-9999px; left:-9999px\"''
        @ (if activex then
             (case uri of
                VBool _ \<Rightarrow> '' src=\"'' @ ''javascript:false'' @ ''\"''
              | VStr u \<Rightarrow> '' src=\"'' @ u @ ''\"''
              | _ \<Rightarrow> [])
           else [])
        @ '' />'')"

record upload_form =
  fm_id :: string
  fm_hidden :: "string list"
  fm_file_id :: string
  fm_style :: "(string \<times> string) list"

definition hidden_input :: "string \<times> string \<Rightarrow> string" where
  "hidden_input p =
     ''<input type=\"hidden\" name=\"'' @ fst p @ ''\" value=\"'' @ snd p @ ''\" />''"

definition createUploadForm :: "string \<Rightarrow> (string \<times> string) list option \<Rightarrow> upload_form" where
  "createUploadForm ident data =
     \<lparr>fm_id = ''jUploadForm'' @ ident,
      fm_hidden = (case data of None \<Rightarrow> [] | Some d \<Rightarrow> map hidden_input d),
      fm_file_id = ''jUploadFile'' @ ident,
      fm_style = [(''position'', ''absolute''), (''top'', ''-1200px''), (''left'', ''-1200px'')]\<rparr>"

section \<open>Decoding the reply\<close>

text \<open>\<open>replace(/pat/g, r)\<close> for a literal pattern.\<close>

fun replace_all :: "string \<Rightarrow> string \<Rightarrow> string \<Rightarrow> string" where
  "replace_all pat r [] = []"
| "replace_all pat r (c # cs) =
     (if pat \<noteq> [] \<and> starts_with (c # cs) pat
      then r @ replace_all pat r (drop (length pat - 1) cs)
      else c # replace_all pat r cs)"

definition unescape :: "string \<Rightarrow> string" where
  "unescape s =
     replace_all ''&apos;'' [CHR 0x27]
       (replace_all ''&quot;'' ''\"''
         (replace_all ''&amp;'' ''&''
           (replace_all ''&gt;'' ''>'' (replace_all ''&lt;'' ''<'' s))))"

record upload_reply =
  rp_text :: "string option"
  rp_xml :: jsval

definition uploadHttpData :: "upload_reply \<Rightarrow> jsval" where
  "uploadHttpData r = (case rp_text r of None \<Rightarrow> rp_xml r | Some t \<Rightarrow> VStr (unescape t))"

text \<open>What \<open>innerHTML\<close> makes of a text: only these three characters are escaped.\<close>

definition escape_char :: "char \<Rightarrow> string" where
  "escape_char c =
     (if c = CHR ''&'' then ''&amp;'' else if c = CHR ''<'' then ''&lt;''
      else if c = CHR ''>'' then ''&gt;'' else [c])"

definition inner_html :: "string \<Rightarrow> string" where
  "inner_html t = concat (map escape_char t)"

fun has_substring :: "string \<Rightarrow> string \<Rightarrow> bool" where
  "has_substring pat [] = (pat = [])"
| "has_substring pat (c # cs) = (starts_with (c # cs) pat \<or> has_substring pat cs)"

lemma replace_all_absent: "\<not> has_substring pat s \<Longrightarrow> replace_all pat r s = s"
  by (induction pat r s rule: replace_all.induct) auto

lemma starts_with_Cons [simp]:
  "starts_with (c # cs) (p # ps) \<longleftrightarrow> c = p \<and> starts_with cs ps"
  by (auto simp: starts_with_def)

lemma starts_with_Nil [simp]: "starts_with s []"
  by (simp add: starts_with_def)

lemma starts_with_empty [simp]: "starts_with [] p \<longleftrightarrow> p = []"
  by (auto simp: starts_with_def)

lemma replace_lt:
  "replace_all ''&lt;'' ''<'' (concat (map escape_char t)) =
     concat (map (\<lambda>c. if c = CHR ''<'' then ''<'' else escape_char c) t)"
  by (induction t) (simp_all add: escape_char_def)

lemma replace_gt:
  "replace_all ''&gt;'' ''>'' (concat (map (\<lambda>c. if c = CHR ''<'' then ''<'' else escape_char c) t)) =
     concat (map (\<lambda>c. if c = CHR ''&'' then ''&amp;'' else [c]) t)"
  by (induction t) (simp_all add: escape_char_def)

lemma replace_amp:
  "replace_all ''&amp;'' ''&'' (concat (map (\<lambda>c. if c = CHR ''&'' then ''&amp;'' else [c]) t)) = t"
  by (induction t) simp_all

text \<open>
  The reply of an upload is decoded to the text the server sent: from what \<open>innerHTML\<close>
  makes of a text body, the decoding gives the body back (for a body that does not itself
  contain one of the two quote entities, which the last two replacements would turn into
  quotes).
\<close>

theorem uploadHttpData_text:
  assumes "\<not> has_substring ''&quot;'' t" "\<not> has_substring ''&apos;'' t"
  shows "uploadHttpData \<lparr>rp_text = Some (inner_html t), rp_xml = d\<rparr> = VStr t"
  by (simp only: uploadHttpData_def unescape_def inner_html_def upload_reply.simps option.simps
      replace_lt replace_gt replace_amp replace_all_absent[OF assms(1)] replace_all_absent[OF assms(2)])

theorem uploadHttpData_text_witness:
  "uploadHttpData \<lparr>rp_text = Some (inner_html ''{a:1<2 &lt; \"b\"}''), rp_xml = VNull\<rparr> =
     VStr ''{a:1<2 &lt; \"b\"}''"
  by (rule uploadHttpData_text) simp_all

text \<open>A quote entity in the body is decoded twice.\<close>

lemma uploadHttpData_twice:
  "uploadHttpData \<lparr>rp_text = Some (inner_html ''&quot;''), rp_xml = VNull\<rparr> = VStr ''\"''"
  by (simp add: uploadHttpData_def unescape_def inner_html_def escape_char_def)

section \<open>The life of an upload\<close>

text \<open>
  A callback is absent (\<open>None\<close>) or present with the flag whether it throws.  The frame, when a
  callback looks at it, is unreadable (gone, or of another origin) or shows a body and a
  document.
\<close>

record upload_settings =
  us_global :: bool
  us_context :: bool
  us_timeout :: int
  us_success :: "bool option"
  us_error :: "bool option"
  us_complete :: "bool option"

datatype upload_event =
    AjaxStart | AjaxSend | AjaxSuccess | AjaxError bool | AjaxComplete | AjaxStop
  | SuccessCall jsval | ErrorCall | CompleteCall string | Unbound

record upload_state =
  up_active :: int
  up_done :: bool
  up_xml :: "upload_reply option"
  up_timer :: bool
  up_attached :: bool
  up_cleanups :: nat
  up_trace :: "upload_event list"

definition emit :: "upload_event list \<Rightarrow> upload_state \<Rightarrow> upload_state" where
  "emit es st = st\<lparr>up_trace := up_trace st @ es\<rparr>"

text \<open>The error report: the local callback, then the global event unless the callback threw.\<close>

definition handleError :: "upload_settings \<Rightarrow> upload_event list \<times> bool" where
  "handleError s =
     (let called = (if us_error s = None then [] else [ErrorCall]) in
      if us_error s = Some True then (called, True)
      else (called @ (if us_global s then [AjaxError (us_context s)] else []), False))"

type_synonym frame_view = "upload_reply option"

text \<open>
  Steps of \<open>uploadCallback\<close>: reading the frame (an error is caught, and so is the assignment to
  the reply after it was dropped), the notification of the outcome in the two nested blocks,
  and the bookkeeping after it.  The second components are the status and whether an exception
  leaves the callback.
\<close>

definition read_frame :: "frame_view \<Rightarrow> upload_state \<Rightarrow> upload_state" where
  "read_frame view st =
     (case (up_xml st, view) of (Some _, Some r) \<Rightarrow> st\<lparr>up_xml := Some r\<rparr> | _ \<Rightarrow> st)"

definition report_outcome :: "upload_settings \<Rightarrow> bool \<Rightarrow> upload_state \<Rightarrow> upload_event list \<times> string \<times> bool" where
  "report_outcome s timed_out st =
     (if timed_out then
        (let (es, threw) = handleError s in
         if threw then (let (es', threw') = handleError s in (es @ es', ''error'', threw'))
         else (es, ''error'', False))
      else
        (let data = (case up_xml st of Some r \<Rightarrow> uploadHttpData r | None \<Rightarrow> VUndef);
             called = (if us_success s = None then [] else [SuccessCall data])
         in if us_success s = Some True \<or> up_xml st = None
            then (let (es, threw) = handleError s in
                  ((if up_xml st = None then [] else called) @ es, ''error'', threw))
            else (called @ (if us_global s then [AjaxSuccess] else []), ''success'', False)))"

definition finish_upload :: "upload_settings \<Rightarrow> string \<Rightarrow> upload_state \<Rightarrow> upload_state" where
  "finish_upload s status st =
     (let st = (if us_global s
                then emit (AjaxComplete # (if up_active st = 1 then [AjaxStop] else []))
                       (st\<lparr>up_active := up_active st - 1\<rparr>)
                else st);
          st = (if us_complete s = None then st else emit [CompleteCall status] st)
      in if us_complete s = Some True then st
         else (emit [Unbound] st)\<lparr>up_cleanups := up_cleanups st + 1, up_xml := None\<rparr>)"

definition uploadCallback :: "upload_settings \<Rightarrow> bool \<Rightarrow> frame_view \<Rightarrow> upload_state \<Rightarrow> upload_state" where
  "uploadCallback s timed_out view st =
     (let st = read_frame view st in
      if up_xml st = None \<and> \<not> timed_out then st
      else
        (let (es, status, escaped) = report_outcome s timed_out st;
             st = emit es (st\<lparr>up_done := True\<rparr>)
         in if escaped then st else finish_upload s status st))"

text \<open>
  The start: counter, events, timer, then the submission, whose exception is reported; if that
  report throws, the load handler is never attached.
\<close>

definition ajaxFileUpload :: "upload_settings \<Rightarrow> bool \<Rightarrow> int \<Rightarrow> upload_state" where
  "ajaxFileUpload s submit_throws active =
     (let starts = (if us_global s \<and> active = 0 then [AjaxStart] else []);
          sends = (if us_global s then [AjaxSend] else []);
          (es, escaped) = (if submit_throws then handleError s else ([], False))
      in \<lparr>up_active = (if us_global s then active + 1 else active), up_done = False,
          up_xml = Some \<lparr>rp_text = None, rp_xml = VUndef\<rparr>, up_timer = (us_timeout s > 0),
          up_attached = (\<not> escaped), up_cleanups = 0, up_trace = starts @ sends @ es\<rparr>)"

datatype upload_input = Load frame_view | TimerFires frame_view

fun upload_step :: "upload_settings \<Rightarrow> upload_state \<Rightarrow> upload_input \<Rightarrow> upload_state" where
  "upload_step s st (Load view) = (if up_attached st then uploadCallback s False view st else st)"
| "upload_step s st (TimerFires view) =
     (if up_timer st
      then (let st = st\<lparr>up_timer := False\<rparr> in
            if up_done st then st else uploadCallback s True view st)
      else st)"

definition upload_run :: "upload_settings \<Rightarrow> upload_state \<Rightarrow> upload_input list \<Rightarrow> upload_state" where
  "upload_run s st ins = foldl (upload_step s) st ins"

fun completes :: "upload_settings \<Rightarrow> upload_input \<Rightarrow> bool" where
  "completes s (Load _) = True"
| "completes s (TimerFires _) = (us_timeout s > 0)"

fun is_finish :: "upload_event \<Rightarrow> bool" where
  "is_finish Unbound = True"
| "is_finish _ = False"

fun is_outcome :: "upload_event \<Rightarrow> bool" where
  "is_outcome (CompleteCall _) = True"
| "is_outcome _ = False"

text \<open>The two phases of an upload whose callbacks do not throw: before and after its completion.\<close>

definition quiet_settings :: "upload_settings \<Rightarrow> bool" where
  "quiet_settings s \<longleftrightarrow> us_error s \<noteq> Some True \<and> us_complete s \<noteq> Some True"

definition pending :: "upload_settings \<Rightarrow> int \<Rightarrow> upload_state \<Rightarrow> bool" where
  "pending s active st \<longleftrightarrow> \<not> up_done st \<and> up_xml st \<noteq> None \<and> up_attached st
     \<and> (up_timer st \<longleftrightarrow> us_timeout s > 0)
     \<and> up_active st = active + (if us_global s then 1 else 0) \<and> up_cleanups st = 0
     \<and> filter is_finish (up_trace st) = [] \<and> filter is_outcome (up_trace st) = []"

definition completed :: "upload_settings \<Rightarrow> int \<Rightarrow> upload_state \<Rightarrow> bool" where
  "completed s active st \<longleftrightarrow> up_done st \<and> up_xml st = None \<and> up_attached st
     \<and> up_active st = active \<and> up_cleanups st = 1
     \<and> filter is_finish (up_trace st) = [Unbound]
     \<and> length (filter is_outcome (up_trace st)) = (if us_complete s = None then 0 else 1)"

lemma handleError_quiet:
  "us_error s \<noteq> Some True \<Longrightarrow> handleError s = (es, threw) \<Longrightarrow>
     \<not> threw \<and> filter is_finish es = [] \<and> filter is_outcome es = []"
  by (auto simp: handleError_def Let_def split: if_splits)

lemma report_outcome_quiet:
  assumes "us_error s \<noteq> Some True" "report_outcome s timed_out st = (es, status, escaped)"
  shows "\<not> escaped \<and> filter is_finish es = [] \<and> filter is_outcome es = []"
proof -
  obtain hs ht where h: "handleError s = (hs, ht)" by (cases "handleError s")
  from handleError_quiet[OF assms(1) h] assms(2) show ?thesis
    by (auto simp: report_outcome_def h Let_def split: if_splits)
qed

lemma callback_completes:
  assumes "quiet_settings s" "pending s active st"
  shows "completed s active (uploadCallback s timed_out view st)"
proof -
  obtain es status escaped where r: "report_outcome s timed_out (read_frame view st) = (es, status, escaped)"
    by (cases "report_outcome s timed_out (read_frame view st)") auto
  have q: "\<not> escaped" "filter is_finish es = []" "filter is_outcome es = []"
    using report_outcome_quiet[OF _ r] assms(1) by (simp_all add: quiet_settings_def)
  obtain x where x: "up_xml (read_frame view st) = Some x"
    using assms(2) by (cases view) (auto simp: pending_def read_frame_def)
  have keep: "up_attached (read_frame view st) = up_attached st" "up_active (read_frame view st) = up_active st"
    "up_cleanups (read_frame view st) = up_cleanups st" "up_trace (read_frame view st) = up_trace st"
    by (simp_all add: read_frame_def split: option.splits)
  have e: "uploadCallback s timed_out view st =
      finish_upload s status (emit es ((read_frame view st)\<lparr>up_done := True\<rparr>))"
    using q(1) by (simp add: uploadCallback_def r x Let_def)
  show ?thesis
    unfolding e using assms q(2,3) keep
    by (cases "us_complete s"; cases "us_global s")
       (simp_all add: completed_def pending_def quiet_settings_def finish_upload_def emit_def Let_def)
qed

lemma completed_step:
  assumes "completed s active st"
  shows "completed s active (upload_step s st i)"
proof (cases i)
  case (Load view)
  with assms show ?thesis
    by (simp add: completed_def uploadCallback_def read_frame_def Let_def split: option.splits)
next
  case (TimerFires view)
  with assms show ?thesis by (simp add: completed_def Let_def)
qed

lemma pending_step:
  assumes "quiet_settings s" "pending s active st"
  shows "if completes s i then completed s active (upload_step s st i) else upload_step s st i = st"
proof (cases i)
  case (Load view)
  have "up_attached st" using assms(2) by (simp add: pending_def)
  with callback_completes[OF assms] Load show ?thesis by simp
next
  case (TimerFires view)
  have t: "up_timer st \<longleftrightarrow> us_timeout s > 0" "\<not> up_done st" using assms(2) by (simp_all add: pending_def)
  have pend: "pending s' active (st\<lparr>up_timer := False\<rparr>)"
    if "s' = s\<lparr>us_timeout := 0\<rparr>" for s'
    using assms(2) that by (simp add: pending_def)
  have same: "uploadCallback (s\<lparr>us_timeout := 0\<rparr>) True view st' = uploadCallback s True view st'" for st'
    by (simp add: uploadCallback_def report_outcome_def handleError_def finish_upload_def Let_def)
  have "completed (s\<lparr>us_timeout := 0\<rparr>) active (uploadCallback (s\<lparr>us_timeout := 0\<rparr>) True view (st\<lparr>up_timer := False\<rparr>))"
    using assms(1) by (intro callback_completes pend) (simp_all add: quiet_settings_def)
  then have "completed s active (uploadCallback s True view (st\<lparr>up_timer := False\<rparr>))"
    unfolding same by (simp add: completed_def)
  with TimerFires t show ?thesis by (simp add: Let_def)
qed

lemma upload_run_phases:
  assumes "quiet_settings s" "pending s active st"
  shows "if \<exists>i \<in> set ins. completes s i then completed s active (upload_run s st ins)
         else upload_run s st ins = st"
  using assms
proof (induction ins arbitrary: st)
  case Nil
  then show ?case by (simp add: upload_run_def)
next
  case (Cons i ins)
  have stay: "completed s active st' \<Longrightarrow> completed s active (upload_run s st' ins)" for st'
    unfolding upload_run_def by (induction ins arbitrary: st') (simp_all add: completed_step)
  have step: "upload_run s st (i # ins) = upload_run s (upload_step s st i) ins"
    by (simp add: upload_run_def)
  show ?case
  proof (cases "completes s i")
    case True
    then have "completed s active (upload_step s st i)"
      using pending_step[OF Cons.prems, of i] by simp
    with stay True show ?thesis by (simp add: step)
  next
    case False
    then have "upload_step s st i = st" using pending_step[OF Cons.prems, of i] by simp
    with Cons.IH[OF Cons.prems] False show ?thesis by (simp add: step)
  qed
qed

text \<open>
  C13. An upload completes exactly once: with callbacks for errors and for completion that do not
  throw (the one for success may), whatever loads of the frame and whatever timer arrive in
  whatever order, the completion callback runs once if a load or a due timer arrived and not at
  all otherwise; the counter of running requests is back at its value exactly then; and the frame
  and the form are scheduled for removal once.
\<close>

theorem upload_completes_once:
  assumes "quiet_settings s" and "st = upload_run s (ajaxFileUpload s submit_throws active) ins"
    and "finished = (\<exists>i \<in> set ins. completes s i)"
  shows "length (filter is_outcome (up_trace st)) = (if finished \<and> us_complete s \<noteq> None then 1 else 0)
    \<and> length (filter is_finish (up_trace st)) = (if finished then 1 else 0)
    \<and> up_active st = active + (if us_global s \<and> \<not> finished then 1 else 0)
    \<and> up_cleanups st = (if finished then 1 else 0)"
proof -
  obtain es threw where h: "handleError s = (es, threw)" by (cases "handleError s")
  have "pending s active (ajaxFileUpload s submit_throws active)"
    using handleError_quiet[OF _ h] assms(1)
    by (cases submit_throws) (auto simp: pending_def ajaxFileUpload_def h quiet_settings_def Let_def)
  then have start: "pending s active (ajaxFileUpload s submit_throws active)" .
  show ?thesis
  proof (cases finished)
    case True
    then have "completed s active st"
      using upload_run_phases[OF assms(1) start, of ins] by (simp add: assms(2,3))
    with True show ?thesis by (simp add: completed_def)
  next
    case False
    then have "st = ajaxFileUpload s submit_throws active"
      using upload_run_phases[OF assms(1) start, of ins] by (simp add: assms(2,3))
    with False start show ?thesis by (simp add: pending_def)
  qed
qed

definition plain_upload :: upload_settings where
  "plain_upload = \<lparr>us_global = True, us_context = False, us_timeout = 5000, us_success = Some True,
     us_error = Some False, us_complete = Some False\<rparr>"

theorem upload_completes_once_witness:
  "length (filter is_outcome (up_trace (upload_run plain_upload (ajaxFileUpload plain_upload False 2)
      [TimerFires None, Load (Some \<lparr>rp_text = Some ''ok'', rp_xml = VNull\<rparr>), Load None]))) = 1"
  using upload_completes_once[OF _ refl refl, of plain_upload False 2
      "[TimerFires None, Load (Some \<lparr>rp_text = Some ''ok'', rp_xml = VNull\<rparr>), Load None]"]
  by (simp add: quiet_settings_def plain_upload_def)

text \<open>
  An error callback that throws at a timeout is called a second time, and the counter of running
  requests is not lowered; the later load of the frame then reports the same upload again.
\<close>

lemma upload_error_throws:
  "let s = plain_upload\<lparr>us_error := Some True, us_success := Some False\<rparr>;
       st = upload_run s (ajaxFileUpload s False 0) [TimerFires None]
   in filter (\<lambda>e. e = ErrorCall) (up_trace st) = [ErrorCall, ErrorCall] \<and> up_active st = 1 \<and>
      filter is_outcome (up_trace (upload_run s st [Load None])) = [CompleteCall ''success'']"
  by code_simp

end
