(* ===== verification/ZeptoParam.thy ===== *)
theory ZeptoParam
  imports AjaxBasic AjaxUpload
begin

text \<open>
  What a request of the pages says (\<open>js/zepto.js\<close>): \<open>$.param\<close> with its recursion over nested
  objects and arrays, the query of the URL, the preparation of the URL and the data by \<open>$.ajax\<close>,
  the arguments of \<open>$.get\<close> and \<open>$.post\<close>, the data type of a reply, and \<open>ajaxSubmit\<close>, the
  submission of a form that the program adds to the library.
\<close>

section \<open>Escaping\<close>

text \<open>\<open>encodeURIComponent\<close> on code units up to 255: a unit that is not reserved stays, another one
  becomes the escaped bytes of its UTF-8 encoding.\<close>

definition hex_digit :: "nat \<Rightarrow> char" where
  "hex_digit n = (if n < 10 then char_of (48 + n) else char_of (55 + n))"

definition escape_byte :: "nat \<Rightarrow> string" where
  "escape_byte n = [CHR ''%'', hex_digit (n div 16), hex_digit (n mod 16)]"

definition unreserved :: "char \<Rightarrow> bool" where
  "unreserved c \<longleftrightarrow> is_upper c \<or> is_lower c \<or> is_digit c \<or> c \<in> set ''-_.!~*()'' \<or> c = CHR 0x27"

definition encode_unit :: "char \<Rightarrow> string" where
  "encode_unit c =
     (let n = (of_char c :: nat)
      in if unreserved c then [c]
         else if n < 128 then escape_byte n
         else escape_byte (192 + n div 64) @ escape_byte (128 + n mod 64))"

definition encodeURIComponent :: "string \<Rightarrow> string" where
  "encodeURIComponent s = concat (map encode_unit s)"

text \<open>The receiver's side: a plus is a space, an escape is a byte, two bytes from 192 on are one unit.\<close>

definition hex_value :: "char \<Rightarrow> nat" where
  "hex_value c = (if is_digit c then (of_char c :: nat) - 48 else (of_char c :: nat) - 55)"

fun form_bytes :: "string \<Rightarrow> nat list" where
  "form_bytes (c # h # l # cs) =
     (if c = CHR ''%'' then (16 * hex_value h + hex_value l) # form_bytes cs
      else (if c = CHR ''+'' then 32 else (of_char c :: nat)) # form_bytes (h # l # cs))"
| "form_bytes (c # cs) = (if c = CHR ''+'' then 32 else (of_char c :: nat)) # form_bytes cs"
| "form_bytes [] = []"

fun utf8_units :: "nat list \<Rightarrow> string" where
  "utf8_units (a # b # bs) =
     (if 192 \<le> a then char_of ((a - 192) * 64 + (b - 128)) # utf8_units bs else char_of a # utf8_units (b # bs))"
| "utf8_units (a # bs) = char_of a # utf8_units bs"
| "utf8_units [] = []"

definition form_decode :: "string \<Rightarrow> string" where
  "form_decode s = utf8_units (form_bytes s)"

definition form_read :: "string \<Rightarrow> (string \<times> string) list" where
  "form_read s = map (\<lambda>(k, v). (form_decode k, form_decode v)) (parse_query s)"

section \<open>Parameters\<close>

text \<open>
  A value of the parameters: a string (numbers and truth values come as their text), null or
  undefined, a function with what it returns, an array or a plain object in the order of its keys (without a
  numeric \<open>length\<close>, which the traversal would take for an array).
\<close>

datatype pval = PText string | PNone | PCall "string option" | PArr "pval list" | PObj "(string \<times> pval) list"

fun add_text :: "pval \<Rightarrow> string" where
  "add_text (PText s) = s"
| "add_text PNone = []"
| "add_text (PCall r) = (case r of Some s \<Rightarrow> s | None \<Rightarrow> [])"
| "add_text (PArr vs) = join '','' (map add_text vs)"
| "add_text (PObj ps) = ''[object Object]''"

text \<open>\<open>params.add(value.name, value.value)\<close>; reading a property of null throws.\<close>

definition add_name_value :: "pval \<Rightarrow> (string \<times> string) list option" where
  "add_name_value v =
     (case v of
        PNone \<Rightarrow> None
      | PObj ps \<Rightarrow> Some [(case obj_get ps ''name'' of Some k \<Rightarrow> add_text k | None \<Rightarrow> ''undefined'',
                         case obj_get ps ''value'' of Some x \<Rightarrow> add_text x | None \<Rightarrow> [])]
      | _ \<Rightarrow> Some [(''undefined'', [])])"

fun index_keys :: "nat \<Rightarrow> pval list \<Rightarrow> (string \<times> pval) list" where
  "index_keys i [] = []"
| "index_keys i (v # vs) = (show_nat i, v) # index_keys (Suc i) vs"

fun is_nested :: "pval \<Rightarrow> bool" where
  "is_nested (PArr _) = True"
| "is_nested (PObj _) = True"
| "is_nested _ = False"

definition scoped_key :: "bool \<Rightarrow> string \<Rightarrow> bool \<Rightarrow> string \<Rightarrow> pval \<Rightarrow> string" where
  "scoped_key traditional scope hash key v =
     (if scope = [] then key
      else if traditional then scope
      else scope @ ''['' @ (if hash \<or> is_nested v then key else []) @ '']'')"

definition entries_size :: "(string \<times> pval) list \<Rightarrow> nat" where
  "entries_size es = sum_list (map (\<lambda>e. Suc (2 * size (snd e))) es)"

lemma entries_size_simps [simp]: "entries_size [] = 0" "entries_size (e # es) = Suc (2 * size (snd e)) + entries_size es"
  by (simp_all add: entries_size_def)

lemma index_keys_size: "entries_size (index_keys i vs) \<le> 2 * size_list size vs"
  by (induction i vs rule: index_keys.induct) simp_all

lemma object_size: "entries_size ps \<le> 2 * size_list (size_prod (\<lambda>_. 0) size) ps"
  by (induction ps) (auto simp: size_prod_simp)

text \<open>The entries of an object (\<open>hash\<close>) or array under a scope; the empty scope counts as none.\<close>

function serialize :: "bool \<Rightarrow> string \<Rightarrow> bool \<Rightarrow> (string \<times> pval) list \<Rightarrow> (string \<times> string) list option" where
  "serialize traditional scope hash [] = Some []"
| "serialize traditional scope hash ((key, v) # es) =
     (let k = scoped_key traditional scope hash key v;
          here = (if scope = [] \<and> \<not> hash then add_name_value v
                  else (case v of
                          PArr vs \<Rightarrow> serialize traditional k False (index_keys 0 vs)
                        | PObj ps \<Rightarrow> if traditional then Some [(k, add_text v)] else serialize traditional k True ps
                        | _ \<Rightarrow> Some [(k, add_text v)]))
      in case here of
           None \<Rightarrow> None
         | Some pairs \<Rightarrow> map_option (\<lambda>rest. pairs @ rest) (serialize traditional scope hash es))"
  by pat_completeness auto
termination
  by (relation "measure (\<lambda>(_, _, _, es). entries_size es)")
    (auto intro: le_less_trans[OF index_keys_size] le_less_trans[OF object_size])

definition join_pairs :: "(string \<times> string) list \<Rightarrow> string" where
  "join_pairs pairs = join ''&'' (map (\<lambda>(k, v). encodeURIComponent k @ ''='' @ encodeURIComponent v) pairs)"

definition zepto_param :: "bool \<Rightarrow> pval \<Rightarrow> string option" where
  "zepto_param traditional obj =
     map_option (\<lambda>pairs. replace_all ''%20'' ''+'' (join_pairs pairs))
       (case obj of
          PArr vs \<Rightarrow> serialize traditional [] False (index_keys 0 vs)
        | PObj ps \<Rightarrow> serialize traditional [] True ps
        | _ \<Rightarrow> Some [])"

section \<open>The URL of a request\<close>

text \<open>\<open>(url + '&' + query).replace(/[&?]{1,2}/, '?')\<close>: the first separator, with a second one that
  follows it, becomes a question mark.\<close>

definition is_sep :: "char \<Rightarrow> bool" where
  "is_sep c \<longleftrightarrow> c = CHR ''&'' \<or> c = CHR ''?''"

fun first_sep :: "string \<Rightarrow> string" where
  "first_sep [] = []"
| "first_sep (c # cs) =
     (if is_sep c then CHR ''?'' # (case cs of d # ds \<Rightarrow> if is_sep d then ds else cs | [] \<Rightarrow> [])
      else c # first_sep cs)"

definition appendQuery :: "string \<Rightarrow> string \<Rightarrow> string" where
  "appendQuery url query = (if query = [] then url else first_sep (url @ ''&'' @ query))"

definition url_query :: "string \<Rightarrow> string" where
  "url_query url = tl (dropWhile (\<lambda>c. c \<noteq> CHR ''?'') url)"

text \<open>\<open>/\?.+=\?/\<close>, the placeholder of a callback.\<close>

fun has_sub :: "string \<Rightarrow> string \<Rightarrow> bool" where
  "has_sub pat [] = (pat = [])"
| "has_sub pat (c # cs) = (starts_with (c # cs) pat \<or> has_sub pat cs)"

fun has_placeholder :: "string \<Rightarrow> bool" where
  "has_placeholder [] = False"
| "has_placeholder (c # cs) = (c = CHR ''?'' \<and> cs \<noteq> [] \<and> has_sub ''=?'' (tl cs) \<or> has_placeholder cs)"

text \<open>The data: none, a text, or an array or object of fields.\<close>

datatype ajax_data = NoData | TextData string | FieldData pval

datatype jsonp_param = DefaultParam | NoParam | NamedParam string

record ajax_settings =
  as_type :: string
  as_url :: string
  as_data :: ajax_data
  as_dataType :: "string option"
  as_processData :: bool
  as_traditional :: bool
  as_cache :: "bool option"
  as_jsonp :: jsonp_param

text \<open>Data and URL after \<open>serializeData\<close>; a reading of null in the data throws (\<open>None\<close>).\<close>

definition data_text :: "ajax_settings \<Rightarrow> string option option" where
  "data_text s =
     (case as_data s of
        NoData \<Rightarrow> Some None
      | TextData t \<Rightarrow> Some (if t = [] then None else Some t)
      | FieldData p \<Rightarrow> if as_processData s then map_option Some (zepto_param (as_traditional s) p) else Some (Some (add_text p)))"

definition sent_in_url :: "ajax_settings \<Rightarrow> bool" where
  "sent_in_url s \<longleftrightarrow> as_type s = [] \<or> map to_upper (as_type s) = ''GET'' \<or> as_dataType s = Some ''jsonp''"

definition serializeData :: "ajax_settings \<Rightarrow> (string \<times> string option) option" where
  "serializeData s =
     map_option (\<lambda>data. case data of
         None \<Rightarrow> (as_url s, None)
       | Some t \<Rightarrow> if t \<noteq> [] \<and> sent_in_url s then (appendQuery (as_url s) t, None) else (as_url s, Some t))
       (data_text s)"

definition strip_hash :: "string \<Rightarrow> string" where
  "strip_hash url = takeWhile (\<lambda>c. c \<noteq> CHR ''#'') url"

definition bypass_cache :: "ajax_settings \<Rightarrow> string option \<Rightarrow> bool" where
  "bypass_cache s dataType \<longleftrightarrow>
     as_cache s = Some False \<or> as_cache s \<noteq> Some True \<and> (dataType = Some ''script'' \<or> dataType = Some ''jsonp'')"

text \<open>What is sent: a request of type jsonp becomes a script element (\<open>ajaxJSONP\<close>), which has no body.\<close>

record prepared =
  pr_url :: string
  pr_body :: "string option"
  pr_dataType :: "string option"

definition jsonp_query :: "ajax_settings \<Rightarrow> string" where
  "jsonp_query s = (case as_jsonp s of
     DefaultParam \<Rightarrow> ''callback=?'' | NoParam \<Rightarrow> [] | NamedParam p \<Rightarrow> if p = [] then ''callback=?'' else p @ ''=?'')"

definition prepare_request :: "string \<Rightarrow> string \<Rightarrow> ajax_settings \<Rightarrow> prepared option" where
  "prepare_request location now s0 =
     (let s = s0\<lparr>as_url := strip_hash (if as_url s0 = [] then location else as_url s0)\<rparr>
      in map_option (\<lambda>(url, body).
           let hasPlaceholder = has_placeholder url;
               dataType = (if hasPlaceholder then Some ''jsonp'' else as_dataType s);
               url1 = (if bypass_cache s dataType then appendQuery url (''_='' @ now) else url);
               url2 = (if dataType = Some ''jsonp'' \<and> \<not> hasPlaceholder
                       then appendQuery url1 (jsonp_query s)
                       else url1)
           in \<lparr>pr_url = url2, pr_body = (if body = Some [] \<or> dataType = Some ''jsonp'' then None else body), pr_dataType = dataType\<rparr>)
         (serializeData s))"

section \<open>Arguments, data types and forms\<close>

text \<open>\<open>parseArguments\<close> moves optional arguments; a function is a \<open>VFun\<close>.\<close>

record ajax_args =
  aa_url :: jsval
  aa_data :: jsval
  aa_success :: jsval
  aa_dataType :: jsval

fun is_function :: "jsval \<Rightarrow> bool" where
  "is_function (VFun _) = True"
| "is_function _ = False"

definition parseArguments :: "jsval \<Rightarrow> jsval \<Rightarrow> jsval \<Rightarrow> jsval \<Rightarrow> ajax_args" where
  "parseArguments url data success dataType =
     (let (data1, success1, type1) = (if is_function data then (VUndef, data, success) else (data, success, dataType));
          (success2, type2) = (if is_function success1 then (success1, type1) else (VUndef, success1))
      in \<lparr>aa_url = url, aa_data = data1, aa_success = success2, aa_dataType = type2\<rparr>)"

definition starts_with_any :: "string \<Rightarrow> string list \<Rightarrow> bool" where
  "starts_with_any s ps \<longleftrightarrow> list_ex (starts_with (map to_lower s)) ps"

definition mimeToDataType :: "string option \<Rightarrow> string" where
  "mimeToDataType mime =
     (case mime of
        None \<Rightarrow> ''text''
      | Some m \<Rightarrow>
          (let t = hd (split_char CHR '';'' m)
           in if m = [] \<or> t = [] then ''text''
              else if t = ''text/html'' then ''html''
              else if t = ''application/json'' then ''json''
              else if starts_with_any t [''text/javascript'', ''application/javascript''] then ''script''
              else if starts_with_any t [''text/xml'', ''application/xml''] then ''xml'' else ''text''))"

text \<open>\<open>ajaxSubmit\<close>: the fields its selector finds, by tag and type, write their values under their
  names (names that are not numbers, which an object would list first).\<close>

record form_input =
  fi_tag :: string
  fi_type :: string
  fi_name :: string
  fi_value :: string
  fi_checked :: bool

definition submitted :: "form_input \<Rightarrow> bool" where
  "submitted f \<longleftrightarrow>
     fi_tag f = ''input'' \<and> (fi_type f \<in> {''hidden'', ''text'', ''password''} \<or> fi_type f \<in> {''radio'', ''checkbox''} \<and> fi_checked f) \<or>
     fi_tag f = ''textarea'' \<or> fi_tag f = ''select''"

definition form_params :: "form_input list \<Rightarrow> (string \<times> string) list" where
  "form_params fs = fold (\<lambda>f ps. obj_set ps (fi_name f) (fi_value f)) (filter submitted fs) []"

definition form_method :: "string option \<Rightarrow> string" where
  "form_method m = (case m of
     None \<Rightarrow> ''GET'' | Some s \<Rightarrow> if map to_upper (trim s) = ''POST'' \<or> map to_upper (trim s) = ''GET'' then s else ''GET'')"

definition ajaxSubmit :: "string \<Rightarrow> string option \<Rightarrow> string option \<Rightarrow> form_input list \<Rightarrow> ajax_settings" where
  "ajaxSubmit action meth dataType fs =
     \<lparr>as_type = form_method meth, as_url = action, as_data = FieldData (PObj (map (map_prod id PText) (form_params fs))),
      as_dataType = Some (case dataType of Some t \<Rightarrow> t | None \<Rightarrow> ''json''), as_processData = True, as_traditional = True,
      as_cache = None, as_jsonp = DefaultParam\<rparr>"

section \<open>What a receiver reads\<close>

lemma of_char_hex_digit: "n < 16 \<Longrightarrow> (of_char (hex_digit n) :: nat) = (if n < 10 then 48 + n else 55 + n)"
  by (simp add: hex_digit_def)

lemma hex_digit_char: "n < 16 \<Longrightarrow> hex_digit n = c \<longleftrightarrow> (if n < 10 then 48 + n else 55 + n) = (of_char c :: nat)"
  by (metis of_char_hex_digit of_char_eq_iff)

lemma hex_value_digit: "n < 16 \<Longrightarrow> hex_value (hex_digit n) = n"
  by (auto simp: hex_value_def is_digit_def of_char_hex_digit)

lemma form_bytes_escape: "n < 256 \<Longrightarrow> form_bytes (escape_byte n @ s) = n # form_bytes s"
  by (simp add: escape_byte_def hex_value_digit)

lemma form_bytes_plain: "c \<noteq> CHR ''%'' \<Longrightarrow> form_bytes (c # s) = (if c = CHR ''+'' then 32 else (of_char c :: nat)) # form_bytes s"
  by (cases s rule: form_bytes.cases) auto

lemma unreserved_not: "unreserved c \<Longrightarrow> c \<noteq> CHR ''%'' \<and> c \<noteq> CHR ''+'' \<and> c \<noteq> CHR ''&'' \<and> c \<noteq> CHR ''='' \<and> c \<noteq> CHR ''?'' \<and> (of_char c :: nat) < 128"
  by (auto simp: unreserved_def is_upper_def is_lower_def is_digit_def)

definition plus_unit :: "char \<Rightarrow> string" where
  "plus_unit c = (if c = CHR '' '' then ''+'' else encode_unit c)"

lemma replace_escape:
  assumes "n < 256"
  shows "replace_all ''%20'' ''+'' (escape_byte n @ s) = (if n = 32 then ''+'' else escape_byte n) @ replace_all ''%20'' ''+'' s"
proof -
  have d: "n div 16 < 16" "n mod 16 < 16" using assms by auto
  have ne: "hex_digit (n div 16) \<noteq> CHR ''%''" "hex_digit (n mod 16) \<noteq> CHR ''%''"
    using d by (simp_all add: hex_digit_char)
  have "hex_digit (n div 16) = CHR ''2'' \<and> hex_digit (n mod 16) = CHR ''0'' \<longleftrightarrow> n div 16 = 2 \<and> n mod 16 = 0"
    using d by (auto simp: hex_digit_char split: if_splits)
  also have "\<dots> \<longleftrightarrow> n = 32" by auto
  finally show ?thesis using ne by (auto simp: escape_byte_def)
qed

lemma sp_code: "(of_char CHR '' '' :: nat) = 32"
  by simp

lemma replace_unit: "replace_all ''%20'' ''+'' (encode_unit c @ s) = plus_unit c @ replace_all ''%20'' ''+'' s"
proof -
  have n: "(of_char c :: nat) < 256" "192 + (of_char c :: nat) div 64 < 256" "128 + (of_char c :: nat) mod 64 < 256"
    using nat_of_char_less_256[of c] by linarith+
  have sp: "c = CHR '' '' \<longleftrightarrow> (of_char c :: nat) = 32"
    by (metis of_char_eq_iff sp_code)
  show ?thesis
  proof (cases "unreserved c")
    case True
    then have "c \<noteq> CHR ''%''" "c \<noteq> CHR '' ''" by (auto simp: unreserved_not, auto simp: unreserved_def is_upper_def is_lower_def is_digit_def)
    with True show ?thesis by (simp add: encode_unit_def plus_unit_def)
  next
    case False
    show ?thesis
    proof (cases "(of_char c :: nat) < 128")
      case True
      with False sp show ?thesis by (simp add: encode_unit_def plus_unit_def replace_escape[OF n(1)])
    next
      case big: False
      with False sp show ?thesis
        by (simp add: encode_unit_def plus_unit_def Let_def replace_escape[OF n(2)] replace_escape[OF n(3)])
    qed
  qed
qed

definition unit_bytes :: "char \<Rightarrow> nat list" where
  "unit_bytes c = (let n = (of_char c :: nat) in if n < 128 then [n] else [192 + n div 64, 128 + n mod 64])"

lemma form_bytes_unit: "form_bytes (plus_unit c @ s) = unit_bytes c @ form_bytes s"
proof -
  have n: "(of_char c :: nat) < 256" "192 + (of_char c :: nat) div 64 < 256" "128 + (of_char c :: nat) mod 64 < 256"
    using nat_of_char_less_256[of c] by linarith+
  show ?thesis
  proof (cases "unreserved c \<or> c = CHR '' ''")
    case True
    then consider "c = CHR '' ''" | "unreserved c" "c \<noteq> CHR '' ''" by blast
    then show ?thesis
    proof cases
      case 1
      then show ?thesis by (simp add: plus_unit_def unit_bytes_def form_bytes_plain)
    next
      case 2
      with unreserved_not[OF 2(1)] show ?thesis
        by (simp add: plus_unit_def encode_unit_def unit_bytes_def form_bytes_plain)
    qed
  next
    case False
    then show ?thesis
      by (simp add: plus_unit_def encode_unit_def unit_bytes_def Let_def form_bytes_escape[OF n(1)] form_bytes_escape[OF n(2)] form_bytes_escape[OF n(3)])
  qed
qed

lemma utf8_unit: "utf8_units (unit_bytes c @ bs) = c # utf8_units bs"
proof (cases "(of_char c :: nat) < 128")
  case True
  then show ?thesis by (cases bs) (simp_all add: unit_bytes_def)
next
  case False
  have "(of_char c :: nat) div 64 * 64 + (of_char c :: nat) mod 64 = of_char c" by simp
  with False show ?thesis by (simp add: unit_bytes_def Let_def)
qed

definition plus_text :: "string \<Rightarrow> string" where
  "plus_text s = concat (map plus_unit s)"

lemma form_decode_plus: "form_decode (plus_text s) = s"
proof -
  have "form_bytes (plus_text s) = concat (map unit_bytes s)"
    by (induction s) (simp_all add: plus_text_def form_bytes_unit)
  moreover have "utf8_units (concat (map unit_bytes s)) = s"
    by (induction s) (simp_all add: utf8_unit)
  ultimately show ?thesis by (simp add: form_decode_def)
qed

lemma replace_text: "replace_all ''%20'' ''+'' (encodeURIComponent k @ s) = plus_text k @ replace_all ''%20'' ''+'' s"
  by (induction k) (simp_all add: encodeURIComponent_def plus_text_def replace_unit)

lemma escape_byte_chars: "n < 256 \<Longrightarrow> c \<in> set (escape_byte n) \<Longrightarrow> c \<noteq> CHR ''&'' \<and> c \<noteq> CHR ''='' \<and> c \<noteq> CHR ''?''"
  by (auto simp: escape_byte_def hex_digit_char split: if_splits)

lemma plus_text_chars: "c \<in> set (plus_text s) \<Longrightarrow> c \<noteq> CHR ''&'' \<and> c \<noteq> CHR ''='' \<and> c \<noteq> CHR ''?''"
proof -
  assume "c \<in> set (plus_text s)"
  then obtain d where "c \<in> set (plus_unit d)" by (auto simp: plus_text_def)
  moreover have n: "(of_char d :: nat) < 256" "192 + (of_char d :: nat) div 64 < 256" "128 + (of_char d :: nat) mod 64 < 256"
    using nat_of_char_less_256[of d] by linarith+
  ultimately show ?thesis
    using escape_byte_chars[OF n(1)] escape_byte_chars[OF n(2)] escape_byte_chars[OF n(3)] unreserved_not[of d]
    by (auto simp: plus_unit_def encode_unit_def Let_def split: if_splits)
qed

definition plus_pair :: "string \<times> string \<Rightarrow> string" where
  "plus_pair p = plus_text (fst p) @ ''='' @ plus_text (snd p)"

lemma replace_pairs: "replace_all ''%20'' ''+'' (join_pairs pairs) = join ''&'' (map plus_pair pairs)"
proof -
  have *: "replace_all ''%20'' ''+'' (encodeURIComponent k @ ''='' @ encodeURIComponent v @ s) =
      plus_pair (k, v) @ replace_all ''%20'' ''+'' s" for k v s
    by (simp add: replace_text plus_pair_def)
  show ?thesis
  proof (induction pairs rule: induct_list012)
    case (2 p)
    then show ?case using *[of "fst p" "snd p" "[]"] by (simp add: join_pairs_def case_prod_beta)
  next
    case (3 p q pairs)
    then show ?case using *[of "fst p" "snd p" "''&'' @ join_pairs (q # pairs)"]
      by (simp add: join_pairs_def case_prod_beta)
  qed (simp add: join_pairs_def)
qed

lemma form_read_pairs: "form_read (join ''&'' (map plus_pair pairs)) = pairs"
proof (cases "pairs = []")
  case True
  then show ?thesis by (simp add: form_read_def parse_query_def)
next
  case False
  have "split_char CHR ''&'' (join ''&'' (map plus_pair pairs)) = map plus_pair pairs"
    by (rule split_join) (use False in \<open>auto simp: plus_pair_def dest: plus_text_chars\<close>)
  moreover have "parse_pair (plus_pair p) = (plus_text (fst p), plus_text (snd p))" for p
    unfolding plus_pair_def by (rule parse_pair_field) (use plus_text_chars in blast)
  moreover have "plus_pair p \<noteq> []" for p by (simp add: plus_pair_def)
  ultimately show ?thesis
    by (simp add: form_read_def parse_query_def form_decode_plus o_def filter_True)
qed

text \<open>
  C30. What \<open>$.param\<close> writes is what a receiver of a form reads: the text decodes to exactly the
  names and values of the traversal, in its order, whatever characters they have.
\<close>

theorem param_roundtrip:
  assumes "serialize traditional [] True ps = Some pairs"
  shows "\<exists>s. zepto_param traditional (PObj ps) = Some s \<and> form_read s = pairs"
  using assms by (simp add: zepto_param_def replace_pairs form_read_pairs)

theorem param_roundtrip_witness:
  "\<exists>s. zepto_param False (PObj [(''a b'', PText ''1&2=3''), (''c'', PArr [PText ''+'', PText ''%''])]) = Some s \<and>
     form_read s = [(''a b'', ''1&2=3''), (''c[]'', ''+''), (''c[]'', ''%'')]"
  by (rule param_roundtrip) code_simp


lemma sep_free_append: "list_all (\<lambda>c. \<not> is_sep c) p \<Longrightarrow> first_sep (p @ s) = p @ first_sep s"
  by (induction p) simp_all

lemma first_sep_query:
  assumes "list_all (\<lambda>c. \<not> is_sep c) p"
  shows "first_sep (p @ CHR ''?'' # s) = p @ CHR ''?'' # (case s of d # ds \<Rightarrow> if is_sep d then ds else s | [] \<Rightarrow> [])"
  using assms by (simp add: sep_free_append is_sep_def)

lemma url_query_path: "list_all (\<lambda>c. \<not> is_sep c) p \<Longrightarrow> url_query (p @ CHR ''?'' # s) = s"
  by (induction p) (simp_all add: url_query_def is_sep_def)

lemma url_query_none: "list_all (\<lambda>c. \<not> is_sep c) p \<Longrightarrow> url_query p = []"
  by (induction p) (simp_all add: url_query_def is_sep_def)

lemma split_char_at:
  "split_char c (xs @ c # ys) = split_char c xs @ split_char c ys"
proof (induction xs)
  case (Cons a xs)
  then show ?case by (cases "split_char c xs") (auto split: list.splits)
qed simp

lemma parse_query_append: "parse_query (xs @ CHR ''&'' # ys) = parse_query xs @ parse_query ys"
  by (simp add: parse_query_def split_char_at)

lemma form_read_append: "form_read (xs @ CHR ''&'' # ys) = form_read xs @ form_read ys"
  by (simp add: form_read_def parse_query_append)

lemma form_read_sep: "form_read (CHR ''&'' # ys) = form_read ys"
  using form_read_append[of "[]" ys] by (simp add: form_read_def parse_query_def)


text \<open>A query that does not start with a separator; a URL whose path has none and whose query starts with none.\<close>

fun plain_start :: "string \<Rightarrow> bool" where
  "plain_start [] = True"
| "plain_start (c # cs) = (\<not> is_sep c)"

definition url_path :: "string \<Rightarrow> string" where
  "url_path url = takeWhile (\<lambda>c. c \<noteq> CHR ''?'') url"

definition proper_url :: "string \<Rightarrow> bool" where
  "proper_url url \<longleftrightarrow> list_all (\<lambda>c. \<not> is_sep c) (url_path url) \<and> plain_start (url_query url)"

lemma url_split: "url = url_path url \<and> url_query url = [] \<or> url = url_path url @ CHR ''?'' # url_query url"
proof (induction url)
  case (Cons c cs)
  then show ?case by (auto simp: url_path_def url_query_def)
qed (simp add: url_path_def url_query_def)

lemma url_path_query: "list_all (\<lambda>c. \<not> is_sep c) p \<Longrightarrow> url_path (p @ CHR ''?'' # s) = p"
  by (induction p) (auto simp: url_path_def is_sep_def)

lemma form_read_empty [simp]: "form_read [] = []"
  by (simp add: form_read_def parse_query_def)

lemma appendQuery_shape:
  assumes p: "list_all (\<lambda>c. \<not> is_sep c) p" and q: "plain_start q" "q \<noteq> []"
  shows "appendQuery p q = p @ CHR ''?'' # q"
    and "plain_start s \<Longrightarrow> appendQuery (p @ CHR ''?'' # s) q = p @ CHR ''?'' # (if s = [] then q else s @ CHR ''&'' # q)"
proof -
  obtain e es where qe: "q = e # es" "\<not> is_sep e" using q by (cases q) auto
  show "appendQuery p q = p @ CHR ''?'' # q"
    using p qe by (simp add: appendQuery_def sep_free_append is_sep_def)
  show "appendQuery (p @ CHR ''?'' # s) q = p @ CHR ''?'' # (if s = [] then q else s @ CHR ''&'' # q)" if "plain_start s"
    using p q(2) that by (cases s) (simp_all add: appendQuery_def sep_free_append is_sep_def)
qed

lemma appendQuery_adds:
  assumes url: "proper_url url" and q: "plain_start q"
  shows "form_read (url_query (appendQuery url q)) = form_read (url_query url) @ form_read q \<and>
    url_path (appendQuery url q) = url_path url \<and> proper_url (appendQuery url q)"
proof (cases "q = []")
  case True
  then show ?thesis using url by (simp add: appendQuery_def)
next
  case False
  define p where "p = url_path url"
  define s where "s = url_query url"
  have p: "list_all (\<lambda>c. \<not> is_sep c) p" and s: "plain_start s"
    using url by (simp_all add: proper_url_def p_def s_def)
  define r where "r = (if s = [] then q else s @ CHR ''&'' # q)"
  have "url = p \<and> s = [] \<or> url = p @ CHR ''?'' # s"
    using url_split[of url] unfolding p_def s_def .
  then have shape: "appendQuery url q = p @ CHR ''?'' # r"
    using appendQuery_shape[OF p q False] s unfolding r_def by auto
  have "plain_start r" using s q unfolding r_def by (cases s) auto
  moreover have "form_read r = form_read s @ form_read q" by (simp add: r_def form_read_append)
  ultimately show ?thesis
    unfolding shape proper_url_def url_path_query[OF p] url_query_path[OF p]
    using p by (simp add: p_def s_def)
qed

section \<open>What a request carries\<close>

lemma join_pairs_plain: "plain_start (join ''&'' (map plus_pair pairs))"
proof (cases pairs)
  case (Cons p ps)
  have "plain_start (plus_text k @ ''='' @ s)" for k s
  proof (cases "plus_text k")
    case (Cons c cs)
    then have "c \<in> set (plus_text k)" by simp
    from plus_text_chars[OF this] Cons show ?thesis by (simp add: is_sep_def)
  qed (simp add: is_sep_def)
  then show ?thesis using Cons by (cases ps) (simp_all add: plus_pair_def)
qed simp

lemma zepto_param_fields:
  "serialize traditional [] True ps = Some pairs \<Longrightarrow>
    zepto_param traditional (PObj ps) = Some (join ''&'' (map plus_pair pairs))"
  by (simp add: zepto_param_def replace_pairs)

lemma serialize_flat: "serialize traditional [] True (map (map_prod id PText) kvs) = Some kvs"
  by (induction kvs) (auto simp: scoped_key_def)

lemma request_reads:
  assumes "prepare_request location now s = Some p"
    and "as_data s = FieldData (PObj ps)" and "as_processData s"
    and "serialize (as_traditional s) [] True ps = Some pairs"
    and "u = strip_hash (if as_url s = [] then location else as_url s)" and "proper_url u" and "plain_start (jsonp_query s)"
  shows "\<exists>added. form_read (url_query (pr_url p)) = form_read (url_query u) @ (if sent_in_url s then pairs else []) @ added \<and>
      list_all (\<lambda>kv. kv \<in> set (form_read (''_='' @ now) @ form_read (jsonp_query s))) added \<and>
      (case pr_body p of None \<Rightarrow> [] | Some t \<Rightarrow> form_read t) = (if sent_in_url s \<or> has_placeholder u then [] else pairs) \<and>
      url_path (pr_url p) = url_path u"
proof -
  define t where "t = join ''&'' (map plus_pair pairs)"
  have t: "zepto_param (as_traditional s) (PObj ps) = Some t" "form_read t = pairs" "plain_start t"
    using assms(4) by (simp_all add: t_def zepto_param_fields form_read_pairs join_pairs_plain)
  have under: "plain_start (''_='' @ now)" by (simp add: is_sep_def)
  define url0 where "url0 = (if sent_in_url s then appendQuery u t else u)"
  have sent: "sent_in_url (s\<lparr>as_url := u\<rparr>) = sent_in_url s" "data_text (s\<lparr>as_url := u\<rparr>) = Some (Some t)"
    using assms(2,3) t(1) by (simp_all add: sent_in_url_def data_text_def)
  have ser: "serializeData (s\<lparr>as_url := u\<rparr>) = Some (url0, if t \<noteq> [] \<and> sent_in_url s then None else Some t)"
    unfolding serializeData_def sent by (auto simp: url0_def appendQuery_def)
  define dt where "dt = (if has_placeholder url0 then Some ''jsonp'' else as_dataType s)"
  define url1 where "url1 = (if bypass_cache s dt then appendQuery url0 (''_='' @ now) else url0)"
  define url2 where "url2 = (if dt = Some ''jsonp'' \<and> \<not> has_placeholder url0 then appendQuery url1 (jsonp_query s) else url1)"
  have jq: "jsonp_query (s\<lparr>as_url := u\<rparr>) = jsonp_query s" "bypass_cache (s\<lparr>as_url := u\<rparr>) d = bypass_cache s d" "as_dataType (s\<lparr>as_url := u\<rparr>) = as_dataType s" for d
    by (simp_all add: jsonp_query_def bypass_cache_def)
  have lost: "dt = Some ''jsonp'' \<longleftrightarrow> has_placeholder u" if "\<not> sent_in_url s"
    using that by (simp add: dt_def url0_def sent_in_url_def)
  have "pr_url p = url2" "pr_body p = (if t \<noteq> [] \<and> \<not> sent_in_url s \<and> dt \<noteq> Some ''jsonp'' then Some t else None)"
    using assms(1) unfolding prepare_request_def Let_def assms(5)[symmetric] ser jq
    by (auto simp: dt_def url1_def url2_def)
  with lost have pr: "pr_url p = url2" "pr_body p = (if t \<noteq> [] \<and> \<not> sent_in_url s \<and> \<not> has_placeholder u then Some t else None)"
    by auto
  have 0: "form_read (url_query url0) = form_read (url_query u) @ (if sent_in_url s then pairs else [])"
    "url_path url0 = url_path u" "proper_url url0"
    using appendQuery_adds[OF assms(6) t(3)] t(2) assms(6) by (simp_all add: url0_def)
  have 1: "form_read (url_query url1) = form_read (url_query url0) @ (if bypass_cache s dt then form_read (''_='' @ now) else [])"
    "url_path url1 = url_path u" "proper_url url1"
    using appendQuery_adds[OF 0(3) under] 0 by (simp_all add: url1_def)
  have 2: "form_read (url_query url2) = form_read (url_query url1) @ (if dt = Some ''jsonp'' \<and> \<not> has_placeholder url0 then form_read (jsonp_query s) else [])"
    "url_path url2 = url_path u"
    using appendQuery_adds[OF 1(3) assms(7)] 1 by (simp_all add: url2_def)
  have body: "(case pr_body p of None \<Rightarrow> [] | Some t \<Rightarrow> form_read t) = (if sent_in_url s \<or> has_placeholder u then [] else pairs)"
    using t(2) by (auto simp: pr)
  show ?thesis unfolding pr(1) 2 1(1) 0(1) using body
    by (intro exI[of _ "(if bypass_cache s dt then form_read (''_='' @ now) else []) @
        (if dt = Some ''jsonp'' \<and> \<not> has_placeholder url0 then form_read (jsonp_query s) else [])"]) (auto simp: list_all_iff)
qed


text \<open>
  C31. Where the data of a request go.  A request whose data are an object of fields is read by the
  receiver as follows: the query of the URL holds the fields the URL had, then the fields of the
  data when they belong in the URL, then the parameters the library adds (that against the cache and
  that of the callback); the body holds the fields of the data when they do not belong in the URL,
  except that a URL with the placeholder of a callback loses them, because it is requested as a
  script; the path is kept. The path of the URL has no ampersand and neither its query nor the
  parameter of the callback begins with a separator.
\<close>

theorem request_carries_data:
  assumes "prepare_request location now s = Some p"
    and "as_data s = FieldData (PObj ps)" and "as_processData s"
    and "serialize (as_traditional s) [] True ps = Some pairs"
    and "u = strip_hash (if as_url s = [] then location else as_url s)" and "proper_url u" and "plain_start (jsonp_query s)"
  shows "\<exists>added. form_read (url_query (pr_url p)) = form_read (url_query u) @ (if sent_in_url s then pairs else []) @ added \<and>
      list_all (\<lambda>kv. kv \<in> set (form_read (''_='' @ now) @ form_read (jsonp_query s))) added \<and>
      (case pr_body p of None \<Rightarrow> [] | Some t \<Rightarrow> form_read t) = (if sent_in_url s \<or> has_placeholder u then [] else pairs) \<and>
      url_path (pr_url p) = url_path u"
  using assms by (rule request_reads)

theorem request_carries_data_witness:
  "\<exists>added. form_read (url_query ''/vsi?x=1&k=a%26b&_=17'') = form_read (url_query ''/vsi?x=1'') @ [(''k'', ''a&b'')] @ added \<and>
      list_all (\<lambda>kv. kv \<in> set (form_read (''_='' @ ''17'') @ form_read ''callback=?'')) added \<and>
      [] = ([] :: (string \<times> string) list) \<and> url_path ''/vsi?x=1&k=a%26b&_=17'' = url_path ''/vsi?x=1''"
proof -
  define s where "s = \<lparr>as_type = ''GET'', as_url = ''/vsi?x=1#top'', as_data = FieldData (PObj [(''k'', PText ''a&b'')]),
      as_dataType = Some ''json'', as_processData = True, as_traditional = False, as_cache = Some False, as_jsonp = DefaultParam\<rparr>"
  have f: "prepare_request ''/'' ''17'' s =
      Some \<lparr>pr_url = ''/vsi?x=1&k=a%26b&_=17'', pr_body = None, pr_dataType = Some ''json''\<rparr>"
    "serialize False [] True [(''k'', PText ''a&b'')] = Some [(''k'', ''a&b'')]"
    "strip_hash ''/vsi?x=1#top'' = ''/vsi?x=1''" "proper_url ''/vsi?x=1''" "plain_start ''callback=?''" "sent_in_url s"
    unfolding s_def by code_simp+
  have g: "as_data s = FieldData (PObj [(''k'', PText ''a&b'')])" "as_processData s" "as_traditional s = False"
    "as_url s = ''/vsi?x=1#top''" "jsonp_query s = ''callback=?''"
    by (simp_all add: s_def jsonp_query_def)
  show ?thesis
    using request_carries_data[OF f(1) g(1,2), of "[(''k'', ''a&b'')]" "''/vsi?x=1''"] f(2-6) by (simp add: g)
qed

text \<open>The data of a POST to an address with the placeholder of a callback are nowhere in the request.\<close>

lemma placeholder_loses_data:
  "prepare_request ''/'' ''17'' \<lparr>as_type = ''POST'', as_url = ''/vsi?cb=?'', as_data = FieldData (PObj [(''k'', PText ''v'')]),
      as_dataType = Some ''json'', as_processData = True, as_traditional = False, as_cache = Some True, as_jsonp = DefaultParam\<rparr> =
    Some \<lparr>pr_url = ''/vsi?cb=?'', pr_body = None, pr_dataType = Some ''jsonp''\<rparr>"
  by code_simp

text \<open>An ampersand of the path, before any question mark, is taken for the place of the query.\<close>

lemma ampersand_path: "appendQuery ''/a&b'' ''x=1'' = ''/a?b&x=1''"
  by code_simp

section \<open>Forms\<close>

lemma obj_set_map_of: "map_of (obj_set ps k v) = (map_of ps)(k \<mapsto> v)"
  by (induction ps) (auto simp: fun_eq_iff)

lemma form_params_map:
  "map_of (fold (\<lambda>f ps. obj_set ps (fi_name f) (fi_value f)) fs ps) =
     map_of ps ++ map_of (rev (map (\<lambda>f. (fi_name f, fi_value f)) fs))"
  by (induction fs arbitrary: ps) (simp_all add: obj_set_map_of map_add_def fun_eq_iff split: option.splits)

lemma form_params_distinct:
  "distinct (obj_keys ps) \<Longrightarrow> distinct (obj_keys (fold (\<lambda>f ps. obj_set ps (fi_name f) (fi_value f)) fs ps))"
  by (induction fs arbitrary: ps) (simp_all add: distinct_obj_set)

text \<open>
  C32. Submitting a form sends, for each name, one value: that of the last field of this name that
  is submitted. The receiver reads these values in the query of the URL (GET) or in the body, unless
  the address of the form has the placeholder of a callback, which turns the request into a script.
\<close>

theorem ajaxSubmit_sends:
  assumes "action \<noteq> []" and "proper_url (strip_hash action)" and "sub = ajaxSubmit action meth (Some ''json'') fs"
  shows "\<exists>p pairs added. prepare_request location now sub = Some p \<and>
      form_read (url_query (pr_url p)) = form_read (url_query (strip_hash action)) @ (if sent_in_url sub then pairs else []) @ added \<and>
      (case pr_body p of None \<Rightarrow> [] | Some t \<Rightarrow> form_read t) = (if sent_in_url sub \<or> has_placeholder (strip_hash action) then [] else pairs) \<and>
      distinct (obj_keys pairs) \<and>
      map_of pairs = map_of (rev (map (\<lambda>f. (fi_name f, fi_value f)) (filter submitted fs)))"
proof -
  define pairs where "pairs = form_params fs"
  have sub: "as_data sub = FieldData (PObj (map (map_prod id PText) pairs))" "as_processData sub" "as_url sub = action"
    "as_traditional sub" "plain_start (jsonp_query sub)"
    using assms(3) by (simp_all add: ajaxSubmit_def pairs_def jsonp_query_def is_sep_def)
  have ser: "serialize (as_traditional sub) [] True (map (map_prod id PText) pairs) = Some pairs" by (rule serialize_flat)
  obtain p where p: "prepare_request location now sub = Some p"
    using sub(1,2) zepto_param_fields[OF ser]
    by (simp add: prepare_request_def Let_def serializeData_def data_text_def case_prod_beta)
  show ?thesis
    using request_reads[OF p sub(1,2) ser refl] assms(1,2) sub(3,5) p
      form_params_distinct[of "[]" "filter submitted fs"] form_params_map[of "filter submitted fs" "[]"]
    unfolding pairs_def form_params_def by fastforce
qed

theorem ajaxSubmit_sends_witness:
  "\<exists>p pairs added. prepare_request ''/'' ''17''
        (ajaxSubmit ''/vsi/set'' (Some ''post'') (Some ''json'')
          [\<lparr>fi_tag = ''input'', fi_type = ''checkbox'', fi_name = ''ch'', fi_value = ''1'', fi_checked = True\<rparr>,
           \<lparr>fi_tag = ''input'', fi_type = ''checkbox'', fi_name = ''ch'', fi_value = ''2'', fi_checked = True\<rparr>]) = Some p \<and>
      form_read (url_query (pr_url p)) = added \<and>
      (case pr_body p of None \<Rightarrow> [] | Some t \<Rightarrow> form_read t) = pairs \<and>
      distinct (obj_keys pairs) \<and> map_of pairs = [''ch'' \<mapsto> ''2'']"
proof -
  define fs where "fs = [\<lparr>fi_tag = ''input'', fi_type = ''checkbox'', fi_name = ''ch'', fi_value = ''1'', fi_checked = True\<rparr>,
           \<lparr>fi_tag = ''input'', fi_type = ''checkbox'', fi_name = ''ch'', fi_value = ''2'', fi_checked = True\<rparr>]"
  have f: "proper_url (strip_hash ''/vsi/set'')" "url_query (strip_hash ''/vsi/set'') = []"
    "\<not> sent_in_url (ajaxSubmit ''/vsi/set'' (Some ''post'') (Some ''json'') fs)" "filter submitted fs = fs"
    "\<not> has_placeholder (strip_hash ''/vsi/set'')"
    unfolding fs_def by code_simp+
  have m: "map_of (rev (map (\<lambda>f. (fi_name f, fi_value f)) fs)) = [''ch'' \<mapsto> ''2'']"
    by (simp add: fs_def)
  show ?thesis
    using ajaxSubmit_sends[OF _ f(1) refl, of "''/''" "''17''" "Some ''post''" fs] f(2-5) unfolding m[symmetric] fs_def[symmetric] by simp
qed

text \<open>The trimmed method is tested, the one with its blanks is used: such a form is not sent as a GET.\<close>

lemma untrimmed_method:
  "form_method (Some '' get '') = '' get ''" "\<not> sent_in_url (ajaxSubmit ''/a'' (Some '' get '') None [])"
  by code_simp+

end
