(* ===== verification/ZeptoAjax.thy ===== *)
theory ZeptoAjax
  imports JsPrelude "HOL-Library.Sublist"
begin

text \<open>
  The life of the requests of a page (\<open>js/zepto.js\<close>, 1215-1330 and 1409-1521): the counter of active
  requests with \<open>ajaxStart\<close> and \<open>ajaxStop\<close>, the question before sending, the replies, errors,
  timeouts and aborts of both transports, and the callbacks, in which the page may start and abort
  other requests or throw.
\<close>

section \<open>Requests\<close>

text \<open>
  The settings of a request that its life depends on; \<open>ao_file\<close> says that the protocol is \<open>file:\<close>,
  \<open>ao_binary\<close> that the response is an array buffer or blob, \<open>ao_original\<close> that the name of the JSONP
  callback was a function of the page before.
\<close>

record ajax_opts =
  ao_jsonp :: bool
  ao_global :: bool
  ao_timeout :: bool
  ao_async :: bool
  ao_file :: bool
  ao_binary :: bool
  ao_original :: bool

text \<open>
  The state of a request: whether its handler is installed (\<open>onreadystatechange\<close>, or the handler of
  the events of the script), whether the timer runs, whether it was sent (the script appended), whether
  the native request is over, and whether the script delivered its data.
\<close>

record ajax_req =
  rq_opts :: ajax_opts
  rq_handler :: bool
  rq_timer :: bool
  rq_sent :: bool
  rq_done :: bool
  rq_data :: bool

datatype end_type = EndTimeout | EndError | EndAbort | EndParser

datatype ajax_status = Succeeded | Failed end_type

datatype callback = CbBeforeSend | CbSuccess | CbError end_type | CbComplete ajax_status | CbOriginal

datatype gevent = GStart | GStop | GBeforeSend | GSend | GSuccess | GError | GComplete

text \<open>What ends a request: the final state of the native request with its status, the timer, the
  cancellation before sending, the load or the error event of the script.\<close>

datatype cause = Replied nat | TimedOut | Cancelled | ScriptLoaded bool | ScriptError end_type

text \<open>What can be observed: a cause reaching its handler, a callback called, a global event fired, \<open>ajaxStop\<close>.
  Global events are dispatched on the document or on an element.\<close>

datatype entry = Came cause | Called callback | Fired gevent | Stopped

text \<open>The questions whose answer decides how a request goes on.\<close>

datatype question = AskBeforeSend | AskGlobal | AskParse

text \<open>
  What is left to do, in the order of the code: \<open>AUser\<close> is a stretch of code of the page, reached by a
  plain call, by the dispatch of an event or inside the \<open>try\<close> around the parsing; \<open>ABoundary\<close> is the
  end of a dispatch, where an exception stops.
\<close>

datatype user_kind = Plain | Dispatched | Guarded

datatype act = ACall callback | AGlobal gevent | AAsk question | ADecide question | AAbort | AFire | ASend | AStop
  | AUser user_kind | ABoundary

record ajax_state =
  aj_active :: int
  aj_reqs :: "ajax_req list"
  aj_todo :: "(nat \<times> act) list"
  aj_log :: "(nat \<times> entry) list"

section \<open>The functions of the library\<close>

definition ajaxComplete :: "ajax_status \<Rightarrow> act list" where
  "ajaxComplete status = [ACall (CbComplete status), AGlobal GComplete, AStop]"

definition ajaxSuccess :: "act list" where
  "ajaxSuccess = [ACall CbSuccess, AGlobal GSuccess] @ ajaxComplete Succeeded"

definition ajaxError :: "end_type \<Rightarrow> act list" where
  "ajaxError type = [ACall (CbError type), AGlobal GError] @ ajaxComplete (Failed type)"

text \<open>The rest of the code after a question: \<open>ajaxBeforeSend\<close> and what follows its answer, the parsing.\<close>

fun after_answer :: "ajax_opts \<Rightarrow> question \<Rightarrow> bool \<Rightarrow> act list" where
  "after_answer opts AskBeforeSend True = [AAsk AskGlobal]"
| "after_answer opts AskGlobal True = [AGlobal GSend, ASend]"
| "after_answer opts AskParse True = ajaxSuccess"
| "after_answer opts AskParse False = ajaxError EndParser"
| "after_answer opts _ False = (if ao_jsonp opts then [AFire] else AAbort # ajaxError EndAbort)"

definition status_ok :: "ajax_opts \<Rightarrow> nat \<Rightarrow> bool" where
  "status_ok opts status \<longleftrightarrow> (200 \<le> status \<and> status < 300) \<or> status = 304 \<or> (status = 0 \<and> ao_file opts)"

definition ready_acts :: "ajax_opts \<Rightarrow> nat \<Rightarrow> act list" where
  "ready_acts opts status =
     (if status_ok opts status then (if ao_binary opts then ajaxSuccess else [AAsk AskParse])
      else ajaxError (if status \<noteq> 0 then EndError else EndAbort))"

fun script_acts :: "ajax_opts \<Rightarrow> bool \<Rightarrow> cause \<Rightarrow> act list" where
  "script_acts opts data (ScriptLoaded _) =
     (if data then ajaxSuccess else ajaxError EndError) @ (if data \<and> ao_original opts then [ACall CbOriginal] else [])"
| "script_acts opts data (ScriptError type) = ajaxError type @ (if data \<and> ao_original opts then [ACall CbOriginal] else [])"
| "script_acts opts data _ = []"

definition upd_req :: "nat \<Rightarrow> (ajax_req \<Rightarrow> ajax_req) \<Rightarrow> ajax_state \<Rightarrow> ajax_state" where
  "upd_req r f s = s\<lparr>aj_reqs := (aj_reqs s)[r := f (aj_reqs s ! r)]\<rparr>"

definition push :: "nat \<Rightarrow> act list \<Rightarrow> ajax_state \<Rightarrow> ajax_state" where
  "push r acts s = s\<lparr>aj_todo := map (Pair r) acts @ aj_todo s\<rparr>"

definition record_entry :: "nat \<Rightarrow> entry \<Rightarrow> ajax_state \<Rightarrow> ajax_state" where
  "record_entry r e s = s\<lparr>aj_log := aj_log s @ [(r, e)]\<rparr>"

text \<open>The handler of a request is taken away with its timer, and its cause is acted upon.\<close>

definition conclude :: "nat \<Rightarrow> cause \<Rightarrow> act list \<Rightarrow> ajax_state \<Rightarrow> ajax_state" where
  "conclude r c acts s =
     push r acts (record_entry r (Came c) (upd_req r (\<lambda>q. q\<lparr>rq_handler := False, rq_timer := False\<rparr>) s))"

definition dispatch_ready :: "nat \<Rightarrow> nat \<Rightarrow> ajax_state \<Rightarrow> ajax_state" where
  "dispatch_ready r status s =
     (if rq_handler (aj_reqs s ! r)
      then conclude r (Replied status) (ready_acts (rq_opts (aj_reqs s ! r)) status @ [ABoundary]) s else s)"

definition fire_script :: "nat \<Rightarrow> cause \<Rightarrow> ajax_state \<Rightarrow> ajax_state" where
  "fire_script r c s =
     (let q = aj_reqs s ! r in if rq_handler q then conclude r c (script_acts (rq_opts q) (rq_data q) c) s else s)"

text \<open>The native \<open>abort\<close> ends a request that was sent and is not over, and dispatches its final state.\<close>

definition xhr_abort :: "nat \<Rightarrow> ajax_state \<Rightarrow> ajax_state" where
  "xhr_abort r s =
     (let q = aj_reqs s ! r
      in if rq_sent q \<and> \<not> rq_done q then dispatch_ready r 0 (upd_req r (\<lambda>q. q\<lparr>rq_done := True\<rparr>) s) else s)"

definition user_abort :: "nat \<Rightarrow> ajax_state \<Rightarrow> ajax_state" where
  "user_abort r s = (if ao_jsonp (rq_opts (aj_reqs s ! r)) then fire_script r (ScriptError EndAbort) s else xhr_abort r s)"

definition triggerGlobal :: "nat \<Rightarrow> gevent \<Rightarrow> ajax_state \<Rightarrow> ajax_state" where
  "triggerGlobal r e s =
     (if ao_global (rq_opts (aj_reqs s ! r)) then push r [AUser Dispatched] (record_entry r (Fired e) s) else s)"

definition ajaxStart :: "nat \<Rightarrow> ajax_state \<Rightarrow> ajax_state" where
  "ajaxStart r s =
     (if ao_global (rq_opts (aj_reqs s ! r))
      then (let s1 = s\<lparr>aj_active := aj_active s + 1\<rparr> in if aj_active s = 0 then triggerGlobal r GStart s1 else s1)
      else s)"

definition ajaxStop :: "nat \<Rightarrow> ajax_state \<Rightarrow> ajax_state" where
  "ajaxStop r s =
     (let s0 = record_entry r Stopped s
      in if ao_global (rq_opts (aj_reqs s ! r))
         then (let s1 = s0\<lparr>aj_active := aj_active s - 1\<rparr> in if aj_active s1 = 0 then triggerGlobal r GStop s1 else s1)
         else s0)"

text \<open>\<open>$.ajax\<close>: the handlers are installed before any code of the page can reach the request.\<close>

definition new_request :: "ajax_opts \<Rightarrow> ajax_req" where
  "new_request opts = \<lparr>rq_opts = opts, rq_handler = True, rq_timer = False, rq_sent = False, rq_done = False, rq_data = False\<rparr>"

definition ajax :: "ajax_opts \<Rightarrow> ajax_state \<Rightarrow> ajax_state" where
  "ajax opts s =
     (let r = length (aj_reqs s)
      in ajaxStart r (push r [AAsk AskBeforeSend] (s\<lparr>aj_reqs := aj_reqs s @ [new_request opts]\<rparr>)))"

section \<open>Steps\<close>

text \<open>
  One act of the library.  A question first lets the page run; its answer comes with the label
  \<open>Answer\<close>.  A synchronous request waits in \<open>ASend\<close> for its reply.
\<close>

fun run_act :: "nat \<Rightarrow> act \<Rightarrow> ajax_state \<Rightarrow> ajax_state option" where
  "run_act r (ACall cb) s = Some (push r [AUser Plain] (record_entry r (Called cb) s))"
| "run_act r (AGlobal e) s = Some (triggerGlobal r e s)"
| "run_act r (AAsk AskBeforeSend) s =
     Some (push r [AUser Plain, ADecide AskBeforeSend] (record_entry r (Called CbBeforeSend) s))"
| "run_act r (AAsk AskGlobal) s =
     Some (let opts = rq_opts (aj_reqs s ! r)
           in if ao_global opts then triggerGlobal r GBeforeSend (push r [ADecide AskGlobal] s)
              else push r (after_answer opts AskGlobal True) s)"
| "run_act r (AAsk AskParse) s = Some (push r [AUser Guarded, ADecide AskParse] s)"
| "run_act r (ADecide q) s = None"
| "run_act r AAbort s = Some (xhr_abort r s)"
| "run_act r AFire s = Some (fire_script r (ScriptError EndAbort) s)"
| "run_act r ASend s =
     (let q = aj_reqs s ! r
      in if ao_jsonp (rq_opts q) \<or> ao_async (rq_opts q)
         then Some (upd_req r (\<lambda>q. q\<lparr>rq_sent := True, rq_timer := ao_timeout (rq_opts q)\<rparr>) s) else None)"
| "run_act r AStop s = Some (ajaxStop r s)"
| "run_act r (AUser k) s = Some s"
| "run_act r ABoundary s = Some s"

text \<open>What happens next: an act, the answer to a question, and what the page or the browser does.\<close>

datatype label = Run | Answer bool | New ajax_opts | UserAbort nat | Ready nat nat | TimerFires nat
  | ScriptEvent nat bool | Deliver nat | Throw

text \<open>The page runs in its callbacks, and when the library has nothing to do.\<close>

fun user_turn :: "(nat \<times> act) list \<Rightarrow> bool" where
  "user_turn [] = True"
| "user_turn ((r, AUser k) # _) = True"
| "user_turn _ = False"

fun boundary :: "act \<Rightarrow> bool" where
  "boundary ABoundary = True"
| "boundary (AUser k) = (k \<noteq> Plain)"
| "boundary _ = False"

text \<open>The answer false cancels a request before it is sent.\<close>

definition answer :: "nat \<Rightarrow> question \<Rightarrow> bool \<Rightarrow> ajax_state \<Rightarrow> ajax_state" where
  "answer r q b s =
     (let opts = rq_opts (aj_reqs s ! r);
          s1 = (if b \<or> q = AskParse \<or> ao_jsonp opts then s else record_entry r (Came Cancelled) s)
      in push r (after_answer opts q b) s1)"

definition reply :: "nat \<Rightarrow> nat \<Rightarrow> ajax_state \<Rightarrow> ajax_state" where
  "reply r status s = dispatch_ready r status (upd_req r (\<lambda>q. q\<lparr>rq_sent := True, rq_done := True\<rparr>) s)"

definition time_out :: "nat \<Rightarrow> ajax_state \<Rightarrow> ajax_state" where
  "time_out r s =
     (if ao_jsonp (rq_opts (aj_reqs s ! r))
      then fire_script r (ScriptError EndTimeout) (upd_req r (\<lambda>q. q\<lparr>rq_timer := False\<rparr>) s)
      else xhr_abort r (conclude r TimedOut (ajaxError EndTimeout) s))"

fun exec :: "label \<Rightarrow> ajax_state \<Rightarrow> ajax_state option" where
  "exec Run s =
     (case aj_todo s of [] \<Rightarrow> None | (r, a) # rest \<Rightarrow> run_act r a (s\<lparr>aj_todo := rest\<rparr>))"
| "exec (Answer b) s =
     (case aj_todo s of (r, ADecide q) # rest \<Rightarrow> Some (answer r q b (s\<lparr>aj_todo := rest\<rparr>)) | _ \<Rightarrow> None)"
| "exec (New opts) s = (if user_turn (aj_todo s) then Some (ajax opts s) else None)"
| "exec (UserAbort r) s = (if user_turn (aj_todo s) \<and> r < length (aj_reqs s) then Some (user_abort r s) else None)"
| "exec (Ready r status) s =
     (if r < length (aj_reqs s) \<and> \<not> ao_jsonp (rq_opts (aj_reqs s ! r))
      then (case aj_todo s of
              [] \<Rightarrow> (let q = aj_reqs s ! r in if rq_sent q \<and> \<not> rq_done q then Some (reply r status s) else None)
            | (r', a) # rest \<Rightarrow>
                if r' = r \<and> a = ASend \<and> \<not> ao_async (rq_opts (aj_reqs s ! r))
                then Some (reply r status (s\<lparr>aj_todo := rest\<rparr>)) else None)
      else None)"
| "exec (TimerFires r) s =
     (if aj_todo s = [] \<and> r < length (aj_reqs s) \<and> rq_timer (aj_reqs s ! r) then Some (time_out r s) else None)"
| "exec (ScriptEvent r loaded) s =
     (if aj_todo s = [] \<and> r < length (aj_reqs s) \<and> ao_jsonp (rq_opts (aj_reqs s ! r)) \<and> rq_sent (aj_reqs s ! r)
      then Some (fire_script r (if loaded then ScriptLoaded (rq_data (aj_reqs s ! r)) else ScriptError EndError) s)
      else None)"
| "exec (Deliver r) s =
     (if aj_todo s = [] \<and> r < length (aj_reqs s) \<and> ao_jsonp (rq_opts (aj_reqs s ! r)) \<and> rq_sent (aj_reqs s ! r)
      then Some (upd_req r (\<lambda>q. q\<lparr>rq_data := True\<rparr>) s) else None)"
| "exec Throw s =
     (case aj_todo s of
        (r, AUser Plain) # rest \<Rightarrow> Some (s\<lparr>aj_todo := dropWhile (\<lambda>(_, a). \<not> boundary a) rest\<rparr>)
      | _ \<Rightarrow> None)"

definition ajax_init :: ajax_state where
  "ajax_init = \<lparr>aj_active = 0, aj_reqs = [], aj_todo = [], aj_log = []\<rparr>"

fun ajax_run :: "label list \<Rightarrow> ajax_state \<Rightarrow> ajax_state option" where
  "ajax_run [] s = Some s"
| "ajax_run (l # ls) s = Option.bind (exec l s) (ajax_run ls)"

section \<open>What becomes of one request\<close>

fun is_end :: "entry \<Rightarrow> bool" where
  "is_end (Came c) = True"
| "is_end (Called CbSuccess) = True"
| "is_end (Called (CbError t)) = True"
| "is_end (Called (CbComplete t)) = True"
| "is_end Stopped = True"
| "is_end _ = False"

fun act_end :: "act \<Rightarrow> entry list" where
  "act_end (ACall cb) = (if is_end (Called cb) then [Called cb] else [])"
| "act_end AStop = [Stopped]"
| "act_end _ = []"

definition ends_of :: "nat \<Rightarrow> (nat \<times> entry) list \<Rightarrow> entry list" where
  "ends_of r entries = filter is_end (map snd (filter (\<lambda>p. fst p = r) entries))"

definition acts_of :: "nat \<Rightarrow> (nat \<times> act) list \<Rightarrow> act list" where
  "acts_of r todo = map snd (filter (\<lambda>p. fst p = r) todo)"

definition act_ends :: "act list \<Rightarrow> entry list" where
  "act_ends acts = concat (map act_end acts)"

text \<open>How each cause ends a request.\<close>

fun ends_as :: "ajax_opts \<Rightarrow> cause \<Rightarrow> ajax_status \<Rightarrow> bool" where
  "ends_as opts (Replied n) st =
     (if status_ok opts n then st = Succeeded \<or> (\<not> ao_binary opts \<and> st = Failed EndParser)
      else st = Failed (if n \<noteq> 0 then EndError else EndAbort))"
| "ends_as opts TimedOut st = (st = Failed EndTimeout)"
| "ends_as opts Cancelled st = (st = Failed EndAbort)"
| "ends_as opts (ScriptLoaded d) st = (st = (if d then Succeeded else Failed EndError))"
| "ends_as opts (ScriptError t) st = (st = Failed t)"

fun outcome_callback :: "ajax_status \<Rightarrow> callback" where
  "outcome_callback Succeeded = CbSuccess"
| "outcome_callback (Failed t) = CbError t"

definition is_story :: "ajax_opts \<Rightarrow> entry list \<Rightarrow> bool" where
  "is_story opts es \<longleftrightarrow> (\<exists>c st. ends_as opts c st \<and> es = [Came c, Called (outcome_callback st), Called (CbComplete st), Stopped])"

text \<open>With exceptions of the page only a part of the story may be told.\<close>

definition tells :: "bool \<Rightarrow> ajax_opts \<Rightarrow> entry list \<Rightarrow> bool" where
  "tells strict opts es \<longleftrightarrow> (if strict then is_story opts es else \<exists>es'. is_story opts es' \<and> subseq es es')"

fun is_gate :: "act \<Rightarrow> bool" where
  "is_gate (AAsk q) = True"
| "is_gate (ADecide q) = True"
| "is_gate ASend = True"
| "is_gate _ = False"

fun parse_gate :: "act \<Rightarrow> bool" where
  "parse_gate (AAsk q) = (q = AskParse)"
| "parse_gate (ADecide q) = (q = AskParse)"
| "parse_gate _ = False"

definition gates :: "act list \<Rightarrow> nat" where
  "gates acts = length (filter is_gate acts)"

definition armed :: "ajax_req \<Rightarrow> bool" where
  "armed q \<longleftrightarrow> rq_handler q \<and> (ao_jsonp (rq_opts q) \<or> rq_sent q)"

lemmas act_simps = ends_of_def acts_of_def act_ends_def gates_def

lemma act_ends_simps [simp]: "act_ends [] = []" "act_ends (a # as) = act_end a @ act_ends as"
  "act_ends (as @ bs) = act_ends as @ act_ends bs"
  by (simp_all add: act_ends_def)

lemma gates_simps [simp]: "gates [] = 0" "gates (a # as) = (if is_gate a then 1 else 0) + gates as"
  "gates (as @ bs) = gates as + gates bs"
  by (simp_all add: gates_def)

lemma ends_of_simps [simp]: "ends_of r [] = []"
  "ends_of r (xs @ ys) = ends_of r xs @ ends_of r ys"
  "ends_of r [(r', e)] = (if r' = r \<and> is_end e then [e] else [])"
  by (simp_all add: ends_of_def)

lemma acts_of_simps [simp]: "acts_of r [] = []" "acts_of r ((r', a) # todo) = (if r' = r then a # acts_of r todo else acts_of r todo)"
  "acts_of r (xs @ ys) = acts_of r xs @ acts_of r ys"
  by (simp_all add: acts_of_def)

lemma acts_of_own [simp]: "acts_of r (map (Pair r') acts) = (if r' = r then acts else [])"
  by (induction acts) auto

text \<open>
  A request waits (\<open>waits\<close>): nothing was reported, and either it will be sent or it is armed; or its
  reply is being parsed; or it tells its story.
\<close>

definition waits :: "ajax_req \<Rightarrow> entry list \<Rightarrow> act list \<Rightarrow> bool" where
  "waits q es acts \<longleftrightarrow> rq_handler q \<and> es = [] \<and> act_ends acts = [] \<and> list_all (\<lambda>a. \<not> parse_gate a) acts \<and>
     (if ao_jsonp (rq_opts q) then True else gates acts + (if rq_sent q then 1 else 0) = 1)"

definition parses :: "ajax_req \<Rightarrow> entry list \<Rightarrow> act list \<Rightarrow> bool" where
  "parses q es acts \<longleftrightarrow> \<not> ao_jsonp (rq_opts q) \<and> \<not> rq_handler q \<and> \<not> ao_binary (rq_opts q) \<and>
     (\<exists>n. status_ok (rq_opts q) n \<and> es = [Came (Replied n)]) \<and> act_ends acts = [] \<and>
     gates acts = 1 \<and> list_all (\<lambda>a. is_gate a \<longrightarrow> parse_gate a) acts"

definition tells_story :: "bool \<Rightarrow> ajax_req \<Rightarrow> entry list \<Rightarrow> act list \<Rightarrow> bool" where
  "tells_story strict q es acts \<longleftrightarrow> \<not> armed q \<and> tells strict (rq_opts q) (es @ act_ends acts) \<and>
     list_all (\<lambda>a. \<not> parse_gate a) acts \<and> (if ao_jsonp (rq_opts q) then True else gates acts = 0)"

definition req_ok :: "bool \<Rightarrow> ajax_req \<Rightarrow> entry list \<Rightarrow> act list \<Rightarrow> bool" where
  "req_ok strict q es acts \<longleftrightarrow>
     (if ao_jsonp (rq_opts q) then AAbort \<notin> set acts else AFire \<notin> set acts \<and> (rq_timer q \<longrightarrow> armed q)) \<and>
     (waits q es acts \<or> parses q es acts \<or> tells_story strict q es acts)"

definition view_ok :: "bool \<Rightarrow> ajax_state \<Rightarrow> nat \<Rightarrow> bool" where
  "view_ok strict s r \<longleftrightarrow> req_ok strict (aj_reqs s ! r) (ends_of r (aj_log s)) (acts_of r (aj_todo s))"

section \<open>The library's functions, on one request\<close>

lemma upd_req_simps [simp]:
  "aj_log (upd_req r f s) = aj_log s" "aj_todo (upd_req r f s) = aj_todo s" "aj_active (upd_req r f s) = aj_active s"
  "length (aj_reqs (upd_req r f s)) = length (aj_reqs s)"
  "r' \<noteq> r \<Longrightarrow> aj_reqs (upd_req r f s) ! r' = aj_reqs s ! r'"
  "r < length (aj_reqs s) \<Longrightarrow> aj_reqs (upd_req r f s) ! r = f (aj_reqs s ! r)"
  by (simp_all add: upd_req_def)

lemma push_simps [simp]:
  "aj_log (push r acts s) = aj_log s" "aj_todo (push r acts s) = map (Pair r) acts @ aj_todo s"
  "aj_active (push r acts s) = aj_active s" "aj_reqs (push r acts s) = aj_reqs s"
  by (simp_all add: push_def)

lemma record_entry_simps [simp]:
  "aj_log (record_entry r e s) = aj_log s @ [(r, e)]" "aj_todo (record_entry r e s) = aj_todo s"
  "aj_active (record_entry r e s) = aj_active s" "aj_reqs (record_entry r e s) = aj_reqs s"
  by (simp_all add: record_entry_def)

lemma is_storyI: "ends_as opts c st \<Longrightarrow> is_story opts [Came c, Called (outcome_callback st), Called (CbComplete st), Stopped]"
  by (auto simp: is_story_def)

lemma tells_storyI: "is_story opts es \<Longrightarrow> tells strict opts es"
  by (auto simp: tells_def)

lemma tells_ends: "ends_as opts c st \<Longrightarrow> es = [Came c, Called (outcome_callback st), Called (CbComplete st), Stopped] \<Longrightarrow> tells strict opts es"
  by (auto simp: tells_def is_story_def)

lemma end_acts:
  "act_ends ajaxSuccess = [Called (outcome_callback Succeeded), Called (CbComplete Succeeded), Stopped]"
  "act_ends (ajaxError t) = [Called (outcome_callback (Failed t)), Called (CbComplete (Failed t)), Stopped]"
  "gates ajaxSuccess = 0" "gates (ajaxError t) = 0"
  "list_all (\<lambda>a. \<not> parse_gate a) ajaxSuccess" "list_all (\<lambda>a. \<not> parse_gate a) (ajaxError t)"
  "AFire \<notin> set ajaxSuccess" "AFire \<notin> set (ajaxError t)" "AAbort \<notin> set ajaxSuccess" "AAbort \<notin> set (ajaxError t)"
  by (simp_all add: ajaxSuccess_def ajaxError_def ajaxComplete_def)


lemma waits_acts: "waits q es acts \<Longrightarrow> \<not> parses q es acts \<and> (ao_jsonp (rq_opts q) \<or> gates acts = 0 \<longleftrightarrow> armed q)"
  by (auto simp: waits_def parses_def armed_def split: if_splits)

text \<open>An armed request has nothing reported and nothing left to do that reports.\<close>

lemma armed_waits: "req_ok strict q es acts \<Longrightarrow> armed q \<Longrightarrow> waits q es acts"
  by (auto simp: req_ok_def parses_def tells_story_def armed_def)

lemma conclude_own:
  assumes r: "r < length (aj_reqs s)" and ok: "view_ok strict s r" and arm: "armed (aj_reqs s ! r)"
    and acts: "\<And>q. rq_opts q = rq_opts (aj_reqs s ! r) \<Longrightarrow> \<not> rq_handler q \<Longrightarrow> \<not> rq_timer q \<Longrightarrow> req_ok strict q [Came c] acts"
  shows "view_ok strict (conclude r c acts s) r"
proof -
  define q where "q = aj_reqs s ! r"
  define q' where "q' = q\<lparr>rq_handler := False, rq_timer := False\<rparr>"
  define A where "A = acts_of r (aj_todo s)"
  have w: "waits q (ends_of r (aj_log s)) A"
    using armed_waits ok arm unfolding view_ok_def q_def A_def by blast
  then have nil: "ends_of r (aj_log s) = []" "act_ends A = []" "list_all (\<lambda>a. \<not> parse_gate a) A"
    by (simp_all add: waits_def)
  have g: "ao_jsonp (rq_opts q) \<or> gates A = 0" using waits_acts[OF w] arm by (auto simp: q_def)
  have set: "if ao_jsonp (rq_opts q) then AAbort \<notin> set A else AFire \<notin> set A"
    using ok unfolding view_ok_def req_ok_def q_def A_def by (auto split: if_splits)
  have a: "req_ok strict q' [Came c] acts"
    by (rule acts) (simp_all add: q'_def q_def)
  have og: "rq_opts q' = rq_opts q" "\<not> rq_handler q'" "\<not> rq_timer q'" "\<not> armed q'" by (simp_all add: q'_def armed_def)
  have ng: "list_all (\<lambda>a. is_gate a \<longrightarrow> parse_gate a) A" if "\<not> ao_jsonp (rq_opts q)"
    using g that by (auto simp: gates_def list_all_iff filter_empty_conv)
  have "req_ok strict q' [Came c] (acts @ A)"
    using a g set nil ng og unfolding req_ok_def parses_def tells_story_def waits_def by (auto split: if_splits)
  then show ?thesis
    using r nil(1) by (simp add: view_ok_def conclude_def q'_def q_def A_def)
qed

lemma ready_ok:
  assumes "rq_opts q = opts" "\<not> rq_handler q" "\<not> rq_timer q" "\<not> ao_jsonp opts"
  shows "req_ok strict q [Came (Replied n)] (ready_acts opts n @ [ABoundary])"
proof (cases "status_ok opts n \<and> \<not> ao_binary opts")
  case True
  then show ?thesis using assms by (simp add: req_ok_def parses_def ready_acts_def)
next
  case False
  define st where "st = (if status_ok opts n then Succeeded else Failed (if n \<noteq> 0 then EndError else EndAbort))"
  have acts: "ready_acts opts n = (case st of Succeeded \<Rightarrow> ajaxSuccess | Failed t \<Rightarrow> ajaxError t)"
    using False by (auto simp: ready_acts_def st_def)
  have "ends_as opts (Replied n) st" using False by (auto simp: st_def)
  then have "tells strict opts ([Came (Replied n)] @ act_ends (ready_acts opts n))"
    by (rule tells_ends) (cases st; simp add: acts end_acts)
  then show ?thesis using assms
    by (cases st) (simp_all add: req_ok_def tells_story_def armed_def acts end_acts)
qed

lemma script_ok:
  assumes "rq_opts q = opts" "\<not> rq_handler q" "ao_jsonp opts" and c: "c = ScriptLoaded d \<or> (\<exists>t. c = ScriptError t)"
  shows "req_ok strict q [Came c] (script_acts opts d c)"
proof -
  define st where "st = (case c of ScriptLoaded _ \<Rightarrow> if d then Succeeded else Failed EndError | ScriptError t \<Rightarrow> Failed t | _ \<Rightarrow> Succeeded)"
  define orig where "orig = (if d \<and> ao_original opts then [ACall CbOriginal] else [])"
  have acts: "script_acts opts d c = (case st of Succeeded \<Rightarrow> ajaxSuccess | Failed t \<Rightarrow> ajaxError t) @ orig"
    using c by (auto simp: st_def orig_def)
  have orig: "act_ends orig = []" "AAbort \<notin> set orig" "list_all (\<lambda>a. \<not> parse_gate a) orig" by (simp_all add: orig_def)
  have "ends_as opts c st" using c by (auto simp: st_def)
  then have "tells strict opts ([Came c] @ act_ends (script_acts opts d c))"
    by (rule tells_ends) (cases st; simp add: acts end_acts orig)
  then show ?thesis using assms(1-3) orig
    by (cases st) (simp_all add: req_ok_def tells_story_def armed_def acts end_acts)
qed

lemma timeout_ok:
  assumes "\<not> rq_handler q" "\<not> rq_timer q" "\<not> ao_jsonp (rq_opts q)"
  shows "req_ok strict q [Came TimedOut] (ajaxError EndTimeout)"
proof -
  have "ends_as (rq_opts q) TimedOut (Failed EndTimeout)" by simp
  then have "tells strict (rq_opts q) ([Came TimedOut] @ act_ends (ajaxError EndTimeout))"
    by (rule tells_ends) (simp add: end_acts)
  then show ?thesis using assms by (simp add: req_ok_def tells_story_def armed_def end_acts)
qed

text \<open>The state of the native request does not matter otherwise.\<close>

lemma view_ok_done:
  "r < length (aj_reqs s) \<Longrightarrow> view_ok strict (upd_req r (\<lambda>q. q\<lparr>rq_done := True\<rparr>) s) r = view_ok strict s r"
  by (simp add: view_ok_def req_ok_def waits_def parses_def tells_story_def armed_def)

lemma view_ok_data:
  "r < length (aj_reqs s) \<Longrightarrow> view_ok strict (upd_req r (\<lambda>q. q\<lparr>rq_data := True\<rparr>) s) r = view_ok strict s r"
  by (simp add: view_ok_def req_ok_def waits_def parses_def tells_story_def armed_def)

lemma dispatch_own:
  assumes r: "r < length (aj_reqs s)" and ok: "view_ok strict s r" and x: "\<not> ao_jsonp (rq_opts (aj_reqs s ! r))"
    and sent: "rq_sent (aj_reqs s ! r)"
  shows "view_ok strict (dispatch_ready r n s) r"
proof (cases "rq_handler (aj_reqs s ! r)")
  case True
  with sent have "armed (aj_reqs s ! r)" by (simp add: armed_def)
  then have "view_ok strict (conclude r (Replied n) (ready_acts (rq_opts (aj_reqs s ! r)) n @ [ABoundary]) s) r"
    using x by (intro conclude_own[OF r ok] ready_ok) auto
  with True show ?thesis by (simp add: dispatch_ready_def)
qed (simp add: dispatch_ready_def ok)

lemma fire_own:
  assumes r: "r < length (aj_reqs s)" and ok: "view_ok strict s r" and j: "ao_jsonp (rq_opts (aj_reqs s ! r))"
    and c: "c = ScriptLoaded (rq_data (aj_reqs s ! r)) \<or> (\<exists>t. c = ScriptError t)"
  shows "view_ok strict (fire_script r c s) r"
proof (cases "rq_handler (aj_reqs s ! r)")
  case True
  with j have "armed (aj_reqs s ! r)" by (simp add: armed_def)
  then have "view_ok strict (conclude r c (script_acts (rq_opts (aj_reqs s ! r)) (rq_data (aj_reqs s ! r)) c) s) r"
    using j c by (intro conclude_own[OF r ok] script_ok) auto
  with True show ?thesis by (simp add: fire_script_def Let_def)
qed (simp add: fire_script_def Let_def ok)

lemma xhr_abort_own:
  assumes r: "r < length (aj_reqs s)" and ok: "view_ok strict s r" and x: "\<not> ao_jsonp (rq_opts (aj_reqs s ! r))"
  shows "view_ok strict (xhr_abort r s) r"
proof (cases "rq_sent (aj_reqs s ! r) \<and> \<not> rq_done (aj_reqs s ! r)")
  case True
  have "view_ok strict (dispatch_ready r 0 (upd_req r (\<lambda>q. q\<lparr>rq_done := True\<rparr>) s)) r"
    using r ok x True by (intro dispatch_own) (simp_all add: view_ok_done)
  with True show ?thesis by (simp add: xhr_abort_def Let_def)
next
  case False
  then have "xhr_abort r s = s" unfolding xhr_abort_def Let_def by (rule if_not_P)
  then show ?thesis using ok by simp
qed

lemma user_abort_own:
  "r < length (aj_reqs s) \<Longrightarrow> view_ok strict s r \<Longrightarrow> view_ok strict (user_abort r s) r"
  by (simp add: user_abort_def fire_own xhr_abort_own)

lemma reply_own:
  assumes r: "r < length (aj_reqs s)" and x: "\<not> ao_jsonp (rq_opts (aj_reqs s ! r))"
    and ok: "view_ok strict (upd_req r (\<lambda>q. q\<lparr>rq_sent := True\<rparr>) s) r"
  shows "view_ok strict (reply r n s) r"
proof -
  have "upd_req r (\<lambda>q. q\<lparr>rq_sent := True, rq_done := True\<rparr>) s =
      upd_req r (\<lambda>q. q\<lparr>rq_done := True\<rparr>) (upd_req r (\<lambda>q. q\<lparr>rq_sent := True\<rparr>) s)"
    using r by (simp add: upd_req_def)
  then show ?thesis
    using r x ok unfolding reply_def by (intro dispatch_own) (simp_all add: view_ok_done)
qed

lemma time_out_own:
  assumes r: "r < length (aj_reqs s)" and ok: "view_ok strict s r" and t: "rq_timer (aj_reqs s ! r)"
  shows "view_ok strict (time_out r s) r"
proof (cases "ao_jsonp (rq_opts (aj_reqs s ! r))")
  case True
  have "view_ok strict (upd_req r (\<lambda>q. q\<lparr>rq_timer := False\<rparr>) s) r"
    using r ok True by (simp add: view_ok_def req_ok_def waits_def parses_def tells_story_def armed_def)
  then have "view_ok strict (fire_script r (ScriptError EndTimeout) (upd_req r (\<lambda>q. q\<lparr>rq_timer := False\<rparr>) s)) r"
    using r True by (intro fire_own) simp_all
  with True show ?thesis by (simp add: time_out_def)
next
  case False
  have "armed (aj_reqs s ! r)"
    using ok t False unfolding view_ok_def req_ok_def by (simp split: if_splits)
  then have c: "view_ok strict (conclude r TimedOut (ajaxError EndTimeout) s) r"
    using False by (intro conclude_own[OF r ok] timeout_ok) auto
  have "rq_opts (aj_reqs (conclude r TimedOut (ajaxError EndTimeout) s) ! r) = rq_opts (aj_reqs s ! r)"
    "length (aj_reqs (conclude r TimedOut (ajaxError EndTimeout) s)) = length (aj_reqs s)"
    using r by (simp_all add: conclude_def)
  then have "view_ok strict (xhr_abort r (conclude r TimedOut (ajaxError EndTimeout) s)) r"
    using r False c by (intro xhr_abort_own) simp_all
  with False show ?thesis by (simp add: time_out_def)
qed

section \<open>The other requests\<close>

text \<open>What a function for one request leaves alone.\<close>

definition frame_ok :: "nat \<Rightarrow> ajax_state \<Rightarrow> ajax_state \<Rightarrow> bool" where
  "frame_ok r s s' \<longleftrightarrow> length (aj_reqs s') = length (aj_reqs s) \<and>
     (\<forall>r'. r' \<noteq> r \<longrightarrow> aj_reqs s' ! r' = aj_reqs s ! r' \<and> ends_of r' (aj_log s') = ends_of r' (aj_log s) \<and>
        acts_of r' (aj_todo s') = acts_of r' (aj_todo s)) \<and>
     rq_opts (aj_reqs s' ! r) = rq_opts (aj_reqs s ! r) \<and>
     fst ` set (aj_todo s') \<subseteq> insert r (fst ` set (aj_todo s)) \<and> fst ` set (aj_log s') \<subseteq> insert r (fst ` set (aj_log s))"

lemma frame_refl: "frame_ok r s s"
  by (auto simp: frame_ok_def)

lemma frame_trans: "frame_ok r s s1 \<Longrightarrow> frame_ok r s1 s2 \<Longrightarrow> frame_ok r s s2"
proof -
  assume 1: "frame_ok r s s1" and 2: "frame_ok r s1 s2"
  have sub: "A \<subseteq> insert r B \<Longrightarrow> B \<subseteq> insert r C \<Longrightarrow> A \<subseteq> insert r C" for A B C :: "nat set" by blast
  from 2 have t2: "fst ` set (aj_todo s2) \<subseteq> insert r (fst ` set (aj_todo s1))" and l2: "fst ` set (aj_log s2) \<subseteq> insert r (fst ` set (aj_log s1))"
    unfolding frame_ok_def by - (elim conjE, assumption)+
  from 1 have t1: "fst ` set (aj_todo s1) \<subseteq> insert r (fst ` set (aj_todo s))" and l1: "fst ` set (aj_log s1) \<subseteq> insert r (fst ` set (aj_log s))"
    unfolding frame_ok_def by - (elim conjE, assumption)+
  show ?thesis
    unfolding frame_ok_def using 1 2 sub[OF t2 t1] sub[OF l2 l1]
    by (intro conjI allI impI) (simp_all only: frame_ok_def simp_thms)
qed

lemma frame_upd: "(\<And>q. rq_opts (f q) = rq_opts q) \<Longrightarrow> frame_ok r s (upd_req r f s)"
  by (cases "r < length (aj_reqs s)") (auto simp: frame_ok_def upd_req_def list_update_beyond)

lemma frame_push: "frame_ok r s (push r acts s)"
  by (auto simp: frame_ok_def)

lemma frame_record: "frame_ok r s (record_entry r e s)"
  by (auto simp: frame_ok_def)

lemma frame_active: "frame_ok r s (s\<lparr>aj_active := n\<rparr>)"
  by (auto simp: frame_ok_def)

lemma frame_conclude: "frame_ok r s (conclude r c acts s)"
  unfolding conclude_def by (intro frame_trans[OF _ frame_push] frame_trans[OF _ frame_record] frame_upd) simp

lemma frame_dispatch: "frame_ok r s (dispatch_ready r n s)"
  by (simp add: dispatch_ready_def frame_conclude frame_refl)

lemma frame_fire: "frame_ok r s (fire_script r c s)"
  by (simp add: fire_script_def Let_def frame_conclude frame_refl)

lemma frame_xhr_abort: "frame_ok r s (xhr_abort r s)"
  by (auto simp: xhr_abort_def Let_def frame_refl intro: frame_trans[OF frame_upd frame_dispatch])

lemma frame_user_abort: "frame_ok r s (user_abort r s)"
  by (simp add: user_abort_def frame_fire frame_xhr_abort)

lemma frame_reply: "frame_ok r s (reply r n s)"
  unfolding reply_def by (rule frame_trans[OF frame_upd frame_dispatch]) simp

lemma frame_time_out: "frame_ok r s (time_out r s)"
  by (auto simp: time_out_def intro: frame_trans[OF frame_upd frame_fire] frame_trans[OF frame_conclude frame_xhr_abort])

lemma frame_trigger: "frame_ok r s (triggerGlobal r e s)"
  by (auto simp: triggerGlobal_def frame_refl intro: frame_trans[OF frame_record frame_push])

lemma frame_stop: "frame_ok r s (ajaxStop r s)"
  by (auto simp: ajaxStop_def Let_def frame_refl
      intro: frame_trans[OF frame_trans[OF frame_record frame_active] frame_trigger] frame_trans[OF frame_record frame_active] frame_record)

lemma frame_answer: "frame_ok r s (answer r q b s)"
  by (auto simp: answer_def Let_def intro: frame_trans[OF frame_record frame_push] frame_push)

lemma frame_run_act: "run_act r a s = Some s' \<Longrightarrow> frame_ok r s s'"
proof (cases "(r, a, s)" rule: run_act.cases)
  case (4 r0 s0)
  assume "run_act r a s = Some s'"
  then show ?thesis using 4
    by (auto simp: Let_def intro: frame_push frame_trans[OF frame_push frame_trigger] split: if_splits)
qed (auto simp: Let_def frame_refl frame_xhr_abort frame_fire frame_stop frame_trigger frame_push
    intro: frame_trans[OF frame_record frame_push] frame_upd split: if_splits)

lemma view_frame: "frame_ok r s s' \<Longrightarrow> r' \<noteq> r \<Longrightarrow> view_ok strict s' r' = view_ok strict s r'"
  by (simp add: frame_ok_def view_ok_def)

section \<open>An act of the library\<close>

text \<open>The request of the act at the head of what is left to do, before and after the act is taken.\<close>

lemma view_head:
  "aj_todo s = (r, a) # rest \<Longrightarrow> acts_of r (aj_todo s) = a # acts_of r rest"
  by simp

lemma inert_acts:
  assumes "req_ok strict q es acts" and "list_all (\<lambda>a. act_end a = [] \<and> \<not> is_gate a \<and> a \<noteq> AFire \<and> a \<noteq> AAbort) ins"
  shows "req_ok strict q es (ins @ acts)"
proof -
  have "act_ends ins = []" "gates ins = 0" "AFire \<notin> set ins" "AAbort \<notin> set ins"
    "list_all (\<lambda>a. \<not> parse_gate a) ins" "list_all (\<lambda>a. is_gate a \<longrightarrow> parse_gate a) ins"
    using assms(2) by (induction ins) (auto elim: parse_gate.elims)
  then show ?thesis
    using assms(1) unfolding req_ok_def waits_def parses_def tells_story_def by auto
qed

lemma inert_drop:
  assumes "req_ok strict q es (a # acts)" and "act_end a = []" "\<not> is_gate a"
  shows "req_ok strict q es acts"
  using assms unfolding req_ok_def waits_def parses_def tells_story_def by auto

lemma trigger_view: "view_ok strict s r \<Longrightarrow> view_ok strict (triggerGlobal r e s) r"
  using inert_acts[of strict "aj_reqs s ! r" "ends_of r (aj_log s)" "acts_of r (aj_todo s)" "[AUser Dispatched]"]
  by (auto simp: triggerGlobal_def view_ok_def)

lemma stop_view:
  assumes "req_ok strict (aj_reqs s ! r) (ends_of r (aj_log s)) (AStop # acts_of r (aj_todo s))"
  shows "view_ok strict (ajaxStop r s) r"
proof -
  have "view_ok strict (record_entry r Stopped s) r"
    using assms unfolding view_ok_def req_ok_def waits_def parses_def tells_story_def by auto
  moreover have "view_ok strict (t\<lparr>aj_active := n\<rparr>) r = view_ok strict t r" for t n by (simp add: view_ok_def)
  ultimately show ?thesis by (simp add: ajaxStop_def Let_def trigger_view)
qed

lemma call_view:
  assumes "req_ok strict (aj_reqs s ! r) (ends_of r (aj_log s)) (ACall cb # acts_of r (aj_todo s))"
  shows "view_ok strict (push r [AUser Plain] (record_entry r (Called cb) s)) r"
proof -
  have "req_ok strict (aj_reqs s ! r) (ends_of r (aj_log s) @ act_end (ACall cb)) (acts_of r (aj_todo s))"
    using assms unfolding req_ok_def waits_def parses_def tells_story_def by auto
  from inert_acts[OF this, of "[AUser Plain]"] show ?thesis by (simp add: view_ok_def)
qed

lemma gate_view:
  assumes ok: "req_ok strict q es (g # acts)" and g: "is_gate g" "is_gate g'" "parse_gate g' = parse_gate g"
  shows "req_ok strict q es (g' # acts)"
proof -
  have "act_end g = []" "act_end g' = []" "g' \<noteq> AAbort" "g' \<noteq> AFire" using g by (auto elim!: is_gate.elims)
  with ok g show ?thesis unfolding req_ok_def waits_def parses_def tells_story_def by auto
qed

lemma gate_waits:
  assumes "req_ok strict q es (g # acts)" "is_gate g" "\<not> parse_gate g" "\<not> ao_jsonp (rq_opts q)"
  shows "waits q es (g # acts)" "\<not> rq_sent q" "gates acts = 0" "act_ends acts = []"
  using assms unfolding req_ok_def waits_def parses_def tells_story_def by (auto split: if_splits)

lemma gate_drop_jsonp:
  assumes "req_ok strict q es (g # acts)" "is_gate g" "ao_jsonp (rq_opts q)"
  shows "req_ok strict q es acts" "\<not> parse_gate g"
proof -
  have "act_end g = []" using assms(2) by (auto elim!: is_gate.elims)
  then show "req_ok strict q es acts" "\<not> parse_gate g"
    using assms unfolding req_ok_def waits_def parses_def tells_story_def by auto
qed

lemma gate_parses:
  assumes "req_ok strict q es (g # acts)" "parse_gate g"
  shows "parses q es (g # acts)" "gates acts = 0" "list_all (\<lambda>a. \<not> parse_gate a) acts"
proof -
  have p: "parses q es (g # acts)" and gg: "is_gate g"
    using assms unfolding req_ok_def waits_def tells_story_def by (auto elim: parse_gate.elims)
  then show "parses q es (g # acts)" by simp
  show g0: "gates acts = 0" using p gg unfolding parses_def by simp
  have "parse_gate a \<Longrightarrow> is_gate a" for a by (auto elim: parse_gate.elims)
  then show "list_all (\<lambda>a. \<not> parse_gate a) acts"
    using g0 by (auto simp: gates_def list_all_iff filter_empty_conv)
qed

lemma sent_view:
  assumes ok: "req_ok strict q es (ASend # acts)" and x: "\<not> ao_jsonp (rq_opts q)"
    and q': "rq_opts q' = rq_opts q" "rq_handler q' = rq_handler q" "rq_sent q'"
  shows "req_ok strict q' es acts"
proof -
  note w = gate_waits[OF ok _ _ x]
  have "waits q es (ASend # acts)" "gates acts = 0" "AFire \<notin> set acts"
    using w ok x by (simp_all add: req_ok_def)
  then show ?thesis using x q' unfolding req_ok_def waits_def armed_def by simp
qed

lemma sent_view_jsonp:
  assumes ok: "req_ok strict q es acts" and x: "ao_jsonp (rq_opts q)" "rq_opts q' = rq_opts q" "rq_handler q' = rq_handler q"
  shows "req_ok strict q' es acts"
  using assms unfolding req_ok_def waits_def parses_def tells_story_def armed_def by auto

lemma run_act_view:
  assumes r: "r < length (aj_reqs s)"
    and ok: "req_ok strict (aj_reqs s ! r) (ends_of r (aj_log s)) (a # acts_of r (aj_todo s))"
    and run: "run_act r a s = Some s'"
  shows "view_ok strict s' r"
proof -
  have drop: "act_end a = [] \<Longrightarrow> \<not> is_gate a \<Longrightarrow> view_ok strict s r"
    using inert_drop[OF ok] by (simp add: view_ok_def)
  show ?thesis
  proof (cases a)
    case (ACall cb)
    then show ?thesis using run ok call_view by auto
  next
    case (AGlobal e)
    then show ?thesis using run drop trigger_view by auto
  next
    case (AAsk q)
    have swap: "req_ok strict (aj_reqs s ! r) (ends_of r (aj_log s)) (ADecide q # acts_of r (aj_todo s))"
      using gate_view[OF ok, of "ADecide q"] AAsk by simp
    show ?thesis
    proof (cases q)
      case AskBeforeSend
      then show ?thesis using run AAsk inert_acts[OF swap, of "[AUser Plain]"] by (auto simp: view_ok_def)
    next
      case AskGlobal
      have send: "req_ok strict (aj_reqs s ! r) (ends_of r (aj_log s)) (ASend # acts_of r (aj_todo s))"
        using gate_view[OF ok, of ASend] AAsk AskGlobal by simp
      have "view_ok strict (push r [ADecide AskGlobal] s) r" "view_ok strict (push r (after_answer (rq_opts (aj_reqs s ! r)) AskGlobal True) s) r"
        using swap AskGlobal inert_acts[OF send, of "[AGlobal GSend]"] by (simp_all add: view_ok_def)
      then show ?thesis using run AAsk AskGlobal trigger_view by (auto simp: Let_def)
    next
      case AskParse
      then show ?thesis using run AAsk inert_acts[OF swap, of "[AUser Guarded]"] by (auto simp: view_ok_def)
    qed
  next
    case AAbort
    then have "\<not> ao_jsonp (rq_opts (aj_reqs s ! r))" using ok by (auto simp: req_ok_def split: if_splits)
    then show ?thesis using run drop xhr_abort_own[OF r] AAbort by auto
  next
    case AFire
    then have "ao_jsonp (rq_opts (aj_reqs s ! r))" using ok by (auto simp: req_ok_def split: if_splits)
    then show ?thesis using run drop fire_own[OF r] AFire by auto
  next
    case ASend
    define f where "f = (\<lambda>q :: ajax_req. q\<lparr>rq_sent := True, rq_timer := ao_timeout (rq_opts q)\<rparr>)"
    have s': "s' = upd_req r f s" using run ASend by (auto simp: Let_def f_def split: if_splits)
    have "req_ok strict (f (aj_reqs s ! r)) (ends_of r (aj_log s)) (acts_of r (aj_todo s))"
    proof (cases "ao_jsonp (rq_opts (aj_reqs s ! r))")
      case True
      then show ?thesis using sent_view_jsonp[OF gate_drop_jsonp(1)[OF ok]] ASend by (simp add: f_def)
    next
      case False
      then show ?thesis using sent_view[of strict "aj_reqs s ! r"] ok ASend by (simp add: f_def)
    qed
    then show ?thesis using r by (simp add: s' view_ok_def)
  next
    case AStop
    then show ?thesis using run ok stop_view by auto
  qed (use run drop in auto)
qed

lemma cancelled_ok:
  assumes w: "waits q es (g # acts)" "\<not> rq_sent q" "\<not> ao_jsonp (rq_opts q)" "gates acts = 0" "AFire \<notin> set acts"
    and t: "\<not> rq_timer q"
  shows "req_ok strict q (es @ [Came Cancelled]) ((AAbort # ajaxError EndAbort) @ acts)"
proof -
  have "ends_as (rq_opts q) Cancelled (Failed EndAbort)" by simp
  moreover have "(es @ [Came Cancelled]) @ act_ends ((AAbort # ajaxError EndAbort) @ acts) =
      [Came Cancelled, Called (outcome_callback (Failed EndAbort)), Called (CbComplete (Failed EndAbort)), Stopped]"
    using w(1) by (simp add: waits_def end_acts)
  ultimately have "tells strict (rq_opts q) ((es @ [Came Cancelled]) @ act_ends ((AAbort # ajaxError EndAbort) @ acts))"
    by (rule tells_ends)
  then show ?thesis using assms unfolding req_ok_def tells_story_def waits_def by (simp add: armed_def end_acts)
qed

lemma parsed_ok:
  assumes p: "parses q es (g # acts)" "gates acts = 0" "list_all (\<lambda>a. \<not> parse_gate a) acts" "AFire \<notin> set acts" and t: "\<not> rq_timer q"
  shows "req_ok strict q es (after_answer opts AskParse b @ acts)"
proof -
  define st where "st = (if b then Succeeded else Failed EndParser)"
  have a: "after_answer opts AskParse b = (case st of Succeeded \<Rightarrow> ajaxSuccess | Failed t \<Rightarrow> ajaxError t)"
    by (cases b) (simp_all add: st_def)
  obtain n where n: "status_ok (rq_opts q) n" "es = [Came (Replied n)]" using p(1) by (auto simp: parses_def)
  have "ends_as (rq_opts q) (Replied n) st" using n p(1) by (simp add: st_def parses_def)
  moreover have "es @ act_ends (after_answer opts AskParse b @ acts) = [Came (Replied n), Called (outcome_callback st), Called (CbComplete st), Stopped]"
    using n p(1) by (cases st) (simp_all add: a end_acts parses_def)
  ultimately have "tells strict (rq_opts q) (es @ act_ends (after_answer opts AskParse b @ acts))"
    by (rule tells_ends)
  then show ?thesis
    using assms by (cases st) (simp_all add: req_ok_def tells_story_def parses_def armed_def a end_acts)
qed

lemma answer_view:
  assumes r: "r < length (aj_reqs s)"
    and ok: "req_ok strict (aj_reqs s ! r) (ends_of r (aj_log s)) (ADecide q # acts_of r (aj_todo s))"
  shows "view_ok strict (answer r q b s) r"
proof -
  define rq where "rq = aj_reqs s ! r"
  have t: "\<not> ao_jsonp (rq_opts rq) \<Longrightarrow> rq_timer rq \<longrightarrow> armed rq" "\<not> ao_jsonp (rq_opts rq) \<Longrightarrow> AFire \<notin> set (acts_of r (aj_todo s))"
    using ok by (auto simp: req_ok_def rq_def)
  show ?thesis
  proof (cases "q = AskParse")
    case True
    note p = gate_parses[OF ok]
    have x: "\<not> ao_jsonp (rq_opts rq)" "\<not> armed rq" using p(1) True by (simp_all add: parses_def rq_def armed_def)
    show ?thesis using parsed_ok[OF p] t x True by (simp add: answer_def Let_def view_ok_def rq_def)
  next
    case np: False
    show ?thesis
    proof (cases b)
      case True
      have "req_ok strict rq (ends_of r (aj_log s)) (after_answer (rq_opts rq) q True @ acts_of r (aj_todo s))"
      proof (cases q)
        case AskBeforeSend
        then show ?thesis using gate_view[OF ok, of "AAsk AskGlobal"] by (simp add: rq_def)
      next
        case AskGlobal
        then show ?thesis using gate_view[OF ok, of ASend] inert_acts[of strict rq _ "ASend # acts_of r (aj_todo s)" "[AGlobal GSend]"] by (simp add: rq_def)
      qed (use np in simp)
      then show ?thesis using True by (simp add: answer_def Let_def view_ok_def rq_def)
    next
      case False
      have aa: "after_answer opts q False = (if ao_jsonp opts then [AFire] else AAbort # ajaxError EndAbort)" for opts
        using np by (cases q) simp_all
      show ?thesis
      proof (cases "ao_jsonp (rq_opts rq)")
        case True
        have "req_ok strict rq (ends_of r (aj_log s)) (acts_of r (aj_todo s))"
          using gate_drop_jsonp[OF ok] True by (simp add: rq_def)
        then have "req_ok strict rq (ends_of r (aj_log s)) (AFire # acts_of r (aj_todo s))"
          using True unfolding req_ok_def waits_def parses_def tells_story_def by auto
        then show ?thesis using True False by (simp add: answer_def Let_def view_ok_def rq_def aa)
      next
        case x: False
        have g: "is_gate (ADecide q)" "\<not> parse_gate (ADecide q)" using np by simp_all
        note w = gate_waits[OF ok g x[unfolded rq_def]]
        have "\<not> rq_timer rq" using t(1)[OF x] w(2) x by (auto simp: armed_def rq_def)
        from cancelled_ok[OF w(1,2) x[unfolded rq_def] w(3) t(2)[OF x]] this show ?thesis
          using False x np by (simp add: answer_def Let_def view_ok_def rq_def aa)
      qed
    qed
  qed
qed

section \<open>The counter\<close>

definition plain_act :: "act \<Rightarrow> bool" where
  "plain_act a \<longleftrightarrow> a \<noteq> AGlobal GStart \<and> a \<noteq> AGlobal GStop"

definition calm_entry :: "entry \<Rightarrow> bool" where
  "calm_entry e \<longleftrightarrow> e \<noteq> Stopped \<and> e \<noteq> Fired GStart \<and> e \<noteq> Fired GStop"

text \<open>What does not touch the counter.\<close>

definition calm :: "ajax_state \<Rightarrow> ajax_state \<Rightarrow> bool" where
  "calm s s' \<longleftrightarrow> aj_active s' = aj_active s \<and> map rq_opts (aj_reqs s') = map rq_opts (aj_reqs s) \<and>
     (\<exists>es. aj_log s' = aj_log s @ es \<and> list_all (\<lambda>p. calm_entry (snd p)) es) \<and>
     (list_all (\<lambda>p. plain_act (snd p)) (aj_todo s) \<longrightarrow> list_all (\<lambda>p. plain_act (snd p)) (aj_todo s'))"

lemma calm_refl: "calm s s"
  by (simp add: calm_def)

lemma calm_trans: "calm s s1 \<Longrightarrow> calm s1 s2 \<Longrightarrow> calm s s2"
  unfolding calm_def by fastforce

lemma calm_upd: "(\<And>q. rq_opts (f q) = rq_opts q) \<Longrightarrow> calm s (upd_req r f s)"
  by (simp add: calm_def upd_req_def map_update list_update_same_conv)
    (metis list_update_beyond list_update_id map_update not_le_imp_less nth_map)

lemma calm_push: "list_all plain_act acts \<Longrightarrow> calm s (push r acts s)"
  by (auto simp: calm_def list_all_iff)

lemma calm_record: "calm_entry e \<Longrightarrow> calm s (record_entry r e s)"
  by (simp add: calm_def)

lemma calm_entries: "calm_entry (Came c)" "calm_entry (Called cb)" "e \<noteq> GStart \<Longrightarrow> e \<noteq> GStop \<Longrightarrow> calm_entry (Fired e)"
  by (simp_all add: calm_entry_def)

lemma plain_acts:
  "list_all plain_act ajaxSuccess" "list_all plain_act (ajaxError t)" "list_all plain_act (ready_acts opts n)"
  "list_all plain_act (script_acts opts d c)" "list_all plain_act (after_answer opts q b)"
proof -
  show 1: "list_all plain_act ajaxSuccess" and 2: "list_all plain_act (ajaxError t)" for t
    by (simp_all add: ajaxSuccess_def ajaxError_def ajaxComplete_def plain_act_def)
  show "list_all plain_act (ready_acts opts n)" by (simp add: ready_acts_def 1 2 plain_act_def)
  show "list_all plain_act (script_acts opts d c)" by (cases c) (simp_all add: 1 2 plain_act_def)
  show "list_all plain_act (after_answer opts q b)" by (cases q; cases b) (simp_all add: 1 2 plain_act_def)
qed

lemma calm_conclude: "list_all plain_act acts \<Longrightarrow> calm s (conclude r c acts s)"
  unfolding conclude_def by (intro calm_trans[OF calm_trans[OF calm_upd calm_record] calm_push]) (simp_all add: calm_entries)

lemma calm_dispatch: "calm s (dispatch_ready r n s)"
  by (simp add: dispatch_ready_def calm_refl calm_conclude plain_acts plain_act_def)

lemma calm_fire: "calm s (fire_script r c s)"
  by (simp add: fire_script_def Let_def calm_refl calm_conclude plain_acts)

lemma calm_xhr_abort: "calm s (xhr_abort r s)"
  by (auto simp: xhr_abort_def Let_def calm_refl intro: calm_trans[OF calm_upd calm_dispatch])

lemma calm_user_abort: "calm s (user_abort r s)"
  by (simp add: user_abort_def calm_fire calm_xhr_abort)

lemma calm_reply: "calm s (reply r n s)"
  unfolding reply_def by (rule calm_trans[OF calm_upd calm_dispatch]) simp

lemma calm_time_out: "calm s (time_out r s)"
  by (auto simp: time_out_def plain_acts intro: calm_trans[OF calm_upd calm_fire] calm_trans[OF calm_conclude calm_xhr_abort])

lemma calm_trigger: "e \<noteq> GStart \<Longrightarrow> e \<noteq> GStop \<Longrightarrow> calm s (triggerGlobal r e s)"
  by (auto simp: triggerGlobal_def calm_refl calm_entries plain_act_def intro!: calm_trans[OF calm_record calm_push])

lemma calm_answer: "calm s (answer r q b s)"
  by (auto simp: answer_def Let_def calm_entries plain_acts intro: calm_trans[OF calm_record calm_push] calm_push)

lemma calm_run_act:
  assumes "run_act r a s = Some s'" "a \<noteq> AStop" "plain_act a"
  shows "calm s s'"
proof (cases a)
  case (AAsk q)
  then show ?thesis using assms(1)
    by (cases q) (auto simp: Let_def calm_entries plain_acts plain_act_def
        intro!: calm_trans[OF calm_record calm_push] calm_push calm_trans[OF calm_push calm_trigger] split: if_splits)
next
  case (ACall cb)
  then show ?thesis using assms(1) by (auto simp: calm_entries plain_act_def intro!: calm_trans[OF calm_record calm_push])
next
  case (AGlobal e)
  then show ?thesis using assms by (auto simp: plain_act_def intro!: calm_trigger)
next
  case ASend
  then show ?thesis using assms(1) by (auto simp: Let_def intro!: calm_upd split: if_splits)
qed (use assms in \<open>auto simp: calm_refl calm_xhr_abort calm_fire\<close>)

definition spin_events :: "(nat \<times> entry) list \<Rightarrow> entry list" where
  "spin_events entries = filter (\<lambda>e. e = Fired GStart \<or> e = Fired GStop) (map snd entries)"

definition open_requests :: "ajax_state \<Rightarrow> nat list" where
  "open_requests s = filter (\<lambda>r. ao_global (rq_opts (aj_reqs s ! r)) \<and> Stopped \<notin> set (ends_of r (aj_log s))) [0..<length (aj_reqs s)]"

definition counter_ok :: "ajax_state \<Rightarrow> bool" where
  "counter_ok s \<longleftrightarrow> aj_active s = int (length (open_requests s)) \<and>
     (\<exists>k. spin_events (aj_log s) = concat (replicate k [Fired GStart, Fired GStop]) @ (if open_requests s = [] then [] else [Fired GStart]))"

lemma spin_calm: "list_all (\<lambda>p. calm_entry (snd p)) es \<Longrightarrow> spin_events (xs @ es) = spin_events xs"
  by (induction es) (auto simp: spin_events_def calm_entry_def)

lemma stopped_calm: "list_all (\<lambda>p. calm_entry (snd p)) es \<Longrightarrow> Stopped \<in> set (ends_of r (xs @ es)) \<longleftrightarrow> Stopped \<in> set (ends_of r xs)"
  by (auto simp: ends_of_def calm_entry_def list_all_iff)

lemma open_calm: "calm s s' \<Longrightarrow> open_requests s' = open_requests s"
proof -
  assume c: "calm s s'"
  then obtain es where es: "aj_log s' = aj_log s @ es" "list_all (\<lambda>p. calm_entry (snd p)) es" by (auto simp: calm_def)
  have m: "map rq_opts (aj_reqs s') = map rq_opts (aj_reqs s)" using c by (simp add: calm_def)
  then have len: "length (aj_reqs s') = length (aj_reqs s)" by (rule map_eq_imp_length_eq)
  have o: "rq_opts (aj_reqs s' ! r) = rq_opts (aj_reqs s ! r)" if "r < length (aj_reqs s)" for r
    using m that len by (metis nth_map)
  show ?thesis unfolding open_requests_def len es(1) stopped_calm[OF es(2)]
    by (rule filter_cong) (simp_all add: o)
qed

lemma counter_calm: "calm s s' \<Longrightarrow> counter_ok s \<Longrightarrow> counter_ok s'"
  using open_calm spin_calm unfolding counter_ok_def calm_def by metis

lemma spin_simps [simp]:
  "spin_events (xs @ ys) = spin_events xs @ spin_events ys" "spin_events [(r, Stopped)] = []"
  "spin_events [(r, Fired GStart)] = [Fired GStart]" "spin_events [(r, Fired GStop)] = [Fired GStop]"
  by (simp_all add: spin_events_def)

lemma fired_ends [simp]: "ends_of r (xs @ [(r', Fired e)]) = ends_of r xs"
  by (simp add: ends_of_def)

lemma open_stopped:
  "open_requests (record_entry r Stopped s) = filter (\<lambda>r'. r' \<noteq> r) (open_requests s)"
  unfolding open_requests_def by (simp, rule filter_cong) auto

lemma length_without:
  "distinct xs \<Longrightarrow> x \<in> set xs \<Longrightarrow> Suc (length (filter (\<lambda>y. y \<noteq> x) xs)) = length xs"
proof (induction xs)
  case (Cons y ys)
  show ?case
  proof (cases "y = x")
    case True
    then have "filter (\<lambda>z. z \<noteq> x) ys = ys" using Cons.prems by (intro filter_True) auto
    with True show ?thesis by simp
  qed (use Cons in auto)
qed simp

lemma concat_replicate_more: "concat (replicate k xs) @ xs = concat (replicate (Suc k) xs)"
  by (induction k) simp_all

lemma open_distinct: "distinct (open_requests s)"
  by (simp add: open_requests_def)

lemma counter_stop:
  assumes r: "r < length (aj_reqs s)" and ns: "Stopped \<notin> set (ends_of r (aj_log s))" and c: "counter_ok s"
  shows "counter_ok (ajaxStop r s)"
proof -
  define s0 where "s0 = record_entry r Stopped s"
  have log0: "spin_events (aj_log s0) = spin_events (aj_log s)" "aj_active s0 = aj_active s" by (simp_all add: s0_def)
  obtain k where k: "spin_events (aj_log s) = concat (replicate k [Fired GStart, Fired GStop]) @ (if open_requests s = [] then [] else [Fired GStart])"
    and n: "aj_active s = int (length (open_requests s))" using c by (auto simp: counter_ok_def)
  show ?thesis
  proof (cases "ao_global (rq_opts (aj_reqs s ! r))")
    case False
    then have "r \<notin> set (open_requests s)" by (simp add: open_requests_def)
    then have "open_requests s0 = open_requests s" by (auto simp: s0_def open_stopped intro: filter_True)
    then have "counter_ok s0" using c log0 by (simp add: counter_ok_def)
    with False show ?thesis by (simp add: ajaxStop_def s0_def)
  next
    case True
    have mem: "r \<in> set (open_requests s)" using True r ns by (simp add: open_requests_def)
    have o: "open_requests s0 = filter (\<lambda>r'. r' \<noteq> r) (open_requests s)" by (simp add: s0_def open_stopped)
    have len: "Suc (length (open_requests s0)) = length (open_requests s)"
      unfolding o using length_without[OF open_distinct mem] .
    define s1 where "s1 = s0\<lparr>aj_active := aj_active s - 1\<rparr>"
    have o1: "open_requests s1 = open_requests s0" "aj_log s1 = aj_log s0" "aj_reqs s1 = aj_reqs s" "aj_active s1 = int (length (open_requests s0))"
      using len n by (simp_all add: s1_def s0_def open_requests_def)
    have ne: "open_requests s \<noteq> []" using mem by auto
    have res: "ajaxStop r s = (if open_requests s0 = [] then triggerGlobal r GStop s1 else s1)"
      using True o1(4) by (simp add: ajaxStop_def Let_def s1_def s0_def)
    show ?thesis
    proof (cases "open_requests s0 = []")
      case False
      then have "counter_ok s1" unfolding counter_ok_def o1 log0(1) k using ne by auto
      with False res show ?thesis by simp
    next
      case e: True
      define s2 where "s2 = triggerGlobal r GStop s1"
      have s2: "aj_log s2 = aj_log s0 @ [(r, Fired GStop)]" "aj_active s2 = 0" "open_requests s2 = []"
        using e o1 True by (simp_all add: s2_def triggerGlobal_def open_requests_def)
      have "spin_events (aj_log s2) = concat (replicate (Suc k) [Fired GStart, Fired GStop])"
        unfolding s2 spin_simps log0(1) k using ne by (simp add: concat_replicate_more)
      then have "counter_ok s2" unfolding counter_ok_def s2 by (auto intro: exI[of _ "Suc k"])
      with e res show ?thesis by (simp add: s2_def)
    qed
  qed
qed

lemma ends_of_fresh: "fst ` set entries \<subseteq> {..<n} \<Longrightarrow> ends_of n entries = []"
  by (auto simp: ends_of_def filter_empty_conv)

lemma counter_ajax:
  assumes c: "counter_ok s" and lg: "fst ` set (aj_log s) \<subseteq> {..<length (aj_reqs s)}"
  shows "counter_ok (ajax opts s)"
proof -
  define r where "r = length (aj_reqs s)"
  define s0 where "s0 = push r [AAsk AskBeforeSend] (s\<lparr>aj_reqs := aj_reqs s @ [new_request opts]\<rparr>)"
  have s0: "aj_log s0 = aj_log s" "aj_active s0 = aj_active s" "aj_reqs s0 = aj_reqs s @ [new_request opts]" by (simp_all add: s0_def)
  have g: "ao_global (rq_opts (aj_reqs s0 ! r)) = ao_global opts" by (simp add: s0 r_def new_request_def)
  have o: "open_requests s0 = open_requests s @ (if ao_global opts then [r] else [])"
    using ends_of_fresh[OF lg] unfolding open_requests_def s0
    by (auto simp: r_def nth_append new_request_def intro: filter_cong)
  obtain k where k: "spin_events (aj_log s) = concat (replicate k [Fired GStart, Fired GStop]) @ (if open_requests s = [] then [] else [Fired GStart])"
    and n: "aj_active s = int (length (open_requests s))" using c by (auto simp: counter_ok_def)
  have res: "ajax opts s = ajaxStart r s0" by (simp add: ajax_def Let_def r_def s0_def)
  define s1 where "s1 = s0\<lparr>aj_active := aj_active s + 1\<rparr>"
  have s1: "open_requests s1 = open_requests s0" "aj_log s1 = aj_log s" "rq_opts (aj_reqs s1 ! r) = rq_opts (aj_reqs s0 ! r)" "aj_active s1 = aj_active s + 1"
    by (simp_all add: s1_def s0 open_requests_def)
  show ?thesis
  proof (cases "ao_global opts")
    case False
    then have "ajax opts s = s0" by (simp add: res ajaxStart_def g)
    then show ?thesis using False c by (simp add: counter_ok_def o s0)
  next
    case True
    have res1: "ajax opts s = (if open_requests s = [] then triggerGlobal r GStart s1 else s1)"
      unfolding res ajaxStart_def g Let_def using True n by (simp add: s1_def s0(2))
    show ?thesis
    proof (cases "open_requests s = []")
      case False
      then have "counter_ok s1" unfolding counter_ok_def s1 o using True n k by auto
      with False res1 show ?thesis by simp
    next
      case e: True
      define s2 where "s2 = triggerGlobal r GStart s1"
      have s2: "aj_log s2 = aj_log s @ [(r, Fired GStart)]" "aj_active s2 = 1" "open_requests s2 = [r]"
        using e o s1 True g n by (simp_all add: s2_def triggerGlobal_def open_requests_def)
      have "counter_ok s2" unfolding counter_ok_def s2 spin_simps k using e by auto
      with e res1 show ?thesis by (simp add: s2_def)
    qed
  qed
qed

section \<open>The invariant of all runs\<close>

definition ajax_inv :: "bool \<Rightarrow> ajax_state \<Rightarrow> bool" where
  "ajax_inv strict s \<longleftrightarrow> (\<forall>r < length (aj_reqs s). view_ok strict s r) \<and>
     fst ` set (aj_todo s) \<subseteq> {..<length (aj_reqs s)} \<and> fst ` set (aj_log s) \<subseteq> {..<length (aj_reqs s)} \<and>
     list_all (\<lambda>p. plain_act (snd p)) (aj_todo s) \<and> counter_ok s"

lemma inv_init: "ajax_inv strict ajax_init"
  by (simp add: ajax_inv_def ajax_init_def counter_ok_def open_requests_def spin_events_def)

lemma inv_frame:
  assumes inv: "ajax_inv strict s" and r: "r < length (aj_reqs s)"
    and rest: "aj_todo s = rest \<or> (\<exists>a. aj_todo s = (r, a) # rest)"
    and f: "frame_ok r (s\<lparr>aj_todo := rest\<rparr>) s'"
    and v: "view_ok strict s' r" and c: "counter_ok s'" and p: "list_all (\<lambda>p. plain_act (snd p)) (aj_todo s')"
  shows "ajax_inv strict s'"
proof -
  have n: "length (aj_reqs s') = length (aj_reqs s)" using f by (simp add: frame_ok_def)
  have other: "view_ok strict s' r'" if "r' < length (aj_reqs s)" "r' \<noteq> r" for r'
  proof -
    have "view_ok strict s' r' = view_ok strict (s\<lparr>aj_todo := rest\<rparr>) r'" by (rule view_frame[OF f that(2)])
    also have "\<dots> = view_ok strict s r'" using rest that(2) by (auto simp: view_ok_def)
    finally show ?thesis using inv that(1) by (simp add: ajax_inv_def)
  qed
  have chain: "A \<subseteq> insert r B \<Longrightarrow> B \<subseteq> C \<Longrightarrow> C \<subseteq> {..<length (aj_reqs s)} \<Longrightarrow> A \<subseteq> {..<length (aj_reqs s)}" for A B C
    using r by blast
  have set: "fst ` set (aj_todo s) \<subseteq> {..<length (aj_reqs s)}" "fst ` set (aj_log s) \<subseteq> {..<length (aj_reqs s)}"
    using inv unfolding ajax_inv_def by blast+
  have "fst ` set (aj_todo s') \<subseteq> insert r (fst ` set rest)" "fst ` set (aj_log s') \<subseteq> insert r (fst ` set (aj_log s))"
    using f by (simp_all add: frame_ok_def)
  moreover have "fst ` set rest \<subseteq> fst ` set (aj_todo s)" using rest by auto
  ultimately have "fst ` set (aj_todo s') \<subseteq> {..<length (aj_reqs s)}" "fst ` set (aj_log s') \<subseteq> {..<length (aj_reqs s)}"
    using chain set subset_refl by - (rule chain; assumption)+
  moreover have "\<forall>r' < length (aj_reqs s). view_ok strict s' r'" using v other by metis
  ultimately show ?thesis using c p unfolding ajax_inv_def n by blast
qed

lemma story_stops_once: "is_story opts (xs @ Stopped # ys) \<Longrightarrow> Stopped \<notin> set xs"
  by (auto simp: is_story_def append_eq_Cons_conv Cons_eq_append_conv)

lemma tells_stops_once: "tells strict opts (xs @ Stopped # ys) \<Longrightarrow> Stopped \<notin> set xs"
proof (cases strict)
  case False
  assume "tells strict opts (xs @ Stopped # ys)"
  then obtain es where es: "is_story opts es" "subseq (xs @ Stopped # ys) es" using False by (auto simp: tells_def)
  obtain us vs where uv: "es = us @ vs" "subseq xs us" "subseq (Stopped # ys) vs"
    using list_emb_appendD[OF es(2)] that by blast
  obtain ws zs where "vs = ws @ Stopped # zs" using uv(3)
    using list_emb_ConsD[OF uv(3)] by metis
  then have "is_story opts ((us @ ws) @ Stopped # zs)" using es uv by simp
  from story_stops_once[OF this] uv(2) show ?thesis
    by (auto dest: list_emb_set)
qed (auto simp: tells_def dest: story_stops_once)

lemma stop_not_before:
  "req_ok strict q es (AStop # acts) \<Longrightarrow> Stopped \<notin> set es"
  unfolding req_ok_def waits_def parses_def tells_story_def by (auto dest: tells_stops_once)

lemma opts_calm: "counter_ok s \<Longrightarrow> calm s s' \<Longrightarrow> list_all (\<lambda>p. plain_act (snd p)) (aj_todo s) \<Longrightarrow>
    counter_ok s' \<and> list_all (\<lambda>p. plain_act (snd p)) (aj_todo s')"
  using counter_calm by (auto simp: calm_def)

lemma plain_stop:
  "list_all (\<lambda>p. plain_act (snd p)) (aj_todo s) \<Longrightarrow> list_all (\<lambda>p. plain_act (snd p)) (aj_todo (ajaxStop r s))"
  by (simp add: ajaxStop_def triggerGlobal_def Let_def plain_act_def)

lemma inv_call:
  assumes inv: "ajax_inv strict s" and r: "r < length (aj_reqs s)"
    and f: "frame_ok r s s'" and c: "calm s s'" and v: "view_ok strict s r \<Longrightarrow> view_ok strict s' r"
  shows "ajax_inv strict s'"
proof (rule inv_frame[OF inv r disjI1[OF refl]])
  show "frame_ok r (s\<lparr>aj_todo := aj_todo s\<rparr>) s'" using f by simp
  show "view_ok strict s' r" using v inv r by (simp add: ajax_inv_def)
  show "counter_ok s'" "list_all (\<lambda>p. plain_act (snd p)) (aj_todo s')"
    using opts_calm c inv unfolding ajax_inv_def by blast+
qed

lemma inv_act:
  assumes inv: "ajax_inv strict s" and todo: "aj_todo s = (r, a) # rest" and s0: "s0 = s\<lparr>aj_todo := rest\<rparr>"
    and f: "frame_ok r s0 s'"
    and v: "r < length (aj_reqs s) \<Longrightarrow> req_ok strict (aj_reqs s0 ! r) (ends_of r (aj_log s0)) (a # acts_of r (aj_todo s0)) \<Longrightarrow> view_ok strict s' r"
    and c: "r < length (aj_reqs s) \<Longrightarrow> counter_ok s0 \<Longrightarrow> list_all (\<lambda>p. plain_act (snd p)) (aj_todo s0) \<Longrightarrow> plain_act a \<Longrightarrow>
      counter_ok s' \<and> list_all (\<lambda>p. plain_act (snd p)) (aj_todo s')"
  shows "ajax_inv strict s'"
proof (rule inv_frame[OF inv _ disjI2])
  show r: "r < length (aj_reqs s)" using inv todo by (simp add: ajax_inv_def)
  show "\<exists>a. aj_todo s = (r, a) # rest" using todo by simp
  show "frame_ok r (s\<lparr>aj_todo := rest\<rparr>) s'" using f s0 by simp
  have "view_ok strict s r" using inv r by (simp add: ajax_inv_def)
  then show "view_ok strict s' r" using v[OF r] todo s0 by (simp add: view_ok_def)
  have "counter_ok s0" using inv s0 by (simp add: ajax_inv_def counter_ok_def open_requests_def)
  moreover have "list_all (\<lambda>p. plain_act (snd p)) (aj_todo s0)" "plain_act a" using inv todo s0 by (simp_all add: ajax_inv_def)
  ultimately show "counter_ok s'" "list_all (\<lambda>p. plain_act (snd p)) (aj_todo s')" using c[OF r] by blast+
qed

lemma inv_run:
  assumes inv: "ajax_inv strict s" and todo: "aj_todo s = (r, a) # rest" and run: "run_act r a (s\<lparr>aj_todo := rest\<rparr>) = Some s'"
  shows "ajax_inv strict s'"
proof (rule inv_act[OF inv todo refl frame_run_act[OF run]])
  let ?s0 = "s\<lparr>aj_todo := rest\<rparr>"
  assume r: "r < length (aj_reqs s)" and ok: "req_ok strict (aj_reqs ?s0 ! r) (ends_of r (aj_log ?s0)) (a # acts_of r (aj_todo ?s0))"
  then show "view_ok strict s' r" using run_act_view[OF _ ok run] by simp
next
  let ?s0 = "s\<lparr>aj_todo := rest\<rparr>"
  assume r: "r < length (aj_reqs s)" and c: "counter_ok ?s0" "list_all (\<lambda>p. plain_act (snd p)) (aj_todo ?s0)" "plain_act a"
  show "counter_ok s' \<and> list_all (\<lambda>p. plain_act (snd p)) (aj_todo s')"
  proof (cases "a = AStop")
    case True
    have "view_ok strict s r" using inv r by (simp add: ajax_inv_def)
    then have "Stopped \<notin> set (ends_of r (aj_log s))" using todo True stop_not_before by (simp add: view_ok_def)
    then show ?thesis using counter_stop[of r ?s0] r c True run plain_stop by auto
  next
    case False
    then show ?thesis using opts_calm calm_run_act[OF run False c(3)] c by blast
  qed
qed

lemma new_view:
  "req_ok strict (new_request opts) [] [AAsk AskBeforeSend]"
  by (simp add: req_ok_def waits_def new_request_def armed_def)

lemma inv_new:
  assumes inv: "ajax_inv strict s"
  shows "ajax_inv strict (ajax opts s)"
proof -
  define n where "n = length (aj_reqs s)"
  define s0 where "s0 = push n [AAsk AskBeforeSend] (s\<lparr>aj_reqs := aj_reqs s @ [new_request opts]\<rparr>)"
  have lg: "fst ` set (aj_log s) \<subseteq> {..<n}" and td: "fst ` set (aj_todo s) \<subseteq> {..<n}"
    using inv by (simp_all add: ajax_inv_def n_def)
  have s0: "aj_reqs s0 = aj_reqs s @ [new_request opts]" "aj_log s0 = aj_log s" "aj_todo s0 = (n, AAsk AskBeforeSend) # aj_todo s"
    by (simp_all add: s0_def)
  have fresh: "ends_of n (aj_log s) = []" "acts_of n (aj_todo s) = []"
    using ends_of_fresh[OF lg] td by (auto simp: acts_of_def filter_empty_conv)
  have v: "view_ok strict s0 r" if "r < Suc n" for r
  proof (cases "r = n")
    case True
    then show ?thesis using fresh new_view by (simp add: view_ok_def s0 nth_append n_def[symmetric])
  next
    case False
    then have "view_ok strict s r" using inv that by (simp add: ajax_inv_def n_def)
    then show ?thesis using False that by (simp add: view_ok_def s0 nth_append n_def[symmetric])
  qed
  have res: "ajax opts s = ajaxStart n s0" by (simp add: ajax_def Let_def n_def s0_def)
  have act: "view_ok strict (t\<lparr>aj_active := m\<rparr>) r = view_ok strict t r" for t m r by (simp add: view_ok_def)
  have f: "frame_ok n s0 (ajaxStart n s0)"
    by (auto simp: ajaxStart_def Let_def frame_refl frame_active intro: frame_trans[OF frame_active frame_trigger])
  have len: "length (aj_reqs (ajax opts s)) = Suc n" using f by (simp add: frame_ok_def s0 res n_def)
  have "view_ok strict (ajax opts s) r" if "r < Suc n" for r
  proof (cases "r = n")
    case True
    show ?thesis using v[of n] by (simp add: True res ajaxStart_def Let_def act trigger_view)
  next
    case False
    then show ?thesis using view_frame[OF f False] v[OF that] by (simp add: res)
  qed
  moreover have "fst ` set (aj_todo (ajax opts s)) \<subseteq> insert n (fst ` set (aj_todo s0))" "fst ` set (aj_log (ajax opts s)) \<subseteq> insert n (fst ` set (aj_log s0))"
    using f unfolding res frame_ok_def by blast+
  moreover have "list_all (\<lambda>p. plain_act (snd p)) (aj_todo (ajax opts s))"
    using inv by (simp add: ajax_inv_def res ajaxStart_def Let_def triggerGlobal_def s0 plain_act_def)
  moreover have "counter_ok (ajax opts s)" using counter_ajax inv by (simp add: ajax_inv_def)
  moreover have "fst ` set (aj_todo s0) \<subseteq> {..<Suc n}" "fst ` set (aj_log s0) \<subseteq> {..<Suc n}"
    using lg td by (auto simp: s0)
  moreover have "A \<subseteq> insert n B \<Longrightarrow> B \<subseteq> {..<Suc n} \<Longrightarrow> A \<subseteq> {..<Suc n}" for A B by auto
  ultimately show ?thesis unfolding ajax_inv_def len by metis
qed

lemma parse_is_gate: "parse_gate a \<Longrightarrow> is_gate a"
  by (cases a) auto

lemma throw_view:
  assumes ok: "req_ok False q es (as @ bs)"
  shows "req_ok False q es bs"
proof -
  have split: "act_ends (as @ bs) = act_ends as @ act_ends bs" "gates (as @ bs) = gates as + gates bs" by simp_all
  have part: "tells False opts (es @ act_ends bs)" if t: "tells False opts (es @ act_ends (as @ bs))" for opts
  proof -
    obtain story where "is_story opts story" "subseq (es @ act_ends as @ act_ends bs) story"
      using t by (auto simp: tells_def)
    moreover have "subseq (es @ act_ends bs) (es @ act_ends as @ act_ends bs)" by (simp add: subseq_append' subseq_drop_many)
    ultimately show ?thesis by (auto simp: tells_def intro: subseq_order.trans)
  qed
  have start: "tells False opts []" "status_ok opts n \<Longrightarrow> tells False opts [Came (Replied n)]" for opts n
  proof -
    have st: "is_story opts [Came TimedOut, Called (outcome_callback (Failed EndTimeout)), Called (CbComplete (Failed EndTimeout)), Stopped]"
      by (rule is_storyI) simp
    then show "tells False opts []" by (auto simp: tells_def)
    assume "status_ok opts n"
    then have "is_story opts [Came (Replied n), Called (outcome_callback Succeeded), Called (CbComplete Succeeded), Stopped]"
      by (intro is_storyI) simp
    then show "tells False opts [Came (Replied n)]" by (auto simp: tells_def)
  qed
  consider "waits q es (as @ bs)" | "parses q es (as @ bs)" | "tells_story False q es (as @ bs)"
    using ok by (auto simp: req_ok_def)
  then show ?thesis
  proof cases
    case 1
    then show ?thesis using ok start(1)
      unfolding req_ok_def waits_def tells_story_def armed_def by (cases "ao_jsonp (rq_opts q)") (auto split: if_splits)
  next
    case 2
    then have "gates bs = 0 \<Longrightarrow> list_all (\<lambda>a. \<not> parse_gate a) bs"
      using parse_is_gate by (auto simp: gates_def list_all_iff filter_empty_conv)
    with 2 show ?thesis using ok start(2)
      unfolding req_ok_def parses_def tells_story_def armed_def by (cases "gates bs = 0") auto
  next
    case 3
    then show ?thesis using ok part
      unfolding req_ok_def tells_story_def by auto
  qed
qed

lemma inv_throw:
  assumes inv: "ajax_inv False s" and todo: "aj_todo s = x # rest"
  shows "ajax_inv False (s\<lparr>aj_todo := dropWhile P rest\<rparr>)"
proof -
  have v: "view_ok False (s\<lparr>aj_todo := dropWhile P rest\<rparr>) r" if "r < length (aj_reqs s)" for r
  proof -
    have "aj_todo s = (x # takeWhile P rest) @ dropWhile P rest" using todo by simp
    then have "acts_of r (aj_todo s) = acts_of r (x # takeWhile P rest) @ acts_of r (dropWhile P rest)"
      by (metis acts_of_simps(3))
    moreover have "view_ok False s r" using inv that by (simp add: ajax_inv_def)
    ultimately show ?thesis using throw_view by (simp add: view_ok_def)
  qed
  have sub: "set (dropWhile P rest) \<subseteq> set (aj_todo s)" using todo set_dropWhileD by fastforce
  have td: "fst ` set (aj_todo s) \<subseteq> {..<length (aj_reqs s)}" using inv by (simp add: ajax_inv_def)
  have "fst ` set (dropWhile P rest) \<subseteq> {..<length (aj_reqs s)}" by (rule subset_trans[OF image_mono[OF sub] td])
  moreover have "list_all (\<lambda>p. plain_act (snd p)) (dropWhile P rest)" using sub inv by (auto simp: ajax_inv_def list_all_iff)
  moreover have "counter_ok (s\<lparr>aj_todo := dropWhile P rest\<rparr>) = counter_ok s" by (simp add: counter_ok_def open_requests_def)
  ultimately show ?thesis using inv v unfolding ajax_inv_def by simp
qed

lemma inv_exec:
  assumes inv: "ajax_inv strict s" and ex: "exec l s = Some s'" and thr: "strict \<Longrightarrow> l \<noteq> Throw"
  shows "ajax_inv strict s'"
proof (cases l)
  case Run
  then show ?thesis using ex inv_run[OF inv] by (auto split: list.splits)
next
  case (Answer b)
  then obtain r q rest where t: "aj_todo s = (r, ADecide q) # rest" "s' = answer r q b (s\<lparr>aj_todo := rest\<rparr>)"
    using ex by (auto split: list.splits prod.splits act.splits)
  show ?thesis unfolding t(2)
    by (rule inv_act[OF inv t(1) refl frame_answer]) (use answer_view in simp, use opts_calm calm_answer in blast)
next
  case (New opts)
  then show ?thesis using ex inv_new[OF inv] by (auto split: if_splits)
next
  case (UserAbort r)
  then show ?thesis using ex inv_call[OF inv _ frame_user_abort calm_user_abort] user_abort_own by (auto split: if_splits)
next
  case (Ready r n)
  have r: "r < length (aj_reqs s)" and x: "\<not> ao_jsonp (rq_opts (aj_reqs s ! r))" using ex Ready by (auto split: if_splits)
  show ?thesis
  proof (cases "aj_todo s")
    case Nil
    then have s': "s' = reply r n s" "rq_sent (aj_reqs s ! r)" using ex Ready by (auto simp: Let_def split: if_splits)
    have "(aj_reqs s ! r)\<lparr>rq_sent := True\<rparr> = aj_reqs s ! r" using s'(2) by simp
    then have "upd_req r (\<lambda>q. q\<lparr>rq_sent := True\<rparr>) s = s" by (simp add: upd_req_def)
    then show ?thesis unfolding s' by (intro inv_call[OF inv r frame_reply calm_reply] reply_own[OF r x]) simp
  next
    case (Cons p rest)
    then have t: "aj_todo s = (r, ASend) # rest" and s': "s' = reply r n (s\<lparr>aj_todo := rest\<rparr>)"
      using ex Ready by (cases p; auto split: if_splits)+
    show ?thesis unfolding s'
    proof (rule inv_act[OF inv t refl frame_reply])
      let ?s0 = "s\<lparr>aj_todo := rest\<rparr>"
      assume ok: "req_ok strict (aj_reqs ?s0 ! r) (ends_of r (aj_log ?s0)) (ASend # acts_of r (aj_todo ?s0))"
      have "view_ok strict (upd_req r (\<lambda>q. q\<lparr>rq_sent := True\<rparr>) ?s0) r"
        using sent_view[OF ok, of "(aj_reqs s ! r)\<lparr>rq_sent := True\<rparr>"] x r by (simp add: view_ok_def)
      then show "view_ok strict (reply r n ?s0) r" using r x by (intro reply_own) simp_all
    qed (use opts_calm calm_reply in blast)
  qed
next
  case (TimerFires r)
  then have "r < length (aj_reqs s)" "rq_timer (aj_reqs s ! r)" "s' = time_out r s" using ex by (auto split: if_splits)
  then show ?thesis using inv_call[OF inv _ frame_time_out calm_time_out] time_out_own by blast
next
  case (ScriptEvent r loaded)
  then have "r < length (aj_reqs s)" "ao_jsonp (rq_opts (aj_reqs s ! r))"
    "s' = fire_script r (if loaded then ScriptLoaded (rq_data (aj_reqs s ! r)) else ScriptError EndError) s"
    using ex by (auto split: if_splits)
  then show ?thesis using inv_call[OF inv _ frame_fire calm_fire] fire_own by auto
next
  case (Deliver r)
  then have r: "r < length (aj_reqs s)" "s' = upd_req r (\<lambda>q. q\<lparr>rq_data := True\<rparr>) s" using ex by (auto split: if_splits)
  show ?thesis unfolding r(2) by (rule inv_call[OF inv r(1)]) (simp_all add: frame_upd calm_upd view_ok_data r(1))
next
  case Throw
  then have "\<not> strict" using thr by blast
  then show ?thesis using ex inv inv_throw Throw by (auto split: list.splits prod.splits act.splits user_kind.splits)
qed


text \<open>The states that runs reach, without and with exceptions of the page.\<close>

inductive ajax_reach :: "bool \<Rightarrow> ajax_state \<Rightarrow> bool" for strict :: bool where
  start: "ajax_reach strict ajax_init"
| move: "ajax_reach strict s \<Longrightarrow> exec l s = Some s' \<Longrightarrow> (strict \<Longrightarrow> l \<noteq> Throw) \<Longrightarrow> ajax_reach strict s'"

lemma reach_inv: "ajax_reach strict s \<Longrightarrow> ajax_inv strict s"
  by (induction rule: ajax_reach.induct) (auto intro: inv_init inv_exec)

lemma run_reach:
  "ajax_reach strict s \<Longrightarrow> ajax_run ls s = Some s' \<Longrightarrow> list_all (\<lambda>l. \<not> strict \<or> l \<noteq> Throw) ls \<Longrightarrow> ajax_reach strict s'"
  by (induction ls arbitrary: s) (auto split: bind_splits intro: ajax_reach.move)

text \<open>
  C34. In every run, exceptions of the page included, the counter of active requests is the number of
  requests with global events for which \<open>ajaxStop\<close> has not run, and \<open>ajaxStart\<close> and \<open>ajaxStop\<close>
  are fired alternately, \<open>ajaxStart\<close> last exactly while there are such requests.
\<close>

theorem active_counts_requests:
  assumes "ajax_reach strict s"
  shows "aj_active s = int (length (open_requests s)) \<and>
    (\<exists>k. spin_events (aj_log s) =
      concat (replicate k [Fired GStart, Fired GStop]) @ (if aj_active s = 0 then [] else [Fired GStart]))"
  using reach_inv[OF assms] by (auto simp: ajax_inv_def counter_ok_def)

text \<open>A run that ends with nothing left to do, for the examples.\<close>

definition idle_run :: "label list \<Rightarrow> nat \<Rightarrow> bool" where
  "idle_run ls n \<longleftrightarrow> (case ajax_run ls ajax_init of Some s \<Rightarrow> aj_todo s = [] \<and> length (aj_reqs s) = n | None \<Rightarrow> False)"

lemma idle_run_reach:
  assumes "idle_run ls n" and "list_all (\<lambda>l. \<not> strict \<or> l \<noteq> Throw) ls"
  obtains s where "ajax_run ls ajax_init = Some s" "ajax_reach strict s" "aj_todo s = []" "length (aj_reqs s) = n"
  using assms run_reach[OF ajax_reach.start _ assms(2)] by (auto simp: idle_run_def split: option.splits)

definition get_opts :: ajax_opts where
  "get_opts = \<lparr>ao_jsonp = False, ao_global = True, ao_timeout = True, ao_async = True, ao_file = False, ao_binary = False, ao_original = False\<rparr>"

text \<open>Starting and sending a request whose callbacks do nothing; a reply and its report.\<close>

definition send_run :: "ajax_opts \<Rightarrow> label list" where
  "send_run opts = [New opts, Run, Run, Run, Answer True, Run, Run, Answer True, Run, Run, Run]"

definition error_run :: "label list" where
  "error_run = [Run, Run, Run, Run, Run, Run, Run, Run, Run, Run]"

theorem active_counts_requests_witness:
  "\<exists>s. ajax_run (send_run get_opts @ [Ready 0 404, Run, Throw, Run]) ajax_init = Some s \<and>
     aj_active s = int (length (open_requests s)) \<and>
     (\<exists>k. spin_events (aj_log s) =
       concat (replicate k [Fired GStart, Fired GStop]) @ (if aj_active s = 0 then [] else [Fired GStart]))"
proof -
  have "idle_run (send_run get_opts @ [Ready 0 404, Run, Throw, Run]) 1" by code_simp
  then obtain s where "ajax_run (send_run get_opts @ [Ready 0 404, Run, Throw, Run]) ajax_init = Some s" "ajax_reach False s"
    by (rule idle_run_reach[where strict = False]) (simp_all add: list_all_iff)
  with active_counts_requests[of False s] show ?thesis by blast
qed

text \<open>An exception in the error callback: nothing is left to do and no request is armed, the counter stays at one.\<close>

definition after_run :: "label list \<Rightarrow> (ajax_state \<Rightarrow> bool) \<Rightarrow> bool" where
  "after_run ls P \<longleftrightarrow> (case ajax_run ls ajax_init of Some s \<Rightarrow> P s | None \<Rightarrow> False)"

lemma exception_leaks:
  "after_run (send_run get_opts @ [Ready 0 404, Run, Throw, Run])
     (\<lambda>s. aj_todo s = [] \<and> \<not> armed (aj_reqs s ! 0) \<and> aj_active s = 1 \<and> ends_of 0 (aj_log s) = [Came (Replied 404), Called (CbError EndError)])"
  by code_simp

text \<open>Aborting a request of a page read from a file reports success.\<close>

lemma file_abort_succeeds:
  "after_run (send_run (get_opts\<lparr>ao_file := True\<rparr>) @ [UserAbort 0, Run, Run, Answer True] @ error_run @ [Run])
     (\<lambda>s. ends_of 0 (aj_log s) = [Came (Replied 0), Called CbSuccess, Called (CbComplete Succeeded), Stopped])"
  by code_simp

text \<open>A JSONP request that its \<open>beforeSend\<close> aborts has reported its error, and its script is appended all the same.\<close>

lemma aborted_script_appended:
  "after_run ([New (get_opts\<lparr>ao_jsonp := True\<rparr>), Run, Run, UserAbort 0] @ error_run @ [Run, Answer True, Run, Run, Answer True, Run, Run, Run])
     (\<lambda>s. aj_todo s = [] \<and> rq_sent (aj_reqs s ! 0) \<and> ends_of 0 (aj_log s) =
        [Came (ScriptError EndAbort), Called (CbError EndAbort), Called (CbComplete (Failed EndAbort)), Stopped])"
  by code_simp

lemma idle_request:
  assumes "ajax_reach True s" and "aj_todo s = []" and "r < length (aj_reqs s)"
  shows "if armed (aj_reqs s ! r) then ends_of r (aj_log s) = []
    else \<exists>c st. ends_as (rq_opts (aj_reqs s ! r)) c st \<and>
      ends_of r (aj_log s) = [Came c, Called (outcome_callback st), Called (CbComplete st), Stopped]"
proof -
  have "req_ok True (aj_reqs s ! r) (ends_of r (aj_log s)) []"
    using reach_inv[OF assms(1)] assms(2,3) by (simp add: ajax_inv_def view_ok_def)
  then show ?thesis
    by (auto simp: req_ok_def waits_def parses_def tells_story_def armed_def tells_def is_story_def split: if_splits)
qed


text \<open>
  C33. As long as no callback of the page throws, whatever else a page does in its callbacks (starting
  and aborting requests included) and whatever order the browser's events come in: when
  the library has nothing left to do, a request is either still waiting, with nothing reported, or it
  has reported exactly one story: a cause, the callback that belongs to the cause (the error callback
  with its type for every failure), \<open>complete\<close> with the same status, and \<open>ajaxStop\<close>, each once and
  in this order.  (\<open>ajax_reach True\<close> are the states reached without an exception; the lemma
  \<open>exception_leaks\<close> shows the story cut short by one.)
\<close>

theorem request_reports_once:
  assumes "ajax_reach True s" and "aj_todo s = []" and "r < length (aj_reqs s)"
  shows "if armed (aj_reqs s ! r) then ends_of r (aj_log s) = []
    else \<exists>c st. ends_as (rq_opts (aj_reqs s ! r)) c st \<and>
      ends_of r (aj_log s) = [Came c, Called (outcome_callback st), Called (CbComplete st), Stopped]"
  using idle_request[OF assms] .

theorem request_reports_once_witness:
  "\<exists>s. ajax_run (send_run get_opts @ [UserAbort 0] @ error_run @ [Run]) ajax_init = Some s \<and>
    (if armed (aj_reqs s ! 0) then ends_of 0 (aj_log s) = []
     else \<exists>c st. ends_as (rq_opts (aj_reqs s ! 0)) c st \<and>
       ends_of 0 (aj_log s) = [Came c, Called (outcome_callback st), Called (CbComplete st), Stopped])"
proof -
  have "idle_run (send_run get_opts @ [UserAbort 0] @ error_run @ [Run]) 1" by code_simp
  then obtain s where "ajax_run (send_run get_opts @ [UserAbort 0] @ error_run @ [Run]) ajax_init = Some s" "ajax_reach True s"
      "aj_todo s = []" "length (aj_reqs s) = 1"
    by (rule idle_run_reach[where strict = True]) (simp_all add: list_all_iff send_run_def error_run_def)
  with request_reports_once[of s 0] show ?thesis by auto
qed

text \<open>
  C35. Without exceptions of the page the counter is right whenever the library has nothing left to
  do: it is the number of requests with global events that still wait for the browser.
\<close>

theorem idle_counter:
  assumes "ajax_reach True s" and "aj_todo s = []"
  shows "aj_active s = int (length (filter (\<lambda>q. ao_global (rq_opts q) \<and> armed q) (aj_reqs s)))"
proof -
  have "Stopped \<notin> set (ends_of r (aj_log s)) \<longleftrightarrow> armed (aj_reqs s ! r)" if "r < length (aj_reqs s)" for r
    using idle_request[OF assms that] by (auto split: if_splits)
  then have "open_requests s = filter (\<lambda>r. ao_global (rq_opts (aj_reqs s ! r)) \<and> armed (aj_reqs s ! r)) [0..<length (aj_reqs s)]"
    unfolding open_requests_def by (intro filter_cong) auto
  moreover have "length (filter Q (aj_reqs s)) = length (filter (\<lambda>r. Q (aj_reqs s ! r)) [0..<length (aj_reqs s)])" for Q
    using arg_cong[OF map_nth[of "aj_reqs s"], of "\<lambda>xs. length (filter Q xs)"] by (simp add: filter_map o_def)
  ultimately show ?thesis
    using reach_inv[OF assms(1)] by (simp add: ajax_inv_def counter_ok_def)
qed

theorem idle_counter_witness:
  "\<exists>s. ajax_run (send_run get_opts @ [TimerFires 0] @ error_run) ajax_init = Some s \<and>
     aj_active s = int (length (filter (\<lambda>q. ao_global (rq_opts q) \<and> armed q) (aj_reqs s)))"
proof -
  have "idle_run (send_run get_opts @ [TimerFires 0] @ error_run) 1" by code_simp
  then obtain s where "ajax_run (send_run get_opts @ [TimerFires 0] @ error_run) ajax_init = Some s" "ajax_reach True s"
      "aj_todo s = []"
    by (rule idle_run_reach[where strict = True]) (simp_all add: list_all_iff send_run_def error_run_def)
  with idle_counter[of s] show ?thesis by blast
qed

end
