(* ===== verification/ChartBars.thy ===== *)
theory ChartBars
  imports ChartScales ChartDataset ChartOptions
begin

text \<open>
  Bars (\<open>chart_3.9.js\<close>, 7594-8010 and 9579-9750): the width of the categories, the place of a bar
  beside and on top of the others, floating bars, the skipped borders, and the rectangle of a bar
  with its hit test.  Pixels are exact rationals.
\<close>

section \<open>The smallest distance of two values\<close>

definition getAllScaleValues :: "rat list list \<Rightarrow> rat list" where
  "getAllScaleValues parsed = arrayUnique (sort (concat parsed))"



section \<open>The place of a bar in its category\<close>

datatype thickness = AutoThickness | FlexThickness | PixelThickness rat

record bar_options =
  bo_thickness :: thickness
  bo_categoryPercentage :: rat
  bo_barPercentage :: rat
  bo_maxThickness :: "rat option"
  bo_skipNull :: bool
  bo_grouped :: bool
  bo_base :: "rat option"
  bo_minBarLength :: "rat option"

text \<open>\<open>ru_min\<close> is \<open>None\<close> when it holds the word flex, which is no number.\<close>

record ruler =
  ru_min :: "rat option"
  ru_pixels :: "rat list"
  ru_start :: rat
  ru_end :: rat
  ru_stackCount :: nat
  ru_grouped :: bool
  ru_ratio :: rat

record bar_traits =
  bt_chunk :: rat
  bt_ratio :: rat
  bt_start :: rat

definition computeFitCategoryTraits :: "nat \<Rightarrow> ruler \<Rightarrow> bar_options \<Rightarrow> nat \<Rightarrow> bar_traits" where
  "computeFitCategoryTraits index ruler options stackCount =
     (let (sz, ratio) =
        (case bo_thickness options of
           PixelThickness t \<Rightarrow> (t * of_nat stackCount, 1)
         | _ \<Rightarrow> ((case ru_min ruler of Some m \<Rightarrow> m | None \<Rightarrow> 0) * bo_categoryPercentage options, bo_barPercentage options))
      in \<lparr>bt_chunk = sz / of_nat stackCount, bt_ratio = ratio, bt_start = ru_pixels ruler ! index - sz / 2\<rparr>)"

definition computeFlexCategoryTraits :: "nat \<Rightarrow> ruler \<Rightarrow> bar_options \<Rightarrow> nat \<Rightarrow> bar_traits" where
  "computeFlexCategoryTraits index ruler options stackCount =
     (let pixels = ru_pixels ruler;
          cur = pixels ! index;
          prev0 = (if index > 0 then Some (pixels ! (index - 1)) else None);
          next0 = (if index + 1 < length pixels then Some (pixels ! (index + 1)) else None);
          percent = bo_categoryPercentage options;
          prev = (case prev0 of Some p \<Rightarrow> p
                  | None \<Rightarrow> cur - (case next0 of None \<Rightarrow> ru_end ruler - ru_start ruler | Some n \<Rightarrow> n - cur));
          next = (case next0 of Some n \<Rightarrow> n | None \<Rightarrow> cur + cur - prev);
          start = cur - (cur - min prev next) / 2 * percent;
          sz = \<bar>next - prev\<bar> / 2 * percent
      in \<lparr>bt_chunk = sz / of_nat stackCount, bt_ratio = bo_barPercentage options, bt_start = start\<rparr>)"

text \<open>
  The stacks of a category: the metasets with their stack, whether they are grouped and which values
  are given; the option \<open>stacked\<close> is false, undefined or something else.
\<close>

datatype stacked_option = StackedFalse | StackedUndefined | StackedOther

record bar_meta =
  bm_index :: nat
  bm_stack :: "string option"
  bm_grouped :: bool
  bm_values :: "rat option list"

definition skipNull :: "nat \<Rightarrow> bar_meta \<Rightarrow> bool" where
  "skipNull dataIndex m \<longleftrightarrow> (if dataIndex < length (bm_values m) then bm_values m ! dataIndex = None else True)"

fun stacks_loop :: "stacked_option \<Rightarrow> nat option \<Rightarrow> nat option \<Rightarrow> bar_meta list \<Rightarrow> string option list \<Rightarrow> string option list" where
  "stacks_loop stacked lst dataIndex [] stacks = stacks"
| "stacks_loop stacked lst dataIndex (m # ms) stacks =
     (if (case dataIndex of Some i \<Rightarrow> skipNull i m | None \<Rightarrow> False) then stacks_loop stacked lst dataIndex ms stacks
      else (let stacks1 = (if stacked = StackedFalse \<or> bm_stack m \<notin> set stacks \<or> (stacked = StackedUndefined \<and> bm_stack m = None)
                           then stacks @ [bm_stack m] else stacks)
            in if Some (bm_index m) = lst then stacks1 else stacks_loop stacked lst dataIndex ms stacks1))"

definition getStacks :: "stacked_option \<Rightarrow> bar_meta list \<Rightarrow> nat option \<Rightarrow> nat option \<Rightarrow> string option list" where
  "getStacks stacked metas lst dataIndex =
     (let stacks = stacks_loop stacked lst dataIndex (filter bm_grouped metas) []
      in if stacks = [] then [None] else stacks)"

definition getStackCount :: "stacked_option \<Rightarrow> bar_meta list \<Rightarrow> nat option \<Rightarrow> nat" where
  "getStackCount stacked metas dataIndex = length (getStacks stacked metas None dataIndex)"

definition getStackIndex :: "stacked_option \<Rightarrow> bar_meta list \<Rightarrow> nat \<Rightarrow> string option \<Rightarrow> nat option \<Rightarrow> nat" where
  "getStackIndex stacked metas dsIndex name dataIndex =
     (let stacks = getStacks stacked metas (Some dsIndex) dataIndex
      in case (if name \<noteq> None then index_of stacks name else None) of
           None \<Rightarrow> length stacks - 1
         | Some i \<Rightarrow> i)"

definition getRuler :: "bar_options \<Rightarrow> rat list \<Rightarrow> rat \<Rightarrow> rat \<times> rat \<Rightarrow> nat \<Rightarrow> ruler" where
  "getRuler opts pixels minSample bounds stackCount =
     \<lparr>ru_min = (case bo_thickness opts of AutoThickness \<Rightarrow> Some minSample | FlexThickness \<Rightarrow> None
                 | PixelThickness t \<Rightarrow> Some (if t = 0 then minSample else t)),
      ru_pixels = pixels, ru_start = fst bounds, ru_end = snd bounds, ru_stackCount = stackCount, ru_grouped = bo_grouped opts,
      ru_ratio = (case bo_thickness opts of AutoThickness \<Rightarrow> bo_categoryPercentage opts * bo_barPercentage opts
                  | FlexThickness \<Rightarrow> 1
                  | PixelThickness t \<Rightarrow> if t = 0 then bo_categoryPercentage opts * bo_barPercentage opts else 1)\<rparr>"

definition limit_thickness :: "rat option \<Rightarrow> rat \<Rightarrow> rat" where
  "limit_thickness mx sz = (case mx of Some m \<Rightarrow> min m sz | None \<Rightarrow> sz)"

text \<open>The sizes are \<open>None\<close> when they are no number.\<close>

record index_pixels =
  ip_center :: rat
  ip_size :: "rat option"



definition calculateBarIndexPixels ::
    "bar_options \<Rightarrow> stacked_option \<Rightarrow> bar_meta list \<Rightarrow> bar_meta \<Rightarrow> rat \<Rightarrow> nat \<Rightarrow> ruler \<Rightarrow> index_pixels" where
  "calculateBarIndexPixels options stacked metas meta pixel index ruler =
     (if ru_grouped ruler
      then (let dataIndex = (if bo_skipNull options then Some index else None);
                stackCount = (if bo_skipNull options then getStackCount stacked metas (Some index) else ru_stackCount ruler);
                traits = (if bo_thickness options = FlexThickness then computeFlexCategoryTraits index ruler options stackCount
                          else computeFitCategoryTraits index ruler options stackCount);
                stackIndex = getStackIndex stacked metas (bm_index meta) (bm_stack meta) dataIndex
            in \<lparr>ip_center = bt_start traits + bt_chunk traits * of_nat stackIndex + bt_chunk traits / 2,
                ip_size = Some (limit_thickness (bo_maxThickness options) (bt_chunk traits * bt_ratio traits))\<rparr>)
      else \<lparr>ip_center = pixel,
            ip_size = map_option (\<lambda>m. limit_thickness (bo_maxThickness options) (m * ru_ratio ruler)) (ru_min ruler)\<rparr>)"

section \<open>The extent of a bar\<close>

record float_bar =
  fb_barStart :: rat
  fb_barEnd :: rat
  fb_start :: rat
  fb_end :: rat
  fb_min :: rat
  fb_max :: rat

definition parseFloatBar :: "rat \<Rightarrow> rat \<Rightarrow> rat \<times> float_bar" where
  "parseFloatBar startValue endValue =
     (let mn = min startValue endValue;
          mx = max startValue endValue;
          (barStart, barEnd) = (if \<bar>mn\<bar> > \<bar>mx\<bar> then (mx, mn) else (mn, mx))
      in (barEnd, \<lparr>fb_barStart = barStart, fb_barEnd = barEnd, fb_start = startValue, fb_end = endValue, fb_min = mn, fb_max = mx\<rparr>))"

definition bar_range :: "rat \<times> rat \<Rightarrow> float_bar option \<Rightarrow> rat \<times> rat" where
  "bar_range rng custom =
     (case custom of None \<Rightarrow> rng | Some fb \<Rightarrow> (min (fst rng) (fb_min fb), max (snd rng) (fb_max fb)))"

record value_axis =
  va_pixels :: axis_pixels
  va_range :: value_range
  va_horizontal :: bool
  va_min :: rat

definition va_pixel :: "value_axis \<Rightarrow> rat \<Rightarrow> rat" where
  "va_pixel va v = linear_getPixelForValue (va_pixels va) (va_range va) v"

definition barSign :: "rat \<Rightarrow> value_axis \<Rightarrow> rat \<Rightarrow> int" where
  "barSign sz va actualBase =
     (if sz \<noteq> 0 then sign sz else (if va_horizontal va then 1 else -1) * (if va_min va \<ge> actualBase then 1 else -1))"

record value_pixels_of_bar =
  vp_size :: rat
  vp_base :: rat
  vp_head :: rat
  vp_center :: rat

text \<open>
  The values of a bar: its value, the value with those of its stack below it (\<open>applyStack\<close>) when the
  metaset is stacked, its floating bar, and whether the data point is visible; the line width of the
  grid at a value is a parameter.
\<close>

record bar_value =
  bv_value :: rat
  bv_stacked :: rat
  bv_float :: "float_bar option"
  bv_visible :: bool

definition bar_interval :: "bar_value \<Rightarrow> rat \<times> rat" where
  "bar_interval bv =
     (let start0 = (if bv_stacked bv \<noteq> bv_value bv then bv_stacked bv - bv_value bv else 0);
          len0 = (if bv_stacked bv \<noteq> bv_value bv then bv_value bv else bv_stacked bv)
      in case bv_float bv of
           None \<Rightarrow> (start0, len0)
         | Some fb \<Rightarrow>
             ((if fb_barStart fb \<noteq> 0 \<and> sign (fb_barStart fb) \<noteq> sign (fb_barEnd fb) then 0 else start0) + fb_barStart fb,
              fb_barEnd fb - fb_barStart fb))"

definition min_length :: "bar_options \<Rightarrow> value_axis \<Rightarrow> rat \<Rightarrow> rat \<Rightarrow> rat \<times> rat \<Rightarrow> rat \<times> rat" where
  "min_length options va v actualBase p =
     (case p of (base, sz) \<Rightarrow>
        (case bo_minBarLength options of
           None \<Rightarrow> (base, sz)
         | Some ml \<Rightarrow>
             if \<bar>sz\<bar> < ml
             then (let sz1 = of_int (barSign sz va actualBase) * ml;
                       base1 = (if v = actualBase then base - sz1 / 2 else base);
                       startPixel = getPixelForDecimal (va_pixels va) 0;
                       endPixel = getPixelForDecimal (va_pixels va) 1
                   in (max (min base1 (max startPixel endPixel)) (min startPixel endPixel), sz1))
             else (base, sz)))"

definition calculateBarValuePixels :: "bar_options \<Rightarrow> value_axis \<Rightarrow> (rat \<Rightarrow> rat) \<Rightarrow> bar_value \<Rightarrow> value_pixels_of_bar" where
  "calculateBarValuePixels options va lineWidth bv =
     (let actualBase = (case bo_base options of Some b \<Rightarrow> b | None \<Rightarrow> 0);
          (start, len) = bar_interval bv;
          v = (case bv_float bv of Some fb \<Rightarrow> fb_barStart fb | None \<Rightarrow> bv_value bv);
          startValue = (case bo_base options of Some b \<Rightarrow> if bv_float bv = None then b else start | None \<Rightarrow> start);
          base0 = va_pixel va startValue;
          head0 = (if bv_visible bv then va_pixel va (start + len) else base0);
          (base1, sz1) = min_length options va v actualBase (base0, head0 - base0);
          head1 = base1 + sz1;
          halfGrid = (if base1 = va_pixel va actualBase then of_int (sign sz1) * lineWidth actualBase / 2 else 0)
      in \<lparr>vp_size = sz1 - halfGrid, vp_base = base1 + halfGrid, vp_head = head1, vp_center = head1 + (sz1 - halfGrid) / 2\<rparr>)"

section \<open>Bars beside each other\<close>



section \<open>The sample size\<close>




section \<open>Stacks\<close>

lemma stacks_loop_extends: "\<exists>zs. stacks_loop st l d ms s = s @ zs"
proof (induction ms arbitrary: s)
  case (Cons m ms)
  have "\<exists>zs. (if P then s @ [x] else s) = s @ zs" for P x by auto
  then show ?case using Cons by (auto simp: Let_def) (metis append.assoc)+
qed simp


lemma stacks_loop_present:
  "stacks_loop st l (Some i) ms s = stacks_loop st l None (filter (\<lambda>m. \<not> skipNull i m) ms) s"
  by (induction ms arbitrary: s) (simp_all add: Let_def)

lemma stacks_loop_append:
  "bm_index m \<notin> bm_index ` set us \<Longrightarrow>
    stacks_loop st (Some (bm_index m)) None (us @ m # vs) s = stacks_loop st None None (us @ [m]) s"
  by (induction us arbitrary: s) (auto simp: Let_def)

lemma stacks_loop_all: "stacks_loop st None None (us @ vs) s = stacks_loop st None None vs (stacks_loop st None None us s)"
  by (induction us arbitrary: s) (simp_all add: Let_def)

lemma stacks_loop_member: "m \<in> set ms \<Longrightarrow> bm_stack m \<in> set (stacks_loop st None None ms s)"
proof (induction ms arbitrary: s)
  case (Cons x ms)
  show ?case
  proof (cases "m = x")
    case True
    have "bm_stack x \<in> set (if st = StackedFalse \<or> bm_stack x \<notin> set s \<or> (st = StackedUndefined \<and> bm_stack x = None) then s @ [bm_stack x] else s)"
      by auto
    moreover have "set s' \<subseteq> set (stacks_loop st None None ms s')" for s'
      using stacks_loop_extends[of st None None ms s'] by auto
    ultimately have "bm_stack x \<in> set (stacks_loop st None None ms
        (if st = StackedFalse \<or> bm_stack x \<notin> set s \<or> (st = StackedUndefined \<and> bm_stack x = None) then s @ [bm_stack x] else s))"
      by blast
    then show ?thesis using True by (simp add: Let_def)
  next
    case False
    then show ?thesis using Cons by (simp add: Let_def)
  qed
qed simp

lemma index_of_append: "x \<in> set xs \<Longrightarrow> index_of (xs @ ys) x = index_of xs x"
  by (induction xs) auto

text \<open>The slot a metaset gets among all stacks: the one of its name, or the one it was given itself.\<close>

lemma stack_index_slot:
  assumes ms: "filter bm_grouped metas = us @ m # vs" and dist: "bm_index m \<notin> bm_index ` set us"
    and mode: "st = StackedUndefined \<or> bm_stack m \<noteq> None"
  defines "P \<equiv> stacks_loop st None None us []"
  defines "i \<equiv> getStackIndex st metas (bm_index m) (bm_stack m) None"
  shows "i < getStackCount st metas None" and "getStacks st metas None None ! i = bm_stack m"
    and "bm_stack m = None \<Longrightarrow> i = length P"
    and "bm_stack m \<noteq> None \<Longrightarrow> index_of (getStacks st metas None None) (bm_stack m) = Some i"
proof -
  define T where "T = stacks_loop st None None (us @ [m]) []"
  have T: "getStacks st metas (Some (bm_index m)) None = (if T = [] then [None] else T)"
    unfolding getStacks_def ms using stacks_loop_append[of m us st vs "[]"] dist by (auto simp: T_def Let_def)
  have mem: "bm_stack m \<in> set T" using stacks_loop_member[of m "us @ [m]"] by (simp add: T_def)
  then have ne: "T \<noteq> []" by auto
  have all: "stacks_loop st None None (us @ m # vs) [] = stacks_loop st None None vs T"
    using stacks_loop_all[of st "us @ [m]" vs "[]"] by (simp add: T_def)
  then obtain zs where zs: "stacks_loop st None None (us @ m # vs) [] = T @ zs"
    using stacks_loop_extends[of st None None vs T] by auto
  then have F: "getStacks st metas None None = T @ zs" unfolding getStacks_def ms using ne by (simp add: Let_def)
  have i: "i = (case (if bm_stack m \<noteq> None then index_of T (bm_stack m) else None) of None \<Rightarrow> length T - 1 | Some i \<Rightarrow> i)"
    using ne by (simp add: i_def getStackIndex_def T Let_def)
  show n: "i = length P" if "bm_stack m = None"
  proof -
    have "T = P @ [None]" using mode that by (simp add: T_def P_def stacks_loop_all)
    then show ?thesis using i that by simp
  qed
  show s: "index_of (getStacks st metas None None) (bm_stack m) = Some i" if "bm_stack m \<noteq> None"
  proof -
    have "index_of T (bm_stack m) \<noteq> None" using mem by simp
    then obtain j where "index_of T (bm_stack m) = Some j" by blast
    then show ?thesis using i that mem by (simp add: F index_of_append)
  qed
  have "i < length (T @ zs) \<and> (T @ zs) ! i = bm_stack m"
  proof (cases "bm_stack m = None")
    case True
    have "T = P @ [None]" using mode True by (simp add: T_def P_def stacks_loop_all)
    then show ?thesis using n[OF True] True by (simp add: nth_append)
  next
    case False
    then show ?thesis using s[OF False] index_of_Some unfolding F by metis
  qed
  then show "i < getStackCount st metas None" "getStacks st metas None None ! i = bm_stack m"
    by (simp_all add: getStackCount_def F)
qed

lemma nameless_slots:
  assumes "st = StackedUndefined" "bm_stack m = None"
  shows "length (stacks_loop st None None us []) < length (stacks_loop st None None (us @ m # vs) [])"
proof -
  obtain zs where "stacks_loop st None None vs (stacks_loop st None None us [] @ [None]) = (stacks_loop st None None us [] @ [None]) @ zs"
    using stacks_loop_extends by blast
  then show ?thesis using assms by (simp add: stacks_loop_all)
qed

text \<open>
  C37. When \<open>stacked\<close> is not set, or is true and the data sets name their stacks, two grouped data sets
  share the place beside each other exactly when they name the same stack, and every place lies within
  the count of stacks.
\<close>

theorem stacks_share_place:
  assumes "distinct (map bm_index metas)" and "m1 \<in> set metas" "m2 \<in> set metas" and "bm_grouped m1" "bm_grouped m2"
    and "st \<noteq> StackedFalse" and "st = StackedUndefined \<or> bm_stack m1 \<noteq> None \<and> bm_stack m2 \<noteq> None"
  shows "getStackIndex st metas (bm_index m1) (bm_stack m1) None < getStackCount st metas None \<and>
    (getStackIndex st metas (bm_index m1) (bm_stack m1) None = getStackIndex st metas (bm_index m2) (bm_stack m2) None \<longleftrightarrow>
      m1 = m2 \<or> bm_stack m1 = bm_stack m2 \<and> bm_stack m1 \<noteq> None)"
proof -
  define ms where "ms = filter bm_grouped metas"
  have d: "distinct (map bm_index ms)" unfolding ms_def using assms(1) by (rule distinct_map_filter)
  have split: "\<exists>us vs. ms = us @ m # vs \<and> bm_index m \<notin> bm_index ` set us" if m: "m \<in> set metas" "bm_grouped m" for m
  proof -
    obtain us vs where "ms = us @ m # vs" using m split_list[of m ms] by (auto simp: ms_def)
    with d show ?thesis by force
  qed
  obtain us1 vs1 where 1: "ms = us1 @ m1 # vs1" "bm_index m1 \<notin> bm_index ` set us1" using split assms(2,4) by blast
  obtain us2 vs2 where 2: "ms = us2 @ m2 # vs2" "bm_index m2 \<notin> bm_index ` set us2" using split assms(3,5) by blast
  note s1 = stack_index_slot[OF 1(1)[unfolded ms_def] 1(2), of st] and s2 = stack_index_slot[OF 2(1)[unfolded ms_def] 2(2), of st]
  have "m1 = m2" if n: "bm_stack m1 = None" "bm_stack m2 = None" "length (stacks_loop st None None us1 []) = length (stacks_loop st None None us2 [])"
  proof (rule ccontr)
    assume ne: "m1 \<noteq> m2"
    have u: "st = StackedUndefined" using assms(7) n by auto
    have "us1 @ m1 # vs1 = us2 @ m2 # vs2" using 1 2 by simp
    then consider ws where "us1 = us2 @ m2 # ws" | ws where "us2 = us1 @ m1 # ws"
      using ne by (auto simp: append_eq_append_conv2 append_eq_Cons_conv Cons_eq_append_conv)
    then show False using nameless_slots[OF u n(1)] nameless_slots[OF u n(2)] n(3) by cases (metis less_irrefl)+
  qed
  then show ?thesis using s1 s2 assms(7) by (metis option.inject)
qed


theorem stacks_share_place_witness:
  "let a = \<lparr>bm_index = 0, bm_stack = Some ''s'', bm_grouped = True, bm_values = []\<rparr>;
       b = \<lparr>bm_index = 2, bm_stack = Some ''s'', bm_grouped = True, bm_values = []\<rparr>;
       c = \<lparr>bm_index = 1, bm_stack = None, bm_grouped = True, bm_values = []\<rparr>
   in getStackIndex StackedUndefined [a, c, b] 0 (Some ''s'') None = getStackIndex StackedUndefined [a, c, b] 2 (Some ''s'') None"
  using stacks_share_place[of
      "[\<lparr>bm_index = 0, bm_stack = Some ''s'', bm_grouped = True, bm_values = []\<rparr>,
        \<lparr>bm_index = 1, bm_stack = None, bm_grouped = True, bm_values = []\<rparr>,
        \<lparr>bm_index = 2, bm_stack = Some ''s'', bm_grouped = True, bm_values = []\<rparr>]"
      "\<lparr>bm_index = 0, bm_stack = Some ''s'', bm_grouped = True, bm_values = []\<rparr>"
      "\<lparr>bm_index = 2, bm_stack = Some ''s'', bm_grouped = True, bm_values = []\<rparr>" StackedUndefined]
  by (simp add: Let_def)









section \<open>The rectangle of a bar\<close>

record bar_props =
  bp_horizontal :: bool
  bp_x :: rat
  bp_y :: rat
  bp_base :: rat
  bp_width :: rat
  bp_height :: rat

record rect_bounds =
  rb_left :: rat
  rb_top :: rat
  rb_right :: rat
  rb_bottom :: rat

definition getBarBounds :: "bar_props \<Rightarrow> rect_bounds" where
  "getBarBounds bar =
     (if bp_horizontal bar
      then (let half = bp_height bar / 2
            in \<lparr>rb_left = min (bp_x bar) (bp_base bar), rb_top = bp_y bar - half,
                rb_right = max (bp_x bar) (bp_base bar), rb_bottom = bp_y bar + half\<rparr>)
      else (let half = bp_width bar / 2
            in \<lparr>rb_left = bp_x bar - half, rb_top = min (bp_y bar) (bp_base bar),
                rb_right = bp_x bar + half, rb_bottom = max (bp_y bar) (bp_base bar)\<rparr>))"

definition bar_inRange :: "bar_props \<Rightarrow> rat option \<Rightarrow> rat option \<Rightarrow> bool" where
  "bar_inRange bar x y \<longleftrightarrow>
     (let b = getBarBounds bar
      in \<not> (x = None \<and> y = None) \<and>
         (case x of None \<Rightarrow> True | Some v \<Rightarrow> isBetween v (rb_left b) (rb_right b)) \<and>
         (case y of None \<Rightarrow> True | Some v \<Rightarrow> isBetween v (rb_top b) (rb_bottom b)))"

definition bar_getCenterPoint :: "bar_props \<Rightarrow> rat \<times> rat" where
  "bar_getCenterPoint bar =
     (if bp_horizontal bar then (bp_x bar + bp_base bar) / 2 else bp_x bar,
      if bp_horizontal bar then bp_y bar else (bp_y bar + bp_base bar) / 2)"

definition bar_getRange :: "bar_props \<Rightarrow> string \<Rightarrow> rat" where
  "bar_getRange bar axis = (if axis = ''x'' then bp_width bar / 2 else bp_height bar / 2)"

text \<open>The skipped edges, and the names of the edges of a bar from its base on.\<close>

record border_edges =
  be_start :: string
  be_end :: string
  be_reverse :: bool
  be_top :: string
  be_bottom :: string

definition borderProps :: "bar_props \<Rightarrow> border_edges" where
  "borderProps p =
     (let rv = (if bp_horizontal p then bp_base p > bp_x p else bp_base p < bp_y p)
      in \<lparr>be_start = (if bp_horizontal p then ''left'' else ''bottom''), be_end = (if bp_horizontal p then ''right'' else ''top''),
          be_reverse = rv, be_top = (if rv then ''end'' else ''start''), be_bottom = (if rv then ''start'' else ''end'')\<rparr>)"

definition swap_edge :: "string \<Rightarrow> string \<Rightarrow> string \<Rightarrow> string" where
  "swap_edge orig v1 v2 = (if orig = v1 then v2 else if orig = v2 then v1 else orig)"

definition startEnd :: "string \<Rightarrow> string \<Rightarrow> string \<Rightarrow> string" where
  "startEnd v s e = (if v = ''start'' then s else if v = ''end'' then e else v)"

definition parseEdge :: "string \<Rightarrow> string \<Rightarrow> string \<Rightarrow> bool \<Rightarrow> string" where
  "parseEdge edge a b rv = (if rv then startEnd (swap_edge edge a b) b a else startEnd edge a b)"

datatype skip_option = SkipNone | SkipAll | SkipEdge string

text \<open>The first and the last data set of the stack of the value, if there are.\<close>

definition setBorderSkipped :: "bar_props \<Rightarrow> skip_option \<Rightarrow> (nat option \<times> nat option) option \<Rightarrow> nat \<Rightarrow> string list" where
  "setBorderSkipped p opt stack index =
     (case opt of
        SkipNone \<Rightarrow> []
      | SkipAll \<Rightarrow> [''top'', ''right'', ''bottom'', ''left'']
      | SkipEdge edge \<Rightarrow>
          (let b = borderProps p;
               parse = (\<lambda>e. parseEdge e (be_start b) (be_end b) (be_reverse b))
           in case (if edge = ''middle'' then stack else None) of
                None \<Rightarrow> [parse edge]
              | Some (tp, bt) \<Rightarrow>
                  if (case tp of Some t \<Rightarrow> t | None \<Rightarrow> 0) = index then [parse (be_top b)]
                  else if (case bt of Some t \<Rightarrow> t | None \<Rightarrow> 0) = index then [parse (be_bottom b)]
                  else [parse (be_bottom b), parse (be_top b)]))"

definition edge_of :: "rect_bounds \<Rightarrow> string \<Rightarrow> rat" where
  "edge_of b e = (if e = ''left'' then rb_left b else if e = ''right'' then rb_right b else if e = ''top'' then rb_top b else rb_bottom b)"

text \<open>Borders and corners are limited to half of the bar; a skipped edge has none.\<close>

definition skipOrLimit :: "bool \<Rightarrow> rat \<Rightarrow> rat \<Rightarrow> rat \<Rightarrow> rat" where
  "skipOrLimit skip v mn mx = (if skip then 0 else limitValue v mn mx)"

record border_width =
  bw_t :: rat
  bw_r :: rat
  bw_b :: rat
  bw_l :: rat

record corner_radius =
  cr_topLeft :: rat
  cr_topRight :: rat
  cr_bottomLeft :: rat
  cr_bottomRight :: rat

record bar_rect =
  br_x :: rat
  br_y :: rat
  br_w :: rat
  br_h :: rat
  br_radius :: corner_radius

definition side_value :: "(string \<times> jsnum) list \<Rightarrow> string \<Rightarrow> rat" where
  "side_value ps k = (case side ps k of Fin v \<Rightarrow> v | _ \<Rightarrow> 0)"

definition parseBorderWidth :: "jsval \<Rightarrow> string list \<Rightarrow> rat \<Rightarrow> rat \<Rightarrow> border_width" where
  "parseBorderWidth v skip maxW maxH =
     (let o' = toTRBL v
      in \<lparr>bw_t = skipOrLimit (''top'' \<in> set skip) (side_value o' ''top'') 0 maxH,
          bw_r = skipOrLimit (''right'' \<in> set skip) (side_value o' ''right'') 0 maxW,
          bw_b = skipOrLimit (''bottom'' \<in> set skip) (side_value o' ''bottom'') 0 maxH,
          bw_l = skipOrLimit (''left'' \<in> set skip) (side_value o' ''left'') 0 maxW\<rparr>)"

definition parseBorderRadius :: "jsval \<Rightarrow> bool \<Rightarrow> string list \<Rightarrow> rat \<Rightarrow> rat \<Rightarrow> corner_radius" where
  "parseBorderRadius v enableBorderRadius skip maxW maxH =
     (let o' = toTRBLCorners v;
          maxR = min maxW maxH;
          enable = (enableBorderRadius \<or> isObject v);
          corner = (\<lambda>k e1 e2. skipOrLimit (\<not> enable \<or> e1 \<in> set skip \<or> e2 \<in> set skip) (side_value o' k) 0 maxR)
      in \<lparr>cr_topLeft = corner ''topLeft'' ''top'' ''left'', cr_topRight = corner ''topRight'' ''top'' ''right'',
          cr_bottomLeft = corner ''bottomLeft'' ''bottom'' ''left'', cr_bottomRight = corner ''bottomRight'' ''bottom'' ''right''\<rparr>)"

definition boundingRects :: "bar_props \<Rightarrow> jsval \<Rightarrow> jsval \<Rightarrow> bool \<Rightarrow> string list \<Rightarrow> bar_rect \<times> bar_rect" where
  "boundingRects bar borderWidth borderRadius enableBorderRadius skip =
     (let b = getBarBounds bar;
          w = rb_right b - rb_left b;
          h = rb_bottom b - rb_top b;
          bd = parseBorderWidth borderWidth skip (w / 2) (h / 2);
          rd = parseBorderRadius borderRadius enableBorderRadius skip (w / 2) (h / 2)
      in (\<lparr>br_x = rb_left b, br_y = rb_top b, br_w = w, br_h = h, br_radius = rd\<rparr>,
          \<lparr>br_x = rb_left b + bw_l bd, br_y = rb_top b + bw_t bd, br_w = w - bw_l bd - bw_r bd, br_h = h - bw_t bd - bw_b bd,
           br_radius = \<lparr>cr_topLeft = max 0 (cr_topLeft rd - max (bw_t bd) (bw_l bd)),
                        cr_topRight = max 0 (cr_topRight rd - max (bw_t bd) (bw_r bd)),
                        cr_bottomLeft = max 0 (cr_bottomLeft rd - max (bw_b bd) (bw_l bd)),
                        cr_bottomRight = max 0 (cr_bottomRight rd - max (bw_b bd) (bw_r bd))\<rparr>\<rparr>))"

definition inflateRect :: "bar_rect \<Rightarrow> rat \<Rightarrow> bar_rect option \<Rightarrow> bar_rect" where
  "inflateRect rc amount ref =
     (let x = (if (case ref of Some q \<Rightarrow> br_x rc \<noteq> br_x q | None \<Rightarrow> True) then - amount else 0);
          y = (if (case ref of Some q \<Rightarrow> br_y rc \<noteq> br_y q | None \<Rightarrow> True) then - amount else 0);
          w = (if (case ref of Some q \<Rightarrow> br_x rc + br_w rc \<noteq> br_x q + br_w q | None \<Rightarrow> True) then amount else 0) - x;
          h = (if (case ref of Some q \<Rightarrow> br_y rc + br_h rc \<noteq> br_y q + br_h q | None \<Rightarrow> True) then amount else 0) - y
      in \<lparr>br_x = br_x rc + x, br_y = br_y rc + y, br_w = br_w rc + w, br_h = br_h rc + h, br_radius = br_radius rc\<rparr>)"

text \<open>
  The edge skipped for \<open>start\<close> is the one at the base of the bar and the edge skipped for \<open>end\<close> the
  one at its head, whichever way the bar points.
\<close>

theorem skipped_edges:
  "\<exists>e1 e2. setBorderSkipped p (SkipEdge ''start'') stack i = [e1] \<and> setBorderSkipped p (SkipEdge ''end'') stack i = [e2] \<and>
     edge_of (getBarBounds p) e1 = bp_base p \<and> edge_of (getBarBounds p) e2 = (if bp_horizontal p then bp_x p else bp_y p)"
  by (auto simp: setBorderSkipped_def borderProps_def parseEdge_def swap_edge_def startEnd_def edge_of_def getBarBounds_def Let_def min_def max_def)

text \<open>
  The inner rectangle of a bar lies inside the outer one and has no negative size, whatever the
  border options are; the center of the bar is hit.
\<close>

theorem inner_rect_inside:
  assumes "0 \<le> bp_width p" "0 \<le> bp_height p" and "boundingRects p bw rad en skip = (outr, innr)"
  shows "br_x outr \<le> br_x innr \<and> br_y outr \<le> br_y innr \<and> 0 \<le> br_w innr \<and> 0 \<le> br_h innr \<and>
    br_x innr + br_w innr \<le> br_x outr + br_w outr \<and> br_y innr + br_h innr \<le> br_y outr + br_h outr \<and>
    bar_inRange p (Some (fst (bar_getCenterPoint p))) (Some (snd (bar_getCenterPoint p)))"
proof -
  define b where "b = getBarBounds p"
  have ord: "rb_left b \<le> rb_right b" "rb_top b \<le> rb_bottom b"
    using assms(1,2) by (auto simp: b_def getBarBounds_def Let_def)
  define W where "W = (rb_right b - rb_left b) / 2"
  define H where "H = (rb_bottom b - rb_top b) / 2"
  have WH: "0 \<le> W" "0 \<le> H" using ord by (simp_all add: W_def H_def)
  define bd where "bd = parseBorderWidth bw skip W H"
  have lim: "0 \<le> skipOrLimit sk v 0 mx \<and> skipOrLimit sk v 0 mx \<le> mx" if "0 \<le> mx" for sk v mx
    using that limitValue_range by (simp add: skipOrLimit_def)
  have w: "0 \<le> bw_l bd" "bw_l bd \<le> W" "0 \<le> bw_r bd" "bw_r bd \<le> W" "0 \<le> bw_t bd" "bw_t bd \<le> H" "0 \<le> bw_b bd" "bw_b bd \<le> H"
    using lim[OF WH(1)] lim[OF WH(2)] by (simp_all add: bd_def parseBorderWidth_def Let_def)
  have r: "br_x outr = rb_left b" "br_y outr = rb_top b" "br_w outr = rb_right b - rb_left b" "br_h outr = rb_bottom b - rb_top b"
    "br_x innr = rb_left b + bw_l bd" "br_y innr = rb_top b + bw_t bd"
    "br_w innr = rb_right b - rb_left b - bw_l bd - bw_r bd" "br_h innr = rb_bottom b - rb_top b - bw_t bd - bw_b bd"
    using assms(3) by (auto simp: boundingRects_def Let_def b_def bd_def W_def H_def)
  have "bar_inRange p (Some (fst (bar_getCenterPoint p))) (Some (snd (bar_getCenterPoint p)))"
    using assms(1,2) by (auto simp: bar_inRange_def bar_getCenterPoint_def getBarBounds_def isBetween_def Let_def min_def max_def)
  then show ?thesis using w ord unfolding r W_def H_def by (simp add: field_simps)
qed

theorem inner_rect_inside_witness:
  "let p = \<lparr>bp_horizontal = False, bp_x = 50, bp_y = 20, bp_base = 100, bp_width = 10, bp_height = 80\<rparr>;
       innr = snd (boundingRects p (VNum (Fin 7)) (VNum (Fin 3)) True [''bottom''])
   in br_w innr = 0 \<and> br_h innr = 73 \<and> 45 \<le> br_x innr \<and> 20 \<le> br_y innr \<and> br_x innr + br_w innr \<le> 55 \<and> br_y innr + br_h innr \<le> 100"
proof -
  define p where "p = \<lparr>bp_horizontal = False, bp_x = 50, bp_y = 20, bp_base = 100, bp_width = 10, bp_height = 80\<rparr>"
  define rects where "rects = boundingRects p (VNum (Fin 7)) (VNum (Fin 3)) True [''bottom'']"
  have e: "br_x (fst rects) = 45" "br_y (fst rects) = 20" "br_w (fst rects) = 10" "br_h (fst rects) = 80"
    "br_w (snd rects) = 0" "br_h (snd rects) = 73"
    unfolding rects_def p_def by code_simp+
  have "0 \<le> bp_width p" "0 \<le> bp_height p" by (simp_all add: p_def)
  from inner_rect_inside[OF this, of "VNum (Fin 7)" "VNum (Fin 3)" True "[''bottom'']" "fst rects" "snd rects"] e
  show ?thesis unfolding p_def[symmetric] rects_def[symmetric] Let_def by (simp add: rects_def[symmetric])
qed


section \<open>Bars on top of each other\<close>

lemma interval_plain: "bv_float bv = None \<Longrightarrow> bar_interval bv = (bv_stacked bv - bv_value bv, bv_value bv)"
  by (auto simp: bar_interval_def)

lemma value_pixels_plain:
  assumes "bo_base opts = None" "bo_minBarLength opts = None" "bv_float bv = None" "bv_visible bv"
  shows "vp_head (calculateBarValuePixels opts va lw bv) = va_pixel va (bv_stacked bv)"
    and "va_pixel va (bv_stacked bv - bv_value bv) \<noteq> va_pixel va 0 \<Longrightarrow>
      vp_base (calculateBarValuePixels opts va lw bv) = va_pixel va (bv_stacked bv - bv_value bv)"
  using assms by (simp_all add: calculateBarValuePixels_def interval_plain min_length_def Let_def)

lemma first_of_stack:
  assumes "bo_base opts = None" "bo_minBarLength opts = None" "bv_float bv = None" "bv_visible bv" "bv_stacked bv = bv_value bv"
  shows "vp_base (calculateBarValuePixels opts va lw bv) =
    va_pixel va 0 + of_int (sign (va_pixel va (bv_value bv) - va_pixel va 0)) * lw 0 / 2"
  using assms by (simp add: calculateBarValuePixels_def interval_plain min_length_def Let_def)

text \<open>The head is the base and the size together, hidden or not, and a hidden bar without a smallest length has no size.\<close>

lemma head_is_base_and_size:
  "vp_head (calculateBarValuePixels opts va lw bv) =
     vp_base (calculateBarValuePixels opts va lw bv) + vp_size (calculateBarValuePixels opts va lw bv)"
  by (simp add: calculateBarValuePixels_def Let_def split: prod.splits)

lemma hidden_bar:
  "bo_minBarLength opts = None \<Longrightarrow> \<not> bv_visible bv \<Longrightarrow> vp_size (calculateBarValuePixels opts va lw bv) = 0"
  by (simp add: calculateBarValuePixels_def min_length_def Let_def sign_def split: prod.splits)

text \<open>A floating bar that is not stacked spans its two values, and the range of the scale holds both.\<close>

lemma floating_bar_spans:
  assumes "parseFloatBar a b = (v, fb)" and "bv_float bv = Some fb" "bv_value bv = v" "bv_stacked bv = v"
  shows "{fst (bar_interval bv), fst (bar_interval bv) + snd (bar_interval bv)} = {a, b}"
    and "fst (bar_range rng (Some fb)) \<le> min a b" "max a b \<le> snd (bar_range rng (Some fb))"
  using assms by (auto simp: parseFloatBar_def bar_interval_def bar_range_def Let_def min_def max_def split: if_splits)

text \<open>
  C38. In a stack the bar of a data set stands on the bar before it of the same sign, whatever data
  sets of the other sign, of value 0 or without a value lie between the two: its base is the head of
  the other, wherever a linear scale draws them, unless that head is on the pixel of the base line;
  and a bar with none of its sign before it stands on the base line, moved by half its width.  The
  bars are visible and not floating, and no \<open>base\<close> and no \<open>minBarLength\<close> is set.
\<close>

theorem stacked_bars_touch:
  assumes keys: "keys = before @ d1 # mid @ d2 # after" "distinct keys"
    and vals: "stack_lookup stack d1 = Some v1" "stack_lookup stack d2 = Some v2" "v1 \<noteq> 0" "sign v1 = sign v2"
    and between: "\<forall>k \<in> set mid. \<forall>w. stack_lookup stack k = Some w \<longrightarrow> sign w \<noteq> sign v1"
    and st: "applyStack keys stack (Some v1) d1 False False = Some s1" "applyStack keys stack (Some v2) d2 False False = Some s2"
    and b1: "bv_value bar1 = v1" "bv_stacked bar1 = s1" "bv_float bar1 = None" "bv_visible bar1"
    and b2: "bv_value bar2 = v2" "bv_stacked bar2 = s2" "bv_float bar2 = None" "bv_visible bar2"
    and opts: "bo_base opts = None" "bo_minBarLength opts = None"
  shows "(va_pixel va s1 \<noteq> va_pixel va 0 \<longrightarrow>
      vp_base (calculateBarValuePixels opts va lw bar2) = vp_head (calculateBarValuePixels opts va lw bar1)) \<and>
    ((\<forall>k \<in> set before. \<forall>w. stack_lookup stack k = Some w \<longrightarrow> sign w \<noteq> sign v1) \<longrightarrow>
      vp_base (calculateBarValuePixels opts va lw bar1) =
        va_pixel va 0 + of_int (sign (va_pixel va v1 - va_pixel va 0)) * lw 0 / 2)"
proof -
  define W where "W = (\<lambda>k. case stack_lookup stack k of Some w \<Rightarrow> if sign w = sign v1 then w else 0 | None \<Rightarrow> 0)"
  have v2: "v2 \<noteq> 0" using vals(3,4) by (auto simp: sign_def split: if_splits)
  have t: "takeWhile (\<lambda>k. k \<noteq> d1) keys = before" "takeWhile (\<lambda>k. k \<noteq> d2) keys = before @ d1 # mid"
    using keys by (auto simp: takeWhile_append)
  have none: "sum_list (map W ks) = 0" if "\<forall>k \<in> set ks. \<forall>w. stack_lookup stack k = Some w \<longrightarrow> sign w \<noteq> sign v1" for ks
    using that by (induction ks) (auto simp: W_def split: option.splits)
  have "s1 = v1 + sum_list (map W before)" "s2 = v2 + (sum_list (map W before) + (v1 + sum_list (map W mid)))"
    using st t applyStack_loop_sum[OF vals(3), of d1 "stack_lookup stack" keys] applyStack_loop_sum[OF v2, of d2 "stack_lookup stack" keys, unfolded vals(4)[symmetric]]
      vals(1-3) by (simp_all add: applyStack_def W_def before_in_def)
  then have s: "s1 = v1 + sum_list (map W before)" "s2 - v2 = s1" using none[OF between] by simp_all
  have "vp_base (calculateBarValuePixels opts va lw bar2) = vp_head (calculateBarValuePixels opts va lw bar1)"
    if "va_pixel va s1 \<noteq> va_pixel va 0"
    using value_pixels_plain[OF opts] b1 b2 s(2) that by simp
  moreover have "vp_base (calculateBarValuePixels opts va lw bar1) =
        va_pixel va 0 + of_int (sign (va_pixel va v1 - va_pixel va 0)) * lw 0 / 2"
    if "\<forall>k \<in> set before. \<forall>w. stack_lookup stack k = Some w \<longrightarrow> sign w \<noteq> sign v1"
    using first_of_stack[OF opts b1(3,4)] b1(1,2) s(1) none[OF that] by simp
  ultimately show ?thesis by blast
qed


theorem stacked_bars_touch_witness:
  "vp_base (calculateBarValuePixels
      \<lparr>bo_thickness = AutoThickness, bo_categoryPercentage = 4/5, bo_barPercentage = 9/10, bo_maxThickness = None,
        bo_skipNull = False, bo_grouped = True, bo_base = None, bo_minBarLength = None\<rparr>
      \<lparr>va_pixels = \<lparr>ap_start = 0, ap_end = 100, ap_reverse = True, ap_align = None\<rparr>,
        va_range = \<lparr>vr_start = 0, vr_range = 10\<rparr>, va_horizontal = False, va_min = 0\<rparr> (\<lambda>_. 1)
      \<lparr>bv_value = 4, bv_stacked = 7, bv_float = None, bv_visible = True\<rparr>) = 70"
proof -
  define va where "va = \<lparr>va_pixels = \<lparr>ap_start = 0, ap_end = 100, ap_reverse = True, ap_align = None\<rparr>,
    va_range = \<lparr>vr_start = 0, vr_range = 10\<rparr>, va_horizontal = False, va_min = 0\<rparr>"
  define opts where "opts = \<lparr>bo_thickness = AutoThickness, bo_categoryPercentage = 4/5, bo_barPercentage = 9/10, bo_maxThickness = None,
    bo_skipNull = False, bo_grouped = True, bo_base = None, bo_minBarLength = None\<rparr>"
  define stack where "stack = \<lparr>so_values = [(0, Some (Fin 3)), (1, Some (Fin (-2))), (2, Some (Fin 4))], so_top = None, so_bottom = None\<rparr>"
  have v: "stack_lookup stack 0 = Some 3" "stack_lookup stack 1 = Some (-2)" "stack_lookup stack 2 = Some 4"
    "sign (3 :: rat) = sign (4 :: rat)" "sign (-2 :: rat) \<noteq> sign (3 :: rat)"
    by (simp_all add: stack_def stack_lookup_def finite_value_def sign_def)
  have st: "applyStack [0, 1, 2] stack (Some 3) 0 False False = Some 3" "applyStack [0, 1, 2] stack (Some 4) 2 False False = Some 7"
    using v by (simp_all add: applyStack_def sign_def)
  have px: "va_pixel va 3 = 70" "va_pixel va 0 = 100"
    by (simp_all add: va_def va_pixel_def linear_getPixelForValue_def getPixelForDecimal_def ap_length_def int16Range_def limitValue_def)
  have o: "bo_base opts = None" "bo_minBarLength opts = None" by (simp_all add: opts_def)
  have h: "vp_head (calculateBarValuePixels opts va (\<lambda>_. 1) \<lparr>bv_value = 3, bv_stacked = 3, bv_float = None, bv_visible = True\<rparr>) = 70"
    using value_pixels_plain(1)[OF o, of "\<lparr>bv_value = 3, bv_stacked = 3, bv_float = None, bv_visible = True\<rparr>"] px by simp
  show ?thesis unfolding va_def[symmetric] opts_def[symmetric] h[symmetric]
    by (rule stacked_bars_touch[of "[0, 1, 2]" "[]" 0 "[1]" 2 "[]" stack 3 4 3 7, THEN conjunct1, THEN mp]) (use v st px o in simp_all)
qed

text \<open>With \<open>stacked\<close> false two data sets with one stack name are given two places and stand on the same one.\<close>

lemma same_name_same_place:
  "let a = \<lparr>bm_index = 0, bm_stack = Some ''s'', bm_grouped = True, bm_values = []\<rparr>;
       b = \<lparr>bm_index = 1, bm_stack = Some ''s'', bm_grouped = True, bm_values = []\<rparr>
   in getStackCount StackedFalse [a, b] None = 2 \<and> getStackIndex StackedFalse [a, b] 0 (Some ''s'') None = 0 \<and>
      getStackIndex StackedFalse [a, b] 1 (Some ''s'') None = 0"
  by code_simp

text \<open>With \<open>stacked\<close> true a data set without a stack name stands beside its stack when another stack comes between.\<close>

lemma nameless_misplaced:
  "let a = \<lparr>bm_index = 0, bm_stack = None, bm_grouped = True, bm_values = []\<rparr>;
       b = \<lparr>bm_index = 1, bm_stack = Some ''s'', bm_grouped = True, bm_values = []\<rparr>;
       c = \<lparr>bm_index = 2, bm_stack = None, bm_grouped = True, bm_values = []\<rparr>
   in getStackIndex StackedOther [a, b, c] 0 None None = 0 \<and> getStackIndex StackedOther [a, b, c] 2 None None = 1"
  by code_simp

text \<open>A bar that is not grouped has no size when the thickness is flexible.\<close>

lemma flex_ungrouped:
  "\<not> bo_grouped opts \<Longrightarrow> bo_thickness opts = FlexThickness \<Longrightarrow>
    ip_size (calculateBarIndexPixels opts st metas m px k (getRuler opts pixels mn bounds n)) = None"
  by (simp add: calculateBarIndexPixels_def getRuler_def)

end
