(* ===== verification/ChartTooltip.thy ===== *)
theory ChartTooltip
  imports ChartBars
begin

text \<open>
  The tooltip (\<open>chart_3.9.js\<close>, 11127-11480 and 11535-11950): where it points to, the lines of its
  text, its size, alignment and place in the chart, the rows its text is drawn in, and the handling
  of events.  The measuring of text and the line heights of the fonts are parameters.
\<close>

section \<open>Where the tooltip points to\<close>

text \<open>An element as far as the positioners read it; the center is for distances, the position for the tooltip.\<close>

record tip_element =
  te_hasValue :: bool
  te_position :: "rat \<times> rat"
  te_center :: "rat \<times> rat"

datatype tip_position = NoPosition | NotANumber | PositionAt rat rat

definition valued :: "tip_element option list \<Rightarrow> tip_element list" where
  "valued items = filter te_hasValue (map the (filter (\<lambda>e. e \<noteq> None) items))"

definition position_average :: "tip_element option list \<Rightarrow> tip_position" where
  "position_average items =
     (if items = [] then NoPosition
      else (let es = valued items; n = of_nat (length es)
            in if es = [] then NotANumber
               else PositionAt (sum_list (map (fst \<circ> te_position) es) / n) (sum_list (map (snd \<circ> te_position) es) / n)))"

text \<open>The nearest element, by the square of the distance.\<close>

definition square_distance :: "rat \<times> rat \<Rightarrow> rat \<times> rat \<Rightarrow> rat" where
  "square_distance p q = (fst q - fst p) * (fst q - fst p) + (snd q - snd p) * (snd q - snd p)"

definition nearest_element_step :: "rat \<times> rat \<Rightarrow> (rat \<times> tip_element) option \<Rightarrow> tip_element \<Rightarrow> (rat \<times> tip_element) option" where
  "nearest_element_step event best el =
     (let d = square_distance event (te_center el)
      in case best of None \<Rightarrow> Some (d, el) | Some (m, _) \<Rightarrow> if d < m then Some (d, el) else best)"

definition position_nearest :: "tip_element option list \<Rightarrow> rat \<times> rat \<Rightarrow> tip_position" where
  "position_nearest items event =
     (if items = [] then NoPosition
      else (case foldl (nearest_element_step event) None (valued items) of
              Some (_, el) \<Rightarrow> PositionAt (fst (te_position el)) (snd (te_position el))
            | None \<Rightarrow> PositionAt (fst event) (snd event)))"

section \<open>The lines of the text\<close>

definition splitNewlines :: "jsval \<Rightarrow> jsval" where
  "splitNewlines v =
     (case v of VStr s \<Rightarrow> if CHR 0x0A \<in> set s then VArr (map VStr (split_char CHR 0x0A s)) else v | _ \<Rightarrow> v)"

definition pushOrConcat :: "jsval list \<Rightarrow> jsval \<Rightarrow> jsval list" where
  "pushOrConcat base toPush =
     (if truthy toPush then (case toPush of VArr vs \<Rightarrow> base @ vs | _ \<Rightarrow> base @ [toPush]) else base)"

definition title_lines :: "jsval \<Rightarrow> jsval \<Rightarrow> jsval \<Rightarrow> jsval list" where
  "title_lines before title after =
     pushOrConcat (pushOrConcat (pushOrConcat [] (splitNewlines before)) (splitNewlines title)) (splitNewlines after)"

definition getBeforeAfterBodyLines :: "jsval \<Rightarrow> jsval list" where
  "getBeforeAfterBodyLines callback = pushOrConcat [] (splitNewlines callback)"

definition body_lines :: "jsval \<times> jsval \<times> jsval \<Rightarrow> jsval list \<times> jsval list \<times> jsval list" where
  "body_lines cbs =
     (case cbs of (before, label, after) \<Rightarrow>
        (pushOrConcat [] (splitNewlines before), pushOrConcat [] label, pushOrConcat [] (splitNewlines after)))"

section \<open>The size\<close>

datatype tip_font = TitleFont | BodyFont | FooterFont

record body_item =
  bi_before :: "string list"
  bi_lines :: "string list"
  bi_after :: "string list"

record tip_text =
  tt_title :: "string list"
  tt_beforeBody :: "string list"
  tt_body :: "body_item list"
  tt_afterBody :: "string list"
  tt_footer :: "string list"

record tip_options =
  to_padding :: jsval
  to_lineHeight :: "tip_font \<Rightarrow> rat"
  to_titleSpacing :: rat
  to_titleMarginBottom :: rat
  to_bodySpacing :: rat
  to_footerSpacing :: rat
  to_footerMarginTop :: rat
  to_displayColors :: bool
  to_boxWidth :: rat
  to_boxHeight :: rat
  to_boxPadding :: rat
  to_caretSize :: rat
  to_caretPadding :: rat
  to_cornerRadius :: jsval
  to_titleAlign :: string
  to_bodyAlign :: string
  to_footerAlign :: string
  to_xAlign :: "string option"
  to_yAlign :: "string option"
  to_rtl :: bool

definition pad :: "tip_options \<Rightarrow> string \<Rightarrow> rat" where
  "pad o' k = side_value (toPadding (to_padding o')) k"

definition combinedBodyLength :: "tip_text \<Rightarrow> nat" where
  "combinedBodyLength t =
     sum_list (map (\<lambda>b. length (bi_before b) + length (bi_lines b) + length (bi_after b)) (tt_body t)) +
     length (tt_beforeBody t) + length (tt_afterBody t)"

definition title_height :: "tip_options \<Rightarrow> tip_text \<Rightarrow> rat" where
  "title_height o' t =
     (let n = of_nat (length (tt_title t))
      in if tt_title t = [] then 0 else n * to_lineHeight o' TitleFont + (n - 1) * to_titleSpacing o' + to_titleMarginBottom o')"

definition body_height :: "tip_options \<Rightarrow> tip_text \<Rightarrow> rat" where
  "body_height o' t =
     (let lh = to_lineHeight o' BodyFont;
          n = of_nat (length (tt_body t)); c = of_nat (combinedBodyLength t);
          blh = (if to_displayColors o' then max (to_boxHeight o') lh else lh)
      in if combinedBodyLength t = 0 then 0 else n * blh + (c - n) * lh + (c - 1) * to_bodySpacing o')"

definition footer_height :: "tip_options \<Rightarrow> tip_text \<Rightarrow> rat" where
  "footer_height o' t =
     (let n = of_nat (length (tt_footer t))
      in if tt_footer t = [] then 0 else to_footerMarginTop o' + n * to_lineHeight o' FooterFont + (n - 1) * to_footerSpacing o')"

definition max_width :: "(string \<Rightarrow> rat) \<Rightarrow> rat \<Rightarrow> string list \<Rightarrow> rat \<Rightarrow> rat" where
  "max_width meas extra ls w = foldl (\<lambda>w l. max w (meas l + extra)) w ls"

definition getTooltipSize :: "(tip_font \<Rightarrow> string \<Rightarrow> rat) \<Rightarrow> tip_options \<Rightarrow> tip_text \<Rightarrow> rat \<times> rat" where
  "getTooltipSize meas o' t =
     (let extra = (if to_displayColors o' then to_boxWidth o' + 2 + to_boxPadding o' else 0);
          w1 = max_width (meas TitleFont) 0 (tt_title t) 0;
          w2 = max_width (meas BodyFont) 0 (tt_beforeBody t @ tt_afterBody t) w1;
          w3 = foldl (\<lambda>w b. max_width (meas BodyFont) extra (bi_after b)
                 (max_width (meas BodyFont) extra (bi_lines b) (max_width (meas BodyFont) extra (bi_before b) w))) w2 (tt_body t);
          w4 = max_width (meas FooterFont) 0 (tt_footer t) w3
      in (w4 + pad o' ''width'', pad o' ''height'' + title_height o' t + body_height o' t + footer_height o' t))"

section \<open>Alignment and place\<close>

record tip_chart =
  tc_width :: rat
  tc_height :: rat
  tc_left :: rat
  tc_right :: rat

text \<open>
  The position and the size of the tooltip, with the alignment a positioner of the page may have put
  beside the position (the positioners of the library give none).
\<close>

record tip_box =
  tb_x :: rat
  tb_y :: rat
  tb_width :: rat
  tb_height :: rat
  tb_xAlign :: "string option"
  tb_yAlign :: "string option"

text \<open>\<open>a || b\<close> on alignments, of which the empty text counts as absent.\<close>

definition or_align :: "string option \<Rightarrow> string option \<Rightarrow> string option" where
  "or_align a b = (if a \<noteq> None \<and> a \<noteq> Some [] then a else if b = Some [] then None else b)"

definition or_computed :: "string option \<Rightarrow> string \<Rightarrow> string" where
  "or_computed a s = (case a of None \<Rightarrow> s | Some t \<Rightarrow> t)"

definition determineYAlign :: "tip_chart \<Rightarrow> tip_box \<Rightarrow> string" where
  "determineYAlign chart sz =
     (if tb_y sz < tb_height sz / 2 then ''top''
      else if tb_y sz > tc_height chart - tb_height sz / 2 then ''bottom'' else ''center'')"

definition doesNotFitWithAlign :: "string \<Rightarrow> tip_chart \<Rightarrow> tip_options \<Rightarrow> tip_box \<Rightarrow> bool" where
  "doesNotFitWithAlign xAlign chart o' sz \<longleftrightarrow>
     (let caret = to_caretSize o' + to_caretPadding o'
      in xAlign = ''left'' \<and> tb_x sz + tb_width sz + caret > tc_width chart \<or>
         xAlign = ''right'' \<and> tb_x sz - tb_width sz - caret < 0)"

definition determineXAlign :: "tip_chart \<Rightarrow> tip_options \<Rightarrow> tip_box \<Rightarrow> string \<Rightarrow> string" where
  "determineXAlign chart o' sz yAlign =
     (let xAlign = (if yAlign = ''center'' then (if tb_x sz \<le> (tc_left chart + tc_right chart) / 2 then ''left'' else ''right'')
                    else if tb_x sz \<le> tb_width sz / 2 then ''left''
                    else if tb_x sz \<ge> tc_width chart - tb_width sz / 2 then ''right'' else ''center'')
      in if doesNotFitWithAlign xAlign chart o' sz then ''center'' else xAlign)"

definition determineAlignment :: "tip_chart \<Rightarrow> tip_options \<Rightarrow> tip_box \<Rightarrow> string \<times> string" where
  "determineAlignment chart o' sz =
     (let yAlign = or_computed (or_align (tb_yAlign sz) (to_yAlign o')) (determineYAlign chart sz)
      in (or_computed (or_align (tb_xAlign sz) (to_xAlign o')) (determineXAlign chart o' sz yAlign), yAlign))"

definition alignX :: "tip_box \<Rightarrow> string \<Rightarrow> rat" where
  "alignX sz xAlign =
     (if xAlign = ''right'' then tb_x sz - tb_width sz else if xAlign = ''center'' then tb_x sz - tb_width sz / 2 else tb_x sz)"

definition alignY :: "tip_box \<Rightarrow> string \<Rightarrow> rat \<Rightarrow> rat" where
  "alignY sz yAlign paddingAndSize =
     (if yAlign = ''top'' then tb_y sz + paddingAndSize
      else if yAlign = ''bottom'' then tb_y sz - (tb_height sz + paddingAndSize) else tb_y sz - tb_height sz / 2)"

definition corner :: "tip_options \<Rightarrow> string \<Rightarrow> rat" where
  "corner o' k = side_value (toTRBLCorners (to_cornerRadius o')) k"

definition getBackgroundPoint :: "tip_options \<Rightarrow> tip_box \<Rightarrow> string \<times> string \<Rightarrow> tip_chart \<Rightarrow> rat \<times> rat" where
  "getBackgroundPoint o' sz alignment chart =
     (case alignment of (xAlign, yAlign) \<Rightarrow>
        let paddingAndSize = to_caretSize o' + to_caretPadding o';
            x0 = alignX sz xAlign;
            y = alignY sz yAlign paddingAndSize;
            x = (if yAlign = ''center''
                 then (if xAlign = ''left'' then x0 + paddingAndSize else if xAlign = ''right'' then x0 - paddingAndSize else x0)
                 else if xAlign = ''left'' then x0 - (max (corner o' ''topLeft'') (corner o' ''bottomLeft'') + to_caretSize o')
                 else if xAlign = ''right'' then x0 + (max (corner o' ''topRight'') (corner o' ''bottomRight'') + to_caretSize o')
                 else x0)
        in (limitValue x 0 (tc_width chart - tb_width sz), limitValue y 0 (tc_height chart - tb_height sz)))"

text \<open>The caret: its two feet and, second, its tip.\<close>

definition getCaretPosition ::
    "tip_options \<Rightarrow> string \<times> string \<Rightarrow> rat \<Rightarrow> rat \<times> rat \<Rightarrow> rat \<times> rat \<Rightarrow> (rat \<times> rat) \<times> (rat \<times> rat) \<times> (rat \<times> rat)" where
  "getCaretPosition o' alignment caretX pt sz =
     (case (alignment, pt, sz) of ((xAlign, yAlign), (ptX, ptY), (width, height)) \<Rightarrow>
        let cs = to_caretSize o'
        in if yAlign = ''center''
           then (let y2 = ptY + height / 2
                 in if xAlign = ''left'' then ((ptX, y2 + cs), (ptX - cs, y2), (ptX, y2 - cs))
                    else ((ptX + width, y2 - cs), (ptX + width + cs, y2), (ptX + width, y2 + cs)))
           else (let x2 = (if xAlign = ''left'' then ptX + max (corner o' ''topLeft'') (corner o' ''bottomLeft'') + cs
                           else if xAlign = ''right'' then ptX + width - max (corner o' ''topRight'') (corner o' ''bottomRight'') - cs
                           else caretX)
                 in if yAlign = ''top'' then ((x2 - cs, ptY), (x2, ptY - cs), (x2 + cs, ptY))
                    else ((x2 + cs, ptY + height), (x2, ptY + height + cs), (x2 - cs, ptY + height))))"

definition getAlignedX :: "tip_box \<Rightarrow> string \<Rightarrow> tip_options \<Rightarrow> rat" where
  "getAlignedX tip align o' =
     (if align = ''center'' then tb_x tip + tb_width tip / 2
      else if align = ''right'' then tb_x tip + tb_width tip - pad o' ''right''
      else tb_x tip + pad o' ''left'')"

section \<open>The rows of the text\<close>

text \<open>A row of text: its font, its horizontal place, its line height, and the middle of the line.\<close>

record drawn_row =
  dr_font :: tip_font
  dr_text :: string
  dr_x :: rat
  dr_height :: rat
  dr_middle :: rat

fun fill_rows :: "tip_font \<Rightarrow> (rat \<Rightarrow> rat) \<Rightarrow> rat \<Rightarrow> (rat \<times> rat \<times> string) list \<Rightarrow> rat \<Rightarrow> drawn_row list \<times> rat" where
  "fill_rows f rx sp [] y = ([], y)"
| "fill_rows f rx sp ((lh, x, s) # rows) y =
     (let (ds, y1) = fill_rows f rx sp rows (y + lh + sp)
      in (\<lparr>dr_font = f, dr_text = s, dr_x = rx x, dr_height = lh, dr_middle = y + lh / 2\<rparr> # ds, y1))"

definition drawTitle :: "tip_box \<Rightarrow> tip_options \<Rightarrow> tip_text \<Rightarrow> rat \<Rightarrow> drawn_row list \<times> rat" where
  "drawTitle tip o' t y =
     (if tt_title t = [] then ([], y)
      else (let rtl = getRtlAdapter (to_rtl o') (tb_x tip) (tb_width tip);
                x = getAlignedX tip (to_titleAlign o') o';
                (ds, y1) = fill_rows TitleFont (adapter_x rtl) (to_titleSpacing o')
                             (map (\<lambda>s. (to_lineHeight o' TitleFont, x, s)) (tt_title t)) y
            in (ds, y1 + (to_titleMarginBottom o' - to_titleSpacing o'))))"

definition item_rows :: "tip_options \<Rightarrow> rat \<Rightarrow> body_item \<Rightarrow> (rat \<times> rat \<times> string) list" where
  "item_rows o' x b =
     (let lh = to_lineHeight o' BodyFont;
          row = (\<lambda>s. (lh, x, s));
          first = (if to_displayColors o' then max lh (to_boxHeight o') else lh)
      in map row (bi_before b) @ (case bi_lines b of [] \<Rightarrow> [] | l # ls \<Rightarrow> (first, x, l) # map row ls) @ map row (bi_after b))"

definition body_rows :: "tip_options \<Rightarrow> rat \<Rightarrow> rat \<Rightarrow> tip_text \<Rightarrow> (rat \<times> rat \<times> string) list" where
  "body_rows o' x xItem t =
     (let row = (\<lambda>s. (to_lineHeight o' BodyFont, x, s))
      in map row (tt_beforeBody t) @ concat (map (item_rows o' xItem) (tt_body t)) @ map row (tt_afterBody t))"

definition drawBody :: "tip_box \<Rightarrow> tip_options \<Rightarrow> tip_text \<Rightarrow> rat \<Rightarrow> drawn_row list \<times> rat" where
  "drawBody tip o' t y =
     (let rtl = getRtlAdapter (to_rtl o') (tb_x tip) (tb_width tip);
          align = adapter_textAlign rtl (to_bodyAlign o');
          x = getAlignedX tip align o';
          xLinePadding = (if to_displayColors o' \<and> align \<noteq> ''right''
                          then (if to_bodyAlign o' = ''center'' then to_boxWidth o' / 2 + to_boxPadding o'
                                else to_boxWidth o' + 2 + to_boxPadding o')
                          else 0);
          (ds, y1) = fill_rows BodyFont (adapter_x rtl) (to_bodySpacing o') (body_rows o' x (x + xLinePadding) t) y
      in (ds, y1 - to_bodySpacing o'))"

definition drawFooter :: "tip_box \<Rightarrow> tip_options \<Rightarrow> tip_text \<Rightarrow> rat \<Rightarrow> drawn_row list \<times> rat" where
  "drawFooter tip o' t y =
     (if tt_footer t = [] then ([], y)
      else (let rtl = getRtlAdapter (to_rtl o') (tb_x tip) (tb_width tip);
                x = getAlignedX tip (to_footerAlign o') o'
            in fill_rows FooterFont (adapter_x rtl) (to_footerSpacing o')
                 (map (\<lambda>s. (to_lineHeight o' FooterFont, x, s)) (tt_footer t)) (y + to_footerMarginTop o')))"

definition draw_rows :: "tip_box \<Rightarrow> tip_options \<Rightarrow> tip_text \<Rightarrow> drawn_row list" where
  "draw_rows tip o' t =
     (let (d1, y1) = drawTitle tip o' t (tb_y tip + pad o' ''top'');
          (d2, y2) = drawBody tip o' t y1;
          (d3, y3) = drawFooter tip o' t y2
      in d1 @ d2 @ d3)"


section \<open>The rows fit the size\<close>

lemma fill_rows_end: "snd (fill_rows f rx sp rows y) = y + sum_list (map fst rows) + of_nat (length rows) * sp"
  by (induction rows arbitrary: y) (auto simp: case_prod_beta algebra_simps)

definition row_top :: "drawn_row \<Rightarrow> rat" where
  "row_top d = dr_middle d - dr_height d / 2"

definition row_bottom :: "drawn_row \<Rightarrow> rat" where
  "row_bottom d = dr_middle d + dr_height d / 2"

text \<open>Rows one below the other that take exactly the place from \<open>lo\<close> to \<open>hi\<close>.\<close>

definition rows_span :: "rat \<Rightarrow> rat \<Rightarrow> drawn_row list \<Rightarrow> bool" where
  "rows_span lo hi ds \<longleftrightarrow>
     list_all (\<lambda>d. lo \<le> row_top d \<and> row_bottom d \<le> hi) ds \<and> sorted_wrt (\<lambda>d e. row_bottom d \<le> row_top e) ds \<and>
     (ds \<noteq> [] \<longrightarrow> row_top (hd ds) = lo \<and> row_bottom (last ds) = hi)"

lemma rows_span_Nil [simp]: "rows_span lo hi []"
  by (simp add: rows_span_def)

lemma rows_span_append:
  assumes "rows_span a b xs" "rows_span c d ys" "a \<le> c" "b \<le> c" "b \<le> d" "xs \<noteq> []" "ys \<noteq> []"
  shows "rows_span a d (xs @ ys)"
proof -
  have "row_bottom x \<le> row_top y" if "x \<in> set xs" "y \<in> set ys" for x y
    using assms(1,2,4) that by (fastforce simp: rows_span_def list_all_iff)
  moreover have "list_all (\<lambda>r. a \<le> row_top r \<and> row_bottom r \<le> d) xs" "list_all (\<lambda>r. a \<le> row_top r \<and> row_bottom r \<le> d) ys"
    using assms(1-5) by (fastforce simp: rows_span_def list_all_iff)+
  ultimately show ?thesis using assms(1,2,6,7) by (simp add: rows_span_def sorted_wrt_append)
qed

lemma fill_rows_texts: "map dr_text (fst (fill_rows f rx sp rows y)) = map (snd \<circ> snd) rows"
  by (induction rows arbitrary: y) (auto simp: case_prod_beta)

lemma fill_rows_Nil: "fst (fill_rows f rx sp rows y) = [] \<longleftrightarrow> rows = []"
  by (cases rows) (auto simp: case_prod_beta)

lemma fill_rows_span:
  assumes "0 \<le> sp" "list_all (\<lambda>r. 0 \<le> fst r) rows"
  shows "rows_span y (snd (fill_rows f rx sp rows y) - sp) (fst (fill_rows f rx sp rows y))"
  using assms
proof (induction rows arbitrary: y)
  case (Cons r rows)
  obtain lh x s where r: "r = (lh, x, s)" by (cases r)
  define d where "d = \<lparr>dr_font = f, dr_text = s, dr_x = rx x, dr_height = lh, dr_middle = y + lh / 2\<rparr>"
  define rest where "rest = fill_rows f rx sp rows (y + lh + sp)"
  have ih: "rows_span (y + lh + sp) (snd rest - sp) (fst rest)" using Cons by (simp add: rest_def)
  have e: "fill_rows f rx sp (r # rows) y = (d # fst rest, snd rest)" by (simp add: r d_def rest_def case_prod_beta)
  have "0 \<le> sum_list (map fst rows)" using Cons.prems(2) by (intro sum_list_nonneg) (auto simp: list_all_iff)
  then have up: "y + lh + sp \<le> snd rest" using Cons.prems(1) by (simp add: rest_def fill_rows_end)
  have d: "rows_span y (y + lh) [d]" by (simp add: rows_span_def row_top_def row_bottom_def d_def)
  have lh: "0 \<le> lh" using Cons.prems(2) by (simp add: r)
  show ?case
  proof (cases "rows = []")
    case True
    then show ?thesis using d unfolding e by (simp add: rest_def)
  next
    case False
    then have "fst rest \<noteq> []" by (simp add: rest_def fill_rows_Nil)
    from rows_span_append[OF d ih _ _ _ _ this] show ?thesis using lh up Cons.prems(1) unfolding e by simp
  qed
qed simp

lemma sum_const: "sum_list (map (\<lambda>_. (c :: rat)) xs) = of_nat (length xs) * c"
  by (induction xs) (simp_all add: algebra_simps)

lemma rows_const: "sum_list (map fst (map (\<lambda>s. (c :: rat, x, s)) xs)) = of_nat (length xs) * c"
  by (induction xs) (simp_all add: algebra_simps)

text \<open>An item without lines has no row for its color box.\<close>

definition boxed :: "tip_options \<Rightarrow> tip_text \<Rightarrow> bool" where
  "boxed o' t \<longleftrightarrow> list_all (\<lambda>b. bi_lines b \<noteq> []) (tt_body t) \<or> \<not> to_displayColors o' \<or> to_boxHeight o' \<le> to_lineHeight o' BodyFont"

lemma item_rows_sum:
  assumes "bi_lines b \<noteq> [] \<or> \<not> to_displayColors o' \<or> to_boxHeight o' \<le> to_lineHeight o' BodyFont"
  defines "lh \<equiv> to_lineHeight o' BodyFont"
  shows "sum_list (map fst (item_rows o' x b)) =
      (if to_displayColors o' then max (to_boxHeight o') lh else lh) +
      (of_nat (length (bi_before b) + length (bi_lines b) + length (bi_after b)) - 1) * lh"
    and "length (item_rows o' x b) = length (bi_before b) + length (bi_lines b) + length (bi_after b)"
  using assms by (cases "bi_lines b"; auto simp: item_rows_def Let_def rows_const comp_def sum_const max_def algebra_simps)+

lemma body_rows_sum:
  assumes "boxed o' t"
  defines "lh \<equiv> to_lineHeight o' BodyFont"
  shows "sum_list (map fst (body_rows o' x xi t)) =
      of_nat (length (tt_body t)) * (if to_displayColors o' then max (to_boxHeight o') lh else lh) +
      (of_nat (combinedBodyLength t) - of_nat (length (tt_body t))) * lh"
    and "length (body_rows o' x xi t) = combinedBodyLength t"
proof -
  define blh where "blh = (if to_displayColors o' then max (to_boxHeight o') lh else lh)"
  have items: "sum_list (map fst (concat (map (item_rows o' xi) bs))) =
      of_nat (length bs) * blh + (of_nat (sum_list (map (\<lambda>b. length (bi_before b) + length (bi_lines b) + length (bi_after b)) bs)) - of_nat (length bs)) * lh
      \<and> length (concat (map (item_rows o' xi) bs)) = sum_list (map (\<lambda>b. length (bi_before b) + length (bi_lines b) + length (bi_after b)) bs)"
    if "list_all (\<lambda>b. bi_lines b \<noteq> []) bs \<or> \<not> to_displayColors o' \<or> to_boxHeight o' \<le> to_lineHeight o' BodyFont" for bs
    using that
  proof (induction bs)
    case (Cons b bs)
    have b: "bi_lines b \<noteq> [] \<or> \<not> to_displayColors o' \<or> to_boxHeight o' \<le> to_lineHeight o' BodyFont" using Cons.prems by auto
    have it: "sum_list (map fst (item_rows o' xi b)) = blh + (of_nat (length (bi_before b) + length (bi_lines b) + length (bi_after b)) - 1) * lh"
      using item_rows_sum(1)[OF b] unfolding blh_def lh_def .
    have ih: "sum_list (map fst (concat (map (item_rows o' xi) bs))) =
      of_nat (length bs) * blh + (of_nat (sum_list (map (\<lambda>b. length (bi_before b) + length (bi_lines b) + length (bi_after b)) bs)) - of_nat (length bs)) * lh"
      "length (concat (map (item_rows o' xi) bs)) = sum_list (map (\<lambda>b. length (bi_before b) + length (bi_lines b) + length (bi_after b)) bs)"
      using Cons by auto
    show ?case
      unfolding list.map concat.simps map_append sum_list_append it ih length_append item_rows_sum(2)[OF b] sum_list.Cons
      by (simp add: algebra_simps)
  qed simp
  have bs: "list_all (\<lambda>b. bi_lines b \<noteq> []) (tt_body t) \<or> \<not> to_displayColors o' \<or> to_boxHeight o' \<le> to_lineHeight o' BodyFont"
    using assms by (simp add: boxed_def)
  show "length (body_rows o' x xi t) = combinedBodyLength t"
    using items[OF bs] by (simp add: body_rows_def Let_def combinedBodyLength_def)
  show "sum_list (map fst (body_rows o' x xi t)) =
      of_nat (length (tt_body t)) * (if to_displayColors o' then max (to_boxHeight o') lh else lh) +
      (of_nat (combinedBodyLength t) - of_nat (length (tt_body t))) * lh"
    using items[OF bs] unfolding blh_def[symmetric]
    by (simp add: body_rows_def Let_def combinedBodyLength_def rows_const comp_def sum_const lh_def[symmetric] algebra_simps)
qed


text \<open>Paddings that are numbers.\<close>

definition finite_padding :: "tip_options \<Rightarrow> bool" where
  "finite_padding o' \<longleftrightarrow>
     list_all (\<lambda>k. is_finite_num (side (toPadding (to_padding o')) k)) [''top'', ''right'', ''bottom'', ''left'']"

lemma pad_sums:
  assumes "finite_padding o'"
  shows "pad o' ''height'' = pad o' ''top'' + pad o' ''bottom''" "pad o' ''width'' = pad o' ''left'' + pad o' ''right''"
proof -
  have *: "side_value (toPadding v) c = side_value (toPadding v) a + side_value (toPadding v) b"
    if "side (toPadding v) c = num_add (side (toPadding v) a) (side (toPadding v) b)"
      "is_finite_num (side (toPadding v) a)" "is_finite_num (side (toPadding v) b)" for v a b c
    using that by (cases "side (toPadding v) a"; cases "side (toPadding v) b"; simp add: side_value_def)
  show "pad o' ''height'' = pad o' ''top'' + pad o' ''bottom''" "pad o' ''width'' = pad o' ''left'' + pad o' ''right''"
    unfolding pad_def using assms by (auto intro!: * simp: finite_padding_def toPadding_sides)
qed

lemma title_rows:
  assumes "0 \<le> to_titleSpacing o'" "0 \<le> to_lineHeight o' TitleFont"
  shows "snd (drawTitle tip o' t y) = y + title_height o' t"
    and "rows_span y (y + title_height o' t - to_titleMarginBottom o') (fst (drawTitle tip o' t y))"
    and "map dr_text (fst (drawTitle tip o' t y)) = tt_title t"
proof -
  show e: "snd (drawTitle tip o' t y) = y + title_height o' t"
    by (simp add: drawTitle_def title_height_def Let_def case_prod_beta fill_rows_end comp_def sum_const algebra_simps)
  show "map dr_text (fst (drawTitle tip o' t y)) = tt_title t"
    by (simp add: drawTitle_def Let_def case_prod_beta fill_rows_texts comp_def)
  show "rows_span y (y + title_height o' t - to_titleMarginBottom o') (fst (drawTitle tip o' t y))"
  proof (cases "tt_title t = []")
    case False
    define rows where "rows = map (\<lambda>s. (to_lineHeight o' TitleFont, getAlignedX tip (to_titleAlign o') o', s)) (tt_title t)"
    define rx where "rx = adapter_x (getRtlAdapter (to_rtl o') (tb_x tip) (tb_width tip))"
    have d: "drawTitle tip o' t y = (fst (fill_rows TitleFont rx (to_titleSpacing o') rows y),
        snd (fill_rows TitleFont rx (to_titleSpacing o') rows y) + (to_titleMarginBottom o' - to_titleSpacing o'))"
      using False by (simp add: drawTitle_def rows_def rx_def Let_def case_prod_beta)
    have "list_all (\<lambda>r. 0 \<le> fst r) rows" using assms(2) by (auto simp: rows_def list_all_iff)
    from fill_rows_span[OF assms(1) this, of y TitleFont rx]
    have "rows_span y (snd (drawTitle tip o' t y) - to_titleMarginBottom o') (fst (drawTitle tip o' t y))" unfolding d by simp
    then show ?thesis unfolding e .
  qed (simp add: drawTitle_def)
qed

text \<open>The lines of the body, in the order they are drawn.\<close>

definition body_texts :: "tip_text \<Rightarrow> string list" where
  "body_texts t = tt_beforeBody t @ concat (map (\<lambda>b. bi_before b @ bi_lines b @ bi_after b) (tt_body t)) @ tt_afterBody t"

lemma body_rows_texts: "map (snd \<circ> snd) (body_rows o' x xi t) = body_texts t"
proof -
  have "map (snd \<circ> snd) (item_rows o' xi b) = bi_before b @ bi_lines b @ bi_after b" for b
    by (cases "bi_lines b") (simp_all add: item_rows_def Let_def comp_def)
  then have "map (snd \<circ> snd) (concat (map (item_rows o' xi) bs)) = concat (map (\<lambda>b. bi_before b @ bi_lines b @ bi_after b) bs)" for bs
    by (induction bs) (simp_all del: map_map)
  then show ?thesis by (simp add: body_rows_def body_texts_def Let_def comp_def)
qed

lemma body_rows_fit:
  assumes "0 \<le> to_bodySpacing o'" "0 \<le> to_lineHeight o' BodyFont" "boxed o' t" "0 < combinedBodyLength t"
  shows "snd (drawBody tip o' t y) = y + body_height o' t"
    and "rows_span y (y + body_height o' t) (fst (drawBody tip o' t y))"
    and "0 \<le> body_height o' t" and "fst (drawBody tip o' t y) \<noteq> []"
    and "map dr_text (fst (drawBody tip o' t y)) = body_texts t"
proof -
  define rtl where "rtl = getRtlAdapter (to_rtl o') (tb_x tip) (tb_width tip)"
  define al where "al = adapter_textAlign rtl (to_bodyAlign o')"
  define x where "x = getAlignedX tip al o'"
  define xp where "xp = (if to_displayColors o' \<and> al \<noteq> ''right''
    then (if to_bodyAlign o' = ''center'' then to_boxWidth o' / 2 + to_boxPadding o' else to_boxWidth o' + 2 + to_boxPadding o') else 0)"
  define rows where "rows = body_rows o' x (x + xp) t"
  have d: "drawBody tip o' t y = (fst (fill_rows BodyFont (adapter_x rtl) (to_bodySpacing o') rows y),
      snd (fill_rows BodyFont (adapter_x rtl) (to_bodySpacing o') rows y) - to_bodySpacing o')"
    unfolding drawBody_def Let_def rtl_def[symmetric] al_def[symmetric] x_def[symmetric] xp_def[symmetric] rows_def by (simp add: case_prod_beta)
  show e: "snd (drawBody tip o' t y) = y + body_height o' t"
    unfolding d snd_conv fill_rows_end using body_rows_sum[OF assms(3), of x "x + xp"] assms(4)
    by (simp add: rows_def body_height_def Let_def algebra_simps)
  have "list_all (\<lambda>r. 0 \<le> fst r) (item_rows o' z b)" for z b
    using assms(2) by (auto simp: item_rows_def Let_def list_all_iff split: list.splits)
  then have nonneg: "list_all (\<lambda>r. 0 \<le> fst r) rows"
    using assms(2) by (auto simp: rows_def body_rows_def Let_def list_all_iff)
  have "0 \<le> sum_list (map fst rows)" using nonneg by (intro sum_list_nonneg) (auto simp: list_all_iff)
  moreover have "1 * to_bodySpacing o' \<le> of_nat (length rows) * to_bodySpacing o'"
    using body_rows_sum(2)[OF assms(3), of x "x + xp"] assms(1,4) by (intro mult_right_mono) (simp_all add: rows_def)
  ultimately show "0 \<le> body_height o' t" using e unfolding d snd_conv fill_rows_end by simp
  show "rows_span y (y + body_height o' t) (fst (drawBody tip o' t y))"
    using fill_rows_span[OF assms(1) nonneg, of y BodyFont "adapter_x rtl"] e unfolding d by simp
  show "fst (drawBody tip o' t y) \<noteq> []"
    using body_rows_sum(2)[OF assms(3), of x "x + xp"] assms(4) by (auto simp: d fill_rows_Nil rows_def)
  show "map dr_text (fst (drawBody tip o' t y)) = body_texts t"
    by (simp add: d fill_rows_texts rows_def body_rows_texts)
qed

lemma footer_rows:
  assumes "0 \<le> to_footerSpacing o'" "0 \<le> to_lineHeight o' FooterFont"
  shows "rows_span (y + to_footerMarginTop o') (y + footer_height o' t) (fst (drawFooter tip o' t y))"
    and "map dr_text (fst (drawFooter tip o' t y)) = tt_footer t"
proof -
  show "map dr_text (fst (drawFooter tip o' t y)) = tt_footer t"
    by (simp add: drawFooter_def Let_def fill_rows_texts comp_def)
  show "rows_span (y + to_footerMarginTop o') (y + footer_height o' t) (fst (drawFooter tip o' t y))"
  proof (cases "tt_footer t = []")
    case False
    define rows where "rows = map (\<lambda>s. (to_lineHeight o' FooterFont, getAlignedX tip (to_footerAlign o') o', s)) (tt_footer t)"
    define rx where "rx = adapter_x (getRtlAdapter (to_rtl o') (tb_x tip) (tb_width tip))"
    have d: "drawFooter tip o' t y = fill_rows FooterFont rx (to_footerSpacing o') rows (y + to_footerMarginTop o')"
      using False by (simp add: drawFooter_def rows_def rx_def Let_def)
    have "snd (fill_rows FooterFont rx (to_footerSpacing o') rows (y + to_footerMarginTop o')) - to_footerSpacing o' = y + footer_height o' t"
      using False by (simp add: fill_rows_end rows_def comp_def sum_const footer_height_def Let_def algebra_simps)
    moreover have "list_all (\<lambda>r. 0 \<le> fst r) rows" using assms(2) by (auto simp: rows_def list_all_iff)
    ultimately show ?thesis
      using fill_rows_span[OF assms(1), of rows "y + to_footerMarginTop o'" FooterFont rx] unfolding d by simp
  qed (simp add: drawFooter_def)
qed

lemma drawn_nothing: "fst (drawTitle tip o' t y) = [] \<longleftrightarrow> tt_title t = []" "fst (drawFooter tip o' t y) = [] \<longleftrightarrow> tt_footer t = []"
  by (simp_all add: drawTitle_def drawFooter_def Let_def case_prod_beta fill_rows_Nil)

text \<open>
  C39. The height a tooltip is given is exactly the height its text takes.  Every line of the title,
  the body and the footer is drawn, in order and one row below the other; the first row begins at the
  padding at the top of a box of the measured height and the last row ends at the padding at its bottom.
  This holds for any lines, fonts, spacings that are not negative and color boxes, when the body has a
  line and each of its items has a line, or the color boxes are no higher than one.
\<close>

theorem tooltip_rows_fit:
  assumes "tb_height tip = snd (getTooltipSize meas o' t)" and "finite_padding o'"
    and "0 \<le> to_titleSpacing o'" "0 \<le> to_titleMarginBottom o'" "0 \<le> to_lineHeight o' TitleFont"
    and "0 \<le> to_bodySpacing o'" "0 \<le> to_lineHeight o' BodyFont"
    and "0 \<le> to_footerSpacing o'" "0 \<le> to_footerMarginTop o'" "0 \<le> to_lineHeight o' FooterFont"
    and "0 < combinedBodyLength t" and "boxed o' t"
  shows "map dr_text (draw_rows tip o' t) = tt_title t @ body_texts t @ tt_footer t \<and>
    rows_span (tb_y tip + pad o' ''top'') (tb_y tip + tb_height tip - pad o' ''bottom'') (draw_rows tip o' t)"
proof -
  define y0 where "y0 = tb_y tip + pad o' ''top''"
  define y1 where "y1 = y0 + title_height o' t"
  define y2 where "y2 = y1 + body_height o' t"
  note T = title_rows[OF assms(3,5), where tip = tip and t = t and y = y0]
    and B = body_rows_fit(1,2,4,5)[OF assms(6,7,12,11), where tip = tip and y = y1]
    and B0 = body_rows_fit(3)[OF assms(6,7,12,11)]
    and F = footer_rows[OF assms(8,10), where tip = tip and t = t and y = y2]
  have bottom: "tb_y tip + tb_height tip - pad o' ''bottom'' = y2 + footer_height o' t"
    using pad_sums[OF assms(2)] by (simp add: assms(1) getTooltipSize_def Let_def y0_def y1_def y2_def)
  have th: "y0 \<le> y1" "y0 + title_height o' t - to_titleMarginBottom o' \<le> y1"
    using assms(3-5) by (cases "tt_title t"; simp add: title_height_def Let_def y1_def)+
  have fh: "y2 + to_footerMarginTop o' \<le> y2 + footer_height o' t" if "tt_footer t \<noteq> []"
    using that assms(8-10) by (cases "tt_footer t"; simp add: footer_height_def Let_def)
  define ts bs fs where "ts = fst (drawTitle tip o' t y0)" and "bs = fst (drawBody tip o' t y1)" and "fs = fst (drawFooter tip o' t y2)"
  have rows: "draw_rows tip o' t = ts @ bs @ fs"
    unfolding draw_rows_def Let_def case_prod_beta y0_def[symmetric] T(1) y1_def[symmetric] B(1) y2_def[symmetric] ts_def bs_def fs_def ..
  have "rows_span y1 (y2 + footer_height o' t) (bs @ fs)"
  proof (cases "tt_footer t = []")
    case True
    then show ?thesis using B(2) by (simp add: fs_def bs_def y2_def drawFooter_def footer_height_def)
  next
    case False
    have ne: "bs \<noteq> []" "fs \<noteq> []" using False B(3) by (simp_all add: bs_def fs_def drawn_nothing)
    show ?thesis
      by (rule rows_span_append[OF B(2)[folded bs_def y2_def] F(1)[folded fs_def] _ _ _ ne])
        (use fh[OF False] B0 assms(9) in \<open>simp_all add: y2_def\<close>)
  qed
  note rest = this
  have "rows_span y0 (y2 + footer_height o' t) (ts @ bs @ fs)"
  proof (cases "tt_title t = []")
    case True
    then show ?thesis using rest by (simp add: ts_def y1_def drawTitle_def title_height_def)
  next
    case False
    have ne: "ts \<noteq> []" "bs @ fs \<noteq> []" using False B(3) by (simp_all add: ts_def bs_def drawn_nothing)
    have "y1 \<le> y2 + footer_height o' t"
      using B0 fh assms(9) by (cases "tt_footer t = []") (auto simp: y2_def footer_height_def)
    then show ?thesis
      by (intro rows_span_append[OF T(2)[folded ts_def] rest _ _ _ ne]) (use th in simp_all)
  qed
  moreover have "map dr_text (ts @ bs @ fs) = tt_title t @ body_texts t @ tt_footer t"
    using T(3) B(4) F(2) by (simp add: ts_def bs_def fs_def)
  ultimately show ?thesis unfolding rows bottom y0_def[symmetric] by blast
qed


definition tip_example :: "tip_options" where
  "tip_example = \<lparr>to_padding = VNum (Fin 6), to_lineHeight = (\<lambda>_. 14), to_titleSpacing = 2, to_titleMarginBottom = 6, to_bodySpacing = 2,
     to_footerSpacing = 2, to_footerMarginTop = 6, to_displayColors = True, to_boxWidth = 12, to_boxHeight = 20, to_boxPadding = 0,
     to_caretSize = 5, to_caretPadding = 2, to_cornerRadius = VNum (Fin 6), to_titleAlign = ''left'', to_bodyAlign = ''left'',
     to_footerAlign = ''left'', to_xAlign = None, to_yAlign = None, to_rtl = False\<rparr>"

theorem tooltip_rows_fit_witness:
  "let t = \<lparr>tt_title = [''T''], tt_beforeBody = [], tt_body = [\<lparr>bi_before = [], bi_lines = [''a'', ''b''], bi_after = [''c'']\<rparr>], tt_afterBody = [], tt_footer = [''f'']\<rparr>
   in map dr_text (draw_rows \<lparr>tb_x = 0, tb_y = 10, tb_width = 50, tb_height = 104, tb_xAlign = None, tb_yAlign = None\<rparr> tip_example t) = [''T'', ''a'', ''b'', ''c'', ''f''] \<and>
      rows_span 16 108 (draw_rows \<lparr>tb_x = 0, tb_y = 10, tb_width = 50, tb_height = 104, tb_xAlign = None, tb_yAlign = None\<rparr> tip_example t)"
proof -
  define t where "t = \<lparr>tt_title = [''T''], tt_beforeBody = [], tt_body = [\<lparr>bi_before = [], bi_lines = [''a'', ''b''], bi_after = [''c'']\<rparr>], tt_afterBody = [], tt_footer = [''f'']\<rparr>"
  have p: "pad tip_example ''top'' = 6" "pad tip_example ''bottom'' = 6" "finite_padding tip_example" by code_simp+
  have h: "snd (getTooltipSize (\<lambda>_ _. 0) tip_example t) = 104" unfolding t_def by code_simp
  have c: "0 < combinedBodyLength t" "boxed tip_example t" unfolding t_def by code_simp+
  show ?thesis
    using tooltip_rows_fit[of "\<lparr>tb_x = 0, tb_y = 10, tb_width = 50, tb_height = 104, tb_xAlign = None, tb_yAlign = None\<rparr>" "\<lambda>_ _. 0" tip_example t] p h c
    unfolding Let_def t_def[symmetric] by (simp add: tip_example_def) (simp add: t_def body_texts_def)
qed

text \<open>Without a line in the body the footer starts one body spacing too high.\<close>

lemma empty_body_shift:
  "tt_body t = [] \<Longrightarrow> tt_beforeBody t = [] \<Longrightarrow> tt_afterBody t = [] \<Longrightarrow>
    body_height o' t = 0 \<and> snd (drawBody tip o' t y) = y - to_bodySpacing o'"
  by (simp add: drawBody_def body_rows_def body_height_def combinedBodyLength_def Let_def)

section \<open>The place\<close>

text \<open>
  C40. A tooltip that is not greater than the chart lies inside it, whatever it points to and however
  it is aligned, by itself, by the options or by a positioner, and automatic alignment never chooses left or right where the box would stick out.
\<close>

theorem tooltip_inside_chart:
  assumes "tb_width sz \<le> tc_width chart" "tb_height sz \<le> tc_height chart"
    and "alignment = determineAlignment chart o' sz" and "getBackgroundPoint o' sz alignment chart = (x, y)"
  shows "0 \<le> x \<and> x + tb_width sz \<le> tc_width chart \<and> 0 \<le> y \<and> y + tb_height sz \<le> tc_height chart \<and>
    (or_align (tb_xAlign sz) (to_xAlign o') = None \<and> fst alignment = ''left'' \<longrightarrow> tb_x sz + tb_width sz + to_caretSize o' + to_caretPadding o' \<le> tc_width chart) \<and>
    (or_align (tb_xAlign sz) (to_xAlign o') = None \<and> fst alignment = ''right'' \<longrightarrow> 0 \<le> tb_x sz - tb_width sz - to_caretSize o' - to_caretPadding o')"
proof -
  have *: "0 \<le> limitValue v 0 m \<and> limitValue v 0 m \<le> m" if "0 \<le> m" for v m using that limitValue_range by blast
  obtain v w where xy: "x = limitValue v 0 (tc_width chart - tb_width sz)" "y = limitValue w 0 (tc_height chart - tb_height sz)"
    using assms(4) by (auto simp: getBackgroundPoint_def Let_def split: prod.splits)
  have "or_align (tb_xAlign sz) (to_xAlign o') = None \<Longrightarrow> \<not> doesNotFitWithAlign (fst alignment) chart o' sz"
  proof -
    assume n: "or_align (tb_xAlign sz) (to_xAlign o') = None"
    obtain ya where "fst alignment = determineXAlign chart o' sz ya"
      using assms(3) n by (simp add: determineAlignment_def or_computed_def Let_def)
    moreover have "\<not> doesNotFitWithAlign (determineXAlign chart o' sz ya) chart o' sz" for ya
      unfolding determineXAlign_def Let_def by (simp add: doesNotFitWithAlign_def)
    ultimately show ?thesis by simp
  qed
  then show ?thesis
    using *[of "tc_width chart - tb_width sz" v] *[of "tc_height chart - tb_height sz" w] assms(1,2) xy
    by (auto simp: doesNotFitWithAlign_def Let_def)
qed

theorem tooltip_inside_chart_witness:
  "let chart = \<lparr>tc_width = 300, tc_height = 150, tc_left = 20, tc_right = 290\<rparr>;
       sz = \<lparr>tb_x = 290, tb_y = 3, tb_width = 80, tb_height = 40, tb_xAlign = None, tb_yAlign = None\<rparr>;
       (x, y) = getBackgroundPoint tip_example sz (''right'', ''top'') chart
   in 0 \<le> x \<and> x + 80 \<le> 300 \<and> 0 \<le> y \<and> y + 40 \<le> 150 \<and> 0 \<le> (290 :: rat) - 80 - 5 - 2"
proof -
  define chart where "chart = \<lparr>tc_width = 300, tc_height = 150, tc_left = 20, tc_right = 290\<rparr>"
  define sz where "sz = \<lparr>tb_x = 290, tb_y = 3, tb_width = 80, tb_height = 40, tb_xAlign = None, tb_yAlign = None\<rparr>"
  have a: "(''right'', ''top'') = determineAlignment chart tip_example sz"
    unfolding chart_def sz_def by code_simp
  obtain x y where xy: "getBackgroundPoint tip_example sz (''right'', ''top'') chart = (x, y)" by (cases "getBackgroundPoint tip_example sz (''right'', ''top'') chart")
  show ?thesis
    using tooltip_inside_chart[OF _ _ a xy] unfolding Let_def chart_def[symmetric] sz_def[symmetric] xy
    by (simp add: chart_def sz_def tip_example_def or_align_def)
qed

section \<open>Events\<close>

record tip_state =
  ts_active :: "active_item list"
  ts_ignoreReplay :: bool
  ts_event :: "rat \<times> rat"
  ts_caret :: "(rat \<times> rat) option"
  ts_updates :: nat

text \<open>
  The positioner of the options is a parameter; \<open>update\<close> moves the caret to it at once, as it does
  without animation.
\<close>

definition positionChanged :: "(active_item list \<Rightarrow> rat \<times> rat \<Rightarrow> tip_position) \<Rightarrow> tip_state \<Rightarrow> active_item list \<Rightarrow> rat \<times> rat \<Rightarrow> bool" where
  "positionChanged position st active e =
     (case position active e of NoPosition \<Rightarrow> False | NotANumber \<Rightarrow> True | PositionAt x y \<Rightarrow> ts_caret st \<noteq> Some (x, y))"

definition tip_update :: "(active_item list \<Rightarrow> rat \<times> rat \<Rightarrow> tip_position) \<Rightarrow> tip_state \<Rightarrow> tip_state" where
  "tip_update position st =
     st\<lparr>ts_updates := ts_updates st + 1,
        ts_caret := (if ts_active st = [] then ts_caret st
                     else case position (ts_active st) (ts_event st) of PositionAt x y \<Rightarrow> Some (x, y) | _ \<Rightarrow> None)\<rparr>"

definition tip_getActiveElements :: "bool \<Rightarrow> bool \<Rightarrow> bool \<Rightarrow> active_item list \<Rightarrow> active_item list \<Rightarrow> active_item list" where
  "tip_getActiveElements mouseout inChartArea reverse found lastActive =
     (if mouseout then [] else if \<not> inChartArea then lastActive else if reverse then rev found else found)"

definition tip_setActiveElements ::
    "(active_item list \<Rightarrow> rat \<times> rat \<Rightarrow> tip_position) \<Rightarrow> tip_state \<Rightarrow> active_item list \<Rightarrow> rat \<times> rat \<Rightarrow> tip_state" where
  "tip_setActiveElements position st active e =
     (if \<not> elementsEqual (ts_active st) active \<or> positionChanged position st active e
      then tip_update position (st\<lparr>ts_active := active, ts_event := e, ts_ignoreReplay := True\<rparr>) else st)"

text \<open>\<open>active\<close> is what \<open>_getActiveElements\<close> returns for the event.\<close>

definition tip_handleEvent ::
    "(active_item list \<Rightarrow> rat \<times> rat \<Rightarrow> tip_position) \<Rightarrow> bool \<Rightarrow> tip_state \<Rightarrow> active_item list \<Rightarrow> rat \<times> rat \<Rightarrow> bool \<Rightarrow> bool \<times> tip_state" where
  "tip_handleEvent position enabled st active e replay =
     (if replay \<and> ts_ignoreReplay st then (False, st)
      else (let st1 = st\<lparr>ts_ignoreReplay := False\<rparr>;
                changed = (replay \<or> \<not> elementsEqual active (ts_active st) \<or> positionChanged position st active e)
            in if \<not> changed then (False, st1)
               else (let st2 = st1\<lparr>ts_active := active\<rparr>
                     in (True, if enabled then tip_update position (st2\<lparr>ts_event := e\<rparr>) else st2))))"

lemma elementsEqual_refl: "elementsEqual xs xs"
proof -
  have "elementsEqual_loop xs xs" by (induction xs) simp_all
  then show ?thesis by (simp add: elementsEqual_def)
qed

text \<open>An event settles: seen a second time it changes nothing, unless the positioner gives no number.\<close>

lemma event_settles:
  assumes "position active e \<noteq> NotANumber" "active = [] \<Longrightarrow> position active e = NoPosition"
    and "tip_handleEvent position True st active e False = (b, st')"
  shows "tip_handleEvent position True st' active e False = (False, st')"
proof (cases "b")
  case True
  then have st': "st' = tip_update position (st\<lparr>ts_ignoreReplay := False, ts_active := active, ts_event := e\<rparr>)"
    using assms(3) by (auto simp: tip_handleEvent_def Let_def split: if_splits)
  have "\<not> positionChanged position st' active e"
    using assms(1,2) unfolding positionChanged_def st' tip_update_def by (cases "position active e"; auto)
  then show ?thesis by (simp add: tip_handleEvent_def Let_def st' tip_update_def elementsEqual_refl)
next
  case False
  then have "st' = st\<lparr>ts_ignoreReplay := False\<rparr>" "elementsEqual active (ts_active st)" "\<not> positionChanged position st active e"
    using assms(3) by (auto simp: tip_handleEvent_def Let_def split: if_splits)
  then show ?thesis by (cases "position active e") (simp_all add: tip_handleEvent_def Let_def positionChanged_def)
qed

text \<open>After elements were set by hand a replayed event is ignored.\<close>

lemma replay_ignored:
  "\<not> elementsEqual (ts_active st) active \<Longrightarrow>
    tip_handleEvent position en (tip_setActiveElements position st active e) active' e' True =
      (False, tip_setActiveElements position st active e)"
  by (simp add: tip_setActiveElements_def tip_handleEvent_def tip_update_def)

text \<open>The average of elements without a value is no number, and then every event counts as a change.\<close>

lemma average_not_a_number:
  "position_average [Some \<lparr>te_hasValue = False, te_position = (0, 0), te_center = (0, 0)\<rparr>] = NotANumber"
  by (simp add: position_average_def valued_def)

lemma average_between:
  assumes "position_average items = PositionAt x y" "\<And>el. el \<in> set (valued items) \<Longrightarrow> a \<le> fst (te_position el) \<and> fst (te_position el) \<le> b"
  shows "a \<le> x \<and> x \<le> b"
proof -
  define es where "es = valued items"
  have ne: "es \<noteq> []" and x: "x = sum_list (map (fst \<circ> te_position) es) / of_nat (length es)"
    using assms(1) by (auto simp: position_average_def Let_def es_def split: if_splits)
  have n: "(0 :: rat) < of_nat (length es)" using ne by simp
  have "of_nat (length es) * a \<le> sum_list (map (fst \<circ> te_position) es) \<and> sum_list (map (fst \<circ> te_position) es) \<le> of_nat (length es) * b"
    if "\<forall>el \<in> set es. a \<le> fst (te_position el) \<and> fst (te_position el) \<le> b" for es
    using that
  proof (induction es)
    case (Cons e es)
    have "a \<le> fst (te_position e) \<and> fst (te_position e) \<le> b" using Cons.prems by simp
    moreover have "of_nat (length es) * a \<le> sum_list (map (fst \<circ> te_position) es) \<and> sum_list (map (fst \<circ> te_position) es) \<le> of_nat (length es) * b"
      using Cons.IH Cons.prems by (simp add: comp_def)
    ultimately show ?case by (simp add: algebra_simps comp_def)
  qed simp
  from this[of es] assms(2) have "of_nat (length es) * a \<le> x * of_nat (length es) \<and> x * of_nat (length es) \<le> of_nat (length es) * b"
    using n by (simp add: x es_def[symmetric] comp_def)
  then show ?thesis using n by (simp add: mult.commute)
qed

end
