(* ===== verification/ChartCurves.thy ===== *)
theory ChartCurves
  imports Complex_Main
begin

section \<open>Chart.js 3.9.1: the curve of a line\<close>

text \<open>
  The control points of a curved line (\<open>chart_3.9.js\<close>, 2081-2234): the cardinal spline, the
  monotone cubic spline with its adjustment of the slopes, and the restriction of the control
  points to the chart area.  Numbers are reals, without rounding.  The entries of \<open>mK\<close> that the
  source leaves undefined, of points that are skipped, are 0 here; no operation reads them.
\<close>

record curve_point =
  cu_x :: real
  cu_y :: real
  cu_skip :: bool
  cu_cp1x :: real
  cu_cp1y :: real
  cu_cp2x :: real
  cu_cp2y :: real

datatype index_axis = IndexX | IndexY

fun getValueAxis :: "index_axis \<Rightarrow> index_axis" where
  "getValueAxis IndexX = IndexY"
| "getValueAxis IndexY = IndexX"

text \<open>\<open>point[axis]\<close>, \<open>point['cp1' + axis]\<close> and \<open>point['cp2' + axis]\<close>.\<close>

fun on_axis :: "index_axis \<Rightarrow> curve_point \<Rightarrow> real" where
  "on_axis IndexX p = cu_x p"
| "on_axis IndexY p = cu_y p"

fun cp1_on :: "index_axis \<Rightarrow> curve_point \<Rightarrow> real" where
  "cp1_on IndexX p = cu_cp1x p"
| "cp1_on IndexY p = cu_cp1y p"

fun cp2_on :: "index_axis \<Rightarrow> curve_point \<Rightarrow> real" where
  "cp2_on IndexX p = cu_cp2x p"
| "cp2_on IndexY p = cu_cp2y p"

fun set_cp1 :: "index_axis \<Rightarrow> real \<Rightarrow> curve_point \<Rightarrow> curve_point" where
  "set_cp1 IndexX v p = p\<lparr>cu_cp1x := v\<rparr>"
| "set_cp1 IndexY v p = p\<lparr>cu_cp1y := v\<rparr>"

fun set_cp2 :: "index_axis \<Rightarrow> real \<Rightarrow> curve_point \<Rightarrow> curve_point" where
  "set_cp2 IndexX v p = p\<lparr>cu_cp2x := v\<rparr>"
| "set_cp2 IndexY v p = p\<lparr>cu_cp2y := v\<rparr>"

definition curve_eps :: real where
  "curve_eps = 1 / 2 ^ 52"

definition getPoint :: "curve_point list \<Rightarrow> nat \<Rightarrow> curve_point option" where
  "getPoint points i = (if i < length points \<and> \<not> cu_skip (points ! i) then Some (points ! i) else None)"

definition curve_distance :: "curve_point \<Rightarrow> curve_point \<Rightarrow> real" where
  "curve_distance p q = sqrt ((cu_x q - cu_x p) ^ 2 + (cu_y q - cu_y p) ^ 2)"

section \<open>The cardinal spline\<close>

text \<open>The two control points; a quotient of zero by zero is not a number and becomes 0, as here.\<close>

definition splineCurve :: "curve_point \<Rightarrow> curve_point \<Rightarrow> curve_point \<Rightarrow> real \<Rightarrow> (real \<times> real) \<times> (real \<times> real)" where
  "splineCurve firstPoint middlePoint afterPoint t =
     (let previous = (if cu_skip firstPoint then middlePoint else firstPoint);
          current = middlePoint;
          next = (if cu_skip afterPoint then middlePoint else afterPoint);
          d01 = curve_distance current previous;
          d12 = curve_distance next current;
          s01 = (if d01 + d12 = 0 then 0 else d01 / (d01 + d12));
          s12 = (if d01 + d12 = 0 then 0 else d12 / (d01 + d12));
          fa = t * s01;
          fb = t * s12
      in ((cu_x current - fa * (cu_x next - cu_x previous), cu_y current - fa * (cu_y next - cu_y previous)),
          (cu_x current + fb * (cu_x next - cu_x previous), cu_y current + fb * (cu_y next - cu_y previous))))"

section \<open>The monotone spline\<close>

text \<open>The loop of \<open>splineCurveMonotone\<close> writes the entry of each point that is not skipped.\<close>

definition delta_at :: "index_axis \<Rightarrow> curve_point list \<Rightarrow> nat \<Rightarrow> real" where
  "delta_at axis points i =
     (case (getPoint points i, getPoint points (i + 1)) of
        (Some current, Some after) \<Rightarrow>
          (let slopeDelta = on_axis axis after - on_axis axis current
           in if slopeDelta \<noteq> 0 then (on_axis (getValueAxis axis) after - on_axis (getValueAxis axis) current) / slopeDelta else 0)
      | _ \<Rightarrow> 0)"

definition deltaK_of :: "index_axis \<Rightarrow> curve_point list \<Rightarrow> real list" where
  "deltaK_of axis points = map (delta_at axis points) [0..<length points]"

definition slope_at :: "curve_point list \<Rightarrow> real list \<Rightarrow> nat \<Rightarrow> real" where
  "slope_at points deltaK i =
     (if getPoint points i = None then 0
      else if i = 0 \<or> getPoint points (i - 1) = None then deltaK ! i
      else if getPoint points (i + 1) = None then deltaK ! (i - 1)
      else if sgn (deltaK ! (i - 1)) \<noteq> sgn (deltaK ! i) then 0
      else (deltaK ! (i - 1) + deltaK ! i) / 2)"

definition mK_of :: "curve_point list \<Rightarrow> real list \<Rightarrow> real list" where
  "mK_of points deltaK = map (slope_at points deltaK) [0..<length points]"

definition adjust_step :: "curve_point list \<Rightarrow> real list \<Rightarrow> real list \<Rightarrow> nat \<Rightarrow> real list" where
  "adjust_step points deltaK mK i =
     (if getPoint points i = None \<or> getPoint points (i + 1) = None then mK
      else if \<bar>deltaK ! i - 0\<bar> < curve_eps then mK[i := 0, i + 1 := 0]
      else (let alphaK = mK ! i / deltaK ! i;
                betaK = mK ! (i + 1) / deltaK ! i;
                squaredMagnitude = alphaK ^ 2 + betaK ^ 2
            in if squaredMagnitude \<le> 9 then mK
               else (let tauK = 3 / sqrt squaredMagnitude
                     in mK[i := alphaK * tauK * deltaK ! i, i + 1 := betaK * tauK * deltaK ! i])))"

definition monotoneAdjust :: "curve_point list \<Rightarrow> real list \<Rightarrow> real list \<Rightarrow> real list" where
  "monotoneAdjust points deltaK mK = foldl (adjust_step points deltaK) mK [0..<length points - 1]"

definition compute_point :: "curve_point list \<Rightarrow> real list \<Rightarrow> index_axis \<Rightarrow> nat \<Rightarrow> curve_point" where
  "compute_point points mK axis i =
     (let valueAxis = getValueAxis axis; current = points ! i;
          iPixel = on_axis axis current; vPixel = on_axis valueAxis current
      in if cu_skip current then current
         else
           (let p1 = (case (if i = 0 then None else getPoint points (i - 1)) of
                        None \<Rightarrow> current
                      | Some before \<Rightarrow>
                          (let delta = (iPixel - on_axis axis before) / 3
                           in set_cp1 valueAxis (vPixel - delta * mK ! i) (set_cp1 axis (iPixel - delta) current)))
            in case getPoint points (i + 1) of
                 None \<Rightarrow> p1
               | Some after \<Rightarrow>
                   (let delta = (on_axis axis after - iPixel) / 3
                    in set_cp2 valueAxis (vPixel + delta * mK ! i) (set_cp2 axis (iPixel + delta) p1))))"

definition monotoneCompute :: "curve_point list \<Rightarrow> real list \<Rightarrow> index_axis \<Rightarrow> curve_point list" where
  "monotoneCompute points mK axis = map (compute_point points mK axis) [0..<length points]"

definition splineCurveMonotone :: "curve_point list \<Rightarrow> index_axis \<Rightarrow> curve_point list" where
  "splineCurveMonotone points axis =
     (let deltaK = deltaK_of axis points
      in monotoneCompute points (monotoneAdjust points deltaK (mK_of points deltaK)) axis)"

section \<open>The chart area\<close>

record curve_area =
  ca_left :: real
  ca_right :: real
  ca_top :: real
  ca_bottom :: real

definition curve_in_area :: "curve_point \<Rightarrow> curve_area \<Rightarrow> bool" where
  "curve_in_area p area \<longleftrightarrow>
     cu_x p > ca_left area - 1 / 2 \<and> cu_x p < ca_right area + 1 / 2 \<and>
     cu_y p > ca_top area - 1 / 2 \<and> cu_y p < ca_bottom area + 1 / 2"

definition capControlPoint :: "real \<Rightarrow> real \<Rightarrow> real \<Rightarrow> real" where
  "capControlPoint pt lo hi = max (min pt hi) lo"

definition cap_point :: "curve_point list \<Rightarrow> curve_area \<Rightarrow> nat \<Rightarrow> curve_point" where
  "cap_point points area i =
     (let inArea = curve_in_area (points ! i) area;
          inAreaPrev = (i > 0 \<and> curve_in_area (points ! (i - 1)) area);
          inAreaNext = (i + 1 < length points \<and> curve_in_area (points ! (i + 1)) area);
          point = points ! i;
          p1 = (if inAreaPrev
                then point\<lparr>cu_cp1x := capControlPoint (cu_cp1x point) (ca_left area) (ca_right area),
                           cu_cp1y := capControlPoint (cu_cp1y point) (ca_top area) (ca_bottom area)\<rparr>
                else point)
      in if \<not> inArea then point
         else if inAreaNext
         then p1\<lparr>cu_cp2x := capControlPoint (cu_cp2x p1) (ca_left area) (ca_right area),
                 cu_cp2y := capControlPoint (cu_cp2y p1) (ca_top area) (ca_bottom area)\<rparr>
         else p1)"

definition capBezierPoints :: "curve_point list \<Rightarrow> curve_area \<Rightarrow> curve_point list" where
  "capBezierPoints points area = map (cap_point points area) [0..<length points]"

section \<open>All control points of a line\<close>

record curve_options =
  co_spanGaps :: bool
  co_monotone :: bool
  co_tension :: real
  co_cap :: bool

definition spline_point :: "curve_point list \<Rightarrow> bool \<Rightarrow> real \<Rightarrow> nat \<Rightarrow> curve_point" where
  "spline_point points loop tension i =
     (let n = length points;
          prev = (if i = 0 then (if loop then points ! (n - 1) else points ! 0) else points ! (i - 1));
          after = points ! (min (i + 1) (n - (if loop then 0 else 1)) mod n);
          (p, q) = splineCurve prev (points ! i) after tension
      in (points ! i)\<lparr>cu_cp1x := fst p, cu_cp1y := snd p, cu_cp2x := fst q, cu_cp2y := snd q\<rparr>)"

text \<open>The points written are those handed in, without the skipped ones when gaps are spanned.\<close>

definition updateBezierControlPoints :: "curve_point list \<Rightarrow> curve_options \<Rightarrow> curve_area \<Rightarrow> bool \<Rightarrow> index_axis \<Rightarrow> curve_point list" where
  "updateBezierControlPoints points options area loop axis =
     (let ps = (if co_spanGaps options then filter (\<lambda>p. \<not> cu_skip p) points else points);
          curved = (if co_monotone options then splineCurveMonotone ps axis
                    else map (spline_point ps loop (co_tension options)) [0..<length ps])
      in if co_cap options then capBezierPoints curved area else curved)"


section \<open>The monotone spline does not overshoot\<close>

text \<open>The slopes only shrink, entry by entry.\<close>

definition shrunk :: "real list \<Rightarrow> real list \<Rightarrow> bool" where
  "shrunk xs ys \<longleftrightarrow> length ys = length xs \<and> (\<forall>j < length xs. \<exists>c. 0 \<le> c \<and> c \<le> 1 \<and> ys ! j = c * xs ! j)"

lemma shrunk_refl: "shrunk xs xs"
  unfolding shrunk_def by (intro conjI allI impI exI[of _ 1]) simp_all

lemma shrunk_trans:
  assumes "shrunk xs ys" "shrunk ys zs"
  shows "shrunk xs zs"
  unfolding shrunk_def
proof (intro conjI allI impI)
  show "length zs = length xs" using assms by (simp add: shrunk_def)
  fix j assume j: "j < length xs"
  obtain c where c: "0 \<le> c" "c \<le> 1" "ys ! j = c * xs ! j" using assms(1) j unfolding shrunk_def by blast
  obtain d where d: "0 \<le> d" "d \<le> 1" "zs ! j = d * ys ! j" using assms j unfolding shrunk_def by metis
  have "0 \<le> d * c" "d * c \<le> 1" "zs ! j = d * c * xs ! j" using c d by (simp_all add: mult_le_one)
  then show "\<exists>c. 0 \<le> c \<and> c \<le> 1 \<and> zs ! j = c * xs ! j" by blast
qed

lemma shrunk_two:
  assumes "0 \<le> c" "c \<le> 1" "i + 1 < length xs"
  shows "shrunk xs (xs[i := c * xs ! i, i + 1 := c * xs ! (i + 1)])"
  unfolding shrunk_def
proof (intro conjI allI impI)
  fix j assume "j < length xs"
  show "\<exists>d. 0 \<le> d \<and> d \<le> 1 \<and> xs[i := c * xs ! i, i + 1 := c * xs ! (i + 1)] ! j = d * xs ! j"
  proof (cases "j = i \<or> j = i + 1")
    case True
    then show ?thesis using assms by (intro exI[of _ c]) (auto simp: nth_list_update)
  qed (intro exI[of _ 1], auto)
qed simp

text \<open>A slope that fits a difference: of its sign, and at most three times as steep.\<close>

definition fits :: "real \<Rightarrow> real \<Rightarrow> bool" where
  "fits d m \<longleftrightarrow> (\<exists>a. 0 \<le> a \<and> a \<le> 3 \<and> m = a * d)"

lemma fits_shrunk:
  assumes "fits d m" "0 \<le> c" "c \<le> 1"
  shows "fits d (c * m)"
proof -
  obtain a where a: "0 \<le> a" "a \<le> 3" "m = a * d" using assms(1) by (auto simp: fits_def)
  have "c * a \<le> 1 * 3" using a assms by (intro mult_mono) auto
  then show ?thesis unfolding fits_def using a assms by (intro exI[of _ "c * a"]) simp
qed

lemma fits_shrunk_nth: "shrunk xs ys \<Longrightarrow> j < length xs \<Longrightarrow> fits d (xs ! j) \<Longrightarrow> fits d (ys ! j)"
  unfolding shrunk_def using fits_shrunk by metis

text \<open>A slope has the sign of both differences beside it.\<close>

definition same_way :: "real \<Rightarrow> real \<Rightarrow> bool" where
  "same_way d m \<longleftrightarrow> (\<exists>a \<ge> 0. m = a * d)"

lemma same_way_shrunk_nth:
  assumes "shrunk xs ys" "j < length xs" "same_way d (xs ! j)"
  shows "same_way d (ys ! j)"
proof -
  obtain c where c: "0 \<le> c" "ys ! j = c * xs ! j" using assms(1,2) unfolding shrunk_def by blast
  obtain a where a: "a \<ge> 0" "xs ! j = a * d" using assms(3) by (auto simp: same_way_def)
  show ?thesis unfolding same_way_def using a c by (intro exI[of _ "c * a"]) simp
qed

lemma fits_third:
  assumes "0 \<le> a" "a \<le> s" "0 < s"
  shows "fits d (3 / s * (a * d))"
proof -
  have "3 / s * a \<le> 3" "0 \<le> 3 / s * a" using assms by (simp_all add: field_simps)
  moreover have "3 / s * (a * d) = 3 / s * a * d" by simp
  ultimately show ?thesis unfolding fits_def by blast
qed

lemma adjust_step_effect:
  assumes "i + 1 < length mK" "length points = length mK" "length deltaK = length mK"
    and "getPoint points i \<noteq> None" "getPoint points (i + 1) \<noteq> None"
    and "same_way (deltaK ! i) (mK ! i)" "same_way (deltaK ! i) (mK ! (i + 1))"
  defines "mK' \<equiv> adjust_step points deltaK mK i"
  shows "shrunk mK mK'" "fits (deltaK ! i) (mK' ! i)" "fits (deltaK ! i) (mK' ! (i + 1))"
proof -
  define d where "d = deltaK ! i"
  obtain a where a: "a \<ge> 0" "mK ! i = a * d" using assms(6) by (auto simp: same_way_def d_def)
  obtain b where b: "b \<ge> 0" "mK ! (i + 1) = b * d" using assms(7) by (auto simp: same_way_def d_def)
  obtain p q where pq: "getPoint points i = Some p" "getPoint points (Suc i) = Some q" using assms(4,5) by auto
  have i: "i < length mK" "i + 1 < length mK" using assms(1) by simp_all
  show "shrunk mK mK'" "fits (deltaK ! i) (mK' ! i)" "fits (deltaK ! i) (mK' ! (i + 1))"
  proof -
    consider (flat) "\<bar>d\<bar> < curve_eps" | (small) "\<bar>d\<bar> \<ge> curve_eps" "a\<^sup>2 + b\<^sup>2 \<le> 9" | (steep) "\<bar>d\<bar> \<ge> curve_eps" "a\<^sup>2 + b\<^sup>2 > 9" by linarith
    then have "shrunk mK mK' \<and> fits d (mK' ! i) \<and> fits d (mK' ! (i + 1))"
    proof cases
      case flat
      then have e: "mK' = mK[i := 0 * mK ! i, i + 1 := 0 * mK ! (i + 1)]" using pq by (simp add: mK'_def adjust_step_def d_def)
      have "fits d 0" unfolding fits_def by (intro exI[of _ 0]) simp
      then show ?thesis using shrunk_two[of 0 i mK] i unfolding e by simp
    next
      case small
      have "d \<noteq> 0" using small(1) by (auto simp: curve_eps_def)
      then have e: "mK' = mK" using small pq a b by (simp add: mK'_def adjust_step_def Let_def d_def)
      have "a\<^sup>2 \<le> 3\<^sup>2" "b\<^sup>2 \<le> 3\<^sup>2" using small(2) zero_le_power2[of a] zero_le_power2[of b] by (simp_all only: power2_eq_square)
      then have "a \<le> 3" "b \<le> 3" using power2_le_imp_le[of a 3] power2_le_imp_le[of b 3] by simp_all
      then show ?thesis using a b unfolding e fits_def by (auto intro: shrunk_refl)
    next
      case steep
      have d: "d \<noteq> 0" using steep(1) by (auto simp: curve_eps_def)
      define s where "s = sqrt (a\<^sup>2 + b\<^sup>2)"
      have s3: "s > 3" unfolding s_def using steep(2) real_less_rsqrt[of 3 "a\<^sup>2 + b\<^sup>2"] by simp
      have as: "a \<le> s" "b \<le> s" unfolding s_def by (auto intro: real_le_rsqrt)
      have e: "mK' = mK[i := 3 / s * mK ! i, i + 1 := 3 / s * mK ! (i + 1)]"
        using steep pq a b d by (simp add: mK'_def adjust_step_def Let_def s_def d_def[symmetric] field_simps)
      have "fits d (3 / s * (a * d))" "fits d (3 / s * (b * d))"
        using fits_third[of a s d] fits_third[of b s d] a(1) b(1) as s3 by simp_all
      then show ?thesis using shrunk_two[of "3 / s" i mK] s3 i a(2) b(2) unfolding e by simp
    qed
    then show "shrunk mK mK'" "fits (deltaK ! i) (mK' ! i)" "fits (deltaK ! i) (mK' ! (i + 1))" by (simp_all add: d_def)
  qed
qed

definition joined :: "curve_point list \<Rightarrow> nat \<Rightarrow> bool" where
  "joined points i \<longleftrightarrow> getPoint points i \<noteq> None \<and> getPoint points (i + 1) \<noteq> None"

lemma joined_bound: "joined points i \<Longrightarrow> i + 1 < length points"
  by (auto simp: joined_def getPoint_def split: if_splits)

lemma adjust_loop:
  assumes "length mK = length points" "length deltaK = length points" "k \<le> length points - 1"
    and "\<forall>i. joined points i \<longrightarrow> same_way (deltaK ! i) (mK ! i) \<and> same_way (deltaK ! i) (mK ! (i + 1))"
  defines "mK' \<equiv> foldl (adjust_step points deltaK) mK [0..<k]"
  shows "shrunk mK mK' \<and> (\<forall>i < k. joined points i \<longrightarrow> fits (deltaK ! i) (mK' ! i) \<and> fits (deltaK ! i) (mK' ! (i + 1)))"
  using assms(3) unfolding mK'_def
proof (induction k)
  case 0
  then show ?case by (simp add: shrunk_refl)
next
  case (Suc k)
  define m where "m = foldl (adjust_step points deltaK) mK [0..<k]"
  have ih: "shrunk mK m" "\<And>i. i < k \<Longrightarrow> joined points i \<Longrightarrow> fits (deltaK ! i) (m ! i) \<and> fits (deltaK ! i) (m ! (i + 1))"
    using Suc unfolding m_def by auto
  have len: "length m = length points" using ih(1) assms(1) by (simp add: shrunk_def)
  have k: "k + 1 < length points" using Suc.prems by simp
  have next_m: "foldl (adjust_step points deltaK) mK [0..<Suc k] = adjust_step points deltaK m k" by (simp add: m_def)
  show ?case
  proof (cases "joined points k")
    case False
    then have "adjust_step points deltaK m k = m" by (auto simp: joined_def adjust_step_def)
    then show ?thesis using ih False unfolding next_m by (auto simp: less_Suc_eq)
  next
    case True
    have way: "same_way (deltaK ! k) (m ! k)" "same_way (deltaK ! k) (m ! (k + 1))"
      by (rule same_way_shrunk_nth[OF ih(1)]; use assms(4)[rule_format, OF True] assms(1) k in simp)+
    define m' where "m' = adjust_step points deltaK m k"
    have eff: "shrunk m m'" "fits (deltaK ! k) (m' ! k)" "fits (deltaK ! k) (m' ! (k + 1))"
      unfolding m'_def by (rule adjust_step_effect[OF _ _ _ _ _ way]; use len assms(2) k True in \<open>simp add: joined_def\<close>)+
    have "fits (deltaK ! i) (m' ! i) \<and> fits (deltaK ! i) (m' ! (i + 1))" if "i < Suc k" "joined points i" for i
    proof (cases "i = k")
      case False
      then show ?thesis
        using that ih(2)[of i] fits_shrunk_nth[OF eff(1), of i] fits_shrunk_nth[OF eff(1), of "i + 1"] len k by auto
    qed (use eff in simp)
    then show ?thesis unfolding next_m m'_def[symmetric] using shrunk_trans[OF ih(1) eff(1)] by blast
  qed
qed

lemma same_way_mean: "sgn d = sgn (e :: real) \<Longrightarrow> same_way d ((d + e) / 2) \<and> same_way e ((d + e) / 2)"
proof -
  assume s: "sgn d = sgn e"
  show ?thesis
  proof (cases "d = 0")
    case True
    then show ?thesis using s by (auto simp: same_way_def sgn_zero_iff)
  next
    case False
    then have "e \<noteq> 0" using s by (auto simp: sgn_zero_iff)
    moreover have "e / d \<ge> 0" "d / e \<ge> 0" using s False \<open>e \<noteq> 0\<close> by (auto simp: sgn_if zero_le_divide_iff split: if_splits)
    moreover have "(d + e) / 2 = (1 + e / d) / 2 * d" "(d + e) / 2 = (1 + d / e) / 2 * e"
      using False \<open>e \<noteq> 0\<close> by (simp_all add: field_simps)
    ultimately have "(1 + e / d) / 2 \<ge> 0 \<and> (d + e) / 2 = (1 + e / d) / 2 * d" "(1 + d / e) / 2 \<ge> 0 \<and> (d + e) / 2 = (1 + d / e) / 2 * e"
      by simp_all
    then show ?thesis unfolding same_way_def by blast
  qed
qed

lemma same_way_zero: "same_way d 0"
  unfolding same_way_def by (intro exI[of _ 0]) simp

lemma same_way_self: "same_way d d"
  unfolding same_way_def by (intro exI[of _ 1]) simp

lemma slopes_same_way:
  assumes "joined points i" "length deltaK = length points"
  shows "same_way (deltaK ! i) (mK_of points deltaK ! i)" "same_way (deltaK ! i) (mK_of points deltaK ! (i + 1))"
proof -
  have i: "i + 1 < length points" by (rule joined_bound[OF assms(1)])
  obtain p q where pq: "getPoint points i = Some p" "getPoint points (Suc i) = Some q" using assms(1) by (auto simp: joined_def)
  show "same_way (deltaK ! i) (mK_of points deltaK ! i)"
    using i pq same_way_mean[of "deltaK ! (i - 1)" "deltaK ! i"]
    by (auto simp: mK_of_def slope_at_def same_way_zero same_way_self)
  show "same_way (deltaK ! i) (mK_of points deltaK ! (i + 1))"
    using i pq same_way_mean[of "deltaK ! i" "deltaK ! (i + 1)"]
    by (auto simp: mK_of_def slope_at_def same_way_zero same_way_self)
qed

lemma monotone_slopes:
  fixes axis :: index_axis
  assumes "joined points i"
  defines "deltaK \<equiv> deltaK_of axis points"
  defines "mK \<equiv> monotoneAdjust points deltaK (mK_of points deltaK)"
  shows "fits (delta_at axis points i) (mK ! i) \<and> fits (delta_at axis points i) (mK ! (i + 1))"
proof -
  have len: "length deltaK = length points" by (simp add: deltaK_def deltaK_of_def)
  have i: "i + 1 < length points" by (rule joined_bound[OF assms(1)])
  have "deltaK ! i = delta_at axis points i" using i by (simp add: deltaK_def deltaK_of_def)
  moreover have "fits (deltaK ! i) (mK ! i) \<and> fits (deltaK ! i) (mK ! (i + 1))"
    using adjust_loop[of "mK_of points deltaK" points deltaK "length points - 1"] slopes_same_way[OF _ len] len i assms(1)
    unfolding mK_def monotoneAdjust_def by (auto simp: mK_of_def)
  ultimately show ?thesis by simp
qed

definition lies_between :: "real \<Rightarrow> real \<Rightarrow> real \<Rightarrow> bool" where
  "lies_between a b v \<longleftrightarrow> min a b \<le> v \<and> v \<le> max a b"

lemma part_between:
  fixes a b t :: real
  assumes "0 \<le> t" "t \<le> 1"
  shows "lies_between a b (a + t * (b - a))" "lies_between a b (b - t * (b - a))"
proof -
  have "a \<le> b \<Longrightarrow> t * (b - a) \<le> 1 * (b - a)" "a \<le> b \<Longrightarrow> 0 \<le> t * (b - a)" using assms by (intro mult_right_mono mult_nonneg_nonneg; simp)+
  moreover have "b \<le> a \<Longrightarrow> t * (a - b) \<le> 1 * (a - b)" "b \<le> a \<Longrightarrow> 0 \<le> t * (a - b)" using assms by (intro mult_right_mono mult_nonneg_nonneg; simp)+
  moreover have "t * (a - b) = - (t * (b - a))" by (simp add: algebra_simps)
  ultimately show "lies_between a b (a + t * (b - a))" "lies_between a b (b - t * (b - a))"
    by (cases "a \<le> b"; simp add: lies_between_def)+
qed

lemma cp_sets [simp]:
  "cp1_on a (set_cp1 a v p) = v" "cp2_on a (set_cp2 a v p) = v"
  "cp1_on a (set_cp1 (getValueAxis a) v p) = cp1_on a p" "cp2_on a (set_cp2 (getValueAxis a) v p) = cp2_on a p"
  "cp1_on (getValueAxis a) (set_cp1 a v p) = cp1_on (getValueAxis a) p"
  "cp2_on (getValueAxis a) (set_cp2 a v p) = cp2_on (getValueAxis a) p"
  "cp1_on b (set_cp2 a v p) = cp1_on b p" "cp2_on b (set_cp1 a v p) = cp2_on b p"
  by (cases a; cases b; simp)+


lemma joined_points:
  assumes "joined points i"
  shows "getPoint points i = Some (points ! i)" "getPoint points (i + 1) = Some (points ! (i + 1))"
    "\<not> cu_skip (points ! i)" "\<not> cu_skip (points ! (i + 1))"
  using assms by (auto simp: joined_def getPoint_def split: if_splits)

text \<open>Beside two joined points, the control points are at a third of the way, and at the height
  of the slopes.\<close>

lemma control_points:
  fixes axis :: index_axis and mK :: "real list"
  assumes "joined points i"
  defines "res \<equiv> monotoneCompute points mK axis" and "val \<equiv> getValueAxis axis"
  defines "h \<equiv> on_axis axis (points ! (i + 1)) - on_axis axis (points ! i)"
  shows "cp2_on axis (res ! i) = on_axis axis (points ! i) + h / 3"
    "cp1_on axis (res ! (i + 1)) = on_axis axis (points ! (i + 1)) - h / 3"
    "cp2_on val (res ! i) = on_axis val (points ! i) + h / 3 * mK ! i"
    "cp1_on val (res ! (i + 1)) = on_axis val (points ! (i + 1)) - h / 3 * mK ! (i + 1)"
proof -
  note j = joined_points[OF assms(1)] joined_bound[OF assms(1)]
  have r: "res ! i = compute_point points mK axis i" "res ! (i + 1) = compute_point points mK axis (i + 1)"
    using j by (simp_all add: res_def monotoneCompute_def)
  have a: "getPoint points (Suc i) = Some (points ! Suc i)" "\<not> cu_skip (points ! Suc i)" using j by simp_all
  show "cp2_on axis (res ! i) = on_axis axis (points ! i) + h / 3"
    "cp2_on val (res ! i) = on_axis val (points ! i) + h / 3 * mK ! i"
    unfolding r compute_point_def Let_def val_def h_def using j a by (simp_all split: option.splits)
  show "cp1_on axis (res ! (i + 1)) = on_axis axis (points ! (i + 1)) - h / 3"
    "cp1_on val (res ! (i + 1)) = on_axis val (points ! (i + 1)) - h / 3 * mK ! (i + 1)"
    unfolding r compute_point_def Let_def val_def h_def using j a by (simp_all split: option.splits)
qed

lemma fits_part:
  assumes "fits (if h \<noteq> 0 then dv / h else 0) m"
  shows "\<exists>t. 0 \<le> t \<and> t \<le> 1 \<and> h / 3 * m = t * dv"
proof -
  obtain a where a: "0 \<le> a" "a \<le> 3" "m = a * (if h \<noteq> 0 then dv / h else 0)" using assms by (auto simp: fits_def)
  show ?thesis
  proof (cases "h = 0")
    case True
    then show ?thesis by (intro exI[of _ 0]) simp
  next
    case False
    then show ?thesis using a by (intro exI[of _ "a / 3"]) (simp add: field_simps)
  qed
qed

text \<open>The point of a Bezier curve at \<open>t\<close>, as the canvas draws it.\<close>

definition bezier_at :: "real \<Rightarrow> real \<Rightarrow> real \<Rightarrow> real \<Rightarrow> real \<Rightarrow> real" where
  "bezier_at a c1 c2 d t = (1 - t) ^ 3 * a + 3 * (1 - t) ^ 2 * t * c1 + 3 * (1 - t) * t ^ 2 * c2 + t ^ 3 * d"

lemma bezier_above:
  assumes "0 \<le> t" "t \<le> 1" "lo \<le> a" "lo \<le> c1" "lo \<le> c2" "lo \<le> d"
  shows "lo \<le> bezier_at a c1 c2 d t"
proof -
  have w: "(1 - t) ^ 3 * lo \<le> (1 - t) ^ 3 * a" "3 * (1 - t) ^ 2 * t * lo \<le> 3 * (1 - t) ^ 2 * t * c1"
    "3 * (1 - t) * t ^ 2 * lo \<le> 3 * (1 - t) * t ^ 2 * c2" "t ^ 3 * lo \<le> t ^ 3 * d"
    using assms by (intro mult_left_mono; simp)+
  have "(1 - t) ^ 3 * lo + 3 * (1 - t) ^ 2 * t * lo + 3 * (1 - t) * t ^ 2 * lo + t ^ 3 * lo = lo"
    by (simp add: power2_eq_square power3_eq_cube algebra_simps)
  with w show ?thesis unfolding bezier_at_def by linarith
qed

lemma bezier_between:
  assumes "0 \<le> t" "t \<le> 1" "lies_between a d c1" "lies_between a d c2"
  shows "lies_between a d (bezier_at a c1 c2 d t)"
proof -
  have neg: "bezier_at (- a) (- c1) (- c2) (- d) t = - bezier_at a c1 c2 d t"
    by (simp add: bezier_at_def)
  have "min a d \<le> bezier_at a c1 c2 d t"
    using assms by (intro bezier_above) (auto simp: lies_between_def)
  moreover have "- max a d \<le> bezier_at (- a) (- c1) (- c2) (- d) t"
    using assms by (intro bezier_above) (auto simp: lies_between_def)
  ultimately show ?thesis unfolding neg by (auto simp: lies_between_def)
qed

lemma monotone_control_points:
  assumes "i + 1 < length points" "\<not> cu_skip (points ! i)" "\<not> cu_skip (points ! (i + 1))"
  shows "lies_between (on_axis b (points ! i)) (on_axis b (points ! (i + 1))) (cp2_on b (splineCurveMonotone points axis ! i)) \<and>
    lies_between (on_axis b (points ! i)) (on_axis b (points ! (i + 1))) (cp1_on b (splineCurveMonotone points axis ! (i + 1)))"
proof -
  have j: "joined points i" using assms by (simp add: joined_def getPoint_def)
  define mK where "mK = monotoneAdjust points (deltaK_of axis points) (mK_of points (deltaK_of axis points))"
  have res: "splineCurveMonotone points axis = monotoneCompute points mK axis" by (simp add: splineCurveMonotone_def mK_def Let_def)
  note cps = control_points[OF j, where mK = mK and axis = axis]
  define val where "val = getValueAxis axis"
  define h where "h = on_axis axis (points ! (i + 1)) - on_axis axis (points ! i)"
  define dv where "dv = on_axis val (points ! (i + 1)) - on_axis val (points ! i)"
  have d: "delta_at axis points i = (if h \<noteq> 0 then dv / h else 0)"
    using joined_points[OF j] by (simp add: delta_at_def h_def dv_def val_def Let_def)
  obtain t where t: "0 \<le> t" "t \<le> 1" "h / 3 * mK ! i = t * dv"
    using fits_part[of h dv "mK ! i"] monotone_slopes[OF j, of axis] unfolding d mK_def by blast
  obtain u where u: "0 \<le> u" "u \<le> 1" "h / 3 * mK ! (i + 1) = u * dv"
    using fits_part[of h dv "mK ! (i + 1)"] monotone_slopes[OF j, of axis] unfolding d mK_def by blast
  show ?thesis
  proof (cases "b = axis")
    case True
    then show ?thesis unfolding res using cps(1,2) part_between[of "1/3"] by simp
  next
    case False
    then have b: "b = val" unfolding val_def by (cases axis; cases b; simp)
    show ?thesis unfolding res b val_def cps(3,4) h_def[symmetric] t(3) u(3) dv_def val_def
      using part_between t(1,2) u(1,2) by simp
  qed
qed

text \<open>
  C28. The monotone curve does not overshoot.  Between two neighbouring points of a line that
  are not skipped, both control points that \<open>splineCurveMonotone\<close> sets lie between the two points,
  and so does every point of the Bezier curve drawn with them, along the index axis and along the
  value axis.
\<close>

theorem monotone_curve_no_overshoot:
  assumes "i + 1 < length points" "\<not> cu_skip (points ! i)" "\<not> cu_skip (points ! (i + 1))"
  shows "lies_between (on_axis b (points ! i)) (on_axis b (points ! (i + 1))) (cp2_on b (splineCurveMonotone points axis ! i)) \<and>
    lies_between (on_axis b (points ! i)) (on_axis b (points ! (i + 1))) (cp1_on b (splineCurveMonotone points axis ! (i + 1))) \<and>
    (\<forall>t. 0 \<le> t \<and> t \<le> 1 \<longrightarrow> lies_between (on_axis b (points ! i)) (on_axis b (points ! (i + 1)))
       (bezier_at (on_axis b (points ! i)) (cp2_on b (splineCurveMonotone points axis ! i))
          (cp1_on b (splineCurveMonotone points axis ! (i + 1))) (on_axis b (points ! (i + 1))) t))"
  using monotone_control_points[OF assms] by (intro conjI allI impI bezier_between) auto

definition peak_points :: "curve_point list" where
  "peak_points = map (\<lambda>(x, y). \<lparr>cu_x = x, cu_y = y, cu_skip = False, cu_cp1x = 0, cu_cp1y = 0, cu_cp2x = 0, cu_cp2y = 0\<rparr>)
     [(0, 0), (1, 10), (2, 11)]"

theorem monotone_curve_no_overshoot_witness:
  "lies_between 10 11 (cp2_on IndexY (splineCurveMonotone peak_points IndexX ! 1)) \<and>
   lies_between 10 11 (bezier_at 10 (cp2_on IndexY (splineCurveMonotone peak_points IndexX ! 1))
      (cp1_on IndexY (splineCurveMonotone peak_points IndexX ! 2)) 11 (1 / 3))"
  using monotone_curve_no_overshoot[of 1 peak_points IndexY IndexX]
  by (simp add: peak_points_def numeral_2_eq_2)

end
