(* ===== verification/ChartFiller.thy ===== *)
theory ChartFiller
  imports ChartSegments ChartOptions
begin

text \<open>
  The filler plugin (\<open>chart_3.9.js\<close>, 10028-10466): how the fill option of a line is read, which line,
  edge or value it fills to when the line it names is hidden, the boundary at an edge or value, the
  points of a stack below a line, and when a fill is drawn.
\<close>

section \<open>The fill option\<close>

text \<open>A decoded fill: none, the line of a data set, a named edge, or a value.\<close>

datatype fill = NoFill | LineFill nat | NameFill string | ValueFill jsnum

definition parseFillOption :: "jsval \<Rightarrow> jsval \<Rightarrow> jsval" where
  "parseFillOption fillOption backgroundColor =
     (let fill0 = (case fillOption of VObj ps \<Rightarrow> valueOrDefault (obj_prop ps ''target'') fillOption | _ \<Rightarrow> fillOption);
          fill1 = (if fill0 = VUndef then VBool (truthy backgroundColor) else fill0)
      in if fill1 = VBool False \<or> fill1 = VNull then VBool False
         else if fill1 = VBool True then VStr ''origin'' else fill1)"

definition decodeTargetIndex :: "bool \<Rightarrow> nat \<Rightarrow> int \<Rightarrow> nat \<Rightarrow> fill" where
  "decodeTargetIndex relative index target count =
     (let t = (if relative then int index + target else target)
      in if t = int index \<or> t < 0 \<or> t \<ge> int count then NoFill else LineFill (nat t))"

text \<open>Arrays are not read as fills.\<close>

definition decodeFill :: "jsval \<Rightarrow> jsval \<Rightarrow> nat \<Rightarrow> nat \<Rightarrow> fill" where
  "decodeFill fillOption backgroundColor index count =
     (let named = (\<lambda>s. if s \<in> set [''origin'', ''start'', ''end'', ''stack'', ''shape''] then NameFill s else NoFill);
          number = (\<lambda>n relative other. case n of
              Fin r \<Rightarrow> if of_int \<lfloor>r\<rfloor> = r then decodeTargetIndex relative index \<lfloor>r\<rfloor> count else other
            | _ \<Rightarrow> other)
      in case parseFillOption fillOption backgroundColor of
           VObj ps \<Rightarrow> (let v = to_number (obj_prop ps ''value'') in if v = NaN then NoFill else ValueFill v)
         | VNum n \<Rightarrow> number n False NoFill
         | VStr s \<Rightarrow> number (parseFloat s) (s \<noteq> [] \<and> (hd s = CHR ''-'' \<or> hd s = CHR ''+'')) (named s)
         | _ \<Rightarrow> NoFill)"

section \<open>The target of a fill\<close>

record fill_source =
  fs_visible :: bool
  fs_fill :: fill

text \<open>A data set whose element is no line has no source.\<close>

definition source_at :: "fill_source option list \<Rightarrow> nat \<Rightarrow> fill_source option" where
  "source_at sources j = (if j < length sources then sources ! j else None)"

lemma fewer_left:
  assumes "j \<notin> set visited" "source_at sources j = Some target"
  shows "card ({..<length sources} - insert j (set visited)) < card ({..<length sources} - set visited)"
proof -
  have "j \<in> {..<length sources} - set visited" using assms by (auto simp: source_at_def split: if_splits)
  then show ?thesis by (intro psubset_card_mono) auto
qed

function resolve_loop :: "fill_source option list \<Rightarrow> nat list \<Rightarrow> fill \<Rightarrow> fill" where
  "resolve_loop sources visited fill =
     (case fill of
        LineFill j \<Rightarrow>
          if j \<in> set visited then NoFill
          else (case source_at sources j of
                  None \<Rightarrow> NoFill
                | Some target \<Rightarrow>
                    if fs_visible target then LineFill j else resolve_loop sources (visited @ [j]) (fs_fill target))
      | _ \<Rightarrow> fill)"
  by pat_completeness auto
termination
  by (relation "measure (\<lambda>(sources, visited, _). card ({..<length sources} - set visited))") (auto intro: fewer_left)

declare resolve_loop.simps [simp del]

definition resolveTarget :: "fill_source option list \<Rightarrow> nat \<Rightarrow> bool \<Rightarrow> fill" where
  "resolveTarget sources index propagate =
     (case source_at sources index of
        None \<Rightarrow> NoFill
      | Some s \<Rightarrow> if propagate then resolve_loop sources [index] (fs_fill s) else fs_fill s)"

text \<open>The loop of \<open>afterDatasetsUpdate\<close> writes each target into its source before it goes on.\<close>

definition resolve_source :: "bool \<Rightarrow> fill_source option list \<Rightarrow> nat \<Rightarrow> fill_source option list" where
  "resolve_source propagate sources i =
     (case sources ! i of
        None \<Rightarrow> sources
      | Some s \<Rightarrow> if fs_fill s = NoFill then sources
                  else sources[i := Some (s\<lparr>fs_fill := resolveTarget sources i propagate\<rparr>)])"

definition afterDatasetsUpdate :: "bool \<Rightarrow> fill_source option list \<Rightarrow> fill_source option list" where
  "afterDatasetsUpdate propagate sources = foldl (resolve_source propagate) sources [0..<length sources]"

section \<open>Where a fill ends\<close>

inductive leads :: "fill_source option list \<Rightarrow> nat \<Rightarrow> fill \<Rightarrow> fill \<Rightarrow> bool" for sources where
  other: "(\<And>j. x \<noteq> LineFill j) \<Longrightarrow> leads sources 0 x x"
| missing: "source_at sources j = None \<Longrightarrow> leads sources 0 (LineFill j) NoFill"
| visible: "source_at sources j = Some t \<Longrightarrow> fs_visible t \<Longrightarrow> leads sources 0 (LineFill j) (LineFill j)"
| hidden: "source_at sources j = Some t \<Longrightarrow> \<not> fs_visible t \<Longrightarrow> leads sources n (fs_fill t) r \<Longrightarrow> leads sources (Suc n) (LineFill j) r"

inductive_cases leads_lineE: "leads sources n (LineFill j) r"
inductive_cases leads_noneE: "leads sources n NoFill r"
inductive_cases leads_nameE: "leads sources n (NameFill s) r"
inductive_cases leads_valueE: "leads sources n (ValueFill v) r"

lemma leads_unique: "leads sources n x r \<Longrightarrow> leads sources m x r' \<Longrightarrow> n = m \<and> r = r'"
proof (induction arbitrary: m r' rule: leads.induct)
  case (other x)
  from other.prems other.hyps show ?case by (cases rule: leads.cases) auto
next
  case (missing j)
  from missing.prems missing.hyps show ?case by (auto elim: leads_lineE)
next
  case (visible j t)
  from visible.prems visible.hyps show ?case by (auto elim: leads_lineE)
next
  case (hidden j t n r)
  from hidden.prems obtain m' where "m = Suc m'" "leads sources m' (fs_fill t) r'"
    using hidden.hyps(1,2) by (auto elim: leads_lineE)
  then show ?case using hidden.IH by blast
qed

text \<open>The end of a fill is no line, or a visible one.\<close>

lemma leads_end: "leads sources n x r \<Longrightarrow> leads sources 0 r r"
  by (induction rule: leads.induct) (auto intro: leads.intros)

lemma resolve_leads: "resolve_loop sources visited x \<noteq> NoFill \<Longrightarrow> \<exists>n. leads sources n x (resolve_loop sources visited x)"
proof (induction sources visited x rule: resolve_loop.induct)
  case (1 sources visited x)
  show ?case
  proof (cases x)
    case (LineFill j)
    then have j: "j \<notin> set visited" using 1(2) by (auto simp: resolve_loop.simps split: if_splits)
    obtain t where t: "source_at sources j = Some t"
      using 1(2) LineFill j by (cases "source_at sources j") (auto simp: resolve_loop.simps)
    show ?thesis
    proof (cases "fs_visible t")
      case True
      then have "resolve_loop sources visited x = LineFill j" using LineFill j t by (simp add: resolve_loop.simps)
      then show ?thesis using LineFill t True leads.visible by metis
    next
      case False
      have e: "resolve_loop sources visited x = resolve_loop sources (visited @ [j]) (fs_fill t)"
        using LineFill j t False by (subst resolve_loop.simps) simp
      from 1(1)[OF LineFill j t False] 1(2) e obtain n where "leads sources n (fs_fill t) (resolve_loop sources visited x)" by auto
      then show ?thesis using LineFill t False leads.hidden by metis
    qed
  qed (auto simp: resolve_loop.simps intro: leads.intros)
qed

lemma resolve_not_visited: "resolve_loop sources visited x = LineFill j \<Longrightarrow> j \<notin> set visited"
proof (induction sources visited x rule: resolve_loop.induct)
  case (1 sources visited x)
  show ?case
  proof (cases x)
    case (LineFill i)
    show ?thesis using 1(2) 1(1)[OF LineFill] LineFill
      by (subst (asm) resolve_loop.simps) (auto split: if_splits option.splits)
  qed (use 1(2) in \<open>auto simp: resolve_loop.simps\<close>)
qed

text \<open>A fill that leads somewhere is followed to its end when no line visited before lies on its way.\<close>

lemma leads_resolve:
  assumes "leads sources n x r" "r \<noteq> NoFill"
    and "\<And>v. v \<in> set visited \<Longrightarrow> r \<noteq> LineFill v \<and> (\<exists>t. source_at sources v = Some t \<and> fs_visible t) \<or> (\<exists>m > n. leads sources m (LineFill v) r)"
  shows "resolve_loop sources visited x = r"
  using assms
proof (induction arbitrary: visited rule: leads.induct)
  case (other x)
  then have "\<nexists>j. x = LineFill j" by blast
  then show ?case by (cases x) (simp_all add: resolve_loop.simps)
next
  case (visible j t)
  have "j \<notin> set visited"
  proof
    assume "j \<in> set visited"
    from visible.prems(2)[OF this] show False
    proof
      assume "\<exists>m > 0. leads sources m (LineFill j) (LineFill j)"
      then obtain m where "m > 0" "leads sources m (LineFill j) (LineFill j)" by blast
      then show False using leads_unique[OF leads.visible[OF visible.hyps], of m "LineFill j"] by simp
    qed simp
  qed
  then show ?case using visible.hyps by (simp add: resolve_loop.simps)
next
  case (hidden j t n r)
  have own: "leads sources (Suc n) (LineFill j) r" by (rule leads.hidden[OF hidden.hyps])
  have "j \<notin> set visited"
  proof
    assume "j \<in> set visited"
    from hidden.prems(2)[OF this] show False
    proof
      assume "\<exists>m > Suc n. leads sources m (LineFill j) r"
      then obtain m where "m > Suc n" "leads sources m (LineFill j) r" by blast
      then show False using leads_unique[OF own, of m r] by simp
    qed (simp add: hidden.hyps(1,2))
  qed
  then have "resolve_loop sources visited (LineFill j) = resolve_loop sources (visited @ [j]) (fs_fill t)"
    using hidden.hyps by (subst resolve_loop.simps) simp
  also have "\<dots> = r"
  proof (rule hidden.IH[OF hidden.prems(1)])
    fix v assume "v \<in> set (visited @ [j])"
    then show "r \<noteq> LineFill v \<and> (\<exists>t. source_at sources v = Some t \<and> fs_visible t) \<or> (\<exists>m > n. leads sources m (LineFill v) r)"
      using hidden.prems(2)[of v] own by (auto intro: Suc_lessD)
  qed
  finally show ?case .
qed simp_all


lemma resolve_target_leads:
  assumes s: "source_at sources i = Some s" and r: "r \<noteq> NoFill"
  shows "resolveTarget sources i True = r \<longleftrightarrow> (\<exists>n. leads sources n (fs_fill s) r) \<and> r \<noteq> LineFill i"
proof
  assume "resolveTarget sources i True = r"
  then have e: "resolve_loop sources [i] (fs_fill s) = r" using s by (simp add: resolveTarget_def)
  then have "\<exists>n. leads sources n (fs_fill s) r" using resolve_leads[of sources "[i]" "fs_fill s"] r by simp
  moreover have "r \<noteq> LineFill i" using resolve_not_visited[of sources "[i]" "fs_fill s" i] e by auto
  ultimately show "(\<exists>n. leads sources n (fs_fill s) r) \<and> r \<noteq> LineFill i" by simp
next
  assume "(\<exists>n. leads sources n (fs_fill s) r) \<and> r \<noteq> LineFill i"
  then obtain n where n: "leads sources n (fs_fill s) r" and ri: "r \<noteq> LineFill i" by blast
  have "resolve_loop sources [i] (fs_fill s) = r"
  proof (rule leads_resolve[OF n r])
    fix v assume "v \<in> set [i]"
    then show "r \<noteq> LineFill v \<and> (\<exists>t. source_at sources v = Some t \<and> fs_visible t) \<or> (\<exists>m > n. leads sources m (LineFill v) r)"
      using s ri n leads.hidden[OF s _ n] by (cases "fs_visible s") auto
  qed
  then show "resolveTarget sources i True = r" using s by (simp add: resolveTarget_def)
qed

text \<open>Writing the target of one source into it changes no other target.\<close>

definition written :: "fill_source option list \<Rightarrow> nat \<Rightarrow> fill_source option list" where
  "written sources i = (case sources ! i of None \<Rightarrow> sources
     | Some s \<Rightarrow> sources[i := Some (s\<lparr>fs_fill := resolveTarget sources i True\<rparr>)])"

lemma source_written:
  assumes "i < length sources"
  shows "source_at (written sources i) j =
    (if j = i then map_option (\<lambda>s. s\<lparr>fs_fill := resolveTarget sources i True\<rparr>) (source_at sources i) else source_at sources j)"
  using assms by (auto simp: written_def source_at_def split: option.splits)

lemma leads_written:
  assumes i: "i < length sources" and n: "leads sources n x r" and r: "r \<noteq> NoFill"
  shows "\<exists>m. leads (written sources i) m x r"
  using n r
proof (induction rule: leads.induct)
  case (other x)
  then show ?case by (blast intro: leads.other)
next
  case (visible j t)
  define t' where "t' = (if j = i then t\<lparr>fs_fill := resolveTarget sources i True\<rparr> else t)"
  have "source_at (written sources i) j = Some t'" "fs_visible t'"
    using visible.hyps by (auto simp: source_written[OF i] t'_def)
  then show ?case by (blast intro: leads.visible)
next
  case (hidden j t n r)
  show ?case
  proof (cases "j = i")
    case False
    then have "source_at (written sources i) j = Some t" using hidden.hyps by (simp add: source_written[OF i])
    then show ?thesis using hidden by (blast intro: leads.hidden)
  next
    case True
    have "r \<noteq> LineFill i"
    proof
      assume "r = LineFill i"
      then have "leads sources 0 (LineFill i) (LineFill i)" using leads_end[OF hidden.hyps(3)] by simp
      then show False using hidden.hyps(1,2) True by (auto elim: leads_lineE)
    qed
    then have res: "resolveTarget sources i True = r"
      using resolve_target_leads[of sources i t r] hidden True by blast
    have s: "source_at (written sources i) j = Some (t\<lparr>fs_fill := r\<rparr>)" using hidden.hyps True res by (simp add: source_written[OF i])
    have "\<exists>m. leads (written sources i) m r r"
    proof (cases "\<exists>k. r = LineFill k")
      case True
      then obtain k where k: "r = LineFill k" by blast
      then obtain u where u: "source_at sources k = Some u" "fs_visible u"
        using leads_end[OF hidden.hyps(3)] by (auto elim: leads_lineE)
      then have "k \<noteq> i" using \<open>r \<noteq> LineFill i\<close> k by auto
      then have "source_at (written sources i) k = Some u" using u by (simp add: source_written[OF i])
      then show ?thesis using leads.visible[OF _ u(2)] k by blast
    qed (blast intro: leads.other)
    then obtain m where "leads (written sources i) m (fs_fill (t\<lparr>fs_fill := r\<rparr>)) r" by auto
    then show ?thesis using leads.hidden[OF s] hidden.hyps(2) by auto
  qed
qed simp

lemma written_leads:
  assumes i: "i < length sources" and n: "leads (written sources i) n x r" and r: "r \<noteq> NoFill"
  shows "\<exists>m. leads sources m x r"
  using n r
proof (induction rule: leads.induct)
  case (other x)
  then show ?case by (blast intro: leads.other)
next
  case (visible j t)
  then have "\<exists>t'. source_at sources j = Some t' \<and> fs_visible t'" by (auto simp: source_written[OF i] split: if_splits)
  then show ?case by (blast intro: leads.visible)
next
  case (hidden j t n r)
  show ?case
  proof (cases "j = i")
    case False
    then have "source_at sources j = Some t" using hidden.hyps by (simp add: source_written[OF i])
    then show ?thesis using hidden by (blast intro: leads.hidden)
  next
    case True
    then obtain t' where t': "source_at sources i = Some t'" "t = t'\<lparr>fs_fill := resolveTarget sources i True\<rparr>"
      using hidden.hyps(1) by (auto simp: source_written[OF i])
    define R where "R = resolveTarget sources i True"
    obtain m where m: "leads sources m R r" using hidden.IH hidden.prems t' by (auto simp: R_def)
    have "R \<noteq> NoFill"
    proof
      assume "R = NoFill"
      then have "r = NoFill" using m by (auto elim: leads_noneE)
      then show False using hidden.prems by simp
    qed
    then obtain k where k: "leads sources k (fs_fill t') R" using resolve_target_leads[OF t'(1), of R] R_def by auto
    have "leads sources 0 R R" by (rule leads_end[OF k])
    then have "r = R" using m leads_unique by blast
    then show ?thesis using leads.hidden[OF t'(1) _ k] hidden.hyps(2) t'(2) True by auto
  qed
qed simp

lemma resolve_written:
  assumes i: "i < length sources"
  shows "resolveTarget (written sources i) j True = resolveTarget sources j True"
proof (cases "source_at sources j")
  case None
  then have "source_at (written sources i) j = None" by (cases "j = i") (simp_all add: source_written[OF i])
  with None show ?thesis by (simp add: resolveTarget_def)
next
  case (Some s)
  define s' where "s' = (if j = i then s\<lparr>fs_fill := resolveTarget sources i True\<rparr> else s)"
  have s': "source_at (written sources i) j = Some s'" using Some by (auto simp: source_written[OF i] s'_def)
  have eq: "resolveTarget (written sources i) j True = r \<longleftrightarrow> resolveTarget sources j True = r" if r: "r \<noteq> NoFill" for r
  proof (cases "j = i")
    case False
    then have "s' = s" by (simp add: s'_def)
    then show ?thesis
      unfolding resolve_target_leads[OF s' r] resolve_target_leads[OF Some r]
      using leads_written[OF i _ r] written_leads[OF i _ r] by blast
  next
    case True
    define R where "R = resolveTarget sources i True"
    have f: "fs_fill s' = R" using True by (simp add: s'_def R_def)
    show ?thesis
    proof (cases "R = NoFill")
      case True
      then have "\<not> leads (written sources i) n (fs_fill s') r" for n using r f by (auto elim: leads_noneE)
      then show ?thesis using resolve_target_leads[OF s' r] True \<open>j = i\<close> r by (simp add: R_def)
    next
      case ne: False
      then obtain k where k: "leads sources k (fs_fill s) R" and Ri: "R \<noteq> LineFill i"
        using resolve_target_leads[of sources i s R] Some \<open>j = i\<close> R_def by auto
      have RR: "leads sources 0 R R" by (rule leads_end[OF k])
      obtain m where m: "leads (written sources i) m R R" using leads_written[OF i RR ne] by blast
      have "(\<exists>n. leads (written sources i) n R r) \<longleftrightarrow> r = R" using m leads_unique by blast
      then show ?thesis
        unfolding resolve_target_leads[OF s' r] f using Ri \<open>j = i\<close> by (auto simp: R_def)
    qed
  qed
  show ?thesis
    using eq[of "resolveTarget sources j True"] eq[of "resolveTarget (written sources i) j True"] by metis
qed

lemma resolve_source_written: "i < length sources \<Longrightarrow> resolve_source True sources i = written sources i"
  by (cases "sources ! i")
    (auto simp: resolve_source_def written_def resolveTarget_def source_at_def resolve_loop.simps intro!: list_update_same_conv[THEN iffD2, symmetric])

lemma afterDatasetsUpdate_prefix:
  assumes "n \<le> length sources"
  defines "st \<equiv> foldl (resolve_source True) sources [0..<n]"
  shows "length st = length sources \<and>
    (\<forall>j. source_at st j = (if j < n then map_option (\<lambda>s. s\<lparr>fs_fill := resolveTarget sources j True\<rparr>) (source_at sources j) else source_at sources j)) \<and>
    (\<forall>j. resolveTarget st j True = resolveTarget sources j True)"
  using assms(1) unfolding st_def
proof (induction n)
  case (Suc n)
  define st where "st = foldl (resolve_source True) sources [0..<n]"
  have ih: "length st = length sources" "\<forall>j. resolveTarget st j True = resolveTarget sources j True"
    "\<forall>j. source_at st j = (if j < n then map_option (\<lambda>s. s\<lparr>fs_fill := resolveTarget sources j True\<rparr>) (source_at sources j) else source_at sources j)"
    using Suc unfolding st_def[symmetric] by simp_all
  have n: "n < length st" using Suc.prems ih(1) by simp
  have step: "foldl (resolve_source True) sources [0..<Suc n] = written st n"
    using resolve_source_written[OF n] by (simp add: st_def)
  have "length (written st n) = length st" by (simp add: written_def split: option.splits)
  then show ?case
    unfolding step resolve_written[OF n] using ih source_written[OF n] by (auto simp: less_Suc_eq)
qed simp

lemma afterDatasetsUpdate_source:
  "source_at (afterDatasetsUpdate True sources) i =
     map_option (\<lambda>s. s\<lparr>fs_fill := resolveTarget sources i True\<rparr>) (source_at sources i)"
  "length (afterDatasetsUpdate True sources) = length sources"
proof -
  note p = afterDatasetsUpdate_prefix[OF le_refl, of sources, folded afterDatasetsUpdate_def]
  show "length (afterDatasetsUpdate True sources) = length sources" using p by blast
  have "source_at sources i = None" if "\<not> i < length sources" using that by (simp add: source_at_def)
  then show "source_at (afterDatasetsUpdate True sources) i =
      map_option (\<lambda>s. s\<lparr>fs_fill := resolveTarget sources i True\<rparr>) (source_at sources i)"
    using p[THEN conjunct2, THEN conjunct1, THEN spec, of i] by (cases "i < length sources") simp_all
qed

text \<open>Without \<open>propagate\<close> the fills stay as they are.\<close>

lemma no_propagation: "afterDatasetsUpdate False sources = sources"
proof -
  have step: "resolve_source False st i = st" if "i < length st" for st i
    using that by (cases "st ! i")
      (auto simp: resolve_source_def resolveTarget_def source_at_def intro!: list_update_same_conv[THEN iffD2])
  have "foldl (resolve_source False) st is = st" if "\<forall>i \<in> set is. i < length st" for st "is"
    using that by (induction "is") (simp_all add: step)
  then show ?thesis by (simp add: afterDatasetsUpdate_def)
qed

section \<open>The boundary of a fill\<close>

text \<open>A scale as far as a fill reads it: its edges, the pixel of a value, and the base pixel of scales that have one.\<close>

record fill_scale =
  sc_bottom :: rat
  sc_top :: rat
  sc_pixel :: "jsnum \<Rightarrow> rat option"
  sc_base :: "rat option"
  sc_horizontal :: bool

definition getTargetPixel :: "fill \<Rightarrow> fill_scale \<Rightarrow> rat option" where
  "getTargetPixel fill scale =
     (if fill = NameFill ''start'' then Some (sc_bottom scale)
      else if fill = NameFill ''end'' then Some (sc_top scale)
      else case fill of ValueFill v \<Rightarrow> sc_pixel scale v | _ \<Rightarrow> sc_base scale)"

definition computeLinearBoundary :: "fill \<Rightarrow> fill_scale \<Rightarrow> (rat option \<times> rat option) option" where
  "computeLinearBoundary fill scale =
     (case getTargetPixel fill scale of
        None \<Rightarrow> None
      | Some p \<Rightarrow> Some (if sc_horizontal scale then Some p else None, if sc_horizontal scale then None else Some p))"

section \<open>The line of a stack\<close>

text \<open>The metasets before the given one that are not hidden, the nearest first.\<close>

fun lines_below :: "nat \<Rightarrow> (nat \<times> bool \<times> 'l) list \<Rightarrow> 'l list \<Rightarrow> 'l list" where
  "lines_below index [] below = below"
| "lines_below index ((i, hidden, line) # metas) below =
     (if i = index then below else lines_below index metas (if hidden then below else line # below))"

definition getLinesBelow :: "nat \<Rightarrow> (nat \<times> bool \<times> 'l) list \<Rightarrow> 'l list" where
  "getLinesBelow index metas = lines_below index metas []"

text \<open>
  Whether a point found on a line is the first or the last of a segment, given the values of the ends
  of the segments.
\<close>

fun segment_ends :: "rat \<Rightarrow> (rat \<times> rat) list \<Rightarrow> bool \<times> bool" where
  "segment_ends v [] = (False, False)"
| "segment_ends v ((a, b) # segs) = (if isBetween v a b then (v = a, v = b) else segment_ends v segs)"

fun add_below :: "(bool \<times> bool \<times> 'p option) list \<Rightarrow> 'p list \<Rightarrow> 'p list \<Rightarrow> 'p list" where
  "add_below [] points postponed = points @ postponed"
| "add_below ((isFirst, isLast, None) # lines) points postponed = add_below lines points postponed"
| "add_below ((isFirst, isLast, Some p) # lines) points postponed =
     (if isFirst \<and> isLast then add_below lines points postponed
      else if isFirst then add_below lines points (p # postponed)
      else if isLast then add_below lines (points @ [p]) postponed
      else (points @ [p]) @ postponed)"

definition addPointsBelow :: "'p list \<Rightarrow> (bool \<times> bool \<times> 'p option) list \<Rightarrow> 'p list" where
  "addPointsBelow points found = add_below found points []"

section \<open>Drawing\<close>

datatype draw_time = BeforeDraw | BeforeDatasetsDraw | BeforeDatasetDraw

definition shouldApplyFill :: "fill_source option \<Rightarrow> bool" where
  "shouldApplyFill source = (case source of None \<Rightarrow> False | Some s \<Rightarrow> fs_fill s \<noteq> NoFill)"

text \<open>The fill read as a condition: the data set 0 counts as none.\<close>

definition truthy_fill :: "fill \<Rightarrow> bool" where
  "truthy_fill fill \<longleftrightarrow> fill \<noteq> NoFill \<and> fill \<noteq> LineFill 0"

text \<open>The sources filled by the hooks, the metasets that are visible given in their order.\<close>

definition filler_beforeDraw :: "draw_time \<Rightarrow> fill_source option list \<Rightarrow> fill_source list" where
  "filler_beforeDraw drawTime metasets =
     [s. Some s \<leftarrow> rev metasets, drawTime = BeforeDraw \<and> truthy_fill (fs_fill s)]"

definition beforeDatasetsDraw :: "draw_time \<Rightarrow> fill_source option list \<Rightarrow> fill_source list" where
  "beforeDatasetsDraw drawTime metasets =
     (if drawTime \<noteq> BeforeDatasetsDraw then [] else [s. Some s \<leftarrow> rev metasets, shouldApplyFill (Some s)])"

definition beforeDatasetDraw :: "draw_time \<Rightarrow> fill_source option \<Rightarrow> fill_source list" where
  "beforeDatasetDraw drawTime source =
     (case source of
        Some s \<Rightarrow> if \<not> shouldApplyFill source \<or> drawTime \<noteq> BeforeDatasetDraw then [] else [s]
      | None \<Rightarrow> [])"

text \<open>A fill to the first data set is not drawn before the chart, at the other times it is.\<close>

lemma first_data_set_not_filled:
  "filler_beforeDraw BeforeDraw [Some \<lparr>fs_visible = True, fs_fill = LineFill 0\<rparr>] = []"
  "beforeDatasetsDraw BeforeDatasetsDraw [Some \<lparr>fs_visible = True, fs_fill = LineFill 0\<rparr>] \<noteq> []"
  by (simp_all add: filler_beforeDraw_def beforeDatasetsDraw_def truthy_fill_def shouldApplyFill_def)

text \<open>
  C29. Which fill a line gets.  The targets are written into the sources one after the other while the
  later ones are still resolved through them; still each line gets the target its own fill leads to
  through the sources as they were: from a hidden line on to what that line fills to, until a visible
  line, or an edge, value or stack is reached.  The result is no fill exactly when the way ends at none, at a
  data set without a line, at the line itself, or never.
\<close>

theorem fills_lead_to_visible:
  "length (afterDatasetsUpdate True sources) = length sources \<and>
   (\<forall>i. source_at sources i = None \<longrightarrow> source_at (afterDatasetsUpdate True sources) i = None) \<and>
   (\<forall>i s. source_at sources i = Some s \<longrightarrow> (\<exists>r. source_at (afterDatasetsUpdate True sources) i = Some (s\<lparr>fs_fill := r\<rparr>) \<and>
      (\<forall>r'. r' \<noteq> NoFill \<longrightarrow> (r = r' \<longleftrightarrow> (\<exists>n. leads sources n (fs_fill s) r') \<and> r' \<noteq> LineFill i))))"
proof (intro conjI allI impI)
  show "length (afterDatasetsUpdate True sources) = length sources" by (rule afterDatasetsUpdate_source(2))
  show "source_at (afterDatasetsUpdate True sources) i = None" if "source_at sources i = None" for i
    using that by (simp add: afterDatasetsUpdate_source(1))
  fix i s assume s: "source_at sources i = Some s"
  show "\<exists>r. source_at (afterDatasetsUpdate True sources) i = Some (s\<lparr>fs_fill := r\<rparr>) \<and>
      (\<forall>r'. r' \<noteq> NoFill \<longrightarrow> (r = r' \<longleftrightarrow> (\<exists>n. leads sources n (fs_fill s) r') \<and> r' \<noteq> LineFill i))"
    using resolve_target_leads[OF s] by (intro exI[of _ "resolveTarget sources i True"]) (simp add: afterDatasetsUpdate_source(1) s)
qed

definition three_sources :: "fill_source option list" where
  "three_sources = [Some \<lparr>fs_visible = True, fs_fill = LineFill 1\<rparr>, Some \<lparr>fs_visible = False, fs_fill = LineFill 2\<rparr>,
      Some \<lparr>fs_visible = True, fs_fill = NoFill\<rparr>]"

theorem fills_lead_to_visible_witness:
  "source_at (afterDatasetsUpdate True three_sources) 0 = Some \<lparr>fs_visible = True, fs_fill = LineFill 2\<rparr>"
proof -
  have two: "source_at three_sources 2 = Some \<lparr>fs_visible = True, fs_fill = NoFill\<rparr>"
    and one: "source_at three_sources 1 = Some \<lparr>fs_visible = False, fs_fill = LineFill 2\<rparr>"
    and zero: "source_at three_sources 0 = Some \<lparr>fs_visible = True, fs_fill = LineFill 1\<rparr>"
    by (simp_all add: three_sources_def source_at_def)
  have "leads three_sources 0 (LineFill 2) (LineFill 2)" by (rule leads.visible[OF two]) simp
  then have way: "\<exists>n. leads three_sources n (LineFill 1) (LineFill 2)" using leads.hidden[OF one] by fastforce
  obtain r where r: "source_at (afterDatasetsUpdate True three_sources) 0 = Some \<lparr>fs_visible = True, fs_fill = r\<rparr>"
      "\<forall>r'. r' \<noteq> NoFill \<longrightarrow> (r = r' \<longleftrightarrow> (\<exists>n. leads three_sources n (LineFill 1) r') \<and> r' \<noteq> LineFill 0)"
    using fills_lead_to_visible[of three_sources, THEN conjunct2, THEN conjunct2, rule_format, OF zero] by auto
  from r(2)[rule_format, of "LineFill 2"] way have "r = LineFill 2" by simp
  with r(1) show ?thesis by simp
qed

end
