(* ===== verification/Spec2Isabelle.thy ===== *)
theory Spec2Isabelle
  imports JsPrelude ChartMath ChartCore ChartColor ChartOptions ChartAnimator ChartSegments
    ChartInteraction ChartLayout ChartDataset ChartTicks ChartRegistry
    ChartMetasets ChartPlatform ChartControl ChartConfig ChartResolver ChartScales ChartLinearTicks ChartTime ChartDecimation ChartLegend AjaxBasic AjaxUpload
    ZeptoParam ZeptoAjax ChartBars ChartTooltip ChartCurves ChartFiller
begin

text \<open>
  The scripts of the web pages of the V3S device (\<open>src/www/root/js\<close>).  The pages draw the trends
  and records of the instruments with Chart.js 3.9.1 (\<open>chart_3.9.js\<close>) and talk to the server
  with two helpers of their own, \<open>ajaxbasic.js\<close> and \<open>ajaxfileupload.js\<close>, and with the requests of Zepto
  (\<open>zepto.js\<close>).  This development models the logic of these files as functions on explicit states and
  proves what each part promises to the others.

  \<^bold>\<open>Parts and their interaction.\<close>  A page creates a chart with a configuration.  \<open>Config\<close> merges
  the options of the user with the defaults of the registry; options are read through resolvers
  over a list of scopes.  An update of the chart makes one metaset and controller per data set,
  the controllers parse their data and keep their elements in step with it, the scales determine
  their range and ticks, the layout places the boxes, and the animator moves the properties of the
  elements frame by frame while the chart draws its layers and data sets.  Events of the canvas
  come in through the listeners of the platform, find elements by the interaction modes and change
  which elements are highlighted.  Plugins are notified of every step.

  \<^bold>\<open>Theories.\<close>  Lines are those of \<open>chart_3.9.js\<close>; a definition has the name of the function or
  method it models, or that of a part of it; a class is a record of its fields, a method a function
  that takes and returns the record.
  \<^item> \<open>JsPrelude\<close>: numbers with the special values, the values of the language, objects as property
    lists (locale \<open>dictionary\<close>), arrays with holes, sorting with a comparator, texts and digits.
  \<^item> \<open>ChartMath\<close> (20-430, 2400-2450): numeric helpers, the binary searches (locale \<open>sorted_probe\<close>),
    factors and decimal places.  \<open>ChartCore\<close> (20-250): type tests, \<open>clone\<close>, \<open>merge\<close>,
    \<open>mergeIf\<close>, dotted keys.  \<open>ChartColor\<close> (522-1080): colour channels, conversions, hexadecimal
    notation.  \<open>ChartOptions\<close> (1600-2530): paddings, corners, text direction (locale
    \<open>text_direction\<close>), interpolation, the visible window.
  \<^item> \<open>ChartConfig\<close> (6380-6600), \<open>ChartResolver\<close> (1823-2065), \<open>ChartRegistry\<close> (1180-1250, 5940-6370):
    where options come from.  Scopes are objects on a store in the resolver, because it compares
    them by identity.
  \<^item> \<open>ChartDataset\<close> (3890-4670): array listeners, parsing, stacking, ranges, elements.
    \<open>ChartMetasets\<close> (6941-7000, 7238-7320): metasets and controllers on stores, found by the identity of
    their data set.
  \<^item> \<open>ChartScales\<close> (5042-5500, 12095-12430), \<open>ChartLinearTicks\<close> (230-240, 12201-12400), \<open>ChartTicks\<close>
    (4829-5040): pixels (locale \<open>value_pixels\<close>, interpreted for decimals, values and categories),
    limits, ticks and their thinning.  \<open>ChartTime\<close> (13032-13490): units, ticks, limits and pixels of
    the time scales, the lookup table of a time series.  \<open>ChartDecimation\<close> (9754-9948): the thinning
    of long lines to the width of the chart.  \<open>ChartLegend\<close> (10467-10856): hit boxes and handlers of
    the legend.  \<open>ChartBars\<close> (7597-8016, 9579-9720): the places and extents of bars.
    \<open>ChartTooltip\<close> (11122-11900): the text, size, place and events of the tooltip.  \<open>ChartCurves\<close>
    (2081-2235): the control points of smooth lines.  \<open>ChartFiller\<close> (10050-10462): the targets of fills
    and when they are drawn.
  \<^item> \<open>ChartLayout\<close> (3037-3376), \<open>ChartSegments\<close> (2530-2745), \<open>ChartInteraction\<close> (2887-3036): boxes, the
    pieces of a line, the elements an event hits.
  \<^item> \<open>ChartAnimator\<close> (3660-3960 and \<open>Animator\<close>): animations on a store, frames, promises.
    \<open>ChartPlatform\<close> (3505-3660, 7340-7412): listeners and observers (locale \<open>listener_service\<close>).
    \<open>ChartControl\<close> (6694-6750, 7056-7100, 7152-7240, 7411-7510): hidden data, highlighting, drawing order.
  \<^item> \<open>AjaxBasic\<close>, \<open>AjaxUpload\<close>: the helpers of the pages.  \<open>ZeptoParam\<close> (\<open>zepto.js\<close> 1388-1443, 1523-1669): the
    parameters and the URL of a request, the submission of a form.  \<open>ZeptoAjax\<close> (1231-1521): the life of
    the requests, as a list of acts left to do and labelled steps of the page and the browser.

  \<^bold>\<open>What the lemmas show.\<close>  Invariants over runs: no property of an object is driven by two
  animations, plugins run exactly as configured, metasets and controllers follow their data sets,
  no listener is leaked, highlighting follows the active elements, an upload completes once, a request
  reports one story.  Refinements and equivalences: the replay of array changes, the nearest search,
  the shortcuts for sorted data, the merged sub-resolver, the transparent key cache, the rows of a
  tooltip and its measured height, the fills resolved in place.  Bounds, round trips and
  termination: visible windows, tick limits, category pixels, peaks kept in every pixel column, curves
  that do not overshoot, the reading of options, colours, form texts, the layout, factors.
  Where a routine has a flaw, a lemma beside its theorem evaluates the smallest input that shows it,
  and the theorem has the hypothesis that excludes it.

  \<^bold>\<open>Numbers, fuel and bounds.\<close>  Finite numbers are exact rationals; the rounding of doubles is not
  modelled, and masks of bits are taken on integers.  Square roots are compared by their squares.
  Loops are structural or have a measure; the few that can run for ever (\<open>addScopesFromKey\<close>,
  \<open>decimalPlaces\<close>, \<open>fitBoxes\<close>, the search for a drawn point, the advance of \<open>skip\<close>) are partial
  functions into options, and the theorems say when they return.  \<open>resolveWithContext\<close> has a depth of
  calls as fuel; the number of options and one is enough (\<open>option_read_returns\<close>).  \<open>ChartCurves\<close>
  computes over the reals, because its slopes need square roots.

  \<^bold>\<open>Parameters.\<close>  Code that is not of the program, or that belongs to the user, is an argument: the
  platform's clock, text measurement, easing functions, callbacks, the fitting of a single box, date
  adapters, the browser's observers.  Callbacks are recorded in logs; a callback that calls back
  into the component that called it is not modelled.

  \<^bold>\<open>Not modelled.\<close>  Output to the canvas, the set-up of DOM nodes, number formatting by \<open>Intl\<close>, the
  regular expressions of colour and font texts, the controllers of charts other than bars, the radial and
  logarithmic scales, the DOM, selectors and events of Zepto, and vendored libraries the pages do not
  depend on (Highcharts, Chart.js 2.8, the sketch and style plugins).  The manifest lists each part.
\<close>

end
